(* ===== verification/Prelude.thy ===== *)
theory Prelude
  imports Main "HOL-Library.Word" "HOL-Library.Monad_Syntax"
begin

text \<open>
  Shared vocabulary of the development.

  Machine integers: \<open>u8\<close>, \<open>u16\<close>, \<open>u32\<close> and \<open>u64\<close> are words of that width; \<open>usize\<close>
  (64 bits on the kernel's only target, \<^verbatim>\<open>x86_64-unknown-none\<close>) is a natural number whose
  operations are the checked ones below; \<open>i16\<close> and \<open>i32\<close> are integers with checked operations.

  Panics: a Rust operation that can panic returns an \<open>option\<close>; \<^term>\<open>None\<close> is the panic
  (the panic handler of \<^verbatim>\<open>kernel/src/main.rs\<close> never returns to the caller). Arithmetic overflow
  panics, as it does in the profile the repository builds and tests with (the cargo
  default, \<^verbatim>\<open>dev\<close>: no manifest turns the overflow checks off). A Rust \<^verbatim>\<open>Option\<close>
  result inside such an operation is a second, inner \<open>option\<close>.

  Loops over a range or a slice are \<open>foldM\<close> over the list of its elements.
\<close>

unbundle bit_operations_syntax

type_synonym u8 = "8 word"
type_synonym u16 = "16 word"
type_synonym u32 = "32 word"
type_synonym u64 = "64 word"
type_synonym usize = nat

text \<open>Facts that evaluate the checked operations when their operands are in range.\<close>

named_theorems in_range

section \<open>Checked and saturating arithmetic\<close>

definition uadd :: "usize \<Rightarrow> usize \<Rightarrow> usize option" where
  "uadd a b = (if a + b < 2 ^ 64 then Some (a + b) else None)"

definition usub :: "usize \<Rightarrow> usize \<Rightarrow> usize option" where
  "usub a b = (if b \<le> a then Some (a - b) else None)"

definition umul :: "usize \<Rightarrow> usize \<Rightarrow> usize option" where
  "umul a b = (if a * b < 2 ^ 64 then Some (a * b) else None)"

definition udiv :: "usize \<Rightarrow> usize \<Rightarrow> usize option" where
  "udiv a b = (if b = 0 then None else Some (a div b))"

definition saturating_add :: "usize \<Rightarrow> usize \<Rightarrow> usize" where
  "saturating_add a b = min (a + b) (2 ^ 64 - 1)"

definition saturating_sub :: "usize \<Rightarrow> usize \<Rightarrow> usize" where
  "saturating_sub a b = a - b"

definition u64_add :: "u64 \<Rightarrow> u64 \<Rightarrow> u64 option" where
  "u64_add a b = (if unat a + unat b < 2 ^ 64 then Some (a + b) else None)"

definition u64_sub :: "u64 \<Rightarrow> u64 \<Rightarrow> u64 option" where
  "u64_sub a b = (if b \<le> a then Some (a - b) else None)"

definition i16_sub :: "int \<Rightarrow> int \<Rightarrow> int option" where
  "i16_sub a b = (if - (2 ^ 15) \<le> a - b \<and> a - b < 2 ^ 15 then Some (a - b) else None)"

definition i32_chk :: "int \<Rightarrow> int option" where
  "i32_chk v = (if - (2 ^ 31) \<le> v \<and> v < 2 ^ 31 then Some v else None)"

lemma uadd_in_range [in_range]: "a + b < 2 ^ 64 \<Longrightarrow> uadd a b = Some (a + b)"
  by (simp add: uadd_def)

lemma usub_in_range [in_range]: "b \<le> a \<Longrightarrow> usub a b = Some (a - b)"
  by (simp add: usub_def)

lemma umul_in_range [in_range]: "a * b < 2 ^ 64 \<Longrightarrow> umul a b = Some (a * b)"
  by (simp add: umul_def)

lemma udiv_in_range [in_range]: "b \<noteq> 0 \<Longrightarrow> udiv a b = Some (a div b)"
  by (simp add: udiv_def)

lemma uadd_Some_iff: "uadd a b = Some c \<longleftrightarrow> a + b < 2 ^ 64 \<and> c = a + b"
  by (auto simp: uadd_def)

lemma umul_Some_iff: "umul a b = Some c \<longleftrightarrow> a * b < 2 ^ 64 \<and> c = a * b"
  by (auto simp: umul_def)

lemma usub_Some_iff: "usub a b = Some c \<longleftrightarrow> b \<le> a \<and> c = a - b"
  by (auto simp: usub_def)

lemma u64_add_Some_iff: "u64_add a b = Some c \<longleftrightarrow> unat a + unat b < 2 ^ 64 \<and> c = a + b"
  by (auto simp: u64_add_def)

lemma unat_u64_add: "u64_add a b = Some c \<Longrightarrow> unat c = unat a + unat b"
  by (auto simp: u64_add_def unat_word_ariths split: if_splits)

section \<open>Masks\<close>

lemma and_not_mask_eq: "w AND NOT (mask n) = w - take_bit n (w :: u64)"
proof -
  have "w AND NOT (take_bit n w) = w - take_bit n w"
    by (rule disjunctive_diff_eq_and_not [symmetric], rule bit_eqI) (auto simp: bit_simps)
  moreover have "w AND NOT (take_bit n w) = w AND NOT (mask n)"
    by (rule bit_eqI) (auto simp: bit_simps)
  ultimately show ?thesis by simp
qed

lemma unat_and_not_mask: "unat (w AND NOT (mask n) :: u64) = unat w div 2 ^ n * 2 ^ n"
proof -
  have le: "take_bit n w \<le> w"
    by (simp add: word_le_nat_alt unsigned_take_bit_eq take_bit_nat_less_eq_self)
  have "unat (take_bit n w) = unat w mod 2 ^ n"
    unfolding unsigned_take_bit_eq by (rule take_bit_eq_mod)
  with unat_sub [OF le] have "unat (w - take_bit n w) = unat w - unat w mod 2 ^ n"
    by (simp only:)
  then show ?thesis by (simp add: and_not_mask_eq minus_mod_eq_div_mult)
qed

section \<open>Loops in the panic monad\<close>

fun foldM :: "('a \<Rightarrow> 's \<Rightarrow> 's option) \<Rightarrow> 'a list \<Rightarrow> 's \<Rightarrow> 's option" where
  "foldM f [] s = Some s"
| "foldM f (x # xs) s = (case f x s of None \<Rightarrow> None | Some s' \<Rightarrow> foldM f xs s')"

lemma foldM_append:
  "foldM f (xs @ ys) s = (case foldM f xs s of None \<Rightarrow> None | Some s' \<Rightarrow> foldM f ys s')"
  by (induction xs arbitrary: s) (auto split: option.splits)

lemma foldM_inv:
  assumes "P s" and "\<And>x s. x \<in> set xs \<Longrightarrow> P s \<Longrightarrow> \<exists>s'. f x s = Some s' \<and> P s'"
  shows "\<exists>s'. foldM f xs s = Some s' \<and> P s'"
  using assms
proof (induction xs arbitrary: s)
  case Nil
  then show ?case by simp
next
  case (Cons x xs)
  obtain s' where s': "f x s = Some s'" "P s'"
    using Cons.prems(1) Cons.prems(2) [of x s] by auto
  moreover have "\<exists>s''. foldM f xs s' = Some s'' \<and> P s''"
    using s'(2) by (rule Cons.IH) (use Cons.prems(2) in auto)
  ultimately show ?case by simp
qed

lemma foldM_Some_inv:
  assumes "foldM f xs s = Some s'" and "P s"
    and "\<And>x s t. x \<in> set xs \<Longrightarrow> P s \<Longrightarrow> f x s = Some t \<Longrightarrow> P t"
  shows "P s'"
  using assms
proof (induction xs arbitrary: s)
  case Nil
  then show ?case by simp
next
  case (Cons x xs)
  then obtain t where t: "f x s = Some t" "foldM f xs t = Some s'"
    by (auto split: option.splits)
  show ?case
    by (rule Cons.IH [OF t(2)]) (use Cons.prems t(1) in auto)
qed

lemma foldM_cong [fundef_cong]:
  "xs = ys \<Longrightarrow> s = t \<Longrightarrow> (\<And>x u. x \<in> set ys \<Longrightarrow> f x u = g x u) \<Longrightarrow> foldM f xs s = foldM g ys t"
  by (induction xs arbitrary: ys s t) (auto split: option.splits)

lemma foldM_upt:
  assumes "I 0 s" and "\<And>k s. k < n \<Longrightarrow> I k s \<Longrightarrow> \<exists>t. f k s = Some t \<and> I (Suc k) t"
  shows "\<exists>t. foldM f [0..<n] s = Some t \<and> I n t"
  using assms(2)
proof (induction n)
  case 0
  then show ?case using assms(1) by simp
next
  case (Suc n)
  from Suc obtain t where "foldM f [0..<n] s = Some t" "I n t" by auto
  moreover from this Suc.prems obtain u where "f n t = Some u" "I (Suc n) u" by blast
  ultimately show ?case by (simp add: foldM_append)
qed

lemma foldM_map: "foldM f (map g xs) s = foldM (\<lambda>x. f (g x)) xs s"
  by (induction xs arbitrary: s) (auto split: option.splits)

lemma enumerate_upt: "enumerate 0 [a..<b] = map (\<lambda>i. (i, a + i)) [0..<b - a]"
  by (rule nth_equalityI) (auto simp: nth_enumerate_eq)

section \<open>Slices\<close>

text \<open>\<open>buf[i] = v\<close>, \<open>buf[i]\<close> and \<open>buf[off..off + n]\<close>, with Rust's bounds checks, and
  \<open>copy_from_slice\<close> into \<open>dst[off..off + src.len()]\<close>.\<close>

definition set_at :: "'a list \<Rightarrow> usize \<Rightarrow> 'a \<Rightarrow> 'a list option" where
  "set_at xs i v = (if i < length xs then Some (xs[i := v]) else None)"

definition get_at :: "'a list \<Rightarrow> usize \<Rightarrow> 'a option" where
  "get_at xs i = (if i < length xs then Some (xs ! i) else None)"

definition sub_slice :: "'a list \<Rightarrow> usize \<Rightarrow> usize \<Rightarrow> 'a list" where
  "sub_slice xs off n = take n (drop off xs)"

definition write_slice :: "'a list \<Rightarrow> usize \<Rightarrow> 'a list \<Rightarrow> 'a list" where
  "write_slice dst off src = take off dst @ src @ drop (off + length src) dst"

lemma set_at_in_range [in_range]: "i < length xs \<Longrightarrow> set_at xs i v = Some (xs[i := v])"
  by (simp add: set_at_def)

lemma get_at_in_range [in_range]: "i < length xs \<Longrightarrow> get_at xs i = Some (xs ! i)"
  by (simp add: get_at_def)

lemma length_sub_slice [simp]: "off + n \<le> length xs \<Longrightarrow> length (sub_slice xs off n) = n"
  by (simp add: sub_slice_def)

lemma length_write_slice [simp]: "off + length src \<le> length dst \<Longrightarrow> length (write_slice dst off src) = length dst"
  by (simp add: write_slice_def)

lemma sub_write_slice_same [simp]:
  "off + length src \<le> length dst \<Longrightarrow> n = length src \<Longrightarrow> sub_slice (write_slice dst off src) off n = src"
  by (simp add: sub_slice_def write_slice_def)

lemma nth_write_slice:
  assumes "off + length src \<le> length dst" and "i < length dst"
  shows "write_slice dst off src ! i
    = (if off \<le> i \<and> i < off + length src then src ! (i - off) else dst ! i)"
  using assms by (auto simp: write_slice_def nth_append min_def)

lemma nth_sub_slice [simp]:
  "off + n \<le> length xs \<Longrightarrow> i < n \<Longrightarrow> sub_slice xs off n ! i = xs ! (off + i)"
  by (simp add: sub_slice_def)

lemma sub_slice_eqI:
  assumes "off + n \<le> length xs" and "length ys = n" and "\<And>i. i < n \<Longrightarrow> xs ! (off + i) = ys ! i"
  shows "sub_slice xs off n = ys"
  using assms by (intro nth_equalityI) (auto)

lemma sub_write_slice_other:
  assumes "off + length src \<le> length dst" and "o' + n \<le> length dst"
    and "o' + n \<le> off \<or> off + length src \<le> o'"
  shows "sub_slice (write_slice dst off src) o' n = sub_slice dst o' n"
  using assms by (intro sub_slice_eqI) (auto simp: nth_write_slice)

lemma write_sub_slice_id: "off + n \<le> length xs \<Longrightarrow> write_slice xs off (sub_slice xs off n) = xs"
  by (rule nth_equalityI) (auto simp: nth_write_slice)

section \<open>Runs\<close>

lemma rtranclp_steps4: "r a b \<Longrightarrow> r b c \<Longrightarrow> r c d \<Longrightarrow> r d e \<Longrightarrow> r\<^sup>*\<^sup>* a e"
  by (rule rtranclp.rtrancl_into_rtrancl [OF rtranclp.rtrancl_into_rtrancl
        [OF rtranclp.rtrancl_into_rtrancl [OF r_into_rtranclp]]])

end
