(* ===== verification/Ring.thy ===== *)
theory Ring
  imports Prelude
begin

text \<open>
  The single-producer single-consumer ring buffer of \<^verbatim>\<open>kernel/src/keyboard.rs\<close>, which
  \<^verbatim>\<open>kernel/src/mouse.rs\<close> repeats for another element type: the record of the buffer, its
  \<open>push\<close> and \<open>pop\<close>, and the interface \<open>bounded_fifo\<close> they implement. The locale states what
  the clients (the keyboard and mouse drivers) rely on; the interleaving of a producer and
  a consumer that run at the same time is the theory \<open>Spsc\<close>.
\<close>

section \<open>The buffer and its operations\<close>

definition BUF_SIZE :: usize where
  "BUF_SIZE = 128"

record 'a ring =
  data :: "'a list"
  head :: usize
  tail :: usize

definition ring_new :: "'a \<Rightarrow> 'a ring" where
  "ring_new e = \<lparr>data = replicate BUF_SIZE e, head = 0, tail = 0\<rparr>"

definition push :: "'a \<Rightarrow> 'a ring \<Rightarrow> 'a ring option" where
  "push val q = do {
     n \<leftarrow> uadd (head q) 1;
     let next = n mod BUF_SIZE;
     if next = tail q then Some q
     else do {
       d \<leftarrow> set_at (data q) (head q) val;
       Some (q\<lparr>data := d, head := next\<rparr>)
     }
   }"

definition pop :: "'a ring \<Rightarrow> ('a option \<times> 'a ring) option" where
  "pop q =
     (if tail q = head q then Some (None, q)
      else do {
        val \<leftarrow> get_at (data q) (tail q);
        n \<leftarrow> uadd (tail q) 1;
        Some (Some val, q\<lparr>tail := n mod BUF_SIZE\<rparr>)
      })"

section \<open>The abstract queue\<close>

text \<open>One slot always stays free, so that a full ring differs from an empty one.\<close>

definition ring_inv :: "'a ring \<Rightarrow> bool" where
  "ring_inv q \<longleftrightarrow> length (data q) = BUF_SIZE \<and> head q < BUF_SIZE \<and> tail q < BUF_SIZE"

definition ring_count :: "'a ring \<Rightarrow> nat" where
  "ring_count q = (head q + BUF_SIZE - tail q) mod BUF_SIZE"

definition ring_list :: "'a ring \<Rightarrow> 'a list" where
  "ring_list q = map (\<lambda>i. data q ! ((tail q + i) mod BUF_SIZE)) [0..<ring_count q]"

lemma BUF_SIZE_pos [simp]: "0 < BUF_SIZE"
  by (simp add: BUF_SIZE_def)

lemma length_ring_list [simp]: "length (ring_list q) = ring_count q"
  by (simp add: ring_list_def)

lemma ring_count_less: "ring_count q < BUF_SIZE"
  by (simp add: ring_count_def)

lemma ring_inv_new [simp]: "ring_inv (ring_new e)"
  by (simp add: ring_inv_def ring_new_def)

lemma ring_count_new [simp]: "ring_count (ring_new e) = 0"
  by (simp add: ring_count_def ring_new_def)

lemma ring_list_new [simp]: "ring_list (ring_new e) = []"
  by (simp add: ring_list_def)

lemma mod_BUF_SIZE_Suc:
  "i < BUF_SIZE \<Longrightarrow> Suc i mod BUF_SIZE = (if Suc i = BUF_SIZE then 0 else Suc i)"
  by (simp add: BUF_SIZE_def)

lemma ring_count_cases:
  assumes "ring_inv q"
  shows "ring_count q = (if tail q \<le> head q then head q - tail q else head q + BUF_SIZE - tail q)"
proof (cases "tail q \<le> head q")
  case True
  then have eq: "head q + BUF_SIZE - tail q = (head q - tail q) + BUF_SIZE" by simp
  have "head q - tail q < BUF_SIZE" using assms by (auto simp: ring_inv_def)
  then show ?thesis using True by (simp only: ring_count_def eq mod_add_self2 mod_less if_True)
next
  case False
  then have "head q + BUF_SIZE - tail q < BUF_SIZE" using assms by (auto simp: ring_inv_def)
  with False show ?thesis by (simp add: ring_count_def)
qed

lemma ring_empty_iff: "ring_inv q \<Longrightarrow> ring_list q = [] \<longleftrightarrow> tail q = head q"
  by (auto simp: ring_list_def ring_count_cases ring_inv_def split: if_splits)

text \<open>The ring is full exactly when the slot after \<open>head\<close> is the consumer's.\<close>

lemma ring_full_iff:
  "ring_inv q \<Longrightarrow> Suc (head q) mod BUF_SIZE = tail q \<longleftrightarrow> ring_count q = BUF_SIZE - 1"
  by (auto simp: ring_count_cases ring_inv_def mod_BUF_SIZE_Suc split: if_splits)

lemma ring_index:
  assumes "ring_inv q" and "i \<le> ring_count q"
  shows "(tail q + i) mod BUF_SIZE
    = (if tail q + i < BUF_SIZE then tail q + i else tail q + i - BUF_SIZE)"
proof (cases "tail q + i < BUF_SIZE")
  case False
  have "i < BUF_SIZE" using assms(2) ring_count_less [of q] by simp
  with assms(1) False have "tail q + i - BUF_SIZE < BUF_SIZE" by (auto simp: ring_inv_def)
  with False show ?thesis by (simp add: mod_if)
qed simp

lemma ring_index_head:
  assumes "ring_inv q"
  shows "(tail q + ring_count q) mod BUF_SIZE = head q"
  using assms unfolding ring_index [OF assms order_refl]
  by (simp add: ring_count_cases [OF assms]) (auto simp: ring_inv_def)

lemma ring_index_neq_head:
  assumes "ring_inv q" and "i < ring_count q"
  shows "(tail q + i) mod BUF_SIZE \<noteq> head q"
  using assms(2) unfolding ring_index [OF assms(1) less_imp_le [OF assms(2)]]
  using assms(1) by (auto simp: ring_count_cases [OF assms(1)] ring_inv_def split: if_splits)

section \<open>What push and pop do\<close>

lemma push_full: "ring_inv q \<Longrightarrow> ring_count q = BUF_SIZE - 1 \<Longrightarrow> push v q = Some q"
  using ring_full_iff [of q] by (simp add: push_def in_range ring_inv_def BUF_SIZE_def Let_def)

lemma push_room:
  "ring_inv q \<Longrightarrow> ring_count q < BUF_SIZE - 1 \<Longrightarrow>
    push v q = Some (q\<lparr>data := (data q)[head q := v], head := Suc (head q) mod BUF_SIZE\<rparr>)"
  using ring_full_iff [of q] by (simp add: push_def in_range ring_inv_def BUF_SIZE_def Let_def)

lemma ring_count_advance_head:
  assumes "ring_inv q" and "ring_count q < BUF_SIZE - 1"
  shows "ring_count (q\<lparr>data := d, head := Suc (head q) mod BUF_SIZE\<rparr>) = ring_count q + 1"
proof -
  let ?q = "q\<lparr>head := Suc (head q) mod BUF_SIZE\<rparr>"
  have inv: "ring_inv ?q" using assms(1) by (simp add: ring_inv_def)
  have lt: "head q < BUF_SIZE" "tail q < BUF_SIZE" using assms(1) by (auto simp: ring_inv_def)
  have "ring_count ?q = ring_count q + 1"
    using assms(2) lt unfolding ring_count_cases [OF assms(1)] ring_count_cases [OF inv]
    by (auto simp: mod_BUF_SIZE_Suc split: if_splits)
  then show ?thesis by (simp add: ring_count_def)
qed

lemma ring_list_push:
  assumes "ring_inv q" and "ring_count q < BUF_SIZE - 1"
  shows "ring_list (q\<lparr>data := (data q)[head q := v], head := Suc (head q) mod BUF_SIZE\<rparr>)
    = ring_list q @ [v]" (is "ring_list ?q = _")
proof -
  have count: "ring_count ?q = Suc (ring_count q)"
    using ring_count_advance_head [OF assms] by simp
  have old: "data ?q ! ((tail q + i) mod BUF_SIZE) = data q ! ((tail q + i) mod BUF_SIZE)"
    if "i < ring_count q" for i
    using ring_index_neq_head [OF assms(1) that] by simp
  have new: "data ?q ! ((tail q + ring_count q) mod BUF_SIZE) = v"
    using assms(1) by (simp add: ring_index_head ring_inv_def)
  show ?thesis
    unfolding ring_list_def count using new old by (simp add: ring_list_def)
qed

lemma ring_inv_push:
  "ring_inv q \<Longrightarrow> ring_inv (q\<lparr>data := (data q)[i := v], head := n mod BUF_SIZE\<rparr>)"
  by (simp add: ring_inv_def)

lemma pop_empty: "tail q = head q \<Longrightarrow> pop q = Some (None, q)"
  by (simp add: pop_def)

lemma pop_nonempty:
  "ring_inv q \<Longrightarrow> tail q \<noteq> head q \<Longrightarrow>
    pop q = Some (Some (data q ! tail q), q\<lparr>tail := Suc (tail q) mod BUF_SIZE\<rparr>)"
  by (simp add: pop_def in_range ring_inv_def BUF_SIZE_def)

lemma ring_list_pop:
  assumes "ring_inv q" and "tail q \<noteq> head q"
  shows "ring_list q = data q ! tail q # ring_list (q\<lparr>tail := Suc (tail q) mod BUF_SIZE\<rparr>)"
    (is "_ = _ # ring_list ?q")
proof -
  have count: "ring_count q = Suc (ring_count ?q)"
    using assms
    by (auto simp: ring_count_def ring_inv_def mod_BUF_SIZE_Suc mod_if BUF_SIZE_def split: if_splits)
  have "(tail ?q + i) mod BUF_SIZE = (tail q + Suc i) mod BUF_SIZE" for i
    by (simp add: mod_simps)
  moreover have "tail q mod BUF_SIZE = tail q" using assms(1) by (simp add: ring_inv_def)
  ultimately show ?thesis
    unfolding ring_list_def count upt_conv_Cons [OF zero_less_Suc]
    by (simp add: map_Suc_upt [symmetric] del: upt_Suc)
qed

section \<open>The interface\<close>

text \<open>Draining a queue: \<open>n\<close> calls of \<open>deq\<close>, the elements they return in order.\<close>

fun drain :: "('q \<Rightarrow> ('a option \<times> 'q) option) \<Rightarrow> nat \<Rightarrow> 'q \<Rightarrow> ('a list \<times> 'q) option" where
  "drain deq 0 q = Some ([], q)"
| "drain deq (Suc n) q = do {
     (r, q') \<leftarrow> deq q;
     (xs, q'') \<leftarrow> drain deq n q';
     Some ((case r of None \<Rightarrow> xs | Some x \<Rightarrow> x # xs), q'')
   }"

locale bounded_fifo =
  fixes enq :: "'a \<Rightarrow> 'q \<Rightarrow> 'q option"
    and deq :: "'q \<Rightarrow> ('a option \<times> 'q) option"
    and elems :: "'q \<Rightarrow> 'a list"
    and inv :: "'q \<Rightarrow> bool"
    and capacity :: nat
  assumes enq_spec: "inv q \<Longrightarrow> \<exists>q'. enq x q = Some q' \<and> inv q' \<and>
      elems q' = (if length (elems q) < capacity then elems q @ [x] else elems q)"
    and deq_empty: "inv q \<Longrightarrow> elems q = [] \<Longrightarrow> deq q = Some (None, q)"
    and deq_front: "inv q \<Longrightarrow> elems q = x # xs \<Longrightarrow>
      \<exists>q'. deq q = Some (Some x, q') \<and> inv q' \<and> elems q' = xs"
    and within_capacity: "inv q \<Longrightarrow> length (elems q) \<le> capacity"
begin

lemma enq_all:
  assumes "inv q"
  shows "\<exists>q'. foldM enq xs q = Some q' \<and> inv q' \<and>
    elems q' = elems q @ take (capacity - length (elems q)) xs"
  using assms
proof (induction xs arbitrary: q)
  case Nil
  then show ?case by simp
next
  case (Cons x xs)
  from Cons.prems obtain q1 where q1: "enq x q = Some q1" "inv q1"
    "elems q1 = (if length (elems q) < capacity then elems q @ [x] else elems q)"
    using enq_spec by blast
  from Cons.IH [OF q1(2)] obtain q2 where "foldM enq xs q1 = Some q2" "inv q2"
    "elems q2 = elems q1 @ take (capacity - length (elems q1)) xs" by blast
  with q1 within_capacity [OF Cons.prems] show ?case
    by (auto simp: take_Cons' split: if_splits)
qed

lemma drain_spec:
  assumes "inv q"
  shows "\<exists>q'. drain deq n q = Some (take n (elems q), q') \<and> inv q' \<and> elems q' = drop n (elems q)"
  using assms
proof (induction n arbitrary: q)
  case 0
  then show ?case by simp
next
  case (Suc n)
  show ?case
  proof (cases "elems q")
    case Nil
    with Suc.IH [OF Suc.prems] Suc.prems show ?thesis by (auto simp: deq_empty)
  next
    case (Cons x xs)
    from deq_front [OF Suc.prems Cons] obtain q1
      where q1: "deq q = Some (Some x, q1)" "inv q1" "elems q1 = xs" by blast
    from Suc.IH [OF q1(2)] q1(1,3) Cons show ?thesis by auto
  qed
qed

lemma enq_all_drain:
  assumes "inv q" and "elems q = []" and "capacity \<le> n"
  shows "\<exists>q' q''. foldM enq xs q = Some q' \<and> drain deq n q' = Some (take capacity xs, q'') \<and> elems q'' = []"
proof -
  from enq_all [OF assms(1)] assms(2) obtain q' where q': "foldM enq xs q = Some q'" "inv q'"
    "elems q' = take capacity xs" by auto
  with drain_spec [OF q'(2), of n] assms(3) show ?thesis by (auto simp: min_def)
qed

end

lemma push_enq:
  assumes "ring_inv q"
  shows "\<exists>q'. push v q = Some q' \<and> ring_inv q' \<and>
    ring_list q' = (if length (ring_list q) < BUF_SIZE - 1 then ring_list q @ [v] else ring_list q)"
proof (cases "ring_count q < BUF_SIZE - 1")
  case True
  with assms show ?thesis by (simp add: push_room ring_list_push ring_inv_push)
next
  case False
  with ring_count_less [of q] have "ring_count q = BUF_SIZE - 1" by simp
  with assms show ?thesis by (simp add: push_full)
qed

lemma pop_front:
  assumes "ring_inv q" and "ring_list q = x # xs"
  shows "\<exists>q'. pop q = Some (Some x, q') \<and> ring_inv q' \<and> ring_list q' = xs"
proof -
  have ne: "tail q \<noteq> head q" using assms ring_empty_iff by fastforce
  have "ring_inv (q\<lparr>tail := Suc (tail q) mod BUF_SIZE\<rparr>)" using assms(1) by (simp add: ring_inv_def)
  with ring_list_pop [OF assms(1) ne] pop_nonempty [OF assms(1) ne] assms(2) show ?thesis by auto
qed

interpretation ringq: bounded_fifo push pop ring_list ring_inv "BUF_SIZE - 1"
proof unfold_locales
  fix q :: "'a ring" and x xs
  assume inv: "ring_inv q"
  show "\<exists>q'. push x q = Some q' \<and> ring_inv q' \<and>
      ring_list q' = (if length (ring_list q) < BUF_SIZE - 1 then ring_list q @ [x] else ring_list q)"
    using inv by (rule push_enq)
  show "ring_list q = [] \<Longrightarrow> pop q = Some (None, q)"
    using inv by (simp add: pop_empty ring_empty_iff)
  show "ring_list q = x # xs \<Longrightarrow> \<exists>q'. pop q = Some (Some x, q') \<and> ring_inv q' \<and> ring_list q' = xs"
    using inv by (rule pop_front)
  show "length (ring_list q) \<le> BUF_SIZE - 1"
    using ring_count_less [of q] by simp
qed

end
