(* ===== verification/Keyboard.thy ===== *)
theory Keyboard
  imports Ring "HOL-Library.Sublist"
begin

text \<open>
  \<^verbatim>\<open>kernel/src/keyboard.rs\<close>: the scancode queue that the interrupt handler fills
  (\<open>add_scancode\<close>) and the shell empties (\<open>try_read_key\<close>).

  The decoder is the crate \<^verbatim>\<open>pc-keyboard\<close>, so it is a parameter: a state of type \<open>'k\<close> (the
  \<^verbatim>\<open>Keyboard\<close> behind the mutex), \<open>add_byte\<close>, which returns \<^verbatim>\<open>Result<Option<KeyEvent>, Error>\<close>
  (\<^term>\<open>Inl\<close> the error), and \<open>process_keyevent\<close>, which returns \<^verbatim>\<open>Option<DecodedKey>\<close>. Nothing is
  assumed of either. The loop of \<open>try_read_key\<close> ends only when a key is decoded or the queue
  is empty, so the function is partial in HOL (\<^term>\<open>None\<close> stands for a panic and for a loop that
  never ends) and its termination is a theorem.
\<close>

section \<open>The driver\<close>

type_synonym ('k, 'ev, 'er) add_byte = "'k \<Rightarrow> u8 \<Rightarrow> ('er + 'ev option) \<times> 'k"
type_synonym ('k, 'ev, 'key) process_keyevent = "'k \<Rightarrow> 'ev \<Rightarrow> 'key option \<times> 'k"

definition SCANCODE_QUEUE :: "u8 ring" where
  "SCANCODE_QUEUE = ring_new 0"

definition add_scancode :: "u8 \<Rightarrow> u8 ring \<Rightarrow> u8 ring option" where
  "add_scancode scancode q = push scancode q"

partial_function (option) try_read_key ::
  "('k, 'ev, 'er) add_byte \<Rightarrow> ('k, 'ev, 'key) process_keyevent \<Rightarrow> u8 ring \<Rightarrow> 'k \<Rightarrow>
    ('key option \<times> u8 ring \<times> 'k) option" where
  "try_read_key add_byte process_keyevent q kb =
     (case pop q of
        None \<Rightarrow> None
      | Some (None, q') \<Rightarrow> Some (None, q', kb)
      | Some (Some scancode, q') \<Rightarrow>
          (case add_byte kb scancode of
             (Inr (Some event), kb') \<Rightarrow>
               (case process_keyevent kb' event of
                  (Some key, kb'') \<Rightarrow> Some (Some key, q', kb'')
                | (None, kb'') \<Rightarrow> try_read_key add_byte process_keyevent q' kb'')
           | (Inr None, kb') \<Rightarrow> try_read_key add_byte process_keyevent q' kb'
           | (Inl er, kb') \<Rightarrow> try_read_key add_byte process_keyevent q' kb'))"

section \<open>Specification\<close>

text \<open>The next key in a list of scancodes: the codes it takes are dropped, the rest stays.\<close>

fun next_key ::
  "('k, 'ev, 'er) add_byte \<Rightarrow> ('k, 'ev, 'key) process_keyevent \<Rightarrow> u8 list \<Rightarrow> 'k \<Rightarrow>
    'key option \<times> u8 list \<times> 'k" where
  "next_key add_byte process_keyevent [] kb = (None, [], kb)"
| "next_key add_byte process_keyevent (sc # scs) kb =
     (case add_byte kb sc of
        (Inr (Some event), kb') \<Rightarrow>
          (case process_keyevent kb' event of
             (Some key, kb'') \<Rightarrow> (Some key, scs, kb'')
           | (None, kb'') \<Rightarrow> next_key add_byte process_keyevent scs kb'')
      | (_, kb') \<Rightarrow> next_key add_byte process_keyevent scs kb')"

lemma next_key_suffix: "suffix (fst (snd (next_key ab pk scs kb))) scs"
  by (induction scs arbitrary: kb)
    (auto simp: suffix_ConsI split: prod.splits sum.splits option.splits)

lemma next_key_None: "fst (next_key ab pk scs kb) = None \<Longrightarrow> fst (snd (next_key ab pk scs kb)) = []"
  by (induction scs arbitrary: kb) (auto split: prod.splits sum.splits option.splits)

text \<open>The loop, against any queue that satisfies the FIFO interface.\<close>

lemma try_read_key_empty:
  "ring_inv q \<Longrightarrow> ring_list q = [] \<Longrightarrow> try_read_key ab pk q kb = Some (None, q, kb)"
  by (simp add: try_read_key.simps [of ab pk q kb] ringq.deq_empty)

lemma try_read_key_refines:
  assumes "ring_inv q"
  shows "\<exists>q'. try_read_key ab pk q kb
      = Some (fst (next_key ab pk (ring_list q) kb), q', snd (snd (next_key ab pk (ring_list q) kb))) \<and>
    ring_inv q' \<and> ring_list q' = fst (snd (next_key ab pk (ring_list q) kb))"
  using assms
proof (induction "ring_list q" arbitrary: q kb)
  case Nil
  have "try_read_key ab pk q kb = Some (None, q, kb)"
    using Nil.prems Nil.hyps [symmetric] by (rule try_read_key_empty)
  then show ?case using Nil.prems by (simp add: Nil.hyps [symmetric])
next
  case (Cons sc scs)
  from ringq.deq_front [OF Cons.prems Cons.hyps(2) [symmetric]]
  obtain q1 where q1: "pop q = Some (Some sc, q1)" "ring_inv q1" "ring_list q1 = scs" by blast
  note IH = Cons.hyps(1) [OF q1(3) [symmetric] q1(2), unfolded q1(3)]
  show ?case
    unfolding try_read_key.simps [of ab pk q kb] Cons.hyps(2) [symmetric]
    using q1 IH by (auto split: prod.splits sum.splits option.splits)
qed

section \<open>Properties\<close>

text \<open>Reading a key always returns: whatever the decoder does, \<open>try_read_key\<close> on a well-formed
  queue consumes a prefix of the waiting scancodes, returns the first key they decode to (or none, and then
  the queue is empty), and keeps the queue well-formed.\<close>

lemma try_read_key_total:
  assumes "ring_inv q"
  shows "\<exists>r q' kb' used. try_read_key ab pk q kb = Some (r, q', kb') \<and> ring_inv q' \<and>
    ring_list q = used @ ring_list q' \<and>
    (r, ring_list q', kb') = next_key ab pk (ring_list q) kb \<and> (r = None \<longrightarrow> ring_list q' = [])"
proof -
  obtain r rest kb' where n: "next_key ab pk (ring_list q) kb = (r, rest, kb')"
    by (rule prod_cases3)
  obtain used where "ring_list q = used @ rest"
    using next_key_suffix [of ab pk "ring_list q" kb] n by (auto simp: suffix_def)
  moreover obtain q' where "try_read_key ab pk q kb = Some (r, q', kb')" "ring_inv q'" "ring_list q' = rest"
    using try_read_key_refines [OF assms, of ab pk kb] n by auto
  moreover have "r = None \<longrightarrow> rest = []"
    using next_key_None [of ab pk "ring_list q" kb] n by simp
  ultimately show ?thesis using n by (intro exI [of _ r] exI [of _ q'] exI [of _ kb'] exI [of _ used]) simp
qed

text \<open>Scancodes are read back in the order the interrupt handler stored them: storing a list of
  scancodes in the empty queue and reading everything back gives the first 127 of them.\<close>

lemma scancode_roundtrip:
  "\<exists>q q'. foldM add_scancode scs SCANCODE_QUEUE = Some q \<and>
     drain pop (BUF_SIZE - 1) q = Some (take (BUF_SIZE - 1) scs, q') \<and> ring_list q' = []"
proof -
  have "add_scancode = push" by (simp add: fun_eq_iff add_scancode_def)
  then show ?thesis
    using ringq.enq_all_drain [of SCANCODE_QUEUE "BUF_SIZE - 1" scs]
    by (simp add: SCANCODE_QUEUE_def)
qed

end
