(* ===== verification/Mouse.thy ===== *)
theory Mouse
  imports Ring
begin

text \<open>
  \<^verbatim>\<open>kernel/src/mouse.rs\<close>: the PS/2 packet state machine of the mouse interrupt handler
  (\<open>add_byte\<close>), the event queue it fills, and the initialisation sequence sent to the
  controller. \<^verbatim>\<open>i16\<close> values are integers with a checked subtraction.
\<close>

section \<open>Events and the packet state machine\<close>

record mouse_event =
  dx :: int
  dy :: int
  left :: bool
  right :: bool
  middle :: bool

definition EMPTY_EVENT :: mouse_event where
  "EMPTY_EVENT = \<lparr>dx = 0, dy = 0, left = False, right = False, middle = False\<rparr>"

definition mouse_push :: "mouse_event \<Rightarrow> mouse_event ring \<Rightarrow> mouse_event ring option" where
  "mouse_push val q = do {
     n \<leftarrow> uadd (head q) 1;
     let next = n mod BUF_SIZE;
     if next = tail q then Some q
     else do {
       d \<leftarrow> set_at (data q) (head q) val;
       Some (q\<lparr>data := d, head := next\<rparr>)
     }
   }"

definition mouse_pop :: "mouse_event ring \<Rightarrow> (mouse_event option \<times> mouse_event ring) option" where
  "mouse_pop q =
     (if tail q = head q then Some (None, q)
      else do {
        val \<leftarrow> get_at (data q) (tail q);
        n \<leftarrow> uadd (tail q) 1;
        Some (Some val, q\<lparr>tail := n mod BUF_SIZE\<rparr>)
      })"

record mouse =
  PACKET_STATE :: u8
  PACKET_BYTES :: "u8 list"
  MOUSE_QUEUE :: "mouse_event ring"

definition mouse_static :: mouse where
  "mouse_static = \<lparr>PACKET_STATE = 0, PACKET_BYTES = [0, 0, 0], MOUSE_QUEUE = ring_new EMPTY_EVENT\<rparr>"

definition store_byte :: "usize \<Rightarrow> u8 \<Rightarrow> u8 \<Rightarrow> mouse \<Rightarrow> mouse option" where
  "store_byte i byte next m = do {
     bytes \<leftarrow> set_at (PACKET_BYTES m) i byte;
     Some (m\<lparr>PACKET_BYTES := bytes, PACKET_STATE := next\<rparr>)
   }"

definition sign_extend :: "bool \<Rightarrow> u8 \<Rightarrow> int option" where
  "sign_extend neg b = (if neg then i16_sub (uint b) 256 else Some (uint b))"

definition decode_packet :: "u8 list \<Rightarrow> mouse_event option" where
  "decode_packet bytes = do {
     b0 \<leftarrow> get_at bytes 0;
     b1 \<leftarrow> get_at bytes 1;
     b2 \<leftarrow> get_at bytes 2;
     vx \<leftarrow> sign_extend (b0 AND 0x10 \<noteq> 0) b1;
     vy \<leftarrow> sign_extend (b0 AND 0x20 \<noteq> 0) b2;
     Some \<lparr>dx = vx, dy = vy, left = (b0 AND 0x01 \<noteq> 0), right = (b0 AND 0x02 \<noteq> 0),
       middle = (b0 AND 0x04 \<noteq> 0)\<rparr>
   }"

definition add_byte :: "u8 \<Rightarrow> mouse \<Rightarrow> mouse option" where
  "add_byte byte m =
     (if PACKET_STATE m = 0 then
        (if byte AND 0x08 = 0 then Some m else store_byte 0 byte 1 m)
      else if PACKET_STATE m = 1 then store_byte 1 byte 2 m
      else if PACKET_STATE m = 2 then do {
        m' \<leftarrow> store_byte 2 byte 0 m;
        let bytes = PACKET_BYTES m';
        b0 \<leftarrow> get_at bytes 0;
        if b0 AND 0xC0 \<noteq> 0 then Some m'
        else do {
          event \<leftarrow> decode_packet bytes;
          q \<leftarrow> mouse_push event (MOUSE_QUEUE m');
          Some (m'\<lparr>MOUSE_QUEUE := q\<rparr>)
        }
      }
      else Some (m\<lparr>PACKET_STATE := 0\<rparr>))"

definition try_read_event :: "mouse \<Rightarrow> (mouse_event option \<times> mouse) option" where
  "try_read_event m = do {
     (ev, q) \<leftarrow> mouse_pop (MOUSE_QUEUE m);
     Some (ev, m\<lparr>MOUSE_QUEUE := q\<rparr>)
   }"

section \<open>The event queue is the ring buffer of the keyboard\<close>

lemma mouse_push_eq: "mouse_push = push"
  by (simp add: fun_eq_iff mouse_push_def push_def)

lemma mouse_pop_eq: "mouse_pop = pop"
  by (simp add: fun_eq_iff mouse_pop_def pop_def)

interpretation mouseq: bounded_fifo mouse_push mouse_pop ring_list ring_inv "BUF_SIZE - 1"
  unfolding mouse_push_eq mouse_pop_eq by (rule ringq.bounded_fifo_axioms)

section \<open>Invariant\<close>

text \<open>Between interrupts: the state is 0, 1 or 2, the first byte of a started packet has its
  always-one bit, the queue is well-formed, and every queued movement is a 9-bit signed number.\<close>

definition event_ok :: "mouse_event \<Rightarrow> bool" where
  "event_ok ev \<longleftrightarrow> dx ev \<in> {-256..255} \<and> dy ev \<in> {-256..255}"

definition mouse_inv :: "mouse \<Rightarrow> bool" where
  "mouse_inv m \<longleftrightarrow> PACKET_STATE m \<in> {0, 1, 2} \<and> length (PACKET_BYTES m) = 3 \<and>
     (PACKET_STATE m \<noteq> 0 \<longrightarrow> PACKET_BYTES m ! 0 AND 0x08 \<noteq> 0) \<and>
     ring_inv (MOUSE_QUEUE m) \<and> (\<forall>ev \<in> set (ring_list (MOUSE_QUEUE m)). event_ok ev)"

lemma uint_u8_bounds: "0 \<le> uint (b :: u8)" "uint (b :: u8) < 256" "- 256 \<le> uint (b :: u8)"
  using uint_bounded [of b] order_trans [OF _ uint_ge_0, of "- 256" b] by auto

lemma sign_extend_Some: "sign_extend neg b = Some (uint b - (if neg then 256 else 0))"
  using uint_u8_bounds [of b] by (simp add: sign_extend_def i16_sub_def)

definition event_of :: "u8 \<Rightarrow> u8 \<Rightarrow> u8 \<Rightarrow> mouse_event" where
  "event_of b0 b1 b2 =
     \<lparr>dx = signed_take_bit 8 (uint b1 + 256 * of_bool (bit b0 4)),
      dy = signed_take_bit 8 (uint b2 + 256 * of_bool (bit b0 5)),
      left = bit b0 0, right = bit b0 1, middle = bit b0 2\<rparr>"

lemma and_flag_iff:
  "b AND 0x01 \<noteq> 0 \<longleftrightarrow> bit (b :: u8) 0" "b AND 0x02 \<noteq> 0 \<longleftrightarrow> bit b 1"
  "b AND 0x04 \<noteq> 0 \<longleftrightarrow> bit b 2" "b AND 0x08 \<noteq> 0 \<longleftrightarrow> bit b 3"
  "b AND 0x10 \<noteq> 0 \<longleftrightarrow> bit b 4" "b AND 0x20 \<noteq> 0 \<longleftrightarrow> bit b 5"
proof -
  have *: "b AND 2 ^ n \<noteq> 0 \<longleftrightarrow> bit b n" for n
    by (simp add: and_exp_eq_0_iff_not_bit)
  show "b AND 0x01 \<noteq> 0 \<longleftrightarrow> bit b 0" "b AND 0x02 \<noteq> 0 \<longleftrightarrow> bit b 1"
    "b AND 0x04 \<noteq> 0 \<longleftrightarrow> bit b 2" "b AND 0x08 \<noteq> 0 \<longleftrightarrow> bit b 3"
    "b AND 0x10 \<noteq> 0 \<longleftrightarrow> bit b 4" "b AND 0x20 \<noteq> 0 \<longleftrightarrow> bit b 5"
    using * [of 0] * [of 1] * [of 2] * [of 3] * [of 4] * [of 5] by simp_all
qed

lemma signed_nine_bits:
  fixes k :: int
  assumes "0 \<le> k" and "k < 256"
  shows "signed_take_bit 8 (k + 256 * of_bool neg) = k - (if neg then 256 else 0)"
proof (cases neg)
  case True
  have "(k + 256) mod 512 = (k - 256) mod 512"
    using mod_add_self2 [of "k - 256" 512] by (simp add: add.commute)
  then have "signed_take_bit 8 (k + 256) = signed_take_bit 8 (k - 256)"
    by (simp add: signed_take_bit_eq_iff_take_bit_eq take_bit_eq_mod)
  also have "\<dots> = k - 256"
    using assms by (intro signed_take_bit_int_eq_self) auto
  finally show ?thesis using True by simp
next
  case False
  then show ?thesis using assms by (simp add: signed_take_bit_int_eq_self)
qed

lemma decode_packet_event: "decode_packet [b0, b1, b2] = Some (event_of b0 b1 b2)"
  using uint_u8_bounds [of b1] uint_u8_bounds [of b2]
  by (simp add: decode_packet_def get_at_def sign_extend_Some event_of_def signed_nine_bits
      and_flag_iff numeral_2_eq_2)

lemma event_of_ok: "event_ok (event_of b0 b1 b2)"
  using uint_u8_bounds [of b1] uint_u8_bounds [of b2]
  by (auto simp: event_ok_def event_of_def signed_nine_bits)

text \<open>The four branches of \<open>add_byte\<close>.\<close>

lemma add_byte_0: "PACKET_STATE m = 0 \<Longrightarrow> length (PACKET_BYTES m) = 3 \<Longrightarrow>
  add_byte b m = Some (if bit b 3 then m\<lparr>PACKET_BYTES := (PACKET_BYTES m)[0 := b], PACKET_STATE := 1\<rparr> else m)"
  using and_flag_iff(4) [of b] by (auto simp: add_byte_def store_byte_def in_range)

lemma add_byte_1: "PACKET_STATE m = 1 \<Longrightarrow> length (PACKET_BYTES m) = 3 \<Longrightarrow>
  add_byte b m = Some (m\<lparr>PACKET_BYTES := (PACKET_BYTES m)[1 := b], PACKET_STATE := 2\<rparr>)"
  by (simp add: add_byte_def store_byte_def in_range)

lemma add_byte_2:
  assumes "PACKET_STATE m = 2" and "length (PACKET_BYTES m) = 3" and "ring_inv (MOUSE_QUEUE m)"
  shows "\<exists>q. add_byte b m
      = Some (m\<lparr>PACKET_BYTES := (PACKET_BYTES m)[2 := b], PACKET_STATE := 0, MOUSE_QUEUE := q\<rparr>) \<and>
    ring_inv q \<and>
    ring_list q = ring_list (MOUSE_QUEUE m) @
      (if PACKET_BYTES m ! 0 AND 0xC0 = 0
       then take (BUF_SIZE - 1 - ring_count (MOUSE_QUEUE m))
         [event_of (PACKET_BYTES m ! 0) (PACKET_BYTES m ! 1) b]
       else [])"
proof -
  obtain b0 b1 c where bytes: "PACKET_BYTES m = [b0, b1, c]"
    using assms(2) by (auto simp: numeral_3_eq_3 length_Suc_conv)
  show ?thesis
  proof (cases "b0 AND 0xC0 = 0")
    case True
    obtain q where q: "mouse_push (event_of b0 b1 b) (MOUSE_QUEUE m) = Some q" "ring_inv q"
      "ring_list q = (if ring_count (MOUSE_QUEUE m) < BUF_SIZE - 1
         then ring_list (MOUSE_QUEUE m) @ [event_of b0 b1 b] else ring_list (MOUSE_QUEUE m))"
      using mouseq.enq_spec [OF assms(3)] by (metis length_ring_list)
    have "add_byte b m
      = Some (m\<lparr>PACKET_BYTES := [b0, b1, b], PACKET_STATE := 0, MOUSE_QUEUE := q\<rparr>)"
      using assms(1) True q(1) by (simp add: add_byte_def store_byte_def in_range bytes decode_packet_event)
    with q True show ?thesis by (intro exI [of _ q]) (auto simp: bytes take_Cons')
  next
    case False
    then have "add_byte b m = Some (m\<lparr>PACKET_BYTES := [b0, b1, b], PACKET_STATE := 0\<rparr>)"
      using assms(1) by (simp add: add_byte_def store_byte_def in_range bytes)
    with False assms(3) show ?thesis by (intro exI [of _ "MOUSE_QUEUE m"]) (simp add: bytes)
  qed
qed

lemma mouse_static_fields:
  "PACKET_STATE mouse_static = 0" "length (PACKET_BYTES mouse_static) = 3"
  "ring_inv (MOUSE_QUEUE mouse_static)" "ring_count (MOUSE_QUEUE mouse_static) = 0"
  "ring_list (MOUSE_QUEUE mouse_static) = []"
  by (simp_all add: mouse_static_def)

lemma mouse_inv_static: "mouse_inv mouse_static"
  by (simp add: mouse_inv_def mouse_static_fields)

lemma add_byte_inv:
  assumes "mouse_inv m"
  shows "\<exists>m'. add_byte b m = Some m' \<and> mouse_inv m'"
proof -
  have m: "length (PACKET_BYTES m) = 3" "ring_inv (MOUSE_QUEUE m)" using assms by (auto simp: mouse_inv_def)
  consider "PACKET_STATE m = 0" | "PACKET_STATE m = 1" | "PACKET_STATE m = 2"
    using assms by (auto simp: mouse_inv_def)
  then show ?thesis
  proof cases
    case 1
    then show ?thesis
      using assms m and_flag_iff(4) [of b] by (auto simp: add_byte_0 mouse_inv_def)
  next
    case 2
    then show ?thesis using assms m by (auto simp: add_byte_1 mouse_inv_def)
  next
    case 3
    from add_byte_2 [OF this m, of b] assms event_of_ok show ?thesis
      by (auto simp: mouse_inv_def dest!: in_set_takeD)
  qed
qed

section \<open>The byte stream as a sequence of packets\<close>

text \<open>The specification: cut the stream into packets. A byte without the always-one bit
  cannot start a packet and is skipped; a packet with an overflow bit yields no event; an
  unfinished packet yields nothing yet.\<close>

fun packet_events :: "u8 list \<Rightarrow> mouse_event list" where
  "packet_events (b0 # b1 # b2 # bs) =
     (if bit b0 3
      then (if b0 AND 0xC0 = 0 then [event_of b0 b1 b2] else []) @ packet_events bs
      else packet_events (b1 # b2 # bs))"
| "packet_events bs = []"

lemma take_diff_append:
  "xs @ take (n - length xs) (ys @ zs)
    = (xs @ take (n - length xs) ys) @ take (n - length (xs @ take (n - length xs) ys)) zs"
  by (auto simp: min_def)

lemma add_bytes_packets:
  assumes "PACKET_STATE m = 0" and "length (PACKET_BYTES m) = 3" and "ring_inv (MOUSE_QUEUE m)"
  shows "\<exists>m'. foldM add_byte bs m = Some m' \<and> ring_inv (MOUSE_QUEUE m') \<and>
    ring_list (MOUSE_QUEUE m') = ring_list (MOUSE_QUEUE m) @
      take (BUF_SIZE - 1 - ring_count (MOUSE_QUEUE m)) (packet_events bs)"
  using assms
proof (induction bs arbitrary: m rule: packet_events.induct)
  case (1 b0 b1 b2 bs)
  let ?xs = "ring_list (MOUSE_QUEUE m)"
  show ?case
  proof (cases "bit b0 3")
    case True
    let ?m2 = "m\<lparr>PACKET_BYTES := (PACKET_BYTES m)[0 := b0, 1 := b1], PACKET_STATE := 2\<rparr>"
    let ?ev = "if b0 AND 0xC0 = 0 then [event_of b0 b1 b2] else []"
    have nth: "PACKET_BYTES ?m2 ! 0 = b0" "PACKET_BYTES ?m2 ! 1 = b1" using "1.prems"(2) by auto
    have two: "foldM add_byte (b0 # b1 # b2 # bs) m = foldM add_byte (b2 # bs) ?m2"
      using "1.prems" True by (simp add: add_byte_0 add_byte_1)
    obtain m3 where m3: "add_byte b2 ?m2 = Some m3" "PACKET_STATE m3 = 0" "length (PACKET_BYTES m3) = 3"
      "ring_inv (MOUSE_QUEUE m3)"
      "ring_list (MOUSE_QUEUE m3) = ?xs @ take (BUF_SIZE - 1 - length ?xs) ?ev"
      using add_byte_2 [of ?m2 b2] "1.prems" unfolding nth by (auto split: if_splits)
    from "1.IH"(1) [OF True m3(2-4)] obtain m' where m': "foldM add_byte bs m3 = Some m'"
      "ring_inv (MOUSE_QUEUE m')"
      "ring_list (MOUSE_QUEUE m') = ring_list (MOUSE_QUEUE m3) @
         take (BUF_SIZE - 1 - length (ring_list (MOUSE_QUEUE m3))) (packet_events bs)" by auto
    have "ring_list (MOUSE_QUEUE m') = ?xs @ take (BUF_SIZE - 1 - length ?xs) (?ev @ packet_events bs)"
      unfolding m'(3) m3(5) by (rule take_diff_append [symmetric])
    moreover have "foldM add_byte (b0 # b1 # b2 # bs) m = Some m'"
      using two m3(1) m'(1) by simp
    ultimately show ?thesis using m'(2) True by simp
  next
    case False
    with "1.IH"(2) [OF False "1.prems"] "1.prems" show ?thesis by (simp add: add_byte_0)
  qed
qed (auto simp: add_byte_0 add_byte_1)

text \<open>The three bytes a PS/2 mouse sends for an event without overflow.\<close>

definition ps2_header :: "bool \<Rightarrow> bool \<Rightarrow> bool \<Rightarrow> bool \<Rightarrow> bool \<Rightarrow> u8" where
  "ps2_header l r m x y =
     of_bool l + 2 * of_bool r + 4 * of_bool m + 8 + 16 * of_bool x + 32 * of_bool y"

definition ps2_packet :: "mouse_event \<Rightarrow> u8 list" where
  "ps2_packet ev = [ps2_header (left ev) (right ev) (middle ev) (dx ev < 0) (dy ev < 0),
     word_of_int (dx ev), word_of_int (dy ev)]"

lemma ps2_header_bits:
  "bit (ps2_header l r m x y) 0 = l" "bit (ps2_header l r m x y) 1 = r"
  "bit (ps2_header l r m x y) 2 = m" "bit (ps2_header l r m x y) 3"
  "bit (ps2_header l r m x y) 4 = x" "bit (ps2_header l r m x y) 5 = y"
  "ps2_header l r m x y AND 0xC0 = 0"
  unfolding ps2_header_def by (cases l; cases r; cases m; cases x; cases y; simp)+

lemma signed_word_of_int:
  assumes "-256 \<le> k" and "k \<le> 255"
  shows "signed_take_bit 8 (uint (word_of_int k :: u8) + 256 * of_bool (k < 0)) = k"
proof -
  have u: "uint (word_of_int k :: u8) = k mod 256" by (simp add: uint_word_of_int take_bit_eq_mod)
  have "k mod 256 - (if k < 0 then 256 else 0) = k"
  proof (cases "k < 0")
    case True
    have "(k + 256) mod 256 = k + 256" using True assms by (intro mod_pos_pos_trivial) auto
    then show ?thesis using True by simp
  qed (use assms in auto)
  then show ?thesis unfolding u by (subst signed_nine_bits) auto
qed

lemma event_of_ps2_packet:
  "event_ok ev \<Longrightarrow>
    event_of (ps2_header (left ev) (right ev) (middle ev) (dx ev < 0) (dy ev < 0))
      (word_of_int (dx ev)) (word_of_int (dy ev)) = ev"
  unfolding event_of_def ps2_header_bits by (simp add: signed_word_of_int event_ok_def)

lemma packet_events_ps2:
  "(\<forall>ev \<in> set evs. event_ok ev) \<Longrightarrow> packet_events (concat (map ps2_packet evs)) = evs"
proof (induction evs)
  case (Cons ev evs)
  then show ?case by (simp add: ps2_packet_def ps2_header_bits event_of_ps2_packet)
qed simp

section \<open>Properties of the driver\<close>

text \<open>The mouse interrupt handler never panics: from a state of its invariant (which holds at
  boot) every byte is accepted, the invariant is kept, and so every event it ever queues
  moves by at most 256 in each direction.\<close>

lemma add_byte_safe:
  "mouse_inv mouse_static \<and> (\<forall>m b. mouse_inv m \<longrightarrow> (\<exists>m'. add_byte b m = Some m' \<and> mouse_inv m'))"
  using mouse_inv_static add_byte_inv by blast

text \<open>C21: the packet state machine refines the cutting of the byte stream into packets: after any
  byte stream from boot the queue holds the first 127 events of that stream, whatever
  garbage, overflowed or unfinished packets it contains.\<close>

theorem add_byte_stream:
  "\<exists>m'. foldM add_byte bs mouse_static = Some m' \<and>
     ring_list (MOUSE_QUEUE m') = take (BUF_SIZE - 1) (packet_events bs)"
  using add_bytes_packets [OF mouse_static_fields(1-3), of bs] by (auto simp: mouse_static_fields)

text \<open>C29: what a mouse sends is what the kernel reads: the packets of any list of events within the
  9-bit range, received byte by byte, queue exactly those events (the first 127), in
  order, and reading the queue returns them.\<close>

theorem mouse_roundtrip:
  assumes "\<forall>ev \<in> set evs. event_ok ev"
  shows "\<exists>m q. foldM add_byte (concat (map ps2_packet evs)) mouse_static = Some m \<and>
     drain mouse_pop (BUF_SIZE - 1) (MOUSE_QUEUE m) = Some (take (BUF_SIZE - 1) evs, q)"
proof -
  let ?bs = "concat (map ps2_packet evs)"
  from add_bytes_packets [OF mouse_static_fields(1-3), of ?bs] obtain m where m: "foldM add_byte ?bs mouse_static = Some m"
    "ring_inv (MOUSE_QUEUE m)" "ring_list (MOUSE_QUEUE m) = take (BUF_SIZE - 1) evs"
    unfolding packet_events_ps2 [OF assms] mouse_static_fields by auto
  from mouseq.drain_spec [OF m(2), of "BUF_SIZE - 1"] m(1,3) show ?thesis by auto
qed

theorem mouse_roundtrip_witness:
  "\<exists>m q. foldM add_byte (ps2_packet (EMPTY_EVENT\<lparr>dx := -256, dy := 255, left := True\<rparr>)) mouse_static = Some m \<and>
     drain mouse_pop (BUF_SIZE - 1) (MOUSE_QUEUE m)
       = Some ([EMPTY_EVENT\<lparr>dx := -256, dy := 255, left := True\<rparr>], q)"
  using mouse_roundtrip [of "[EMPTY_EVENT\<lparr>dx := -256, dy := 255, left := True\<rparr>]"]
  by (simp add: event_ok_def EMPTY_EVENT_def BUF_SIZE_def)

end
