(* ===== verification/Segments.thy ===== *)
theory Segments
  imports Prelude
begin

text \<open>
  The segment table and the task state segment of \<^verbatim>\<open>kernel/src/gdt.rs\<close>. The descriptors and the table are
  those of the crate \<^verbatim>\<open>x86_64\<close>: \<open>gdt_crate\<close> has the functions the code calls, and \<open>gdt_contract\<close> what their
  documentation says of them. \<open>segments\<close> is what the instructions \<^verbatim>\<open>lgdt\<close>, \<^verbatim>\<open>ltr\<close> and the loads of the segment registers set.
  Of the task state segment the code uses the interrupt stack table only.
\<close>

section \<open>Data\<close>

definition DOUBLE_FAULT_IST_INDEX :: u16 where "DOUBLE_FAULT_IST_INDEX = 0"

definition STACK_SIZE :: usize where "STACK_SIZE = 4096 * 5"

record tss =
  interrupt_stack_table :: "u64 list"

text \<open>\<open>virt_add\<close> is \<^verbatim>\<open>VirtAddr + u64\<close>, which panics when the sum is no virtual address; \<open>gdt_append\<close> panics when the
  table is full.\<close>

record ('g, 'd) gdt_crate =
  virt_add :: "u64 \<Rightarrow> u64 \<Rightarrow> u64 option"
  gdt_new :: 'g
  gdt_append :: "'d \<Rightarrow> 'g \<Rightarrow> (u16 \<times> 'g) option"
  kernel_code_segment :: 'd
  tss_segment :: "tss \<Rightarrow> 'd"

record 'g gdt =
  table :: 'g
  code_selector :: u16
  tss_selector :: u16

record 'g segments =
  gdtr :: "'g option"
  seg_cs :: u16
  seg_ss :: u16
  task_register :: u16

section \<open>Operations\<close>

text \<open>\<^verbatim>\<open>TaskStateSegment::new\<close>: seven entries, all zero. \<open>stack_start\<close> is the address of the static array.\<close>

definition tss_new :: tss where
  "tss_new = \<lparr>interrupt_stack_table = replicate 7 0\<rparr>"

definition TSS :: "('g, 'd) gdt_crate \<Rightarrow> u64 \<Rightarrow> tss option" where
  "TSS cr stack_start = do {
     top \<leftarrow> virt_add cr stack_start (of_nat STACK_SIZE);
     ist \<leftarrow> set_at (interrupt_stack_table tss_new) (unat DOUBLE_FAULT_IST_INDEX) top;
     Some (tss_new\<lparr>interrupt_stack_table := ist\<rparr>)
   }"

definition GDT :: "('g, 'd) gdt_crate \<Rightarrow> u64 \<Rightarrow> 'g gdt option" where
  "GDT cr stack_start = do {
     let gdt = gdt_new cr;
     (code, gdt) \<leftarrow> gdt_append cr (kernel_code_segment cr) gdt;
     t \<leftarrow> TSS cr stack_start;
     (tss, gdt) \<leftarrow> gdt_append cr (tss_segment cr t) gdt;
     Some \<lparr>table = gdt, code_selector = code, tss_selector = tss\<rparr>
   }"

definition gdt_init :: "('g, 'd) gdt_crate \<Rightarrow> u64 \<Rightarrow> 'g segments \<Rightarrow> 'g segments option" where
  "gdt_init cr stack_start s = do {
     gdt \<leftarrow> GDT cr stack_start;
     let s = s\<lparr>gdtr := Some (table gdt)\<rparr>;
     let s = s\<lparr>seg_cs := code_selector gdt\<rparr>;
     let s = s\<lparr>seg_ss := 0\<rparr>;
     Some (s\<lparr>task_register := tss_selector gdt\<rparr>)
   }"

section \<open>What is known of the crate\<close>

text \<open>A new table has seven free slots; a code segment takes one, a task state segment two. Appending succeeds
  as long as there is room, the selector it returns finds the descriptor, and the earlier ones
  are found as before. A selector has the table indicator and privilege 0. A sum below 2 to the 47 is an address.\<close>

definition gdt_contract :: "('g, 'd) gdt_crate \<Rightarrow> ('g \<Rightarrow> u16 \<Rightarrow> 'd option) \<Rightarrow> ('g \<Rightarrow> nat) \<Rightarrow> ('d \<Rightarrow> nat) \<Rightarrow> bool" where
  "gdt_contract cr lookup slots needs \<longleftrightarrow>
     slots (gdt_new cr) = 7 \<and> needs (kernel_code_segment cr) = 1 \<and> (\<forall>t. needs (tss_segment cr t) = 2) \<and>
     (\<forall>d g. needs d \<le> slots g \<longrightarrow> (\<exists>sel g'. gdt_append cr d g = Some (sel, g') \<and> slots g' = slots g - needs d \<and>
        lookup g' sel = Some d \<and> (\<forall>s d'. lookup g s = Some d' \<longrightarrow> lookup g' s = Some d'))) \<and>
     (\<forall>a n. unat a + unat n < 2 ^ 47 \<or> 2 ^ 64 - 2 ^ 47 \<le> unat a \<and> unat a + unat n < 2 ^ 64 \<longrightarrow> virt_add cr a n = Some (a + n))"

text \<open>The static array lies in one half of the address space.\<close>

definition stack_array_ok :: "u64 \<Rightarrow> bool" where
  "stack_array_ok start \<longleftrightarrow> unat start + STACK_SIZE < 2 ^ 47 \<or> 2 ^ 64 - 2 ^ 47 \<le> unat start \<and> unat start + STACK_SIZE < 2 ^ 64"

lemma gdt_append_room:
  assumes "gdt_contract cr lookup slots needs" and "needs d \<le> slots g"
  obtains sel g' where "gdt_append cr d g = Some (sel, g')" and "slots g' = slots g - needs d" and "lookup g' sel = Some d"
    and "\<forall>s d'. lookup g s = Some d' \<longrightarrow> lookup g' s = Some d'"
  using assms unfolding gdt_contract_def by metis

lemma gdt_init_loads:
  assumes "gdt_contract cr lookup slots needs"
    and "stack_array_ok start"
  obtains s' g t where "gdt_init cr start s = Some s'" and "gdtr s' = Some g" and "TSS cr start = Some t"
    and "lookup g (seg_cs s') = Some (kernel_code_segment cr)" and "lookup g (task_register s') = Some (tss_segment cr t)"
    and "seg_ss s' = 0" and "interrupt_stack_table t ! 0 = start + of_nat STACK_SIZE" and "length (interrupt_stack_table t) = 7"
proof -
  let ?n = "of_nat STACK_SIZE :: u64"
  have size: "unat ?n = STACK_SIZE" by (simp add: STACK_SIZE_def)
  have range: "unat start + unat ?n < 2 ^ 47 \<or> 2 ^ 64 - 2 ^ 47 \<le> unat start \<and> unat start + unat ?n < 2 ^ 64"
    using assms(2) by (simp only: size stack_array_ok_def)
  have top: "virt_add cr start (of_nat STACK_SIZE) = Some (start + of_nat STACK_SIZE)"
    using assms(1) range unfolding gdt_contract_def by blast
  define t where "t = tss_new\<lparr>interrupt_stack_table := (replicate 7 0)[0 := start + of_nat STACK_SIZE]\<rparr>"
  have t: "TSS cr start = Some t"
    by (simp add: TSS_def top set_at_def tss_new_def DOUBLE_FAULT_IST_INDEX_def t_def)
  have slots: "slots (gdt_new cr) = 7" "needs (kernel_code_segment cr) = 1" "needs (tss_segment cr t) = 2"
    using assms(1) by (simp_all add: gdt_contract_def)
  have room0: "needs (kernel_code_segment cr) \<le> slots (gdt_new cr)" unfolding slots by simp
  obtain cs g1 where g1: "gdt_append cr (kernel_code_segment cr) (gdt_new cr) = Some (cs, g1)"
    "slots g1 = slots (gdt_new cr) - needs (kernel_code_segment cr)" "lookup g1 cs = Some (kernel_code_segment cr)"
    by (rule gdt_append_room [OF assms(1) room0])
  have room: "needs (tss_segment cr t) \<le> slots g1" using slots g1(2) by simp
  obtain tr g2 where g2: "gdt_append cr (tss_segment cr t) g1 = Some (tr, g2)" "lookup g2 tr = Some (tss_segment cr t)"
    "\<forall>s d'. lookup g1 s = Some d' \<longrightarrow> lookup g2 s = Some d'"
    by (rule gdt_append_room [OF assms(1) room])
  have g3: "lookup g2 cs = Some (kernel_code_segment cr)" using g2(3) g1(3) by blast
  show ?thesis
    by (rule that [of "s\<lparr>gdtr := Some g2, seg_cs := cs, seg_ss := 0, task_register := tr\<rparr>" g2 t])
      (simp_all add: gdt_init_def GDT_def g1(1) g2(1,2) g3 t, simp_all add: t_def tss_new_def)
qed

section \<open>A table that keeps the contract\<close>

text \<open>Descriptors in order; a task state segment takes two slots, the first slot is the null descriptor.\<close>

datatype sample_descriptor = Kernel_code | Tss_segment tss

fun slots_taken :: "sample_descriptor \<Rightarrow> nat" where
  "slots_taken Kernel_code = 1"
| "slots_taken (Tss_segment t) = 2"

definition taken :: "sample_descriptor list \<Rightarrow> nat" where
  "taken g = sum_list (map slots_taken g)"

fun lookup_from :: "nat \<Rightarrow> sample_descriptor list \<Rightarrow> u16 \<Rightarrow> sample_descriptor option" where
  "lookup_from n [] s = None"
| "lookup_from n (d # ds) s = (if unat s = 8 * n then Some d else lookup_from (n + slots_taken d) ds s)"

definition sample_gdt :: "(sample_descriptor list, sample_descriptor) gdt_crate" where
  "sample_gdt = \<lparr>virt_add = (\<lambda>a n. Some (a + n)), gdt_new = [],
     gdt_append = (\<lambda>d g. if taken g + slots_taken d \<le> 7 then Some (of_nat (8 * (1 + taken g)), g @ [d]) else None),
     kernel_code_segment = Kernel_code, tss_segment = Tss_segment\<rparr>"

lemma lookup_from_append: "lookup_from n g s = Some d' \<Longrightarrow> lookup_from n (g @ ds) s = Some d'"
  by (induction g arbitrary: n) (auto split: if_splits)

lemma lookup_from_new: "unat s = 8 * (n + taken g) \<Longrightarrow> lookup_from n (g @ [d]) s = Some d"
proof (induction g arbitrary: n)
  case (Cons e g)
  have "0 < slots_taken e" by (cases e) simp_all
  then show ?case using Cons.IH [of "n + slots_taken e"] Cons.prems by (simp add: taken_def add.assoc)
qed (simp add: taken_def)

lemma sample_gdt_contract: "gdt_contract sample_gdt (lookup_from 1) (\<lambda>g. 7 - taken g) slots_taken"
proof -
  have "\<exists>sel g'. gdt_append sample_gdt d g = Some (sel, g') \<and> 7 - taken g' = 7 - taken g - slots_taken d \<and>
      lookup_from 1 g' sel = Some d \<and> (\<forall>s d'. lookup_from 1 g s = Some d' \<longrightarrow> lookup_from 1 g' s = Some d')"
    if "slots_taken d \<le> 7 - taken g" for d g
  proof -
    have "0 < slots_taken d" by (cases d) simp_all
    then have room: "taken g + slots_taken d \<le> 7" using that by linarith
    have "unat (of_nat (8 * (1 + taken g)) :: u16) = 8 * (1 + taken g)"
      using room by (simp only: unsigned_of_nat take_bit_eq_mod) simp
    from lookup_from_new [OF this] show ?thesis
      using room lookup_from_append by (simp add: sample_gdt_def) (simp add: taken_def)
  qed
  then show ?thesis by (simp add: gdt_contract_def) (simp add: sample_gdt_def taken_def)
qed

end
