(* ===== verification/Interrupts.thy ===== *)
theory Interrupts
  imports Keyboard Mouse Segments
begin

text \<open>
  Interrupt dispatch of \<^verbatim>\<open>kernel/src/interrupts.rs\<close>: the vectors, the table that \<^verbatim>\<open>init\<close> loads (each field of
  the crate's \<^verbatim>\<open>InterruptDescriptorTable\<close> is the vector the x86 architecture gives that exception), and the
  handlers. The controller pair is the crate \<^verbatim>\<open>pic8259\<close>: its \<^verbatim>\<open>notify_end_of_interrupt\<close> is seen only as
  the list of vectors acknowledged, and a handler that reads port 0x60 is given the byte it reads.
\<close>

section \<open>Vectors\<close>

definition PIC1_OFFSET :: u8 where "PIC1_OFFSET = 0x20"

definition PIC2_OFFSET :: u8 where "PIC2_OFFSET = 0x28"

text \<open>The offsets that the controller pair is made with, and that \<^verbatim>\<open>init_pics\<close> programs.\<close>

definition PICS :: "u8 \<times> u8" where "PICS = (PIC1_OFFSET, PIC2_OFFSET)"

datatype hardware_interrupt = Timer | Keyboard | MouseIrq

fun irq_vector :: "hardware_interrupt \<Rightarrow> u8" where
  "irq_vector Timer = PIC1_OFFSET"
| "irq_vector Keyboard = PIC1_OFFSET + 1"
| "irq_vector MouseIrq = PIC2_OFFSET + 4"

datatype handler = Divide_error | Breakpoint | Invalid_opcode | Double_fault | General_protection_fault | Page_fault
  | Hardware hardware_interrupt

text \<open>A gate: the handler (\<^verbatim>\<open>set_handler_fn\<close>) and the entry of the interrupt stack table it runs on, if any.\<close>

record gate =
  gate_handler :: handler
  stack_index :: "u16 option"

definition set_handler_fn :: "handler \<Rightarrow> gate" where
  "set_handler_fn h = \<lparr>gate_handler = h, stack_index = None\<rparr>"

definition set_stack_index :: "u16 \<Rightarrow> gate \<Rightarrow> gate" where
  "set_stack_index i g = g\<lparr>stack_index := Some i\<rparr>"

text \<open>The table, as the list of its entries in the order the code sets them; an entry set later replaces one
  set earlier.\<close>

definition IDT :: "u8 \<Rightarrow> gate option" where
  "IDT = map_of (rev [(0, set_handler_fn Divide_error), (3, set_handler_fn Breakpoint), (6, set_handler_fn Invalid_opcode),
     (8, set_stack_index DOUBLE_FAULT_IST_INDEX (set_handler_fn Double_fault)), (13, set_handler_fn General_protection_fault),
     (14, set_handler_fn Page_fault), (irq_vector Timer, set_handler_fn (Hardware Timer)),
     (irq_vector Keyboard, set_handler_fn (Hardware Keyboard)), (irq_vector MouseIrq, set_handler_fn (Hardware MouseIrq))])"

section \<open>Handlers\<close>

record irq_state =
  TICK_COUNT :: u64
  scancodes :: "u8 ring"
  mouse_state :: mouse
  acknowledged :: "u8 list"

definition ticks :: "irq_state \<Rightarrow> u64" where
  "ticks s = TICK_COUNT s"

definition notify_end_of_interrupt :: "u8 \<Rightarrow> irq_state \<Rightarrow> irq_state" where
  "notify_end_of_interrupt v s = s\<lparr>acknowledged := acknowledged s @ [v]\<rparr>"

definition timer_handler :: "irq_state \<Rightarrow> irq_state option" where
  "timer_handler s = Some (notify_end_of_interrupt (irq_vector Timer) (s\<lparr>TICK_COUNT := TICK_COUNT s + 1\<rparr>))"

definition keyboard_handler :: "u8 \<Rightarrow> irq_state \<Rightarrow> irq_state option" where
  "keyboard_handler scancode s = do {
     q \<leftarrow> add_scancode scancode (scancodes s);
     Some (notify_end_of_interrupt (irq_vector Keyboard) (s\<lparr>scancodes := q\<rparr>))
   }"

definition mouse_handler :: "u8 \<Rightarrow> irq_state \<Rightarrow> irq_state option" where
  "mouse_handler byte s = do {
     m \<leftarrow> add_byte byte (mouse_state s);
     Some (notify_end_of_interrupt (irq_vector MouseIrq) (s\<lparr>mouse_state := m\<rparr>))
   }"

text \<open>The processor takes an interrupt: it runs the handler of its vector, if the table has one.\<close>

definition take_irq :: "hardware_interrupt \<Rightarrow> u8 \<Rightarrow> irq_state \<Rightarrow> irq_state option" where
  "take_irq i byte s = (case map_option gate_handler (IDT (irq_vector i)) of
      Some (Hardware Timer) \<Rightarrow> timer_handler s
    | Some (Hardware Keyboard) \<Rightarrow> keyboard_handler byte s
    | Some (Hardware MouseIrq) \<Rightarrow> mouse_handler byte s
    | _ \<Rightarrow> None)"

section \<open>Property\<close>

definition irq_inv :: "irq_state \<Rightarrow> bool" where
  "irq_inv s \<longleftrightarrow> ring_inv (scancodes s) \<and> mouse_inv (mouse_state s)"

lemma vectors: "irq_vector Timer = 32" "irq_vector Keyboard = 33" "irq_vector MouseIrq = 44"
  by (simp_all add: PIC1_OFFSET_def PIC2_OFFSET_def)

declare irq_vector.simps [simp del]

lemma IDT_entries: "IDT (irq_vector i) = Some (set_handler_fn (Hardware i))"
  by (cases i) (simp_all add: IDT_def vectors)

lemma handler_set [simp]: "gate_handler (set_handler_fn h) = h"
  by (simp add: set_handler_fn_def)

lemma irq_vector_inj: "irq_vector i = irq_vector j \<longleftrightarrow> i = j"
  by (cases i; cases j) (simp_all add: vectors)

lemma take_irq_step:
  assumes "irq_inv s"
  shows "\<exists>s'. take_irq i byte s = Some s' \<and> irq_inv s' \<and> acknowledged s' = acknowledged s @ [irq_vector i] \<and>
    TICK_COUNT s' = TICK_COUNT s + (if i = Timer then 1 else 0)"
proof (cases i)
  case Timer
  then show ?thesis using assms
    by (simp add: take_irq_def IDT_entries) (simp add: timer_handler_def notify_end_of_interrupt_def irq_inv_def)
next
  case Keyboard
  obtain q where "add_scancode byte (scancodes s) = Some q" "ring_inv q"
    using assms ringq.enq_spec [of "scancodes s" byte] by (auto simp: add_scancode_def irq_inv_def)
  then show ?thesis using assms Keyboard
    by (simp add: take_irq_def IDT_entries) (simp add: keyboard_handler_def notify_end_of_interrupt_def irq_inv_def)
next
  case MouseIrq
  obtain m where "add_byte byte (mouse_state s) = Some m" "mouse_inv m"
    using assms add_byte_inv [of "mouse_state s" byte] by (auto simp: irq_inv_def)
  then show ?thesis using assms MouseIrq
    by (simp add: take_irq_def IDT_entries) (simp add: mouse_handler_def notify_end_of_interrupt_def irq_inv_def)
qed

lemma take_irq_scancodes:
  assumes "irq_inv s" and "take_irq i byte s = Some s'"
  shows "if i = Keyboard then add_scancode byte (scancodes s) = Some (scancodes s') else scancodes s' = scancodes s"
  using assms(2) by (cases i)
    (auto simp: take_irq_def IDT_entries timer_handler_def keyboard_handler_def mouse_handler_def notify_end_of_interrupt_def bind_eq_Some_conv)

definition keyboard_bytes :: "(hardware_interrupt \<times> u8) list \<Rightarrow> u8 list" where
  "keyboard_bytes irqs = map snd (filter (\<lambda>(i, b). i = Keyboard) irqs)"

definition timer_count :: "(hardware_interrupt \<times> u8) list \<Rightarrow> nat" where
  "timer_count irqs = length (filter (\<lambda>(i, b). i = Timer) irqs)"

text \<open>C17: every interrupt is served. Each line has its own vector, above those of the exceptions, and its
  handler in the table; whatever sequence of timer, keyboard and mouse interrupts arrives, no handler
  panics, each acknowledges its own vector exactly once, the tick count advances by the number of
  timer interrupts (modulo 2 to the 64), and the keyboard queue takes the scancodes in order until it
  holds 127.\<close>

theorem interrupts_served:
  assumes "irq_inv s"
  shows "\<exists>s'. foldM (\<lambda>(i, b). take_irq i b) irqs s = Some s' \<and> irq_inv s' \<and>
    acknowledged s' = acknowledged s @ map (irq_vector \<circ> fst) irqs \<and>
    unat (ticks s') = (unat (ticks s) + timer_count irqs) mod 2 ^ 64 \<and>
    ring_list (scancodes s') = ring_list (scancodes s) @ take (127 - length (ring_list (scancodes s))) (keyboard_bytes irqs) \<and>
    (\<forall>i. 32 \<le> unat (irq_vector i) \<and> IDT (irq_vector i) = Some (set_handler_fn (Hardware i)))"
proof -
  have table: "32 \<le> unat (irq_vector i) \<and> IDT (irq_vector i) = Some (set_handler_fn (Hardware i))" for i
    unfolding IDT_entries by (cases i) (simp_all add: vectors)
  have "\<exists>s'. foldM (\<lambda>(i, b). take_irq i b) irqs s = Some s' \<and> irq_inv s' \<and>
    acknowledged s' = acknowledged s @ map (irq_vector \<circ> fst) irqs \<and>
    ticks s' = ticks s + of_nat (timer_count irqs) \<and>
    ring_list (scancodes s') = ring_list (scancodes s) @ take (127 - length (ring_list (scancodes s))) (keyboard_bytes irqs)"
    using assms
  proof (induction irqs arbitrary: s)
    case Nil
    then show ?case by (simp add: timer_count_def keyboard_bytes_def)
  next
    case (Cons x irqs)
    obtain i b where x: "x = (i, b)" by (cases x)
    obtain s1 where s1: "take_irq i b s = Some s1" "irq_inv s1" "acknowledged s1 = acknowledged s @ [irq_vector i]"
      "TICK_COUNT s1 = TICK_COUNT s + (if i = Timer then 1 else 0)" using take_irq_step [OF Cons.prems] by blast
    obtain s2 where s2: "foldM (\<lambda>(i, b). take_irq i b) irqs s1 = Some s2" "irq_inv s2"
      "acknowledged s2 = acknowledged s1 @ map (irq_vector \<circ> fst) irqs" "ticks s2 = ticks s1 + of_nat (timer_count irqs)"
      "ring_list (scancodes s2) = ring_list (scancodes s1) @ take (127 - length (ring_list (scancodes s1))) (keyboard_bytes irqs)"
      using Cons.IH [OF s1(2)] by blast
    have "ring_list (scancodes s1) @ take (127 - length (ring_list (scancodes s1))) (keyboard_bytes irqs) =
      ring_list (scancodes s) @ take (127 - length (ring_list (scancodes s))) (keyboard_bytes (x # irqs))"
    proof (cases "i = Keyboard")
      case True
      have inv: "ring_inv (scancodes s)" using Cons.prems by (simp add: irq_inv_def)
      have "push b (scancodes s) = Some (scancodes s1)" using take_irq_scancodes [OF Cons.prems s1(1)] True by (simp add: add_scancode_def)
      then have "ring_list (scancodes s1) = (if length (ring_list (scancodes s)) < 127 then ring_list (scancodes s) @ [b] else ring_list (scancodes s))"
        using push_enq [OF inv, of b] by (auto simp: BUF_SIZE_def)
      then show ?thesis by (auto simp: keyboard_bytes_def x True take_Cons')
    next
      case False
      then show ?thesis using take_irq_scancodes [OF Cons.prems s1(1)] by (simp add: keyboard_bytes_def x)
    qed
    then show ?case using s1 s2 by (auto simp: x timer_count_def ticks_def)
  qed
  then obtain s' where s': "foldM (\<lambda>(i, b). take_irq i b) irqs s = Some s'" "irq_inv s'"
    "acknowledged s' = acknowledged s @ map (irq_vector \<circ> fst) irqs" "ticks s' = ticks s + of_nat (timer_count irqs)"
    "ring_list (scancodes s') = ring_list (scancodes s) @ take (127 - length (ring_list (scancodes s))) (keyboard_bytes irqs)" by blast
  have "unat (ticks s') = (unat (ticks s) + timer_count irqs) mod 2 ^ 64"
    unfolding s'(4) by (simp add: unat_word_ariths unsigned_of_nat take_bit_eq_mod mod_add_right_eq)
  then show ?thesis using s' table by blast
qed

definition irq_boot :: irq_state where
  "irq_boot = \<lparr>TICK_COUNT = 0, scancodes = SCANCODE_QUEUE, mouse_state = mouse_static, acknowledged = []\<rparr>"

theorem interrupts_served_witness:
  "\<exists>s'. foldM (\<lambda>(i, b). take_irq i b) [(Timer, 0), (Keyboard, 0x1E), (MouseIrq, 9), (Timer, 0)] irq_boot = Some s' \<and>
    acknowledged s' = [0x20, 0x21, 0x2C, 0x20] \<and> unat (ticks s') = 2 \<and> ring_list (scancodes s') = [0x1E]"
proof -
  have "irq_inv irq_boot" by (simp add: irq_inv_def irq_boot_def SCANCODE_QUEUE_def mouse_inv_static)
  from interrupts_served [OF this, of "[(Timer, 0), (Keyboard, 0x1E), (MouseIrq, 9), (Timer, 0)]"] show ?thesis
    by (auto simp: irq_boot_def ticks_def timer_count_def keyboard_bytes_def vectors SCANCODE_QUEUE_def)
qed

end
