(* ===== verification/Format.thy ===== *)
theory Format
  imports Prelude
begin

text \<open>
  The number formatting of the kernel: \<open>write_u64_decimal\<close>, \<open>write_hex\<close>, \<open>format_size\<close> and
  \<open>format_addr_range\<close> of \<^verbatim>\<open>kernel/src/framebuffer.rs\<close>, and the two copies of \<open>format_u64\<close> in
  \<^verbatim>\<open>kernel/src/shell.rs\<close> and \<^verbatim>\<open>kernel/src/counter.rs\<close>. Text is ASCII bytes; a routine gets the
  buffer and the write position and returns both. Byte literals are their codes: 48 is
  \<^verbatim>\<open>b'0'\<close>, 97 \<^verbatim>\<open>b'a'\<close>, 120 \<^verbatim>\<open>b'x'\<close>, 45 \<^verbatim>\<open>b'-'\<close>.
\<close>

section \<open>Writing bytes\<close>

type_synonym sink = "u8 list \<times> usize"

definition put_byte :: "u8 \<Rightarrow> sink \<Rightarrow> sink option" where
  "put_byte c s = do {
     buf \<leftarrow> set_at (fst s) (snd s) c;
     pos \<leftarrow> uadd (snd s) 1;
     Some (buf, pos)
   }"

definition put_clipped :: "usize \<Rightarrow> u8 \<Rightarrow> sink \<Rightarrow> sink option" where
  "put_clipped limit c s = (if snd s < limit then put_byte c s else Some s)"

text \<open>\<open>emits s bs s'\<close>: from \<open>s\<close> to \<open>s'\<close> exactly the bytes \<open>bs\<close> were written, after the position.\<close>

definition emits :: "sink \<Rightarrow> u8 list \<Rightarrow> sink \<Rightarrow> bool" where
  "emits s bs s' \<longleftrightarrow> length (fst s') = length (fst s) \<and> snd s' = snd s + length bs \<and>
     take (snd s') (fst s') = take (snd s) (fst s) @ bs"

definition room :: "sink \<Rightarrow> nat \<Rightarrow> bool" where
  "room s n \<longleftrightarrow> snd s + n \<le> length (fst s) \<and> length (fst s) < 2 ^ 64"

lemma emits_Nil: "emits s [] s"
  by (simp add: emits_def)

lemma emits_trans: "emits s bs t \<Longrightarrow> emits t cs u \<Longrightarrow> emits s (bs @ cs) u"
  by (auto simp: emits_def add.assoc)

lemma emits_room: "emits s bs t \<Longrightarrow> room s (length bs + n) \<Longrightarrow> room t n"
  by (simp add: emits_def room_def)

lemma emits_from_0: "emits (buf, 0) bs (buf', n) \<Longrightarrow> n = length bs \<and> take n buf' = bs"
  by (auto simp: emits_def)

lemma put_byte_emits:
  assumes "room s 1"
  shows "\<exists>t. put_byte c s = Some t \<and> emits s [c] t"
proof -
  have "take (Suc (snd s)) ((fst s)[snd s := c]) = take (snd s) (fst s) @ [c]"
    using assms by (simp add: room_def take_Suc_conv_app_nth)
  with assms show ?thesis by (simp add: put_byte_def emits_def room_def in_range)
qed

lemma put_clipped_emits:
  "room s 1 \<Longrightarrow> snd s < limit \<Longrightarrow> \<exists>t. put_clipped limit c s = Some t \<and> emits s [c] t"
  using put_byte_emits [of s c] by (simp add: put_clipped_def)

text \<open>A loop that writes one byte per element.\<close>

lemma foldM_emits:
  assumes "room s (length xs)" and "snd s + length xs \<le> limit"
    and "\<And>x t. x \<in> set xs \<Longrightarrow> room t 1 \<Longrightarrow> snd t < limit \<Longrightarrow> \<exists>u. f x t = Some u \<and> emits t [g x] u"
  shows "\<exists>t. foldM f xs s = Some t \<and> emits s (map g xs) t"
  using assms
proof (induction xs arbitrary: s)
  case Nil
  then show ?case by (simp add: emits_Nil)
next
  case (Cons x xs)
  have "room s 1" "snd s < limit" using Cons.prems(1,2) by (auto simp: room_def)
  then obtain t where t: "f x s = Some t" "emits s [g x] t" using Cons.prems(3) [of x s] by auto
  have "room t (length xs)" using emits_room [OF t(2)] Cons.prems(1) by simp
  moreover have "snd t + length xs \<le> limit" using t(2) Cons.prems(2) by (simp add: emits_def)
  ultimately obtain u where "foldM f xs t = Some u" "emits t (map g xs) u"
    using Cons.IH [of t] Cons.prems(3) by auto
  with t(1) emits_trans [OF t(2)] show ?case by (intro exI [of _ u]) simp
qed

section \<open>Decimal numbers\<close>

function digit_loop :: "u64 \<Rightarrow> u8 list \<Rightarrow> usize \<Rightarrow> (u8 list \<times> usize) option" where
  "digit_loop n digits dlen =
     (if n > 0
      then (case set_at digits dlen (ucast (n mod 10) + 48) of
              None \<Rightarrow> None
            | Some digits' \<Rightarrow> digit_loop (n div 10) digits' (dlen + 1))
      else Some (digits, dlen))"
  by pat_completeness auto
termination
  by (relation "measure (\<lambda>(n, _, _). unat n)") (auto simp: unat_div word_less_nat_alt)

declare digit_loop.simps [simp del]

definition write_u64_decimal :: "u64 \<Rightarrow> sink \<Rightarrow> sink option" where
  "write_u64_decimal val s =
     (if val = 0 then put_clipped (length (fst s)) 48 s
      else do {
        (digits, dlen) \<leftarrow> digit_loop val (replicate 20 0) 0;
        foldM (\<lambda>d t. if snd t < length (fst t)
                     then do { c \<leftarrow> get_at digits d; put_byte c t } else Some t)
          (rev [0..<dlen]) s
      })"

definition format_u64 :: "u8 list \<Rightarrow> u64 \<Rightarrow> (u8 list \<times> usize) option" where
  "format_u64 buf val =
     (if val = 0 then do { b \<leftarrow> set_at buf 0 48; Some (b, 1) }
      else do {
        (digits, dlen) \<leftarrow> digit_loop val (replicate 20 0) 0;
        b \<leftarrow> foldM (\<lambda>(i, d) b. do { c \<leftarrow> get_at digits d; set_at b i c })
          (enumerate 0 (rev [0..<dlen])) buf;
        Some (b, dlen)
      })"

definition counter_format_u64 :: "u8 list \<Rightarrow> u64 \<Rightarrow> (u8 list \<times> usize) option" where
  "counter_format_u64 buf val =
     (if val = 0 then do { b \<leftarrow> set_at buf 0 48; Some (b, 1) }
      else do {
        (digits, dlen) \<leftarrow> digit_loop val (replicate 20 0) 0;
        b \<leftarrow> foldM (\<lambda>(i, d) b. do { c \<leftarrow> get_at digits d; set_at b i c })
          (enumerate 0 (rev [0..<dlen])) buf;
        Some (b, dlen)
      })"

text \<open>The specification: the decimal digits of a number, and reading them back.\<close>

fun dec_text :: "nat \<Rightarrow> u8 list" where
  "dec_text n = (if n < 10 then [of_nat n + 48] else dec_text (n div 10) @ [of_nat (n mod 10) + 48])"

declare dec_text.simps [simp del]

definition parse_dec :: "u8 list \<Rightarrow> nat" where
  "parse_dec bs = foldl (\<lambda>acc b. acc * 10 + (unat b - 48)) 0 bs"

lemma unat_digit: "n < 10 \<Longrightarrow> unat (of_nat n + 48 :: u8) = n + 48"
  by (simp add: unat_word_ariths unat_of_nat)

lemma parse_dec_text: "parse_dec (dec_text n) = n"
proof (induction n rule: dec_text.induct)
  case (1 n)
  show ?case
  proof (cases "n < 10")
    case True
    then show ?thesis by (simp add: dec_text.simps [of n] parse_dec_def unat_digit)
  next
    case False
    have "parse_dec (dec_text n) = parse_dec (dec_text (n div 10)) * 10 + n mod 10"
      using False by (simp add: dec_text.simps [of n] parse_dec_def unat_digit)
    with "1.IH" [OF False] show ?thesis by simp
  qed
qed

lemma dec_text_nonempty: "dec_text n \<noteq> []"
  by (subst dec_text.simps) simp

lemma dec_text_ascii: "c \<in> set (dec_text n) \<Longrightarrow> 48 \<le> unat c \<and> unat c \<le> 57"
proof (induction n rule: dec_text.induct)
  case (1 n)
  then show ?case
    by (subst (asm) (2) dec_text.simps) (auto simp: unat_digit split: if_splits)
qed

lemma length_dec_text: "n < 10 ^ Suc k \<Longrightarrow> length (dec_text n) \<le> Suc k"
proof (induction k arbitrary: n)
  case 0
  then show ?case by (simp add: dec_text.simps [of n])
next
  case (Suc k)
  show ?case
  proof (cases "n < 10")
    case True
    then show ?thesis by (simp add: dec_text.simps [of n])
  next
    case False
    have "n div 10 < 10 ^ Suc k" using Suc.prems by (simp add: less_mult_imp_div_less)
    with Suc.IH False show ?thesis by (simp add: dec_text.simps [of n])
  qed
qed

lemma length_dec_text_u64: "length (dec_text (unat (w :: u64))) \<le> 20"
proof -
  have "unat w < 2 ^ 64" using unsigned_less [of w] by simp
  then have "unat w < 10 ^ Suc 19" by simp
  then show ?thesis using length_dec_text [of "unat w" 19] by simp
qed

text \<open>No leading zero, except for zero itself.\<close>

lemma hd_dec_text: "0 < n \<Longrightarrow> hd (dec_text n) \<noteq> 48"
proof (induction n rule: dec_text.induct)
  case (1 n)
  show ?case
  proof (cases "n < 10")
    case True
    have "unat (of_nat n + 48 :: u8) \<noteq> unat (48 :: u8)" using True "1.prems" by (simp add: unat_digit)
    then show ?thesis using True by (auto simp: dec_text.simps [of n])
  next
    case False
    then show ?thesis using "1.IH" by (simp add: dec_text.simps [of n] dec_text_nonempty)
  qed
qed

text \<open>The digit loop leaves the digits of \<open>n\<close>, last first, behind those already there.\<close>

lemma ucast_mod10: "ucast (n mod 10 :: u64) = (of_nat (unat n mod 10) :: u8)"
proof -
  have "ucast (n mod 10) = (of_nat (unat (n mod 10)) :: u8)" by (simp only: of_nat_unat)
  then show ?thesis by (simp add: unat_mod)
qed

lemma digit_loop_spec:
  "n > 0 \<Longrightarrow> dlen + length (dec_text (unat n)) \<le> length digits \<Longrightarrow>
    \<exists>ds. digit_loop n digits dlen = Some (ds, dlen + length (dec_text (unat n))) \<and>
      length ds = length digits \<and>
      take (dlen + length (dec_text (unat n))) ds = take dlen digits @ rev (dec_text (unat n))"
proof (induction n digits dlen rule: digit_loop.induct)
  case (1 n digits dlen)
  let ?t = "dec_text (unat n)" and ?t' = "dec_text (unat n div 10)"
  let ?c = "ucast (n mod 10) + 48 :: u8" and ?d = "of_nat (unat n mod 10) + 48 :: u8"
  have c: "?c = ?d" by (simp only: ucast_mod10)
  have lt: "dlen < length digits"
    using "1.prems"(2) dec_text_nonempty [of "unat n"] by (cases ?t) auto
  then have set: "set_at digits dlen ?c = Some (digits[dlen := ?d])"
    unfolding c by (rule set_at_in_range)
  have upd: "take (Suc dlen) (digits[dlen := ?d]) = take dlen digits @ [?d]"
    using lt by (simp add: take_Suc_conv_app_nth)
  have loop: "digit_loop n digits dlen = digit_loop (n div 10) (digits[dlen := ?d]) (Suc dlen)"
    using "1.prems"(1) set by (simp add: digit_loop.simps [of n])
  show ?case
  proof (cases "unat n < 10")
    case True
    then have "unat (n div 10) = 0" by (simp add: unat_div)
    then have "n div 10 = 0" by (simp only: unat_eq_0)
    moreover have "?t = [?d]" using True by (simp add: dec_text.simps [of "unat n"])
    ultimately show ?thesis
      using loop upd lt by (simp add: digit_loop.simps [of 0])
  next
    case False
    have u: "unat (n div 10) = unat n div 10" by (simp add: unat_div)
    with False have "n div 10 > 0" by (simp add: word_less_nat_alt)
    moreover have t: "?t = ?t' @ [?d]" using False by (simp add: dec_text.simps [of "unat n"])
    moreover have "Suc dlen + length ?t' \<le> length (digits[dlen := ?d])" using "1.prems"(2) t by simp
    ultimately obtain ds where ds: "digit_loop (n div 10) (digits[dlen := ?d]) (Suc dlen)
        = Some (ds, Suc dlen + length ?t')" "length ds = length digits"
      "take (Suc dlen + length ?t') ds = take (Suc dlen) (digits[dlen := ?d]) @ rev ?t'"
      using "1.IH" [OF "1.prems"(1) set] unfolding u by auto
    have "Suc dlen + length ?t' = dlen + length ?t" by (simp add: t)
    with ds(3) have "take (dlen + length ?t) ds = take dlen digits @ rev ?t"
      unfolding upd by (simp add: t)
    then show ?thesis using ds(1,2) loop by (intro exI [of _ ds]) (simp add: t)
  qed
qed

lemma digits_of_u64:
  assumes "val \<noteq> 0"
  shows "\<exists>ds. digit_loop val (replicate 20 0) 0 = Some (ds, length (dec_text (unat val))) \<and>
    length ds = 20 \<and> map ((!) ds) (rev [0..<length (dec_text (unat val))]) = dec_text (unat val)"
proof -
  let ?n = "length (dec_text (unat val))"
  have "val > 0" using assms by (simp add: word_gt_0)
  then obtain ds where ds: "digit_loop val (replicate 20 0) 0 = Some (ds, ?n)" "length ds = 20"
    "take ?n ds = rev (dec_text (unat val))"
    using digit_loop_spec [of val 0 "replicate 20 0"] length_dec_text_u64 [of val] by auto
  have "map ((!) ds) [0..<?n] = take ?n ds"
    using ds(2) length_dec_text_u64 [of val] by (intro nth_equalityI) auto
  then show ?thesis using ds by (simp add: rev_map [symmetric])
qed

lemma write_u64_decimal_emits:
  assumes "room s (length (dec_text (unat val)))"
  shows "\<exists>t. write_u64_decimal val s = Some t \<and> emits s (dec_text (unat val)) t"
proof (cases "val = 0")
  case True
  then have t: "dec_text (unat val) = [48]" by (simp add: dec_text.simps [of 0])
  show ?thesis
    using assms put_clipped_emits [of s "length (fst s)" 48] True unfolding t
    by (simp add: write_u64_decimal_def room_def)
next
  case False
  from digits_of_u64 [OF False] obtain ds
    where ds: "digit_loop val (replicate 20 0) 0 = Some (ds, length (dec_text (unat val)))" "length ds = 20"
      "map ((!) ds) (rev [0..<length (dec_text (unat val))]) = dec_text (unat val)" by blast
  have "\<exists>t. foldM (\<lambda>d t. if snd t < length (fst t) then do { c \<leftarrow> get_at ds d; put_byte c t } else Some t)
      (rev [0..<length (dec_text (unat val))]) s = Some t \<and>
      emits s (map ((!) ds) (rev [0..<length (dec_text (unat val))])) t"
  proof (rule foldM_emits [where limit = "length (fst s)"])
    fix x t assume "x \<in> set (rev [0..<length (dec_text (unat val))])" "room t 1"
    then have "get_at ds x = Some (ds ! x)" "snd t < length (fst t)"
      using ds(2) length_dec_text_u64 [of val] by (auto simp: get_at_def room_def)
    with put_byte_emits [OF \<open>room t 1\<close>]
    show "\<exists>u. (if snd t < length (fst t) then do { c \<leftarrow> get_at ds x; put_byte c t } else Some t) = Some u \<and>
        emits t [ds ! x] u" by simp
  qed (use assms in \<open>auto simp: room_def\<close>)
  with ds False show ?thesis by (simp add: write_u64_decimal_def)
qed

lemma write_slice_Cons:
  assumes "k + length (c # cs) \<le> length b"
  shows "write_slice (b[k := c]) (Suc k) cs = write_slice b k (c # cs)"
  using assms by (intro nth_equalityI) (auto simp: nth_write_slice nth_Cons' nth_list_update)

lemma foldM_enumerate_write:
  assumes "k + length xs \<le> length b" and "\<forall>x \<in> set xs. x < length ds"
  shows "foldM (\<lambda>(i, d) b. do { c \<leftarrow> get_at ds d; set_at b i c }) (enumerate k xs) b
    = Some (write_slice b k (map ((!) ds) xs))"
  using assms
proof (induction xs arbitrary: k b)
  case Nil
  then show ?case by (simp add: write_slice_def)
next
  case (Cons x xs)
  then show ?case by (simp add: in_range write_slice_Cons)
qed

lemma format_u64_spec:
  assumes "20 \<le> length buf"
  shows "\<exists>b. format_u64 buf val = Some (b, length (dec_text (unat val))) \<and> length b = length buf \<and>
    take (length (dec_text (unat val))) b = dec_text (unat val)"
proof (cases "val = 0")
  case True
  then have "dec_text (unat val) = [48]" by (simp add: dec_text.simps [of 0])
  then show ?thesis using True assms by (cases buf) (auto simp: format_u64_def set_at_def)
next
  case False
  let ?n = "length (dec_text (unat val))"
  from digits_of_u64 [OF False] obtain ds
    where ds: "digit_loop val (replicate 20 0) 0 = Some (ds, ?n)" "length ds = 20"
      "map ((!) ds) (rev [0..<?n]) = dec_text (unat val)" by blast
  let ?b = "write_slice buf 0 (dec_text (unat val))"
  have "foldM (\<lambda>(i, d) b. do { c \<leftarrow> get_at ds d; set_at b i c }) (enumerate 0 (rev [0..<?n])) buf = Some ?b"
    using foldM_enumerate_write [of 0 "rev [0..<?n]" buf ds] ds length_dec_text_u64 [of val] assms by simp
  then have "format_u64 buf val = Some (?b, ?n)" using False ds(1) by (simp add: format_u64_def)
  then show ?thesis
    using length_dec_text_u64 [of val] assms by (intro exI [of _ ?b]) (simp add: write_slice_def)
qed

lemma counter_format_u64_eq: "counter_format_u64 = format_u64"
  by (simp add: fun_eq_iff counter_format_u64_def format_u64_def)

section \<open>Sizes\<close>

definition suffix_bytes :: "string \<Rightarrow> u8 list" where
  "suffix_bytes s = map of_char s"

definition format_size :: "u8 list \<Rightarrow> u64 \<Rightarrow> sink option" where
  "format_size buf sz = do {
     let (val, suffix) =
       (if sz \<ge> 1024 * 1024 * 1024 then (sz div (1024 * 1024 * 1024), '' GiB'')
        else if sz \<ge> 1024 * 1024 then (sz div (1024 * 1024), '' MiB'')
        else if sz \<ge> 1024 then (sz div 1024, '' KiB'')
        else (sz, '' B''));
     s \<leftarrow> write_u64_decimal val (buf, 0);
     foldM (\<lambda>c t. put_clipped 24 c t) (suffix_bytes suffix) s
   }"

text \<open>The specification: the largest unit not above the size, the whole number of those units.\<close>

definition size_text :: "nat \<Rightarrow> u8 list" where
  "size_text n =
     (if n \<ge> 2 ^ 30 then dec_text (n div 2 ^ 30) @ suffix_bytes '' GiB''
      else if n \<ge> 2 ^ 20 then dec_text (n div 2 ^ 20) @ suffix_bytes '' MiB''
      else if n \<ge> 2 ^ 10 then dec_text (n div 2 ^ 10) @ suffix_bytes '' KiB''
      else dec_text n @ suffix_bytes '' B'')"

lemma format_size_unit:
  assumes "length buf = 24" and "length suffix \<le> 4"
  shows "\<exists>buf' n. (do { s \<leftarrow> write_u64_decimal val (buf, 0);
      foldM (\<lambda>c t. put_clipped 24 c t) (suffix_bytes suffix) s }) = Some (buf', n) \<and> length buf' = 24 \<and>
    n = length (dec_text (unat val) @ suffix_bytes suffix) \<and>
    take n buf' = dec_text (unat val) @ suffix_bytes suffix"
proof -
  let ?t = "dec_text (unat val)"
  have len: "length (suffix_bytes suffix) \<le> 4" using assms(2) by (simp add: suffix_bytes_def)
  have room: "room (buf, 0) (length ?t + length (suffix_bytes suffix))"
    using assms(1) length_dec_text_u64 [of val] len by (simp add: room_def)
  then have "room (buf, 0) (length ?t)" by (simp add: room_def)
  then obtain s where s: "write_u64_decimal val (buf, 0) = Some s" "emits (buf, 0) ?t s"
    using write_u64_decimal_emits by blast
  have "room s (length (suffix_bytes suffix))" using emits_room [OF s(2) room] .
  moreover from this have "snd s + length (suffix_bytes suffix) \<le> 24"
    using s(2) assms(1) by (simp add: room_def emits_def)
  ultimately obtain t where t: "foldM (\<lambda>c t. put_clipped 24 c t) (suffix_bytes suffix) s = Some t"
    "emits s (suffix_bytes suffix) t"
    using foldM_emits [of s "suffix_bytes suffix" 24 "\<lambda>c t. put_clipped 24 c t" "\<lambda>c. c"] put_clipped_emits
    by auto
  obtain buf' n where bn: "t = (buf', n)" by (cases t)
  have e: "emits (buf, 0) (?t @ suffix_bytes suffix) (buf', n)"
    using emits_trans [OF s(2) t(2)] bn by simp
  with emits_from_0 [OF e] s(1) t(1) assms(1) show ?thesis
    by (auto simp: bn emits_def)
qed

lemma format_size_spec:
  assumes "length buf = 24"
  shows "\<exists>buf' n. format_size buf sz = Some (buf', n) \<and> length buf' = 24 \<and>
    n = length (size_text (unat sz)) \<and> take n buf' = size_text (unat sz)"
proof -
  have cmp: "sz \<ge> 1073741824 \<longleftrightarrow> unat sz \<ge> 2 ^ 30" "sz \<ge> 1048576 \<longleftrightarrow> unat sz \<ge> 2 ^ 20"
    "sz \<ge> 1024 \<longleftrightarrow> unat sz \<ge> 2 ^ 10"
    by (simp_all add: word_le_nat_alt)
  have dv: "unat (sz div 1073741824) = unat sz div 2 ^ 30" "unat (sz div 1048576) = unat sz div 2 ^ 20"
    "unat (sz div 1024) = unat sz div 2 ^ 10"
    by (simp_all add: unat_div)
  note u = format_size_unit [OF assms]
  show ?thesis
    using u [of "'' GiB''" "sz div 1073741824"] u [of "'' MiB''" "sz div 1048576"]
      u [of "'' KiB''" "sz div 1024"] u [of "'' B''" sz]
    unfolding dv by (simp add: format_size_def size_text_def cmp)
qed

section \<open>Hexadecimal addresses\<close>

definition hex_digit :: "u8 \<Rightarrow> u8" where
  "hex_digit nibble = (if nibble < 10 then 48 + nibble else 97 + nibble - 10)"

definition nibble_at :: "u64 \<Rightarrow> nat \<Rightarrow> u8" where
  "nibble_at val shift = ucast (drop_bit (shift * 4) val AND 0xF)"

definition write_nibble :: "u64 \<Rightarrow> usize \<Rightarrow> nat \<Rightarrow> sink \<times> bool \<Rightarrow> (sink \<times> bool) option" where
  "write_nibble val limit shift st =
     (let (s, started) = st; nibble = nibble_at val shift
      in if nibble \<noteq> 0 \<or> started \<or> shift < 4
         then (if snd s < limit
               then do { s' \<leftarrow> put_byte (hex_digit nibble) s; Some (s', True) }
               else Some st)
         else Some st)"

definition write_hex :: "u64 \<Rightarrow> usize \<Rightarrow> sink \<Rightarrow> sink option" where
  "write_hex val limit s = do {
     n \<leftarrow> uadd (snd s) 2;
     if n > limit then Some s
     else do {
       s1 \<leftarrow> put_byte 48 s;
       s2 \<leftarrow> put_byte 120 s1;
       (s3, _) \<leftarrow> foldM (write_nibble val limit) (rev [0..<16]) (s2, False);
       Some s3
     }
   }"

definition format_addr_range :: "u8 list \<Rightarrow> u64 \<Rightarrow> u64 \<Rightarrow> sink option" where
  "format_addr_range buf start_addr end_addr = do {
     s \<leftarrow> write_hex start_addr 40 (buf, 0);
     n \<leftarrow> uadd (snd s) 1;
     s \<leftarrow> (if n \<le> 40 then put_byte 45 s else Some s);
     write_hex end_addr 40 s
   }"

text \<open>The specification: the sixteen hexadecimal digits of the value without the leading zeros, but
  at least the last four; read back by position.\<close>

definition nibbles :: "u64 \<Rightarrow> nat list \<Rightarrow> u8 list" where
  "nibbles val shifts = map (nibble_at val) shifts"

definition hex_nibbles :: "u64 \<Rightarrow> u8 list" where
  "hex_nibbles val = dropWhile (\<lambda>d. d = 0) (nibbles val (rev [4..<16])) @ nibbles val (rev [0..<4])"

definition hex_text :: "u64 \<Rightarrow> u8 list" where
  "hex_text val = [48, 120] @ map hex_digit (hex_nibbles val)"

definition hex_value :: "u8 \<Rightarrow> nat" where
  "hex_value c = (if unat c < 58 then unat c - 48 else unat c - 87)"

definition parse_hex :: "u8 list \<Rightarrow> nat" where
  "parse_hex bs = foldl (\<lambda>acc c. acc * 16 + hex_value c) 0 (drop 2 bs)"

lemma unat_nibble: "unat (nibble_at val k) = unat val div 16 ^ k mod 16"
proof -
  have "drop_bit (k * 4) val AND 0xF = take_bit 4 (drop_bit (k * 4) val)"
    by (simp add: take_bit_eq_mask mask_eq_exp_minus_1)
  then have "nibble_at val k = ucast (take_bit 4 (drop_bit (k * 4) val))" by (simp add: nibble_at_def)
  moreover have "unat (take_bit 4 (drop_bit (k * 4) val)) = unat val div 16 ^ k mod 16"
  proof -
    have "2 ^ (k * 4) = (16 :: nat) ^ k" by (simp only: mult.commute [of k 4] power_mult) simp
    then show ?thesis
      unfolding unsigned_take_bit_eq unat_drop_bit_eq by (simp add: take_bit_eq_mod drop_bit_eq_div)
  qed
  ultimately show ?thesis by (simp add: unsigned_ucast_eq take_bit_nat_eq_self)
qed

lemma nibble_less: "unat (nibble_at val k) < 16"
  by (simp add: unat_nibble)

lemma hex_value_digit: "unat d < 16 \<Longrightarrow> hex_value (hex_digit d) = unat d"
proof -
  assume d: "unat d < 16"
  show ?thesis
  proof (cases "d < 10")
    case True
    then have "unat d < 10" by (simp add: word_less_nat_alt)
    then have "unat (48 + d) = 48 + unat d" by (simp add: unat_word_ariths)
    then show ?thesis using True \<open>unat d < 10\<close> by (simp add: hex_value_def hex_digit_def)
  next
    case False
    then have ge: "10 \<le> unat d" by (simp add: word_less_nat_alt)
    have "97 + d - 10 = 87 + d" by simp
    moreover have "unat (87 + d) = 87 + unat d" using d by (simp add: unat_word_ariths)
    ultimately show ?thesis using False ge by (simp add: hex_value_def hex_digit_def)
  qed
qed

text \<open>The loop: once started every digit is written, before that leading zeros are skipped.\<close>

lemma write_nibbles_started:
  assumes "room s (length shifts)" and "snd s + length shifts \<le> limit"
  shows "\<exists>t. foldM (write_nibble val limit) shifts (s, True) = Some (t, True) \<and>
    emits s (map hex_digit (nibbles val shifts)) t"
  using assms
proof (induction shifts arbitrary: s)
  case Nil
  then show ?case by (simp add: nibbles_def emits_Nil)
next
  case (Cons k ks)
  let ?c = "hex_digit (nibble_at val k)"
  have "room s 1" "snd s < limit" using Cons.prems by (auto simp: room_def)
  from put_byte_emits [OF this(1), of ?c] this(2) obtain t
    where t: "write_nibble val limit k (s, True) = Some (t, True)" "emits s [?c] t"
    by (auto simp: write_nibble_def)
  have "room t (length ks)" using emits_room [OF t(2)] Cons.prems(1) by simp
  moreover have "snd t + length ks \<le> limit" using t(2) Cons.prems(2) by (simp add: emits_def)
  ultimately obtain u where "foldM (write_nibble val limit) ks (t, True) = Some (u, True)"
    "emits t (map hex_digit (nibbles val ks)) u" using Cons.IH by blast
  with t(1) emits_trans [OF t(2)] show ?case
    by (intro exI [of _ u]) (simp add: nibbles_def)
qed

lemma write_nibble_skip:
  "nibble_at val k = 0 \<Longrightarrow> 4 \<le> k \<Longrightarrow> write_nibble val limit k (s, False) = Some (s, False)"
  by (simp add: write_nibble_def)

lemma write_nibble_start:
  "nibble_at val k \<noteq> 0 \<or> k < 4 \<Longrightarrow> snd s < limit \<Longrightarrow>
    write_nibble val limit k (s, False) = write_nibble val limit k (s, True)"
  by (auto simp: write_nibble_def split: option.splits)

lemma write_nibbles_spec:
  assumes "\<forall>k \<in> set hi. 4 \<le> k" and "\<forall>k \<in> set lo. k < 4" and "lo \<noteq> []"
    and "room s (length (hi @ lo))" and "snd s + length (hi @ lo) \<le> limit"
  shows "\<exists>t b. foldM (write_nibble val limit) (hi @ lo) (s, False) = Some (t, b) \<and>
    emits s (map hex_digit (dropWhile (\<lambda>d. d = 0) (nibbles val hi) @ nibbles val lo)) t"
  using assms
proof (induction hi)
  case Nil
  then obtain k ks where lo: "lo = k # ks" "k < 4" by (cases lo) auto
  moreover have "snd s < limit" using Nil.prems lo(1) by simp
  ultimately have "foldM (write_nibble val limit) lo (s, False) = foldM (write_nibble val limit) lo (s, True)"
    by (simp add: write_nibble_start)
  then show ?case using write_nibbles_started [of s lo limit val] Nil.prems by (auto simp: nibbles_def)
next
  case (Cons k ks)
  show ?case
  proof (cases "nibble_at val k = 0")
    case True
    with Cons.prems(1) Cons.IH Cons.prems(2-) show ?thesis
      by (auto simp: write_nibble_skip nibbles_def room_def)
  next
    case False
    moreover have "snd s < limit" using Cons.prems(5) by simp
    ultimately have "foldM (write_nibble val limit) ((k # ks) @ lo) (s, False)
      = foldM (write_nibble val limit) ((k # ks) @ lo) (s, True)"
      by (simp add: write_nibble_start)
    then show ?thesis
      using write_nibbles_started [OF Cons.prems(4,5), of val] \<open>nibble_at val k \<noteq> 0\<close> by (auto simp: nibbles_def)
  qed
qed

lemma upt_16: "rev [0..<16] = rev [4..<16] @ rev [0..<(4::nat)]"
  by (simp add: upt_rec)

lemma write_hex_emits:
  assumes "room s 18" and "snd s + 18 \<le> limit"
  shows "\<exists>t. write_hex val limit s = Some t \<and> emits s (hex_text val) t"
proof -
  have "room s 1" using assms(1) by (simp add: room_def)
  then obtain s1 where s1: "put_byte 48 s = Some s1" "emits s [48] s1" using put_byte_emits by blast
  then have "room s1 17" using emits_room [OF s1(2), of 17] assms(1) by simp
  then have "room s1 1" by (simp add: room_def)
  then obtain s2 where s2: "put_byte 120 s1 = Some s2" "emits s1 [120] s2" using put_byte_emits by blast
  have e2: "emits s [48, 120] s2" using emits_trans [OF s1(2) s2(2)] by simp
  have "room s2 16" using emits_room [OF e2, of 16] assms(1) by simp
  moreover have "snd s2 + 16 \<le> limit" using e2 assms(2) by (simp add: emits_def)
  ultimately obtain t b where t: "foldM (write_nibble val limit) (rev [0..<16]) (s2, False) = Some (t, b)"
    "emits s2 (map hex_digit (hex_nibbles val)) t"
    using write_nibbles_spec [of "rev [4..<16]" "rev [0..<4]" s2 limit val]
    unfolding upt_16 hex_nibbles_def by auto
  have "uadd (snd s) 2 = Some (snd s + 2)" using assms(1) by (intro uadd_in_range) (simp add: room_def)
  then have "write_hex val limit s = Some t"
    using assms(2) s1(1) s2(1) t(1) by (simp add: write_hex_def)
  with emits_trans [OF e2 t(2)] show ?thesis by (simp add: hex_text_def)
qed

lemma length_hex_text: "length (hex_text val) \<le> 18"
  using length_dropWhile_le [of "\<lambda>d. d = 0" "nibbles val (rev [4..<16])"]
  by (simp add: hex_text_def hex_nibbles_def nibbles_def)

lemma format_addr_range_spec:
  assumes "length buf = 40"
  shows "\<exists>buf' n. format_addr_range buf a b = Some (buf', n) \<and> length buf' = 40 \<and>
    n = length (hex_text a @ [45] @ hex_text b) \<and> take n buf' = hex_text a @ [45] @ hex_text b"
proof -
  have "room (buf, 0) 18" using assms by (simp add: room_def)
  then obtain s where s: "write_hex a 40 (buf, 0) = Some s" "emits (buf, 0) (hex_text a) s"
    using write_hex_emits [of "(buf, 0)" 40 a] by auto
  have len: "snd s \<le> 18" "length (fst s) = 40"
    using s(2) length_hex_text [of a] assms by (auto simp: emits_def)
  then have "room s 1" by (simp add: room_def)
  then obtain t where t: "put_byte 45 s = Some t" "emits s [45] t" using put_byte_emits by blast
  then have "room t 18" "snd t + 18 \<le> 40" using len by (auto simp: emits_def room_def)
  then obtain u where u: "write_hex b 40 t = Some u" "emits t (hex_text b) u"
    using write_hex_emits by blast
  have e: "emits (buf, 0) (hex_text a @ [45] @ hex_text b) (fst u, snd u)"
    using emits_trans [OF s(2) emits_trans [OF t(2) u(2)]] by simp
  have "uadd (snd s) 1 = Some (snd s + 1)" using len by (intro uadd_in_range) simp
  then have "format_addr_range buf a b = Some (fst u, snd u)"
    using s(1) t(1) u(1) len by (simp add: format_addr_range_def)
  moreover have "length (fst u) = 40" using e assms by (simp add: emits_def)
  ultimately show ?thesis using emits_from_0 [OF e] by auto
qed

text \<open>Reading the digits back.\<close>

definition base16 :: "nat \<Rightarrow> u8 list \<Rightarrow> nat" where
  "base16 acc ds = foldl (\<lambda>acc d. acc * 16 + unat d) acc ds"

lemma base16_append: "base16 acc (xs @ ys) = base16 (base16 acc xs) ys"
  by (simp add: base16_def)

lemma base16_dropWhile: "base16 0 (dropWhile (\<lambda>d. d = 0) xs) = base16 0 xs"
  by (induction xs) (auto simp: base16_def)

lemma base16_nibbles:
  "base16 acc (nibbles val (rev [0..<n])) = acc * 16 ^ n + unat val mod 16 ^ n"
proof (induction n arbitrary: acc)
  case 0
  then show ?case by (simp add: base16_def nibbles_def)
next
  case (Suc n)
  let ?d = "unat val div 16 ^ n mod 16"
  have "base16 acc (nibbles val (rev [0..<Suc n])) = base16 (acc * 16 + ?d) (nibbles val (rev [0..<n]))"
    by (simp add: base16_def nibbles_def unat_nibble)
  also have "\<dots> = (acc * 16 + ?d) * 16 ^ n + unat val mod 16 ^ n" by (rule Suc)
  also have "\<dots> = acc * 16 ^ Suc n + unat val mod 16 ^ Suc n"
    using mod_mult2_eq [of "unat val" "16 ^ n" 16] by (simp add: algebra_simps)
  finally show ?case .
qed

lemma nibbles_less: "d \<in> set (nibbles val ks) \<Longrightarrow> unat d < 16"
  by (auto simp: nibbles_def nibble_less)

lemma hex_nibbles_less: "d \<in> set (hex_nibbles val) \<Longrightarrow> unat d < 16"
  unfolding hex_nibbles_def set_append Un_iff by (metis nibbles_less set_dropWhileD)

lemma parse_hex_text: "parse_hex (hex_text val) = unat val"
proof -
  note digits = hex_nibbles_less [of _ val]
  have "foldl (\<lambda>acc c. acc * 16 + hex_value c) a (map hex_digit ds) = base16 a ds"
    if "\<forall>d \<in> set ds. unat d < 16" for a ds
    using that by (induction ds arbitrary: a) (auto simp: base16_def hex_value_digit)
  then have "parse_hex (hex_text val) = base16 0 (hex_nibbles val)"
    using digits by (simp add: parse_hex_def hex_text_def)
  also have "\<dots> = base16 0 (nibbles val (rev [0..<16]))"
    by (simp only: hex_nibbles_def upt_16 nibbles_def map_append base16_append base16_dropWhile)
  also have "\<dots> = unat val mod 16 ^ 16" by (simp only: base16_nibbles)
  also have "\<dots> = unat val"
  proof -
    have "unat val < 2 ^ 64" using unsigned_less [of val] by simp
    then show ?thesis by simp
  qed
  finally show ?thesis .
qed

lemma hex_text_no_dash: "45 \<notin> set (hex_text val)"
proof -
  have "hex_digit d \<noteq> 45" if "unat d < 16" for d
  proof (cases "d < 10")
    case True
    then have "unat (48 + d) = 48 + unat d" by (simp add: unat_word_ariths word_less_nat_alt)
    then have "unat (48 + d) \<noteq> unat (45 :: u8)" by simp
    then have "48 + d \<noteq> 45" by metis
    then show ?thesis using True by (simp add: hex_digit_def)
  next
    case False
    have "unat (87 + d) = 87 + unat d" using that by (simp add: unat_word_ariths)
    then have "unat (87 + d) \<noteq> unat (45 :: u8)" by simp
    then have "87 + d \<noteq> 45" by metis
    moreover have "97 + d - 10 = 87 + d" by simp
    ultimately show ?thesis using False by (simp add: hex_digit_def)
  qed
  then show ?thesis using hex_nibbles_less [of _ val] by (auto simp: hex_text_def)
qed

section \<open>Properties\<close>

text \<open>C40: both copies of \<open>format_u64\<close> print every 64-bit number: in a buffer of 24 bytes they never
  panic, return the number of bytes written (at most 20), and those bytes are ASCII digits that
  read back as the number, without a leading zero.\<close>

theorem format_u64_roundtrip:
  assumes "length buf = 24"
  shows "\<exists>b n. format_u64 buf val = Some (b, n) \<and> counter_format_u64 buf val = Some (b, n) \<and> n \<le> 20 \<and>
    parse_dec (take n b) = unat val \<and> (\<forall>c \<in> set (take n b). 48 \<le> unat c \<and> unat c \<le> 57) \<and>
    (val \<noteq> 0 \<longrightarrow> hd (take n b) \<noteq> 48)"
proof -
  have "20 \<le> length buf" using assms by simp
  from format_u64_spec [OF this, of val] obtain b
    where "format_u64 buf val = Some (b, length (dec_text (unat val)))"
      "take (length (dec_text (unat val))) b = dec_text (unat val)" by blast
  then show ?thesis
    using length_dec_text_u64 [of val] dec_text_ascii [of _ "unat val"] hd_dec_text [of "unat val"]
    by (simp add: counter_format_u64_eq parse_dec_text unat_gt_0)
qed

theorem format_u64_roundtrip_witness:
  "\<exists>b n. format_u64 (replicate 24 0) 18446744073709551615 = Some (b, n) \<and>
    parse_dec (take n b) = 18446744073709551615"
proof -
  have u: "unat (18446744073709551615 :: u64) = 18446744073709551615" by simp
  show ?thesis
    using format_u64_roundtrip [of "replicate 24 0" "18446744073709551615"] unfolding u by auto
qed

text \<open>\<open>format_size\<close> fits every size in its 24 bytes and prints the whole number of the largest
  fitting unit: the number shown times the unit is at most the size, which is less than one unit
  more, and the number is below 1024 except in GiB.\<close>

lemma format_size_correct:
  assumes "length buf = 24"
  shows "\<exists>buf' n q u suffix. format_size buf sz = Some (buf', n) \<and> length buf' = 24 \<and> n \<le> 24 \<and>
    (u, suffix) \<in> {(1, '' B''), (1024, '' KiB''), (1024 ^ 2, '' MiB''), (1024 ^ 3, '' GiB'')} \<and>
    take n buf' = dec_text q @ suffix_bytes suffix \<and>
    q * u \<le> unat sz \<and> unat sz < (q + 1) * u \<and> (q < 1024 \<or> u = 1024 ^ 3) \<and> (u = 1 \<or> 1 \<le> q)"
proof -
  from format_size_spec [OF assms, of sz] obtain buf' n where
    fs: "format_size buf sz = Some (buf', n)" "length buf' = 24" "n = length (size_text (unat sz))"
      "take n buf' = size_text (unat sz)" by blast
  have n: "n \<le> 24" using fs(2-4) by (metis length_take min.cobounded1)
  have div: "unat sz div u * u \<le> unat sz" "unat sz < (unat sz div u + 1) * u" if "0 < u" for u
    using that dividend_less_div_times [of u "unat sz"] by (auto simp: algebra_simps)
  consider "2 ^ 30 \<le> unat sz" | "2 ^ 20 \<le> unat sz" "unat sz < 2 ^ 30" | "2 ^ 10 \<le> unat sz" "unat sz < 2 ^ 20"
    | "unat sz < 2 ^ 10" by linarith
  then show ?thesis
  proof cases
    case 1
    then have "take n buf' = dec_text (unat sz div 2 ^ 30) @ suffix_bytes '' GiB''" "1 \<le> unat sz div 2 ^ 30"
      using fs(4) by (auto simp: size_text_def div_greater_zero_iff Suc_le_eq)
    with fs(1,2) n div [of "1024 ^ 3"] show ?thesis
      by (intro exI [of _ buf'] exI [of _ n] exI [of _ "unat sz div 2 ^ 30"] exI [of _ "1024 ^ 3"]
          exI [of _ "'' GiB''"]) simp
  next
    case 2
    then have "take n buf' = dec_text (unat sz div 2 ^ 20) @ suffix_bytes '' MiB''" "1 \<le> unat sz div 2 ^ 20"
      "unat sz div 2 ^ 20 < 1024"
      using fs(4) by (auto simp: size_text_def div_greater_zero_iff Suc_le_eq less_mult_imp_div_less)
    with fs(1,2) n div [of "1024 ^ 2"] show ?thesis
      by (intro exI [of _ buf'] exI [of _ n] exI [of _ "unat sz div 2 ^ 20"] exI [of _ "1024 ^ 2"]
          exI [of _ "'' MiB''"]) simp
  next
    case 3
    then have "take n buf' = dec_text (unat sz div 2 ^ 10) @ suffix_bytes '' KiB''" "1 \<le> unat sz div 2 ^ 10"
      "unat sz div 2 ^ 10 < 1024"
      using fs(4) by (auto simp: size_text_def div_greater_zero_iff Suc_le_eq less_mult_imp_div_less)
    with fs(1,2) n div [of 1024] show ?thesis
      by (intro exI [of _ buf'] exI [of _ n] exI [of _ "unat sz div 2 ^ 10"] exI [of _ 1024]
          exI [of _ "'' KiB''"]) simp
  next
    case 4
    then have "take n buf' = dec_text (unat sz) @ suffix_bytes '' B''"
      using fs(4) by (simp add: size_text_def)
    with fs(1,2) n 4 show ?thesis
      by (intro exI [of _ buf'] exI [of _ n] exI [of _ "unat sz"] exI [of _ 1] exI [of _ "'' B''"]) simp
  qed
qed

text \<open>An address range printed by \<open>format_addr_range\<close> fits in its 40 bytes and reads back: the
  text is the two addresses in hexadecimal, separated by the only dash in it.\<close>

lemma format_addr_range_roundtrip:
  assumes "length buf = 40"
  shows "\<exists>buf' n xs ys. format_addr_range buf a b = Some (buf', n) \<and> length buf' = 40 \<and> n \<le> 37 \<and>
    take n buf' = xs @ [45] @ ys \<and> 45 \<notin> set xs \<and> 45 \<notin> set ys \<and>
    parse_hex xs = unat a \<and> parse_hex ys = unat b"
proof -
  from format_addr_range_spec [OF assms, of a b] obtain buf' n where
    r: "format_addr_range buf a b = Some (buf', n)" "length buf' = 40"
      "n = length (hex_text a @ [45] @ hex_text b)" "take n buf' = hex_text a @ [45] @ hex_text b" by blast
  with length_hex_text [of a] length_hex_text [of b] hex_text_no_dash parse_hex_text show ?thesis
    by (intro exI [of _ buf'] exI [of _ n] exI [of _ "hex_text a"] exI [of _ "hex_text b"]) simp
qed

end
