(* ===== verification/Surface.thy ===== *)
theory Surface
  imports Prelude
begin

text \<open>
  The interface between the drawing routines and the pixel store. A picture is a list of paint
  strokes, each a set of points and a colour, applied from the first to the last; \<open>render\<close> is
  the value a point ends up with. The locale \<open>surface\<close> states what a store of pixels promises
  about writing one point: inside the canvas it changes that point alone, outside it does
  nothing, and a later colour hides an earlier one. From these laws follow the rules for
  loops and sequences of drawing operations: \<open>draws f pic\<close> says that the operation \<open>f\<close> never
  panics and that its effect on the store is the picture \<open>pic\<close>.
\<close>

type_synonym ('p, 'c) picture = "('p set \<times> 'c) list"

definition render :: "('c \<Rightarrow> 'v \<Rightarrow> 'v) \<Rightarrow> ('p, 'c) picture \<Rightarrow> 'p \<Rightarrow> 'v \<Rightarrow> 'v" where
  "render enc pic q v = foldl (\<lambda>v (P, c). if q \<in> P then enc c v else v) v pic"

lemma render_Nil [simp]: "render enc [] q v = v"
  by (simp add: render_def)

lemma render_Cons [simp]:
  "render enc ((P, c) # pic) q v = render enc pic q (if q \<in> P then enc c v else v)"
  by (simp add: render_def)

lemma render_append [simp]: "render enc (p @ p') q v = render enc p' q (render enc p q v)"
  by (simp add: render_def)

lemma render_untouched: "\<forall>(P, c) \<in> set pic. q \<notin> P \<Longrightarrow> render enc pic q v = v"
  by (induction pic) auto

text \<open>The colour a picture shows at a point: the last stroke that covers it.\<close>

definition colour_at :: "('p, 'c) picture \<Rightarrow> 'p \<Rightarrow> 'c option" where
  "colour_at pic q = foldl (\<lambda>r (P, c). if q \<in> P then Some c else r) None pic"

lemma colour_at_Nil [simp]: "colour_at [] q = None"
  by (simp add: colour_at_def)

lemma colour_at_snoc [simp]:
  "colour_at (pic @ [(P, c)]) q = (if q \<in> P then Some c else colour_at pic q)"
  by (simp add: colour_at_def)

lemma colour_at_append:
  "colour_at (p @ p') q = (case colour_at p' q of None \<Rightarrow> colour_at p q | Some c \<Rightarrow> Some c)"
proof (induction p' rule: rev_induct)
  case (snoc s p')
  then show ?case
    by (cases s) (simp add: append_assoc [symmetric] del: append_assoc split: option.split)
qed simp

lemma colour_at_Cons [simp]:
  "colour_at ((P, c) # pic) q = (case colour_at pic q of None \<Rightarrow> if q \<in> P then Some c else None | Some d \<Rightarrow> Some d)"
proof -
  have "colour_at [(P, c)] q = (if q \<in> P then Some c else None)" by (simp add: colour_at_def)
  then show ?thesis using colour_at_append [of "[(P, c)]" pic q] by (simp split: option.split)
qed

locale surface =
  fixes put :: "'p \<Rightarrow> 'c \<Rightarrow> 's \<Rightarrow> 's option"
    and view :: "'s \<Rightarrow> 'p \<Rightarrow> 'v"
    and enc :: "'c \<Rightarrow> 'v \<Rightarrow> 'v"
    and ok :: "'s \<Rightarrow> bool"
    and canvas :: "'p set"
  assumes put_inside: "ok s \<Longrightarrow> p \<in> canvas \<Longrightarrow>
      \<exists>t. put p c s = Some t \<and> ok t \<and> (\<forall>q. view t q = (if q = p then enc c (view s q) else view s q))"
    and put_outside: "ok s \<Longrightarrow> p \<notin> canvas \<Longrightarrow> put p c s = Some s"
    and enc_hides: "enc c (enc c' v) = enc c v"
begin

definition paints :: "('p, 'c) picture \<Rightarrow> 's \<Rightarrow> 's \<Rightarrow> bool" where
  "paints pic s t \<longleftrightarrow> ok t \<and>
     (\<forall>q. view t q = (if q \<in> canvas then render enc pic q (view s q) else view s q))"

definition draws :: "('s \<Rightarrow> 's option) \<Rightarrow> ('p, 'c) picture \<Rightarrow> bool" where
  "draws f pic \<longleftrightarrow> (\<forall>s. ok s \<longrightarrow> (\<exists>t. f s = Some t \<and> paints pic s t))"

lemma drawsI: "(\<And>s. ok s \<Longrightarrow> \<exists>t. f s = Some t \<and> paints pic s t) \<Longrightarrow> draws f pic"
  by (simp add: draws_def)

lemma drawsE:
  assumes "draws f pic" and "ok s"
  obtains t where "f s = Some t" and "paints pic s t"
  using assms by (auto simp: draws_def)

lemma paints_ok: "paints pic s t \<Longrightarrow> ok t"
  by (simp add: paints_def)

lemma paints_view:
  "paints pic s t \<Longrightarrow> view t q = (if q \<in> canvas then render enc pic q (view s q) else view s q)"
  by (simp add: paints_def)

lemma paints_trans: "paints p s t \<Longrightarrow> paints p' t u \<Longrightarrow> paints (p @ p') s u"
  by (simp add: paints_def)

lemma draws_nothing: "draws Some []"
  by (simp add: draws_def paints_def)

lemma draws_put: "draws (put p c) [({p}, c)]"
proof (rule drawsI)
  fix s assume ok: "ok s"
  show "\<exists>t. put p c s = Some t \<and> paints [({p}, c)] s t"
  proof (cases "p \<in> canvas")
    case True
    then obtain t where "put p c s = Some t" "ok t"
      "\<forall>q. view t q = (if q = p then enc c (view s q) else view s q)"
      using put_inside [OF ok] by blast
    then show ?thesis by (intro exI [of _ t]) (auto simp: paints_def True)
  next
    case False
    then show ?thesis using ok put_outside [OF ok False] by (auto simp: paints_def)
  qed
qed

lemma draws_seq:
  assumes "draws f p" and "draws g p'"
  shows "draws (\<lambda>s. f s \<bind> g) (p @ p')"
proof (rule drawsI)
  fix s assume "ok s"
  then obtain t where t: "f s = Some t" "paints p s t" using drawsE [OF assms(1)] by blast
  then obtain u where u: "g t = Some u" "paints p' t u" using drawsE [OF assms(2)] paints_ok by blast
  show "\<exists>u. f s \<bind> g = Some u \<and> paints (p @ p') s u"
    using t u paints_trans by (intro exI [of _ u]) simp
qed

lemma draws_loop:
  assumes "\<And>x. x \<in> set xs \<Longrightarrow> draws (f x) (p x)"
  shows "draws (foldM f xs) (concat (map p xs))"
  using assms
proof (induction xs)
  case Nil
  then show ?case by (auto simp: draws_def paints_def)
next
  case (Cons x xs)
  have "draws (\<lambda>s. f x s \<bind> foldM f xs) (p x @ concat (map p xs))"
    by (rule draws_seq) (use Cons in auto)
  moreover have "(\<lambda>s. f x s \<bind> foldM f xs) = foldM f (x # xs)"
    by (auto simp: fun_eq_iff split: option.splits)
  ultimately show ?case by (simp only: list.map concat.simps)
qed

lemma draws_same:
  assumes "draws f p" and "\<And>q v. q \<in> canvas \<Longrightarrow> render enc p q v = render enc p' q v"
  shows "draws f p'"
  using assms(1) assms(2) by (simp add: draws_def paints_def cong: conj_cong if_cong)

lemma render_concat_one_colour:
  "render enc (map (\<lambda>x. (P x, c)) xs) q v = (if \<exists>x \<in> set xs. q \<in> P x then enc c v else v)"
  by (induction xs arbitrary: v) (auto simp: enc_hides)

lemma draws_loop_one_colour:
  assumes "\<And>x. x \<in> set xs \<Longrightarrow> draws (f x) [(P x, c)]"
  shows "draws (foldM f xs) [(\<Union>x \<in> set xs. P x, c)]"
  by (rule draws_same [OF draws_loop [of xs f "\<lambda>x. [(P x, c)]"]])
    (auto simp: assms render_concat_one_colour)

lemma render_colour_at:
  "render enc pic q v = (case colour_at pic q of None \<Rightarrow> v | Some c \<Rightarrow> enc c v)"
  by (induction pic rule: rev_induct) (auto simp: enc_hides split: option.split)

lemma draws_same_colours:
  "draws f p \<Longrightarrow> (\<And>q. q \<in> canvas \<Longrightarrow> colour_at p q = colour_at p' q) \<Longrightarrow> draws f p'"
  by (erule draws_same) (simp add: render_colour_at)

lemma draws_one_colour_seq:
  assumes "draws f [(P, c)]" and "draws g [(Q, c)]"
  shows "draws (\<lambda>s. f s \<bind> g) [(P \<union> Q, c)]"
  by (rule draws_same [OF draws_seq [OF assms]]) (auto simp: enc_hides)

lemma draws_one_colour_cong:
  assumes "draws f [(P, c)]" and "P \<inter> canvas = Q \<inter> canvas"
  shows "draws f [(Q, c)]"
  by (rule draws_same [OF assms(1)]) (use assms(2) in auto)

lemma draws_when: "draws f [(P, c)] \<Longrightarrow> draws (\<lambda>s. if b then f s else Some s) [(if b then P else {}, c)]"
  by (auto simp: draws_def paints_def)

end

end
