(* ===== verification/Framebuffer.thy ===== *)
theory Framebuffer
  imports Surface
begin

text \<open>
  The pixels of \<^verbatim>\<open>kernel/src/framebuffer.rs\<close>: the layout of a frame buffer (the types
  \<^verbatim>\<open>FrameBufferInfo\<close> and \<^verbatim>\<open>PixelFormat\<close> of the crate \<^verbatim>\<open>bootloader_api\<close>, the fields and
  constructors the kernel names, \<open>OtherFormat\<close> standing for the rest of a non-exhaustive
  enumeration), \<open>put_pixel\<close> and \<open>read_pixel\<close> for every pixel format, and the proof that they
  implement the interface \<open>surface\<close>.
\<close>

section \<open>Frame buffers\<close>

datatype pixel_format = Rgb | Bgr | U8 | UnknownFormat (red_position: u8) (green_position: u8) (blue_position: u8) | OtherFormat

record fb_info =
  width :: usize
  height :: usize
  stride :: usize
  bytes_per_pixel :: usize
  pixel_format :: pixel_format

type_synonym rgb = "u8 \<times> u8 \<times> u8"
type_synonym fb_buffer = "u8 list"

section \<open>Integer operations on 32-bit pixels\<close>

definition u32_shl :: "u32 \<Rightarrow> u8 \<Rightarrow> u32 option" where
  "u32_shl v n = (if unat n < 32 then Some (push_bit (unat n) v) else None)"

definition u32_shr :: "u32 \<Rightarrow> u8 \<Rightarrow> u32 option" where
  "u32_shr v n = (if unat n < 32 then Some (drop_bit (unat n) v) else None)"

definition to_le_bytes :: "u32 \<Rightarrow> u8 list" where
  "to_le_bytes p = map (\<lambda>i. ucast (drop_bit (8 * i) p)) [0..<4]"

definition u16_add :: "u16 \<Rightarrow> u16 \<Rightarrow> u16 option" where
  "u16_add a b = (if unat a + unat b < 2 ^ 16 then Some (a + b) else None)"

section \<open>Reading and writing one pixel\<close>

definition pixel_offset :: "fb_info \<Rightarrow> usize \<Rightarrow> usize \<Rightarrow> usize option" where
  "pixel_offset info x y = do {
     row \<leftarrow> umul y (stride info);
     i \<leftarrow> uadd row x;
     umul i (bytes_per_pixel info)
   }"

definition store_rgb :: "usize \<Rightarrow> usize \<Rightarrow> u8 \<Rightarrow> u8 \<Rightarrow> u8 \<Rightarrow> fb_buffer \<Rightarrow> fb_buffer option" where
  "store_rgb bpp offset b0 b1 b2 buf = do {
     buf \<leftarrow> set_at buf offset b0;
     buf \<leftarrow> set_at buf (offset + 1) b1;
     buf \<leftarrow> set_at buf (offset + 2) b2;
     if 4 \<le> bpp then set_at buf (offset + 3) 0xFF else Some buf
   }"

definition grey_level :: "u8 \<Rightarrow> u8 \<Rightarrow> u8 \<Rightarrow> u8 option" where
  "grey_level r g b = do {
     s \<leftarrow> u16_add (ucast r) (ucast g);
     s \<leftarrow> u16_add s (ucast b);
     Some (ucast (s div 3))
   }"

definition pack_pixel :: "u8 \<Rightarrow> u8 \<Rightarrow> u8 \<Rightarrow> u8 \<Rightarrow> u8 \<Rightarrow> u8 \<Rightarrow> u32 option" where
  "pack_pixel rp gp bp r g b = do {
     rr \<leftarrow> u32_shl (ucast r) rp;
     gg \<leftarrow> u32_shl (ucast g) gp;
     bb \<leftarrow> u32_shl (ucast b) bp;
     Some (0 OR rr OR gg OR bb)
   }"

definition copy_into :: "fb_buffer \<Rightarrow> usize \<Rightarrow> u8 list \<Rightarrow> fb_buffer option" where
  "copy_into dst off src = (if off + length src \<le> length dst then Some (write_slice dst off src) else None)"

definition put_pixel :: "fb_info \<Rightarrow> usize \<Rightarrow> usize \<Rightarrow> rgb \<Rightarrow> fb_buffer \<Rightarrow> fb_buffer option" where
  "put_pixel info x y = (\<lambda>(r, g, b) buf.
     if width info \<le> x \<or> height info \<le> y then Some buf
     else do {
       let bpp = bytes_per_pixel info;
       offset \<leftarrow> pixel_offset info x y;
       end \<leftarrow> uadd offset bpp;
       if length buf < end then Some buf
       else (case pixel_format info of
           Rgb \<Rightarrow> store_rgb bpp offset r g b buf
         | Bgr \<Rightarrow> store_rgb bpp offset b g r buf
         | U8 \<Rightarrow> do { v \<leftarrow> grey_level r g b; set_at buf offset v }
         | UnknownFormat rp gp bp \<Rightarrow> do {
             pixel \<leftarrow> pack_pixel rp gp bp r g b;
             copy_into buf offset (take (min bpp 4) (to_le_bytes pixel))
           }
         | OtherFormat \<Rightarrow> Some buf)
     })"

definition unpack_bytes :: "fb_buffer \<Rightarrow> usize \<Rightarrow> usize \<Rightarrow> u32 option" where
  "unpack_bytes buf offset len = foldM (\<lambda>i raw. do {
     v \<leftarrow> get_at buf (offset + i);
     s \<leftarrow> u32_shl (ucast v) (of_nat (i * 8));
     Some (raw OR s)
   }) [0..<len] 0"

definition channel :: "u32 \<Rightarrow> u8 \<Rightarrow> u8 option" where
  "channel raw pos = do { s \<leftarrow> u32_shr raw pos; Some (ucast (s AND 0xFF)) }"

definition read_pixel :: "fb_info \<Rightarrow> fb_buffer \<Rightarrow> usize \<Rightarrow> usize \<Rightarrow> rgb option" where
  "read_pixel info buf x y =
     (if width info \<le> x \<or> height info \<le> y then Some (0, 0, 0)
      else do {
        let bpp = bytes_per_pixel info;
        offset \<leftarrow> pixel_offset info x y;
        end \<leftarrow> uadd offset bpp;
        if length buf < end then Some (0, 0, 0)
        else (case pixel_format info of
            Rgb \<Rightarrow> do {
              r \<leftarrow> get_at buf offset; g \<leftarrow> get_at buf (offset + 1); b \<leftarrow> get_at buf (offset + 2);
              Some (r, g, b) }
          | Bgr \<Rightarrow> do {
              r \<leftarrow> get_at buf (offset + 2); g \<leftarrow> get_at buf (offset + 1); b \<leftarrow> get_at buf offset;
              Some (r, g, b) }
          | U8 \<Rightarrow> do { v \<leftarrow> get_at buf offset; Some (v, v, v) }
          | UnknownFormat rp gp bp \<Rightarrow> do {
              raw \<leftarrow> unpack_bytes buf offset (min bpp 4);
              r \<leftarrow> channel raw rp;
              g \<leftarrow> channel raw gp;
              b \<leftarrow> channel raw bp;
              Some (r, g, b) }
          | OtherFormat \<Rightarrow> Some (0, 0, 0))
      })"

section \<open>Well-formed layouts\<close>

text \<open>What the kernel relies on of the boot loader's \<^verbatim>\<open>FrameBufferInfo\<close>: the lines do not
  overlap, the frame fits the address space, a pixel has room for its channels.\<close>

definition format_ok :: "usize \<Rightarrow> pixel_format \<Rightarrow> bool" where
  "format_ok bpp fmt = (case fmt of
      Rgb \<Rightarrow> 3 \<le> bpp | Bgr \<Rightarrow> 3 \<le> bpp | U8 \<Rightarrow> 1 \<le> bpp
    | UnknownFormat rp gp bp \<Rightarrow> 1 \<le> bpp \<and> unat rp < 32 \<and> unat gp < 32 \<and> unat bp < 32
    | OtherFormat \<Rightarrow> True)"

definition info_ok :: "fb_info \<Rightarrow> bool" where
  "info_ok info \<longleftrightarrow> width info \<le> stride info \<and> stride info < 2 ^ 64 \<and> height info < 2 ^ 64 \<and>
     stride info * height info * bytes_per_pixel info < 2 ^ 64 \<and> 0 < bytes_per_pixel info \<and>
     format_ok (bytes_per_pixel info) (pixel_format info)"

section \<open>The bytes of a pixel\<close>

definition grey :: "u8 \<Rightarrow> u8 \<Rightarrow> u8 \<Rightarrow> u8" where
  "grey r g b = ucast ((ucast r + ucast g + ucast b :: u16) div 3)"

definition packed :: "u8 \<Rightarrow> u8 \<Rightarrow> u8 \<Rightarrow> u8 \<Rightarrow> u8 \<Rightarrow> u8 \<Rightarrow> u32" where
  "packed rp gp bp r g b =
     push_bit (unat rp) (ucast r) OR push_bit (unat gp) (ucast g) OR push_bit (unat bp) (ucast b)"

definition pixel_bytes :: "fb_info \<Rightarrow> rgb \<Rightarrow> u8 list" where
  "pixel_bytes info = (\<lambda>(r, g, b). case pixel_format info of
      Rgb \<Rightarrow> [r, g, b] @ (if 4 \<le> bytes_per_pixel info then [0xFF] else [])
    | Bgr \<Rightarrow> [b, g, r] @ (if 4 \<le> bytes_per_pixel info then [0xFF] else [])
    | U8 \<Rightarrow> [grey r g b]
    | UnknownFormat rp gp bp \<Rightarrow> take (min (bytes_per_pixel info) 4) (to_le_bytes (packed rp gp bp r g b))
    | OtherFormat \<Rightarrow> [])"

definition encode :: "fb_info \<Rightarrow> rgb \<Rightarrow> u8 list \<Rightarrow> u8 list" where
  "encode info c v = pixel_bytes info c @ drop (length (pixel_bytes info c)) v"

definition pixel_index :: "fb_info \<Rightarrow> nat \<times> nat \<Rightarrow> nat" where
  "pixel_index info p = snd p * stride info + fst p"

definition stored :: "fb_info \<Rightarrow> nat \<Rightarrow> nat \<times> nat \<Rightarrow> bool" where
  "stored info n p \<longleftrightarrow> fst p < stride info \<and>
     pixel_index info p * bytes_per_pixel info + bytes_per_pixel info \<le> n"

definition canvas :: "fb_info \<Rightarrow> nat \<Rightarrow> (nat \<times> nat) set" where
  "canvas info n = {p. fst p < width info \<and> snd p < height info \<and> stored info n p}"

definition view :: "fb_info \<Rightarrow> fb_buffer \<Rightarrow> nat \<times> nat \<Rightarrow> u8 list" where
  "view info buf p = (if stored info (length buf) p
     then sub_slice buf (pixel_index info p * bytes_per_pixel info) (bytes_per_pixel info) else [])"

lemma length_to_le_bytes [simp]: "length (to_le_bytes p) = 4"
  by (simp add: to_le_bytes_def)

lemma length_pixel_bytes: "length (pixel_bytes info c) = length (pixel_bytes info c')"
  by (cases c; cases c') (simp add: pixel_bytes_def split: pixel_format.split)

lemma length_pixel_bytes_le:
  "format_ok (bytes_per_pixel info) (pixel_format info) \<Longrightarrow> length (pixel_bytes info c) \<le> bytes_per_pixel info"
  by (cases c) (auto simp: pixel_bytes_def format_ok_def split: pixel_format.splits)

lemma encode_hides: "encode info c (encode info c' v) = encode info c v"
  using length_pixel_bytes [of info c c'] by (simp add: encode_def)

lemma pixel_offset_in_range:
  assumes "info_ok info" and "x < width info" and "y < height info"
  shows "pixel_offset info x y = Some (pixel_index info (x, y) * bytes_per_pixel info)"
    and "pixel_index info (x, y) * bytes_per_pixel info + bytes_per_pixel info < 2 ^ 64"
proof -
  have "y * stride info + x < y * stride info + stride info"
    using assms by (simp add: info_ok_def)
  also have "\<dots> = Suc y * stride info" by simp
  also have "\<dots> \<le> height info * stride info" using assms(3) by (intro mult_le_mono) auto
  finally have i: "y * stride info + x + 1 \<le> height info * stride info" by simp
  have "(y * stride info + x + 1) * bytes_per_pixel info \<le> height info * stride info * bytes_per_pixel info"
    using i by (rule mult_le_mono1)
  then have b: "(y * stride info + x + 1) * bytes_per_pixel info < 2 ^ 64"
    using assms(1) by (simp add: info_ok_def mult.commute)
  then have "y * stride info + x + 1 < 2 ^ 64"
    using assms(1) by (metis One_nat_def Suc_leI info_ok_def le_less_trans mult_le_mono2 nat_mult_1_right)
  moreover have "(y * stride info + x) * bytes_per_pixel info < 2 ^ 64" using b by (simp add: algebra_simps)
  ultimately show "pixel_offset info x y = Some (pixel_index info (x, y) * bytes_per_pixel info)"
    by (simp add: pixel_offset_def pixel_index_def in_range)
  show "pixel_index info (x, y) * bytes_per_pixel info + bytes_per_pixel info < 2 ^ 64"
    using b by (simp add: pixel_index_def algebra_simps)
qed

lemma store_rgb_spec:
  assumes "3 \<le> bpp" and "offset + bpp \<le> length buf"
  shows "store_rgb bpp offset b0 b1 b2 buf =
    Some (write_slice buf offset ([b0, b1, b2] @ (if 4 \<le> bpp then [0xFF] else [])))"
proof (cases "4 \<le> bpp")
  case True
  have "buf[offset := b0, offset + 1 := b1, offset + 2 := b2, offset + 3 := 255] = write_slice buf offset [b0, b1, b2, 255]"
    using assms True by (intro nth_equalityI) (auto simp: nth_write_slice nth_list_update nth_Cons split: nat.split)
  then show ?thesis using assms True by (simp add: store_rgb_def in_range)
next
  case False
  have "buf[offset := b0, offset + 1 := b1, offset + 2 := b2] = write_slice buf offset [b0, b1, b2]"
    using assms by (intro nth_equalityI) (auto simp: nth_write_slice nth_list_update nth_Cons split: nat.split)
  then show ?thesis using assms False by (simp add: store_rgb_def in_range)
qed

lemma grey_level_spec: "grey_level r g b = Some (grey r g b)"
proof -
  have u: "unat r < 256" "unat g < 256" "unat b < 256"
    using unsigned_less [of r] unsigned_less [of g] unsigned_less [of b] by auto
  have "unat (ucast r :: u16) = unat r" "unat (ucast g :: u16) = unat g" "unat (ucast b :: u16) = unat b"
    using u by (simp_all add: unsigned_ucast_eq unsigned_take_bit_eq take_bit_nat_eq_self)
  with u show ?thesis
    by (simp add: grey_level_def grey_def u16_add_def unat_word_ariths)
qed

lemma pack_pixel_spec:
  "unat rp < 32 \<Longrightarrow> unat gp < 32 \<Longrightarrow> unat bp < 32 \<Longrightarrow> pack_pixel rp gp bp r g b = Some (packed rp gp bp r g b)"
  by (simp add: pack_pixel_def packed_def u32_shl_def)

lemma put_pixel_spec:
  assumes "info_ok info"
  shows "put_pixel info x y c buf = Some (if (x, y) \<in> canvas info (length buf)
    then write_slice buf (pixel_index info (x, y) * bytes_per_pixel info) (pixel_bytes info c) else buf)"
proof (cases "x < width info \<and> y < height info")
  case False
  then show ?thesis by (auto simp: put_pixel_def canvas_def split: prod.split)
next
  case True
  obtain r g b where c: "c = (r, g, b)" by (cases c)
  define off where "off = pixel_index info (x, y) * bytes_per_pixel info"
  have off: "pixel_offset info x y = Some off" "off + bytes_per_pixel info < 2 ^ 64"
    using pixel_offset_in_range [OF assms] True by (auto simp: off_def)
  have fmt: "format_ok (bytes_per_pixel info) (pixel_format info)" "width info \<le> stride info"
    using assms by (auto simp: info_ok_def)
  have canvas: "(x, y) \<in> canvas info (length buf) \<longleftrightarrow> off + bytes_per_pixel info \<le> length buf"
    using True fmt(2) by (auto simp: canvas_def stored_def off_def)
  show ?thesis
  proof (cases "off + bytes_per_pixel info \<le> length buf")
    case False
    then show ?thesis
      using canvas off True by (simp add: put_pixel_def c in_range)
  next
    case inside: True
    then show ?thesis
      using canvas off True fmt(1)
      by (auto simp: put_pixel_def c in_range pixel_bytes_def store_rgb_spec grey_level_spec pack_pixel_spec
          format_ok_def copy_into_def off_def [symmetric] write_slice_def Let_def upd_conv_take_nth_drop
          split: pixel_format.split)
  qed
qed

lemma sub_write_slice_prefix:
  assumes "length src \<le> n" and "off + n \<le> length dst"
  shows "sub_slice (write_slice dst off src) off n = src @ drop (length src) (sub_slice dst off n)"
  using assms by (intro sub_slice_eqI) (auto simp: nth_write_slice nth_append)

lemma stored_disjoint:
  assumes "stored info n p" and "stored info n q" and "p \<noteq> q"
  shows "pixel_index info p \<noteq> pixel_index info q"
proof
  assume eq: "pixel_index info p = pixel_index info q"
  have s: "fst p < stride info" "fst q < stride info" using assms by (auto simp: stored_def)
  then have "snd p = pixel_index info p div stride info" "snd q = pixel_index info q div stride info"
    by (auto simp: pixel_index_def)
  moreover have "fst p = pixel_index info p mod stride info" "fst q = pixel_index info q mod stride info"
    using s by (auto simp: pixel_index_def)
  ultimately show False using eq assms(3) by (simp add: prod_eq_iff)
qed

lemma cells_apart: "i \<noteq> j \<Longrightarrow> i * bpp + bpp \<le> j * bpp \<or> j * bpp + bpp \<le> i * (bpp :: nat)"
  by (cases i j rule: linorder_cases) (auto dest!: less_imp_Suc_add simp: algebra_simps)

lemma view_put_pixel:
  assumes "info_ok info" and "p \<in> canvas info (length buf)"
  shows "view info (write_slice buf (pixel_index info p * bytes_per_pixel info) (pixel_bytes info c)) q
    = (if q = p then encode info c (view info buf q) else view info buf q)"
proof -
  let ?bpp = "bytes_per_pixel info" and ?src = "pixel_bytes info c"
  have len: "length ?src \<le> ?bpp" using assms(1) by (intro length_pixel_bytes_le) (simp add: info_ok_def)
  have p: "stored info (length buf) p" "pixel_index info p * ?bpp + ?bpp \<le> length buf"
    using assms(2) by (auto simp: canvas_def stored_def)
  show ?thesis
  proof (cases "q = p")
    case True
    then show ?thesis using len p by (simp add: view_def encode_def sub_write_slice_prefix)
  next
    case False
    show ?thesis
    proof (cases "stored info (length buf) q")
      case True
      then have "pixel_index info q * ?bpp + ?bpp \<le> length buf" by (simp add: stored_def)
      moreover have "pixel_index info q * ?bpp + ?bpp \<le> pixel_index info p * ?bpp
        \<or> pixel_index info p * ?bpp + ?bpp \<le> pixel_index info q * ?bpp"
        using stored_disjoint [OF True p(1) False] by (rule cells_apart)
      ultimately show ?thesis
        using False True len p(2) by (auto simp: view_def sub_write_slice_other)
    qed (use False len p in \<open>simp add: view_def\<close>)
  qed
qed

interpretation fb: surface "\<lambda>p. put_pixel info (fst p) (snd p)" "view info" "encode info"
  "\<lambda>buf. info_ok info \<and> length buf = n" "canvas info n"
proof unfold_locales
  fix s :: fb_buffer and p :: "nat \<times> nat" and c
  assume ok: "info_ok info \<and> length s = n"
  show "\<exists>t. put_pixel info (fst p) (snd p) c s = Some t \<and> (info_ok info \<and> length t = n) \<and>
    (\<forall>q. view info t q = (if q = p then encode info c (view info s q) else view info s q))"
    if "p \<in> canvas info n"
  proof -
    have "length (pixel_bytes info c) \<le> bytes_per_pixel info"
      using ok by (intro length_pixel_bytes_le) (simp add: info_ok_def)
    then have "pixel_index info p * bytes_per_pixel info + length (pixel_bytes info c) \<le> length s"
      using that ok by (auto simp: canvas_def stored_def)
    then show ?thesis
      using put_pixel_spec [of info "fst p" "snd p" c s] view_put_pixel [of info p s c] that ok by simp
  qed
  show "put_pixel info (fst p) (snd p) c s = Some s" if "p \<notin> canvas info n"
    using put_pixel_spec [of info "fst p" "snd p" c s] that ok by simp
qed (rule encode_hides)

section \<open>Reading a pixel\<close>

primrec from_le :: "u8 list \<Rightarrow> nat \<Rightarrow> u32" where
  "from_le v 0 = 0"
| "from_le v (Suc i) = from_le v i OR push_bit (i * 8) (ucast (v ! i))"

definition channel_value :: "u32 \<Rightarrow> u8 \<Rightarrow> u8" where
  "channel_value raw pos = ucast (drop_bit (unat pos) raw AND 0xFF)"

definition decode :: "fb_info \<Rightarrow> u8 list \<Rightarrow> rgb" where
  "decode info v = (case pixel_format info of
      Rgb \<Rightarrow> (v ! 0, v ! 1, v ! 2)
    | Bgr \<Rightarrow> (v ! 2, v ! 1, v ! 0)
    | U8 \<Rightarrow> (v ! 0, v ! 0, v ! 0)
    | UnknownFormat rp gp bp \<Rightarrow> (let raw = from_le v (min (bytes_per_pixel info) 4)
        in (channel_value raw rp, channel_value raw gp, channel_value raw bp))
    | OtherFormat \<Rightarrow> (0, 0, 0))"

lemma unpack_bytes_spec:
  assumes "off + n \<le> length buf" and "k \<le> n" and "k \<le> 4"
  shows "unpack_bytes buf off k = Some (from_le (sub_slice buf off n) k)"
  using assms
proof (induction k)
  case 0
  then show ?case by (simp add: unpack_bytes_def)
next
  case (Suc k)
  then have "foldM (\<lambda>i raw. get_at buf (off + i) \<bind> (\<lambda>v. u32_shl (ucast v) (of_nat (i * 8)) \<bind> (\<lambda>s. Some (raw OR s))))
     [0..<k] 0 = Some (from_le (sub_slice buf off n) k)"
    by (simp add: unpack_bytes_def)
  moreover have "unat (of_nat (k * 8) :: u8) = k * 8"
    using Suc.prems(3) by (simp add: unsigned_of_nat take_bit_nat_eq_self del: of_nat_mult)
  ultimately show ?case
    using Suc.prems by (simp add: unpack_bytes_def foldM_append in_range u32_shl_def)
qed

lemma read_pixel_spec:
  assumes "info_ok info"
  shows "read_pixel info buf x y = Some (if (x, y) \<in> canvas info (length buf)
    then decode info (view info buf (x, y)) else (0, 0, 0))"
proof (cases "x < width info \<and> y < height info")
  case False
  then show ?thesis by (auto simp: read_pixel_def canvas_def)
next
  case True
  define off where "off = pixel_index info (x, y) * bytes_per_pixel info"
  have off: "pixel_offset info x y = Some off" "off + bytes_per_pixel info < 2 ^ 64"
    using pixel_offset_in_range [OF assms] True by (auto simp: off_def)
  have fmt: "format_ok (bytes_per_pixel info) (pixel_format info)" "width info \<le> stride info"
    using assms by (auto simp: info_ok_def)
  have canvas: "(x, y) \<in> canvas info (length buf) \<longleftrightarrow> off + bytes_per_pixel info \<le> length buf"
    "stored info (length buf) (x, y) \<longleftrightarrow> off + bytes_per_pixel info \<le> length buf"
    using True fmt(2) by (auto simp: canvas_def stored_def off_def)
  show ?thesis
  proof (cases "off + bytes_per_pixel info \<le> length buf")
    case False
    then show ?thesis using canvas off True by (simp add: read_pixel_def in_range)
  next
    case inside: True
    then show ?thesis
      using canvas off True fmt(1)
      by (auto simp: read_pixel_def in_range decode_def view_def off_def [symmetric] format_ok_def
          unpack_bytes_spec channel_def u32_shr_def channel_value_def Let_def split: pixel_format.split)
  qed
qed

lemma bit_from_le:
  "k \<le> length v \<Longrightarrow> k \<le> 4 \<Longrightarrow> bit (from_le v k) n \<longleftrightarrow> n < 8 * k \<and> bit (v ! (n div 8)) (n mod 8)"
proof (induction k)
  case 0
  then show ?case by simp
next
  case (Suc k)
  consider "n < 8 * k" | "8 * k \<le> n" "n < 8 * Suc k" | "8 * Suc k \<le> n" by linarith
  then show ?case
  proof cases
    case 1
    then show ?thesis using Suc by (simp add: bit_or_iff bit_push_bit_iff)
  next
    case 2
    then have "n div 8 = k" "n mod 8 = n - k * 8" by (auto simp: div_nat_eqI modulo_nat_def)
    moreover have "n - k * 8 < 32" using 2 by simp
    moreover have "\<not> bit (from_le v k) n" using Suc 2 by simp
    ultimately show ?thesis using 2 Suc.prems
      by (simp add: bit_or_iff bit_push_bit_iff bit_ucast_iff mult.commute)
  next
    case 3
    then have "\<not> bit (v ! k) (n - k * 8)" using bit_imp_le_length [of "v ! k" "n - k * 8"] by auto
    then show ?thesis using Suc 3 by (auto simp: bit_or_iff bit_push_bit_iff bit_ucast_iff)
  qed
qed

lemma bit_to_le_bytes: "i < 4 \<Longrightarrow> bit (to_le_bytes p ! i) n \<longleftrightarrow> n < 8 \<and> bit p (8 * i + n)"
  by (auto simp: to_le_bytes_def bit_ucast_iff bit_drop_bit_eq)

lemma bit_channel_value: "bit (channel_value raw pos) n \<longleftrightarrow> n < 8 \<and> bit raw (unat pos + n)"
proof -
  have "bit (0xFF :: u32) n \<longleftrightarrow> n < 8"
    using bit_mask_iff [of 8 n, where 'a = u32] by (auto simp: mask_eq_exp_minus_1)
  then show ?thesis
    by (auto simp: channel_value_def bit_ucast_iff bit_and_iff bit_drop_bit_eq)
qed

lemma bit_packed:
  "bit (packed rp gp bp r g b) n \<longleftrightarrow> n < 32 \<and> (unat rp \<le> n \<and> bit r (n - unat rp) \<or>
     unat gp \<le> n \<and> bit g (n - unat gp) \<or> unat bp \<le> n \<and> bit b (n - unat bp))"
  by (auto simp: packed_def bit_or_iff bit_push_bit_iff bit_ucast_iff dest: bit_imp_le_length)

text \<open>Layouts that keep a colour: the three channels have bits of their own.\<close>

definition keeps_colour :: "fb_info \<Rightarrow> bool" where
  "keeps_colour info = (case pixel_format info of
      Rgb \<Rightarrow> True | Bgr \<Rightarrow> True | U8 \<Rightarrow> False | OtherFormat \<Rightarrow> False
    | UnknownFormat rp gp bp \<Rightarrow>
        (let apart = (\<lambda>i j. unat i + 8 \<le> unat j \<or> unat j + 8 \<le> unat i);
             fits = (\<lambda>i. unat i + 8 \<le> 8 * min (bytes_per_pixel info) 4)
         in apart rp gp \<and> apart gp bp \<and> apart rp bp \<and> fits rp \<and> fits gp \<and> fits bp))"

definition shown :: "fb_info \<Rightarrow> rgb \<Rightarrow> rgb" where
  "shown info = (\<lambda>(r, g, b). if pixel_format info = U8 then (grey r g b, grey r g b, grey r g b) else (r, g, b))"

lemma bit_from_le_encoded:
  assumes "pixel_format info = UnknownFormat rp gp bp" and "length v = bytes_per_pixel info"
  shows "bit (from_le (encode info (r, g, b) v) (min (bytes_per_pixel info) 4)) n
    \<longleftrightarrow> n < 8 * min (bytes_per_pixel info) 4 \<and> bit (packed rp gp bp r g b) n"
proof -
  let ?k = "min (bytes_per_pixel info) 4"
  have byte: "encode info (r, g, b) v ! i = to_le_bytes (packed rp gp bp r g b) ! i" if "i < ?k" for i
    using that by (simp add: encode_def pixel_bytes_def assms(1) nth_append)
  have len: "?k \<le> length (encode info (r, g, b) v)"
    using assms by (simp add: encode_def pixel_bytes_def)
  have "n < 8 * ?k \<Longrightarrow> n div 8 < ?k" by (metis less_mult_imp_div_less mult.commute)
  then show ?thesis
    using bit_from_le [OF len, of n] byte [of "n div 8"] bit_to_le_bytes [of "n div 8"] by auto
qed

lemma decode_encode:
  assumes "info_ok info" and "keeps_colour info \<or> pixel_format info = U8"
    and "length v = bytes_per_pixel info"
  shows "decode info (encode info c v) = shown info c"
proof -
  obtain r g b where c: "c = (r, g, b)" by (cases c)
  show ?thesis
  proof (cases "pixel_format info")
    case (UnknownFormat rp gp bp)
    let ?raw = "from_le (encode info (r, g, b) v) (min (bytes_per_pixel info) 4)"
    have keeps: "keeps_colour info" using assms(2) UnknownFormat by simp
    have small: "8 * min (bytes_per_pixel info) 4 \<le> 32" by simp
    have beyond: "\<not> bit w n" if "8 \<le> n" for w :: u8 and n
      using that bit_imp_le_length [of w n] by auto
    have "channel_value ?raw rp = r" "channel_value ?raw gp = g" "channel_value ?raw bp = b"
      using keeps small beyond
      by (auto simp: keeps_colour_def UnknownFormat Let_def bit_eq_iff bit_channel_value
          bit_from_le_encoded [OF UnknownFormat assms(3)] bit_packed)
    then show ?thesis by (simp add: decode_def UnknownFormat shown_def c)
  qed (use assms(2) in \<open>auto simp: decode_def encode_def pixel_bytes_def shown_def c keeps_colour_def\<close>)
qed

text \<open>What a drawing operation leaves to be read.\<close>

lemma length_view: "p \<in> canvas info (length buf) \<Longrightarrow> length (view info buf p) = bytes_per_pixel info"
  by (auto simp: view_def canvas_def stored_def)

lemma fb_draws_length: "fb.draws info n f pic \<Longrightarrow> info_ok info \<Longrightarrow> length s = n \<Longrightarrow> f s = Some t \<Longrightarrow> length t = n"
  using fb.drawsE [of info n f pic s] fb.paints_ok by (metis option.inject)

lemma read_drawn:
  assumes draws: "fb.draws info n f pic" and ok: "info_ok info" "length buf = n"
    and keeps: "keeps_colour info \<or> pixel_format info = U8"
  shows "\<exists>t. f buf = Some t \<and> length t = n \<and> (\<forall>x y. read_pixel info t x y =
    (if (x, y) \<in> canvas info n
     then (case colour_at pic (x, y) of None \<Rightarrow> read_pixel info buf x y | Some c \<Rightarrow> Some (shown info c))
     else Some (0, 0, 0)))"
proof -
  obtain t where t: "f buf = Some t" "fb.paints info n pic buf t"
    using fb.drawsE [OF draws] ok by blast
  have len: "length t = n" using fb.paints_ok [OF t(2)] by simp
  show ?thesis
  proof (intro exI [of _ t] conjI allI)
    fix x y
    show "read_pixel info t x y = (if (x, y) \<in> canvas info n
       then (case colour_at pic (x, y) of None \<Rightarrow> read_pixel info buf x y | Some c \<Rightarrow> Some (shown info c))
       else Some (0, 0, 0))"
    proof (cases "(x, y) \<in> canvas info n")
      case True
      then have "length (view info buf (x, y)) = bytes_per_pixel info" using ok(2) length_view by blast
      then show ?thesis
        using True fb.paints_view [OF t(2), of "(x, y)"] ok len decode_encode [OF ok(1) keeps]
        by (auto simp: read_pixel_spec fb.render_colour_at split: option.split)
    qed (simp add: read_pixel_spec ok(1) len)
  qed (use t len in auto)
qed

text \<open>A point of a given colour.\<close>

definition has_colour :: "fb_info \<Rightarrow> fb_buffer \<Rightarrow> nat \<times> nat \<Rightarrow> rgb \<Rightarrow> bool" where
  "has_colour info buf p c \<longleftrightarrow> encode info c (view info buf p) = view info buf p"

lemma has_colour_painted:
  "fb.paints info n pic s t \<Longrightarrow> p \<in> canvas info n \<Longrightarrow> colour_at pic p = Some c \<Longrightarrow> has_colour info t p c"
  by (simp add: has_colour_def fb.paints_view fb.render_colour_at encode_hides)

lemma view_unpainted:
  "fb.paints info n pic s t \<Longrightarrow> colour_at pic p = None \<Longrightarrow> view info t p = view info s p"
  by (simp add: fb.paints_view fb.render_colour_at)

lemma has_colour_view: "view info t p = view info s q \<Longrightarrow> has_colour info t p c = has_colour info s q c"
  by (simp add: has_colour_def)

lemma read_has_colour:
  assumes "info_ok info" and "keeps_colour info \<or> pixel_format info = U8"
    and "(x, y) \<in> canvas info (length buf)" and "has_colour info buf (x, y) c"
  shows "read_pixel info buf x y = Some (shown info c)"
  using assms decode_encode [OF assms(1,2) length_view [OF assms(3)], of c]
  by (simp add: read_pixel_spec has_colour_def)

text \<open>A buffer that holds the whole frame.\<close>

lemma index_in_frame:
  assumes "a < stride info" and "b < height info"
  shows "pixel_index info (a, b) + 1 \<le> stride info * height info"
proof -
  have "pixel_index info (a, b) + 1 \<le> Suc b * stride info" using assms(1) by (simp add: pixel_index_def)
  also have "\<dots> \<le> height info * stride info" using assms(2) by (intro mult_le_mono1) simp
  finally show ?thesis by (simp add: mult.commute)
qed

lemma frame_canvas:
  assumes "info_ok info" and "stride info * height info * bytes_per_pixel info \<le> n"
    and "a < width info" and "b < height info"
  shows "(a, b) \<in> canvas info n"
proof -
  have a: "a < stride info" using assms by (simp add: info_ok_def)
  have "(pixel_index info (a, b) + 1) * bytes_per_pixel info \<le> stride info * height info * bytes_per_pixel info"
    using index_in_frame [OF a assms(4)] by (rule mult_le_mono1)
  then show ?thesis using assms a by (simp add: canvas_def stored_def)
qed

text \<open>A run of pixels copied from one buffer to another of the same pixel size.\<close>

lemma sub_slice_sub_slice:
  "k + m \<le> n \<Longrightarrow> off + n \<le> length xs \<Longrightarrow> sub_slice (sub_slice xs off n) k m = sub_slice xs (off + k) m"
  by (intro sub_slice_eqI) (auto simp: add.assoc)

lemma sub_write_slice_inner:
  assumes "k + m \<le> length src" and "off + length src \<le> length dst"
  shows "sub_slice (write_slice dst off src) (off + k) m = sub_slice src k m"
  using assms by (intro sub_slice_eqI) (auto simp: nth_write_slice)

lemma view_copy_row:
  fixes dx dy sx sy w :: nat
  assumes bpp: "bytes_per_pixel info' = bytes_per_pixel info"
    and dst: "dx + w \<le> stride info" "(dy * stride info + dx) * bytes_per_pixel info + w * bytes_per_pixel info \<le> length dst"
    and src: "sx + w \<le> stride info'" "(sy * stride info' + sx) * bytes_per_pixel info + w * bytes_per_pixel info \<le> length src"
  shows "view info (write_slice dst ((dy * stride info + dx) * bytes_per_pixel info)
      (sub_slice src ((sy * stride info' + sx) * bytes_per_pixel info) (w * bytes_per_pixel info))) (a, b)
    = (if b = dy \<and> dx \<le> a \<and> a < dx + w then view info' src (sx + (a - dx), sy) else view info dst (a, b))"
proof -
  let ?bpp = "bytes_per_pixel info"
  define D where "D = dy * stride info + dx"
  define S where "S = sy * stride info' + sx"
  define cp where "cp = sub_slice src (S * ?bpp) (w * ?bpp)"
  have cp: "length cp = w * ?bpp" "D * ?bpp + length cp \<le> length dst"
    using src(2) dst(2) by (auto simp: cp_def D_def S_def)
  show ?thesis unfolding D_def [symmetric] S_def [symmetric] cp_def [symmetric]
  proof (cases "b = dy \<and> dx \<le> a \<and> a < dx + w")
    case True
    define k where "k = a - dx"
    have k: "k < w" "pixel_index info (a, b) = D + k" "pixel_index info' (sx + k, sy) = S + k"
      using True by (auto simp: k_def pixel_index_def D_def S_def)
    have kw: "k * ?bpp + ?bpp \<le> w * ?bpp"
      using mult_le_mono1 [of "Suc k" w ?bpp] k(1) by simp
    have "stored info (length dst) (a, b)" "stored info' (length src) (sx + k, sy)"
    proof -
      have "D * ?bpp + w * ?bpp \<le> length dst" "S * ?bpp + w * ?bpp \<le> length src"
        using dst(2) src(2) by (simp_all add: D_def S_def)
      then have "(D + k) * ?bpp + ?bpp \<le> length dst" "(S + k) * ?bpp + ?bpp \<le> length src"
        using kw by (simp_all add: add_mult_distrib)
      moreover have "a < stride info" "sx + k < stride info'" using True dst(1) src(1) k(1) by auto
      ultimately show "stored info (length dst) (a, b)" "stored info' (length src) (sx + k, sy)"
        using k(2,3) bpp by (simp_all add: stored_def)
    qed
    moreover have "sub_slice (write_slice dst (D * ?bpp) cp) ((D + k) * ?bpp) ?bpp = sub_slice cp (k * ?bpp) ?bpp"
      using sub_write_slice_inner [of "k * ?bpp" ?bpp cp "D * ?bpp" dst] kw cp by (simp add: algebra_simps)
    moreover have "sub_slice cp (k * ?bpp) ?bpp = sub_slice src ((S + k) * ?bpp) ?bpp"
      using sub_slice_sub_slice [of "k * ?bpp" ?bpp "w * ?bpp" "S * ?bpp" src] kw src(2)
      by (simp add: cp_def S_def algebra_simps)
    ultimately show "view info (write_slice dst (D * ?bpp) cp) (a, b) =
      (if b = dy \<and> dx \<le> a \<and> a < dx + w then view info' src (sx + (a - dx), sy) else view info dst (a, b))"
      using True k cp bpp by (simp add: view_def k_def [symmetric])
  next
    case False
    show "view info (write_slice dst (D * ?bpp) cp) (a, b) =
      (if b = dy \<and> dx \<le> a \<and> a < dx + w then view info' src (sx + (a - dx), sy) else view info dst (a, b))"
    proof (cases "stored info (length dst) (a, b)")
      case True
      define I where "I = b * stride info + a"
      have a: "a < stride info" and I: "I * ?bpp + ?bpp \<le> length dst"
        using True by (auto simp: stored_def pixel_index_def I_def)
      have "I < D \<or> D + w \<le> I"
      proof (rule ccontr)
        assume "\<not> (I < D \<or> D + w \<le> I)"
        then obtain k where "I = D + k" "k < w" by (metis le_add_diff_inverse less_diff_conv2 not_le add.commute)
        then have "I = (dx + k) + dy * stride info" "dx + k < stride info" using dst(1) by (simp_all add: D_def)
        then have "I div stride info = dy" "I mod stride info = dx + k" by simp_all
        moreover have "I div stride info = b" "I mod stride info = a" using a by (simp_all add: I_def)
        ultimately show False using False \<open>k < w\<close> by simp
      qed
      then have "I * ?bpp + ?bpp \<le> D * ?bpp \<or> D * ?bpp + length cp \<le> I * ?bpp"
        using mult_le_mono1 [of "Suc I" D ?bpp] mult_le_mono1 [of "D + w" I ?bpp] cp(1) by (auto simp: algebra_simps)
      then have "sub_slice (write_slice dst (D * ?bpp) cp) (I * ?bpp) ?bpp = sub_slice dst (I * ?bpp) ?bpp"
        by (intro sub_write_slice_other cp(2) I)
      then show ?thesis using False True cp(2) by (auto simp: view_def pixel_index_def I_def)
    qed (use False cp(2) in \<open>auto simp: view_def\<close>)
  qed
qed

text \<open>What is read of a colour written, in every format: the colour itself, its grey level, or with freely placed
  channels the bits of the packed pixel at each channel's place, which is the colour unless channels overlap or leave
  the pixel (\<open>keeps_colour\<close>). A format that the code does not know reads as black.\<close>

definition read_back :: "fb_info \<Rightarrow> rgb \<Rightarrow> rgb" where
  "read_back info = (\<lambda>(r, g, b). case pixel_format info of
      Rgb \<Rightarrow> (r, g, b) | Bgr \<Rightarrow> (r, g, b) | U8 \<Rightarrow> (grey r g b, grey r g b, grey r g b) | OtherFormat \<Rightarrow> (0, 0, 0)
    | UnknownFormat rp gp bp \<Rightarrow> (let raw = take_bit (8 * min (bytes_per_pixel info) 4) (packed rp gp bp r g b)
        in (channel_value raw rp, channel_value raw gp, channel_value raw bp)))"

lemma decode_encode_any:
  assumes "info_ok info" and "length v = bytes_per_pixel info"
  shows "decode info (encode info c v) = read_back info c"
proof -
  obtain r g b where c: "c = (r, g, b)" by (cases c)
  show ?thesis
  proof (cases "pixel_format info")
    case (UnknownFormat rp gp bp)
    have "from_le (encode info (r, g, b) v) (min (bytes_per_pixel info) 4) =
        take_bit (8 * min (bytes_per_pixel info) 4) (packed rp gp bp r g b)"
      using bit_from_le_encoded [OF UnknownFormat assms(2)] by (intro bit_eqI) (auto simp: bit_take_bit_iff)
    then show ?thesis using UnknownFormat by (simp add: decode_def read_back_def c Let_def)
  qed (use decode_encode [OF assms(1) _ assms(2), of c] in \<open>auto simp: keeps_colour_def shown_def read_back_def c decode_def\<close>)
qed

lemma read_back_shown:
  assumes "info_ok info" and "keeps_colour info \<or> pixel_format info = U8"
  shows "read_back info c = shown info c"
  using decode_encode_any [OF assms(1), of "replicate (bytes_per_pixel info) 0" c] decode_encode [OF assms, of "replicate (bytes_per_pixel info) 0" c]
  by simp


definition sample_info :: fb_info where
  "sample_info = \<lparr>width = 1024, height = 768, stride = 1024, bytes_per_pixel = 4, pixel_format = Bgr\<rparr>"

lemma sample_info_ok: "info_ok sample_info" "keeps_colour sample_info"
  by (simp_all add: sample_info_def info_ok_def format_ok_def keeps_colour_def)


end
