(* ===== verification/Shapes.thy ===== *)
theory Shapes
  imports Framebuffer "HOL-Library.Signed_Division"
begin

text \<open>
  The shapes of \<^verbatim>\<open>kernel/src/framebuffer.rs\<close>: rectangles, outlines, the vertical gradient and
  the desktop background, each with the picture it draws. A rectangle is \<open>box x y w h\<close>, the set
  of its points; clipping to the frame is part of the canvas of the surface.
\<close>

section \<open>Rectangles\<close>

record rect =
  rx :: usize
  ry :: usize
  rwidth :: usize
  rheight :: usize

definition fill_rect :: "fb_info \<Rightarrow> usize \<Rightarrow> usize \<Rightarrow> usize \<Rightarrow> usize \<Rightarrow> rgb \<Rightarrow> fb_buffer \<Rightarrow> fb_buffer option" where
  "fill_rect info x y w h c buf =
     (let x_end = min (saturating_add x w) (width info);
          y_end = min (saturating_add y h) (height info)
      in foldM (\<lambda>py. foldM (\<lambda>px. put_pixel info px py c) [x..<x_end]) [y..<y_end] buf)"

definition draw_rect_outline :: "fb_info \<Rightarrow> rect \<Rightarrow> rgb \<Rightarrow> fb_buffer \<Rightarrow> fb_buffer option" where
  "draw_rect_outline info r c buf =
     (if rwidth r = 0 \<or> rheight r = 0 then Some buf
      else do {
        let x_end = min (saturating_add (rx r) (rwidth r)) (width info);
        let y_end = min (saturating_add (ry r) (rheight r)) (height info);
        let x_last = saturating_sub x_end 1;
        let y_last = saturating_sub y_end 1;
        buf \<leftarrow> foldM (\<lambda>x buf. put_pixel info x (ry r) c buf \<bind> put_pixel info x y_last c)
          [rx r..<x_last + 1] buf;
        foldM (\<lambda>y buf. put_pixel info (rx r) y c buf \<bind> put_pixel info x_last y c)
          [ry r..<y_last + 1] buf
      })"

section \<open>Gradient and background\<close>

definition lerp_u8 :: "u8 \<Rightarrow> u8 \<Rightarrow> u32 \<Rightarrow> u8 option" where
  "lerp_u8 a b t = do {
     let a = uint a; let b = uint b; let t = sint t;
     d \<leftarrow> i32_chk (b - a);
     m \<leftarrow> i32_chk (d * t);
     value \<leftarrow> i32_chk (a + m sdiv 255);
     Some (word_of_int (max 0 (min 255 value)))
   }"

definition u32_mul :: "u32 \<Rightarrow> u32 \<Rightarrow> u32 option" where
  "u32_mul a b = (if unat a * unat b < 2 ^ 32 then Some (a * b) else None)"

definition u32_div :: "u32 \<Rightarrow> u32 \<Rightarrow> u32 option" where
  "u32_div a b = (if b = 0 then None else Some (a div b))"

definition gradient_row ::
  "fb_info \<Rightarrow> rect \<Rightarrow> rgb \<Rightarrow> rgb \<Rightarrow> u32 \<Rightarrow> nat \<times> usize \<Rightarrow> fb_buffer \<Rightarrow> fb_buffer option" where
  "gradient_row info r c_top c_bottom denom = (\<lambda>(i, y) buf. do {
     m \<leftarrow> u32_mul (of_nat i) 255;
     t \<leftarrow> u32_div m denom;
     cr \<leftarrow> lerp_u8 (fst c_top) (fst c_bottom) t;
     cg \<leftarrow> lerp_u8 (fst (snd c_top)) (fst (snd c_bottom)) t;
     cb \<leftarrow> lerp_u8 (snd (snd c_top)) (snd (snd c_bottom)) t;
     fill_rect info (rx r) y (rwidth r) 1 (cr, cg, cb) buf
   })"

definition fill_vertical_gradient ::
  "fb_info \<Rightarrow> rect \<Rightarrow> rgb \<Rightarrow> rgb \<Rightarrow> fb_buffer \<Rightarrow> fb_buffer option" where
  "fill_vertical_gradient info r c_top c_bottom buf =
     (if rheight r = 0 then Some buf
      else (let y_end = min (saturating_add (ry r) (rheight r)) (height info);
                denom = of_nat (max (saturating_sub (rheight r) 1) 1)
            in foldM (gradient_row info r c_top c_bottom denom) (enumerate 0 [ry r..<y_end]) buf))"

text \<open>\<open>(0..n).step_by(k)\<close>.\<close>

definition step_by :: "usize \<Rightarrow> usize \<Rightarrow> usize list" where
  "step_by n k = map (\<lambda>i. i * k) [0..<(n + k - 1) div k]"

definition draw_background :: "fb_info \<Rightarrow> fb_buffer \<Rightarrow> fb_buffer option" where
  "draw_background info buf = do {
     let screen = \<lparr>rx = 0, ry = 0, rwidth = width info, rheight = height info\<rparr>;
     buf \<leftarrow> fill_vertical_gradient info screen (0x1E, 0x22, 0x2B) (0x12, 0x14, 0x1A) buf;
     foldM (\<lambda>y. foldM (\<lambda>x buf. do {
         s \<leftarrow> uadd x y;
         if s AND 0x0F = 0 then put_pixel info x y (0x2A, 0x2E, 0x38) buf else Some buf
       }) (step_by (width info) 4)) (step_by (height info) 4) buf
   }"

section \<open>What they draw\<close>

definition box :: "nat \<Rightarrow> nat \<Rightarrow> nat \<Rightarrow> nat \<Rightarrow> (nat \<times> nat) set" where
  "box x y w h = {p. x \<le> fst p \<and> fst p < x + w \<and> y \<le> snd p \<and> snd p < y + h}"

lemma in_box [simp]: "(a, b) \<in> box x y w h \<longleftrightarrow> x \<le> a \<and> a < x + w \<and> y \<le> b \<and> b < y + h"
  by (simp add: box_def)

lemma canvas_frame: "(a, b) \<in> canvas info n \<Longrightarrow> a < width info \<and> b < height info"
  by (simp add: canvas_def)

lemma draws_put_pixel: "fb.draws info n (put_pixel info x y c) [({(x, y)}, c)]"
  using fb.draws_put [of info n "(x, y)" c] by simp

lemma fb_drawsI_ok:
  assumes "info_ok info \<Longrightarrow> fb.draws info n f pic"
  shows "fb.draws info n f pic"
proof (rule fb.drawsI)
  fix s :: fb_buffer
  assume ok: "info_ok info \<and> length s = n"
  then show "\<exists>t. f s = Some t \<and> fb.paints info n pic s t"
    using fb.drawsE [OF assms ok] by blast
qed

lemma canvas_cong:
  "(\<And>a b. a < width info \<Longrightarrow> b < height info \<Longrightarrow> (a, b) \<in> P \<longleftrightarrow> (a, b) \<in> Q) \<Longrightarrow>
    P \<inter> canvas info n = Q \<inter> canvas info n"
  using canvas_frame by fastforce

lemma fill_rect_draws: "fb.draws info n (fill_rect info x y w h c) [(box x y w h, c)]"
proof (rule fb_drawsI_ok)
  assume ok: "info_ok info"
  let ?xe = "min (saturating_add x w) (width info)" and ?ye = "min (saturating_add y h) (height info)"
  have "fb.draws info n (foldM (\<lambda>px. put_pixel info px py c) [x..<?xe]) [(\<Union>px \<in> set [x..<?xe]. {(px, py)}, c)]" for py
    by (rule fb.draws_loop_one_colour) (rule draws_put_pixel)
  then have "fb.draws info n (fill_rect info x y w h c)
    [(\<Union>py \<in> set [y..<?ye]. \<Union>px \<in> set [x..<?xe]. {(px, py)}, c)]"
    unfolding fill_rect_def Let_def by (rule fb.draws_loop_one_colour)
  moreover have "(\<Union>py \<in> set [y..<?ye]. \<Union>px \<in> set [x..<?xe]. {(px, py)}) \<inter> canvas info n = box x y w h \<inter> canvas info n"
    by (rule canvas_cong) (use ok in \<open>auto simp: saturating_add_def info_ok_def\<close>)
  ultimately show "fb.draws info n (fill_rect info x y w h c) [(box x y w h, c)]"
    by (rule fb.draws_one_colour_cong)
qed

subsection \<open>Interpolation\<close>

lemma sdiv_255:
  assumes "0 \<le> t" and "t \<le> 255"
  shows "0 \<le> d \<Longrightarrow> 0 \<le> d * t sdiv 255 \<and> d * t sdiv 255 \<le> d"
    and "d \<le> 0 \<Longrightarrow> d \<le> d * t sdiv 255 \<and> d * t sdiv 255 \<le> (0 :: int)"
proof -
  have up: "0 \<le> e * t div 255 \<and> e * t div 255 \<le> e" if "0 \<le> e" for e
  proof -
    have e: "0 \<le> e * t" "e * t \<le> e * 255" using that assms by (auto intro: mult_left_mono)
    have "e * t div 255 \<le> e * 255 div 255" using e(2) by (rule zdiv_mono1) simp
    then show ?thesis using e(1) by (simp add: pos_imp_zdiv_nonneg_iff)
  qed
  show "0 \<le> d \<Longrightarrow> 0 \<le> d * t sdiv 255 \<and> d * t sdiv 255 \<le> d"
    using up [of d] assms by (auto simp: signed_divide_int_def sgn_mult abs_mult sgn_if split: if_splits)
  show "d \<le> 0 \<Longrightarrow> d \<le> d * t sdiv 255 \<and> d * t sdiv 255 \<le> 0"
    using up [of "- d"] assms by (auto simp: signed_divide_int_def sgn_mult abs_mult sgn_if split: if_splits)
qed

definition lerp_val :: "u8 \<Rightarrow> u8 \<Rightarrow> nat \<Rightarrow> u8" where
  "lerp_val a b t = word_of_int (uint a + (uint b - uint a) * int t sdiv 255)"

lemma uint_u8: "0 \<le> uint (a :: u8)" "uint (a :: u8) \<le> 255"
  using unsigned_less [of a, where 'a = int] by auto

lemma lerp_val_between:
  assumes "t \<le> 255"
  shows "uint (lerp_val a b t) = uint a + (uint b - uint a) * int t sdiv 255"
    and "min a b \<le> lerp_val a b t" and "lerp_val a b t \<le> max a b"
proof -
  let ?v = "uint a + (uint b - uint a) * int t sdiv 255"
  have bounds: "min (uint a) (uint b) \<le> ?v" "?v \<le> max (uint a) (uint b)"
    using sdiv_255 [of "int t" "uint b - uint a"] assms by (auto simp: min_def max_def)
  have "0 \<le> min (uint a) (uint b)" "max (uint a) (uint b) \<le> 255"
    using uint_u8 [of a] uint_u8 [of b] by auto
  then have range: "0 \<le> ?v" "?v \<le> 255" using bounds by linarith+
  show u: "uint (lerp_val a b t) = ?v"
    by (simp only: lerp_val_def uint_word_of_int_eq) (rule take_bit_int_eq_self, use range in simp_all)
  show "min a b \<le> lerp_val a b t" "lerp_val a b t \<le> max a b"
    using bounds unfolding u [symmetric] by (auto simp: word_le_def min_def max_def split: if_splits)
qed

lemma sint_small: "unat (t :: u32) \<le> 255 \<Longrightarrow> sint t = int (unat t)"
proof -
  assume "unat t \<le> 255"
  then have "uint t \<le> 255" by (metis of_nat_le_iff of_nat_numeral uint_nat)
  moreover have "- (2 ^ 31) \<le> uint t" by (rule order_trans [of _ 0]) simp_all
  ultimately show "sint t = int (unat t)" unfolding uint_nat [symmetric] sint_uint
    by (intro signed_take_bit_int_eq_self) simp_all
qed

lemma lerp_u8_spec:
  assumes "unat t \<le> 255"
  shows "lerp_u8 a b t = Some (lerp_val a b (unat t))"
proof -
  define k where "k = unat t"
  have k: "k \<le> 255" "sint t = int k" using assms sint_small by (auto simp: k_def)
  let ?d = "uint b - uint a"
  have d: "\<bar>?d\<bar> \<le> 255" using uint_u8 [of a] uint_u8 [of b] by linarith
  have "\<bar>?d * int k\<bar> \<le> 255 * 255"
    unfolding abs_mult using d k by (intro mult_mono) auto
  then have m: "i32_chk (?d * int k) = Some (?d * int k)" by (simp add: i32_chk_def abs_le_iff)
  have d': "i32_chk ?d = Some ?d" using d by (simp add: i32_chk_def abs_le_iff)
  have v: "0 \<le> uint a + ?d * int k sdiv 255" "uint a + ?d * int k sdiv 255 \<le> 255"
    using uint_u8 [of "lerp_val a b k"] unfolding lerp_val_between(1) [OF k(1)] by linarith+
  then have "i32_chk (uint a + ?d * int k sdiv 255) = Some (uint a + ?d * int k sdiv 255)"
    by (simp add: i32_chk_def)
  with v show ?thesis unfolding lerp_u8_def Let_def k(2) k_def [symmetric]
    by (simp only: d' m bind.bind_lunit) (simp add: lerp_val_def)
qed

lemma sdiv_255_cancel: "d * 255 sdiv 255 = (d :: int)"
  by (cases "0 \<le> d") (auto simp: signed_divide_int_def sgn_mult abs_mult sgn_if)

lemma lerp_val_ends: "lerp_val a b 0 = a" "lerp_val a b 255 = b"
proof -
  have "uint (lerp_val a b 255) = uint b"
    using lerp_val_between(1) [of 255 a b] by (simp only: of_nat_numeral sdiv_255_cancel)
  then show "lerp_val a b 255 = b" by (simp add: word_uint_eq_iff)
qed (simp add: lerp_val_def)

subsection \<open>The gradient\<close>

definition gradient_rgb :: "nat \<Rightarrow> rgb \<Rightarrow> rgb \<Rightarrow> nat \<Rightarrow> rgb" where
  "gradient_rgb h c_top c_bottom i = (let t = i * 255 div max (h - 1) 1 in
     (lerp_val (fst c_top) (fst c_bottom) t, lerp_val (fst (snd c_top)) (fst (snd c_bottom)) t,
      lerp_val (snd (snd c_top)) (snd (snd c_bottom)) t))"

definition gradient_pic :: "rect \<Rightarrow> rgb \<Rightarrow> rgb \<Rightarrow> nat \<Rightarrow> (nat \<times> nat, rgb) picture" where
  "gradient_pic r c_top c_bottom rows =
     map (\<lambda>i. (box (rx r) (ry r + i) (rwidth r) 1, gradient_rgb (rheight r) c_top c_bottom i)) [0..<rows]"

lemma colour_at_gradient:
  "colour_at (gradient_pic r c_top c_bottom rows) (a, b)
    = (if (a, b) \<in> box (rx r) (ry r) (rwidth r) rows then Some (gradient_rgb (rheight r) c_top c_bottom (b - ry r)) else None)"
proof (induction rows)
  case 0
  then show ?case by (auto simp: gradient_pic_def)
next
  case (Suc n)
  have "b - ry r = n" if "ry r + n \<le> b" "b < Suc (ry r + n)" using that by simp
  then show ?case using Suc by (auto simp: gradient_pic_def)
qed

lemma gradient_row_draws:
  assumes "i < rheight r" and "rheight r \<le> 2 ^ 24"
  shows "fb.draws info n (gradient_row info r c_top c_bottom (of_nat (max (saturating_sub (rheight r) 1) 1)) (i, y))
    [(box (rx r) y (rwidth r) 1, gradient_rgb (rheight r) c_top c_bottom i)]"
proof -
  define denom where "denom = max (rheight r - 1) 1"
  have denom: "unat (of_nat denom :: u32) = denom"
    using assms by (simp add: denom_def unsigned_of_nat take_bit_nat_eq_self)
  then have "(of_nat denom :: u32) \<noteq> 0" by (auto simp: denom_def)
  have i: "unat (of_nat i :: u32) = i" "i \<le> 2 ^ 24"
    using assms by (simp_all add: unsigned_of_nat take_bit_nat_eq_self)
  have mul: "u32_mul (of_nat i) 255 = Some (of_nat i * 255)" using i by (simp add: u32_mul_def)
  have m: "unat (of_nat i * 255 :: u32) = i * 255" using i by (simp add: unat_word_ariths)
  have "i \<le> denom" using assms by (simp add: denom_def)
  then have "i * 255 div denom \<le> denom * 255 div denom" by (intro div_le_mono) simp
  then have le: "i * 255 div denom \<le> 255" by (simp add: denom_def)
  have t: "unat (of_nat i * 255 div of_nat denom :: u32) = i * 255 div denom"
    by (simp only: unat_div m denom)
  have rgb: "gradient_rgb (rheight r) c_top c_bottom i = (let t = i * 255 div denom in
     (lerp_val (fst c_top) (fst c_bottom) t, lerp_val (fst (snd c_top)) (fst (snd c_bottom)) t,
      lerp_val (snd (snd c_top)) (snd (snd c_bottom)) t))"
    by (simp add: gradient_rgb_def denom_def)
  have "gradient_row info r c_top c_bottom (of_nat denom) (i, y)
    = fill_rect info (rx r) y (rwidth r) 1 (gradient_rgb (rheight r) c_top c_bottom i)"
    using \<open>of_nat denom \<noteq> 0\<close> le
    by (simp add: gradient_row_def fun_eq_iff mul u32_div_def lerp_u8_spec t rgb Let_def)
  then show ?thesis using fill_rect_draws by (simp add: denom_def saturating_sub_def)
qed

lemma fill_vertical_gradient_draws:
  assumes "rheight r \<le> 2 ^ 24"
  shows "fb.draws info n (fill_vertical_gradient info r c_top c_bottom) (gradient_pic r c_top c_bottom (rheight r))"
proof (rule fb_drawsI_ok)
  assume ok: "info_ok info"
  define rows where "rows = min (saturating_add (ry r) (rheight r)) (height info) - ry r"
  have rows: "rows \<le> rheight r" by (simp add: rows_def saturating_add_def)
  have "fb.draws info n (foldM (\<lambda>i. gradient_row info r c_top c_bottom
      (of_nat (max (saturating_sub (rheight r) 1) 1)) (i, ry r + i)) [0..<rows])
    (concat (map (\<lambda>i. [(box (rx r) (ry r + i) (rwidth r) 1, gradient_rgb (rheight r) c_top c_bottom i)]) [0..<rows]))"
    by (rule fb.draws_loop, rule gradient_row_draws) (use rows assms in auto)
  moreover have "fill_vertical_gradient info r c_top c_bottom
    = foldM (\<lambda>i. gradient_row info r c_top c_bottom (of_nat (max (saturating_sub (rheight r) 1) 1)) (i, ry r + i)) [0..<rows]"
    using rows by (auto simp: fill_vertical_gradient_def fun_eq_iff Let_def enumerate_upt foldM_map rows_def)
  ultimately have "fb.draws info n (fill_vertical_gradient info r c_top c_bottom) (gradient_pic r c_top c_bottom rows)"
    by (simp add: gradient_pic_def)
  then show "fb.draws info n (fill_vertical_gradient info r c_top c_bottom) (gradient_pic r c_top c_bottom (rheight r))"
  proof (rule fb.draws_same_colours)
    fix q assume "q \<in> canvas info n"
    then have "snd q < height info" "height info < 2 ^ 64" using ok by (auto simp: canvas_def info_ok_def)
    then have "q \<in> box (rx r) (ry r) (rwidth r) rows \<longleftrightarrow> q \<in> box (rx r) (ry r) (rwidth r) (rheight r)"
      by (auto simp: box_def rows_def saturating_add_def)
    then show "colour_at (gradient_pic r c_top c_bottom rows) q = colour_at (gradient_pic r c_top c_bottom (rheight r)) q"
      by (cases q) (simp only: colour_at_gradient)
  qed
qed

text \<open>Channel by channel, the row colours stay between the end colours.\<close>

definition between_rgb :: "rgb \<Rightarrow> rgb \<Rightarrow> rgb \<Rightarrow> bool" where
  "between_rgb = (\<lambda>(r1, g1, b1) (r2, g2, b2) (r, g, b).
     min r1 r2 \<le> r \<and> r \<le> max r1 r2 \<and> min g1 g2 \<le> g \<and> g \<le> max g1 g2 \<and> min b1 b2 \<le> b \<and> b \<le> max b1 b2)"

lemma gradient_between:
  assumes "i < h"
  shows "between_rgb c_top c_bottom (gradient_rgb h c_top c_bottom i)"
proof -
  define d where "d = max (h - 1) 1"
  have "i \<le> d" "0 < d" using assms by (auto simp: d_def)
  then have "i * 255 div d \<le> d * 255 div d" by (intro div_le_mono) simp
  then have "i * 255 div d \<le> 255" using \<open>0 < d\<close> by simp
  note lerp = lerp_val_between(2,3) [OF this]
  have "gradient_rgb h c_top c_bottom i = (let t = i * 255 div d in
     (lerp_val (fst c_top) (fst c_bottom) t, lerp_val (fst (snd c_top)) (fst (snd c_bottom)) t,
      lerp_val (snd (snd c_top)) (snd (snd c_bottom)) t))"
    by (simp add: gradient_rgb_def d_def)
  then show ?thesis
    by (cases c_top, cases c_bottom) (simp only: between_rgb_def Let_def prod.case fst_conv snd_conv lerp simp_thms)
qed

subsection \<open>The background\<close>

definition dots :: "(nat \<times> nat) set" where
  "dots = {p. 4 dvd fst p \<and> 4 dvd snd p \<and> (fst p + snd p) mod 16 = 0}"

definition background_pic :: "fb_info \<Rightarrow> (nat \<times> nat, rgb) picture" where
  "background_pic info =
     gradient_pic \<lparr>rx = 0, ry = 0, rwidth = width info, rheight = height info\<rparr>
       (0x1E, 0x22, 0x2B) (0x12, 0x14, 0x1A) (height info) @ [(dots, (0x2A, 0x2E, 0x38))]"

lemma set_step_by: "0 < k \<Longrightarrow> set (step_by n k) = {x. x < n \<and> k dvd x}"
proof -
  assume k: "0 < k"
  have "i < (n + k - 1) div k \<longleftrightarrow> i * k < n" for i
  proof -
    have "i < (n + k - 1) div k \<longleftrightarrow> Suc i * k \<le> n + k - 1"
      using k by (simp add: less_eq_div_iff_mult_less_eq Suc_le_eq [symmetric] del: mult_Suc)
    also have "\<dots> \<longleftrightarrow> i * k < n" using k by auto
    finally show ?thesis .
  qed
  then have "set (step_by n k) = (\<lambda>i. i * k) ` {i. i * k < n}" by (auto simp: step_by_def)
  also have "\<dots> = {x. x < n \<and> k dvd x}" by (auto simp: dvd_def mult.commute image_iff)
  finally show ?thesis .
qed

lemma draw_background_draws:
  assumes "info_ok info" and "height info \<le> 2 ^ 24" and "width info \<le> 2 ^ 24"
  shows "fb.draws info n (draw_background info) (background_pic info)"
proof -
  let ?c = "(0x2A, 0x2E, 0x38) :: rgb"
  let ?dot = "\<lambda>x y buf. uadd x y \<bind> (\<lambda>s. if s AND 0x0F = 0 then put_pixel info x y ?c buf else Some buf)"
  have dot: "fb.draws info n (?dot x y) [(if (x + y) mod 16 = 0 then {(x, y)} else {}, ?c)]"
    if "x < width info" "y < height info" for x y
  proof -
    have "?dot x y = (\<lambda>buf. if (x + y) mod 16 = 0 then put_pixel info x y ?c buf else Some buf)"
      using that assms mask_eq_exp_minus_1 [of 4, where 'a = nat] take_bit_eq_mask [of 4 "x + y"]
      by (auto simp: in_range fun_eq_iff take_bit_nat_def)
    then show ?thesis using fb.draws_when [OF draws_put_pixel] by simp
  qed
  have "fb.draws info n (foldM (\<lambda>y. foldM (\<lambda>x. ?dot x y) (step_by (width info) 4)) (step_by (height info) 4))
    [(\<Union>y \<in> set (step_by (height info) 4). \<Union>x \<in> set (step_by (width info) 4).
        (if (x + y) mod 16 = 0 then {(x, y)} else {}), ?c)]"
    by (rule fb.draws_loop_one_colour, rule fb.draws_loop_one_colour, rule dot) (auto simp: set_step_by)
  then have "fb.draws info n (foldM (\<lambda>y. foldM (\<lambda>x. ?dot x y) (step_by (width info) 4)) (step_by (height info) 4)) [(dots, ?c)]"
    by (rule fb.draws_one_colour_cong)
      (rule canvas_cong, auto simp: dots_def set_step_by split: if_splits)
  from fb.draws_seq [OF fill_vertical_gradient_draws this,
      of "\<lparr>rx = 0, ry = 0, rwidth = width info, rheight = height info\<rparr>" "(0x1E, 0x22, 0x2B)" "(0x12, 0x14, 0x1A)"]
  show ?thesis using assms(2) by (simp add: draw_background_def [abs_def] background_pic_def Let_def)
qed

subsection \<open>Outlines\<close>

text \<open>The edges of the clipped rectangle: where the rectangle sticks out of the frame its far edge is
  the last column or row of the frame.\<close>

definition outline_points :: "fb_info \<Rightarrow> rect \<Rightarrow> (nat \<times> nat) set" where
  "outline_points info r =
     (let x_last = min (rx r + rwidth r) (width info) - 1; y_last = min (ry r + rheight r) (height info) - 1
      in {p. rx r \<le> fst p \<and> fst p \<le> x_last \<and> (snd p = ry r \<or> snd p = y_last) \<or>
             ry r \<le> snd p \<and> snd p \<le> y_last \<and> (fst p = rx r \<or> fst p = x_last)})"

lemma draw_rect_outline_draws:
  "fb.draws info n (draw_rect_outline info r c) [(if rwidth r = 0 \<or> rheight r = 0 then {} else outline_points info r, c)]"
proof (cases "rwidth r = 0 \<or> rheight r = 0")
  case True
  then have "draw_rect_outline info r c = Some" by (auto simp: draw_rect_outline_def fun_eq_iff)
  with True show ?thesis
    using fb.draws_same_colours [OF fb.draws_nothing [of info n], of "[({}, c)]"] by simp
next
  case False
  show ?thesis
  proof (rule fb_drawsI_ok)
    assume ok: "info_ok info"
    define xl where "xl = min (rx r + rwidth r) (width info) - 1"
    define yl where "yl = min (ry r + rheight r) (height info) - 1"
    have sat: "min (saturating_add (rx r) (rwidth r)) (width info) = min (rx r + rwidth r) (width info)"
      "min (saturating_add (ry r) (rheight r)) (height info) = min (ry r + rheight r) (height info)"
      using ok by (auto simp: saturating_add_def info_ok_def)
    let ?rows = "foldM (\<lambda>x buf. put_pixel info x (ry r) c buf \<bind> put_pixel info x yl c) [rx r..<xl + 1]"
    let ?cols = "foldM (\<lambda>y buf. put_pixel info (rx r) y c buf \<bind> put_pixel info xl y c) [ry r..<yl + 1]"
    have "fb.draws info n ?rows [(\<Union>x \<in> set [rx r..<xl + 1]. {(x, ry r)} \<union> {(x, yl)}, c)]"
      by (rule fb.draws_loop_one_colour, rule fb.draws_one_colour_seq) (rule draws_put_pixel)+
    moreover have "fb.draws info n ?cols [(\<Union>y \<in> set [ry r..<yl + 1]. {(rx r, y)} \<union> {(xl, y)}, c)]"
      by (rule fb.draws_loop_one_colour, rule fb.draws_one_colour_seq) (rule draws_put_pixel)+
    ultimately have "fb.draws info n (\<lambda>buf. ?rows buf \<bind> ?cols)
      [((\<Union>x \<in> set [rx r..<xl + 1]. {(x, ry r)} \<union> {(x, yl)}) \<union> (\<Union>y \<in> set [ry r..<yl + 1]. {(rx r, y)} \<union> {(xl, y)}), c)]"
      by (rule fb.draws_one_colour_seq)
    moreover have "(\<Union>x \<in> set [rx r..<xl + 1]. {(x, ry r)} \<union> {(x, yl)}) \<union> (\<Union>y \<in> set [ry r..<yl + 1]. {(rx r, y)} \<union> {(xl, y)})
      = outline_points info r"
      unfolding outline_points_def Let_def xl_def [symmetric] yl_def [symmetric] by auto
    moreover have "draw_rect_outline info r c = (\<lambda>buf. ?rows buf \<bind> ?cols)"
      by (rule ext) (simp only: draw_rect_outline_def saturating_sub_def Let_def sat xl_def [symmetric]
          yl_def [symmetric] False if_False)
    ultimately show "fb.draws info n (draw_rect_outline info r c)
      [(if rwidth r = 0 \<or> rheight r = 0 then {} else outline_points info r, c)]"
      using False by simp
  qed
qed

section \<open>Grids of single points\<close>

text \<open>A loop over the cells of a \<open>w\<close> by \<open>h\<close> grid at \<open>(x, y)\<close> that paints some of them, each in its own
  colour.\<close>

definition stroke :: "nat \<Rightarrow> nat \<Rightarrow> (nat \<Rightarrow> nat \<Rightarrow> rgb option) \<Rightarrow> nat \<Rightarrow> nat \<Rightarrow> (nat \<times> nat, rgb) picture" where
  "stroke x y choice sy sx = (case choice sy sx of None \<Rightarrow> [] | Some c \<Rightarrow> [({(x + sx, y + sy)}, c)])"

definition grid_pic :: "nat \<Rightarrow> nat \<Rightarrow> (nat \<Rightarrow> nat \<Rightarrow> rgb option) \<Rightarrow> nat \<Rightarrow> nat \<Rightarrow> (nat \<times> nat, rgb) picture" where
  "grid_pic x y choice w h = concat (map (\<lambda>sy. concat (map (stroke x y choice sy) [0..<w])) [0..<h])"

lemma colour_at_row:
  "colour_at (concat (map (stroke x y choice sy) [0..<w])) (a, b)
    = (if x \<le> a \<and> a < x + w \<and> b = y + sy then choice sy (a - x) else None)"
proof (induction w)
  case (Suc w)
  then show ?case
    by (auto simp: colour_at_append stroke_def less_Suc_eq split: option.split)
qed auto

lemma colour_at_grid:
  "colour_at (grid_pic x y choice w h) (a, b)
    = (if x \<le> a \<and> a < x + w \<and> y \<le> b \<and> b < y + h then choice (b - y) (a - x) else None)"
proof (induction h)
  case (Suc h)
  have "grid_pic x y choice w (Suc h) = grid_pic x y choice w h @ concat (map (stroke x y choice h) [0..<w])"
    by (simp add: grid_pic_def)
  then show ?case using Suc
    by (auto simp: colour_at_append colour_at_row less_Suc_eq split: option.split)
qed (auto simp: grid_pic_def)

lemma grid_draws:
  assumes "\<And>sy sx. sy < h \<Longrightarrow> sx < w \<Longrightarrow> fb.draws info n (f sy sx) (stroke x y choice sy sx)"
  shows "fb.draws info n (foldM (\<lambda>sy. foldM (f sy) [0..<w]) [0..<h]) (grid_pic x y choice w h)"
  unfolding grid_pic_def by (rule fb.draws_loop, rule fb.draws_loop) (use assms in auto)

section \<open>Properties\<close>

text \<open>\<open>fill_rect\<close> never panics, keeps the length of the buffer, and afterwards exactly the points
  of the rectangle that lie in the frame and in the buffer show its colour; every other point
  reads as before. This holds for rectangles that stick out of the frame or overflow the
  coordinate range.\<close>

lemma fill_rect_exact:
  assumes "info_ok info" and "keeps_colour info \<or> pixel_format info = U8"
  shows "\<exists>t. fill_rect info x y w h c buf = Some t \<and> length t = length buf \<and>
    (\<forall>a b. read_pixel info t a b =
      (if (a, b) \<in> canvas info (length buf) \<and> x \<le> a \<and> a < x + w \<and> y \<le> b \<and> b < y + h
       then Some (shown info c) else read_pixel info buf a b))"
proof -
  from read_drawn [OF fill_rect_draws assms(1) refl assms(2)] obtain t where
    "fill_rect info x y w h c buf = Some t" "length t = length buf"
    "\<forall>a b. read_pixel info t a b = (if (a, b) \<in> canvas info (length buf)
     then (case colour_at [(box x y w h, c)] (a, b) of None \<Rightarrow> read_pixel info buf a b | Some c \<Rightarrow> Some (shown info c))
     else Some (0, 0, 0))" by blast
  then show ?thesis by (intro exI [of _ t]) (auto simp: read_pixel_spec [OF assms(1)])
qed

text \<open>\<open>fill_vertical_gradient\<close> never panics on a rectangle of at most 2^24 rows: each point of the
  rectangle that lies in the frame and the buffer shows the interpolated colour of its row, each
  channel of which lies between those of the end colours; the first row has the upper
  colour and the last of several rows the lower one; every other point reads as before.\<close>

lemma gradient_exact:
  assumes "info_ok info" and "keeps_colour info" and "rheight r \<le> 2 ^ 24"
  shows "(\<exists>t. fill_vertical_gradient info r c_top c_bottom buf = Some t \<and> length t = length buf \<and>
      (\<forall>a b. read_pixel info t a b =
        (if (a, b) \<in> canvas info (length buf) \<and> (a, b) \<in> box (rx r) (ry r) (rwidth r) (rheight r)
         then Some (gradient_rgb (rheight r) c_top c_bottom (b - ry r)) else read_pixel info buf a b))) \<and>
    gradient_rgb (rheight r) c_top c_bottom 0 = c_top \<and>
    (1 < rheight r \<longrightarrow> gradient_rgb (rheight r) c_top c_bottom (rheight r - 1) = c_bottom) \<and>
    (\<forall>i < rheight r. between_rgb c_top c_bottom (gradient_rgb (rheight r) c_top c_bottom i))"
proof (intro conjI allI impI)
  have shown: "shown info c = c" for c using assms(2) by (auto simp: shown_def keeps_colour_def split: prod.split)
  from read_drawn [OF fill_vertical_gradient_draws [OF assms(3)] assms(1) refl disjI1 [OF assms(2)]]
  obtain t where
    "fill_vertical_gradient info r c_top c_bottom buf = Some t" "length t = length buf"
    "\<forall>a b. read_pixel info t a b = (if (a, b) \<in> canvas info (length buf)
     then (case colour_at (gradient_pic r c_top c_bottom (rheight r)) (a, b) of None \<Rightarrow> read_pixel info buf a b
       | Some c \<Rightarrow> Some (shown info c)) else Some (0, 0, 0))" by blast
  then show "\<exists>t. fill_vertical_gradient info r c_top c_bottom buf = Some t \<and> length t = length buf \<and>
    (\<forall>a b. read_pixel info t a b =
      (if (a, b) \<in> canvas info (length buf) \<and> (a, b) \<in> box (rx r) (ry r) (rwidth r) (rheight r)
       then Some (gradient_rgb (rheight r) c_top c_bottom (b - ry r)) else read_pixel info buf a b))"
    by (intro exI [of _ t]) (auto simp: read_pixel_spec [OF assms(1)] colour_at_gradient shown)
  show "gradient_rgb (rheight r) c_top c_bottom 0 = c_top"
    by (simp add: gradient_rgb_def lerp_val_ends)
  show "gradient_rgb (rheight r) c_top c_bottom (rheight r - 1) = c_bottom" if "1 < rheight r"
    using that by (simp add: gradient_rgb_def lerp_val_ends)
  show "between_rgb c_top c_bottom (gradient_rgb (rheight r) c_top c_bottom i)" if "i < rheight r" for i
    using that by (rule gradient_between)
qed

definition sample_rect :: rect where
  "sample_rect = \<lparr>rx = 0, ry = 0, rwidth = 4, rheight = 3\<rparr>"

end
