(* ===== verification/Glyphs.thy ===== *)
theory Glyphs
  imports Shapes
begin

text \<open>
  Text drawing of \<^verbatim>\<open>kernel/src/framebuffer.rs\<close>. A Rust \<^verbatim>\<open>char\<close> is its code point, a \<^verbatim>\<open>str\<close> the
  list of its characters; \<open>lit\<close> is a string literal of the source. The glyphs are those of
  \<^verbatim>\<open>font8x8::BASIC_FONTS\<close>: the parameter \<open>font\<close>, its \<^verbatim>\<open>get\<close>, of which \<open>font_ok\<close> states the
  documented behaviour the code relies on (a glyph is eight bytes, the question mark has one).
\<close>

type_synonym unichar = nat
type_synonym font = "unichar \<Rightarrow> u8 list option"

definition lit :: "string \<Rightarrow> unichar list" where
  "lit s = map of_char s"

section \<open>Operations\<close>

definition FONT_SCALE_X :: usize where "FONT_SCALE_X = 1"

definition FONT_SCALE_Y :: usize where "FONT_SCALE_Y = 2"

definition FONT_WIDTH :: usize where "FONT_WIDTH = 8 * FONT_SCALE_X"

definition FONT_HEIGHT :: usize where "FONT_HEIGHT = 8 * FONT_SCALE_Y"

definition draw_dot :: "fb_info \<Rightarrow> usize \<Rightarrow> usize \<Rightarrow> rgb \<Rightarrow> usize \<Rightarrow> usize \<Rightarrow> fb_buffer \<Rightarrow> fb_buffer option" where
  "draw_dot info x0 y0 c gly_x gly_y =
     foldM (\<lambda>sy. foldM (\<lambda>sx buf. do {
         mx \<leftarrow> umul gly_x FONT_SCALE_X;
         xx \<leftarrow> uadd x0 mx;
         xx \<leftarrow> uadd xx sx;
         my \<leftarrow> umul gly_y FONT_SCALE_Y;
         yy \<leftarrow> uadd y0 my;
         yy \<leftarrow> uadd yy sy;
         put_pixel info xx yy c buf
       }) [0..<FONT_SCALE_X]) [0..<FONT_SCALE_Y]"

definition draw_char_at :: "font \<Rightarrow> fb_info \<Rightarrow> usize \<Rightarrow> usize \<Rightarrow> unichar \<Rightarrow> rgb \<Rightarrow> fb_buffer \<Rightarrow> fb_buffer option" where
  "draw_char_at font info x0 y0 ch c buf = do {
     default \<leftarrow> font 63;
     let glyph = (case font ch of Some g \<Rightarrow> g | None \<Rightarrow> default);
     foldM (\<lambda>(gly_y, byte). foldM (\<lambda>gly_x buf.
         let on = byte AND push_bit gly_x 1 \<noteq> 0
         in if \<not> on then Some buf else draw_dot info x0 y0 c gly_x gly_y buf) [0..<8])
       (enumerate 0 glyph) buf
   }"

primrec draw_text :: "font \<Rightarrow> fb_info \<Rightarrow> usize \<Rightarrow> usize \<Rightarrow> unichar list \<Rightarrow> rgb \<Rightarrow> fb_buffer \<Rightarrow> fb_buffer option" where
  "draw_text font info cx y [] c buf = Some buf"
| "draw_text font info cx y (ch # str) c buf =
     draw_char_at font info cx y ch c buf \<bind> draw_text font info (saturating_add cx FONT_WIDTH) y str c"

section \<open>What they draw\<close>

definition font_ok :: "font \<Rightarrow> bool" where
  "font_ok font \<longleftrightarrow> font 63 \<noteq> None \<and> (\<forall>ch g. font ch = Some g \<longrightarrow> length g = 8)"

definition glyph_of :: "font \<Rightarrow> unichar \<Rightarrow> u8 list" where
  "glyph_of font ch = (case font ch of Some g \<Rightarrow> g | None \<Rightarrow> the (font 63))"

text \<open>\<open>ink font ch (u, v)\<close>: the glyph of the character covers column \<open>u\<close> and line \<open>v\<close> of its
  8 by 16 cell.\<close>

definition ink :: "font \<Rightarrow> unichar \<Rightarrow> nat \<times> nat \<Rightarrow> bool" where
  "ink font ch = (\<lambda>(u, v). u < 8 \<and> v < 16 \<and> bit (glyph_of font ch ! (v div 2)) u)"

definition char_points :: "font \<Rightarrow> nat \<Rightarrow> nat \<Rightarrow> unichar \<Rightarrow> (nat \<times> nat) set" where
  "char_points font x0 y0 ch = {p. x0 \<le> fst p \<and> y0 \<le> snd p \<and> ink font ch (fst p - x0, snd p - y0)}"

definition text_points :: "font \<Rightarrow> nat \<Rightarrow> nat \<Rightarrow> unichar list \<Rightarrow> (nat \<times> nat) set" where
  "text_points font x y str = (\<Union>i < length str. char_points font (x + 8 * i) y (str ! i))"

lemma glyph_length: "font_ok font \<Longrightarrow> length (glyph_of font ch) = 8"
  by (auto simp: font_ok_def glyph_of_def split: option.split)

lemma FONT_sizes: "FONT_WIDTH = 8" "FONT_HEIGHT = 16"
  by (simp_all add: FONT_WIDTH_def FONT_HEIGHT_def FONT_SCALE_X_def FONT_SCALE_Y_def)

lemma draw_dot_draws:
  assumes "x0 + 8 < 2 ^ 64" and "y0 + 16 < 2 ^ 64" and "i < 8" and "j < 8"
  shows "fb.draws info n (draw_dot info x0 y0 c i j) [({(x0 + i, y0 + 2 * j), (x0 + i, y0 + 2 * j + 1)}, c)]"
proof -
  have upt: "[0..<2] = [0, 1 :: nat]" by (simp add: upt_rec)
  have "umul i 1 = Some i" "uadd x0 i = Some (x0 + i)" "uadd (x0 + i) 0 = Some (x0 + i)" "umul j 2 = Some (2 * j)"
    "uadd y0 (2 * j) = Some (y0 + 2 * j)" "uadd (y0 + 2 * j) 0 = Some (y0 + 2 * j)"
    "uadd (y0 + 2 * j) (Suc 0) = Some (y0 + 2 * j + 1)"
    using assms by (simp_all add: in_range)
  then have "draw_dot info x0 y0 c i j = (\<lambda>buf. put_pixel info (x0 + i) (y0 + 2 * j) c buf \<bind>
      put_pixel info (x0 + i) (y0 + 2 * j + 1) c)"
    by (simp add: draw_dot_def FONT_SCALE_X_def FONT_SCALE_Y_def fun_eq_iff upt split: option.split bind_split)
  then show ?thesis
    using fb.draws_one_colour_seq [OF draws_put_pixel draws_put_pixel, of info n "x0 + i" "y0 + 2 * j" c "x0 + i" "y0 + 2 * j + 1"]
    by (simp add: insert_is_Un [symmetric] insert_commute)
qed

lemma and_push_bit_1: "byte AND push_bit k 1 = 0 \<longleftrightarrow> \<not> bit (byte :: u8) k"
  by (auto simp: push_bit_eq_mult and_exp_eq_0_iff_not_bit)

lemma draw_char_at_draws:
  assumes "font_ok font" and "x0 + 8 < 2 ^ 64" and "y0 + 16 < 2 ^ 64"
  shows "fb.draws info n (draw_char_at font info x0 y0 ch c) [(char_points font x0 y0 ch, c)]"
proof -
  let ?g = "glyph_of font ch"
  define dot where "dot = (\<lambda>i j. {(x0 + i, y0 + 2 * j), (x0 + i, y0 + 2 * j + 1)})"
  have len: "length ?g = 8" using assms(1) by (rule glyph_length)
  have "fb.draws info n (\<lambda>buf. if bit (?g ! j) i then draw_dot info x0 y0 c i j buf else Some buf)
    [(if bit (?g ! j) i then dot i j else {}, c)]" if "i < 8" "j < 8" for i j
    unfolding dot_def by (rule fb.draws_when, rule draw_dot_draws) (use assms that in auto)
  then have "fb.draws info n (foldM (\<lambda>j. foldM (\<lambda>i buf. if bit (?g ! j) i then draw_dot info x0 y0 c i j buf else Some buf)
      [0..<8]) [0..<8]) [(\<Union>j \<in> set [0..<8]. \<Union>i \<in> set [0..<8]. if bit (?g ! j) i then dot i j else {}, c)]"
    by (intro fb.draws_loop_one_colour) auto
  moreover have "(\<Union>j \<in> set [0..<8]. \<Union>i \<in> set [0..<8]. if bit (?g ! j) i then dot i j else {})
    = char_points font x0 y0 ch"
  proof (rule set_eqI)
    fix p
    have "p \<in> char_points font x0 y0 ch \<longleftrightarrow> (\<exists>i j. i < 8 \<and> j < 8 \<and> bit (?g ! j) i \<and> p \<in> dot i j)"
    proof
      assume p: "p \<in> char_points font x0 y0 ch"
      define i where "i = fst p - x0"
      define j where "j = (snd p - y0) div 2"
      have "snd p - y0 = 2 * j \<or> snd p - y0 = 2 * j + 1" unfolding j_def by presburger
      moreover have "fst p = x0 + i" "y0 \<le> snd p" "i < 8" "j < 8" "bit (?g ! j) i"
        using p by (auto simp: char_points_def ink_def i_def j_def)
      ultimately have "p \<in> dot i j" by (cases p) (auto simp: dot_def)
      then show "\<exists>i j. i < 8 \<and> j < 8 \<and> bit (?g ! j) i \<and> p \<in> dot i j"
        using \<open>i < 8\<close> \<open>j < 8\<close> \<open>bit (?g ! j) i\<close> by blast
    next
      assume "\<exists>i j. i < 8 \<and> j < 8 \<and> bit (?g ! j) i \<and> p \<in> dot i j"
      then show "p \<in> char_points font x0 y0 ch" by (auto simp: dot_def char_points_def ink_def)
    qed
    then show "p \<in> (\<Union>j \<in> set [0..<8]. \<Union>i \<in> set [0..<8]. if bit (?g ! j) i then dot i j else {})
      \<longleftrightarrow> p \<in> char_points font x0 y0 ch"
      unfolding UN_iff Bex_def set_upt atLeastLessThan_iff by (metis empty_iff zero_le)
  qed
  moreover have "draw_char_at font info x0 y0 ch c
    = foldM (\<lambda>j. foldM (\<lambda>i buf. if bit (?g ! j) i then draw_dot info x0 y0 c i j buf else Some buf) [0..<8]) [0..<8]"
  proof
    fix buf
    have "enumerate 0 ?g = map (\<lambda>j. (j, ?g ! j)) [0..<8]"
      using len by (intro nth_equalityI) (auto simp: nth_enumerate_eq)
    moreover have "draw_char_at font info x0 y0 ch c buf = foldM (\<lambda>(gly_y, byte). foldM (\<lambda>gly_x buf.
        if bit byte gly_x then draw_dot info x0 y0 c gly_x gly_y buf else Some buf) [0..<8]) (enumerate 0 ?g) buf"
      using assms(1) unfolding draw_char_at_def Let_def and_push_bit_1 not_not
      by (auto simp: font_ok_def glyph_of_def intro!: foldM_cong split: option.split)
    ultimately show "draw_char_at font info x0 y0 ch c buf
      = foldM (\<lambda>j. foldM (\<lambda>i buf. if bit (?g ! j) i then draw_dot info x0 y0 c i j buf else Some buf) [0..<8]) [0..<8] buf"
      by (simp add: foldM_map)
  qed
  ultimately show ?thesis by simp
qed

lemma text_points_Cons:
  "text_points font x y (ch # str) = char_points font x y ch \<union> text_points font (x + 8) y str"
  by (auto simp: text_points_def lessThan_Suc_eq_insert_0 add.assoc)

lemma draw_text_draws:
  assumes "font_ok font" and "x + 8 * length str + 8 < 2 ^ 64" and "y + 16 < 2 ^ 64"
  shows "fb.draws info n (draw_text font info x y str c) [(text_points font x y str, c)]"
  using assms(2)
proof (induction str arbitrary: x)
  case Nil
  have "draw_text font info x y [] c = Some" by (simp add: fun_eq_iff)
  then show ?case
    using fb.draws_same_colours [OF fb.draws_nothing [of info n], of "[({}, c)]"] by (simp add: text_points_def)
next
  case (Cons ch str)
  have "saturating_add x FONT_WIDTH = x + 8"
    using Cons.prems by (simp add: saturating_add_def FONT_sizes)
  then have "draw_text font info x y (ch # str) c = (\<lambda>buf. draw_char_at font info x y ch c buf \<bind>
      draw_text font info (x + 8) y str c)" by (simp add: fun_eq_iff)
  moreover have "fb.draws info n (draw_char_at font info x y ch c) [(char_points font x y ch, c)]"
    using Cons.prems assms by (intro draw_char_at_draws) auto
  moreover have "fb.draws info n (draw_text font info (x + 8) y str c) [(text_points font (x + 8) y str, c)]"
    using Cons.prems by (intro Cons.IH) simp
  ultimately show ?case by (simp add: text_points_Cons fb.draws_one_colour_seq)
qed

end
