(* ===== verification/Diagnostics.thy ===== *)
theory Diagnostics
  imports Interrupts Format Glyphs
begin

text \<open>
  How the kernel reports and ends: the serial port of \<^verbatim>\<open>kernel/src/serial.rs\<close>, the exception handlers of
  \<^verbatim>\<open>kernel/src/interrupts.rs\<close>, and the panic handler, the exit of the emulator and the test runner of
  \<^verbatim>\<open>kernel/src/main.rs\<close>, up to the verdict of the host's \<^verbatim>\<open>src/main.rs\<close>. The port is the crate \<^verbatim>\<open>uart_16550\<close>: its
  operations are the parameter \<open>uart\<close>. Here a panic is not \<^term>\<open>None\<close>, as in the other theories, but what the panic
  handler does.
\<close>

section \<open>State\<close>

text \<open>A run returns, halts for ever, or waits for ever for a lock that its own processor holds.\<close>

datatype 'a run = Returns 'a | Halted 'a | Spins 'a

fun run_then :: "'a run \<Rightarrow> ('a \<Rightarrow> 'a run) \<Rightarrow> 'a run" where
  "run_then (Returns s) f = f s"
| "run_then r f = r"

definition returned :: "'a run \<Rightarrow> 'a option" where
  "returned r = (case r of Returns s \<Rightarrow> Some s | _ \<Rightarrow> None)"

lemma returned_Returns [simp]: "returned (Returns s) = Some s"
  by (simp add: returned_def)

text \<open>\<open>uart_write\<close> is \<^verbatim>\<open>write_fmt\<close>, \<^term>\<open>None\<close> its error result.\<close>

record 'p uart =
  uart_new :: "u16 \<Rightarrow> 'p"
  uart_init :: "'p \<Rightarrow> 'p"
  uart_write :: "'p \<Rightarrow> unichar list \<Rightarrow> 'p option"

text \<open>The static \<^verbatim>\<open>SERIAL\<close> with its lock, and the 32-bit port writes so far.\<close>

record 'p diag =
  SERIAL :: "'p option"
  serial_lock :: bool
  port_writes :: "(u16 \<times> u32) list"

section \<open>Serial port\<close>

definition serial_init :: "'p uart \<Rightarrow> 'p diag \<Rightarrow> 'p diag run" where
  "serial_init u s =
     (let port = uart_init u (uart_new u 0x3F8)
      in if serial_lock s then Spins s else Returns (s\<lparr>SERIAL := Some port\<rparr>))"

text \<open>\<^verbatim>\<open>_print\<close>. Its \<^verbatim>\<open>unwrap\<close> panics with the lock held, and the panic handler prints again.\<close>

definition serial_print :: "'p uart \<Rightarrow> unichar list \<Rightarrow> 'p diag \<Rightarrow> 'p diag run" where
  "serial_print u args s =
     (if serial_lock s then Spins s
      else case SERIAL s of
        None \<Rightarrow> Returns s
      | Some serial \<Rightarrow> (case uart_write u serial args of
          Some serial \<Rightarrow> Returns (s\<lparr>SERIAL := Some serial\<rparr>)
        | None \<Rightarrow> Spins (s\<lparr>serial_lock := True\<rparr>)))"

definition serial_println :: "'p uart \<Rightarrow> unichar list \<Rightarrow> 'p diag \<Rightarrow> 'p diag run" where
  "serial_println u args = serial_print u (args @ [10])"

section \<open>Exit and panic\<close>

datatype qemu_exit_code = Success | Failed

fun exit_value :: "qemu_exit_code \<Rightarrow> u32" where
  "exit_value Success = 0x10"
| "exit_value Failed = 0x11"

definition exit_qemu :: "qemu_exit_code \<Rightarrow> 'p diag \<Rightarrow> 'p diag run" where
  "exit_qemu code s = Halted (s\<lparr>port_writes := port_writes s @ [(0xf4, exit_value code)]\<rparr>)"

text \<open>\<open>info\<close> is the text of the \<^verbatim>\<open>PanicInfo\<close>: the place in the source and, on a line of its own, the message.\<close>

definition panic :: "'p uart \<Rightarrow> unichar list \<Rightarrow> 'p diag \<Rightarrow> 'p diag run" where
  "panic u info s = run_then (serial_print u (lit ''KERNEL PANIC: '' @ info @ [10]) s) (exit_qemu Failed)"

definition panic_info :: "unichar list \<Rightarrow> unichar list \<Rightarrow> unichar list" where
  "panic_info place msg = lit ''panicked at '' @ place @ lit '':'' @ [10] @ msg"

section \<open>Exceptions\<close>

fun lower_hex :: "nat \<Rightarrow> unichar list" where
  "lower_hex n = (if n < 16 then [unat (hex_digit (of_nat n))] else lower_hex (n div 16) @ [unat (hex_digit (of_nat (n mod 16)))])"

declare lower_hex.simps [simp del]

text \<open>What an exception comes with: its place in the source, the texts of the interrupted frame, of the faulting
  address and of the page fault's code (formatted by the crate), and the error code.\<close>

record exception =
  place :: "unichar list"
  stack_frame :: "unichar list"
  error_code :: u64
  fault_address :: "unichar list"
  fault_code :: "unichar list"

fun exception_handler :: "'p uart \<Rightarrow> exception \<Rightarrow> handler \<Rightarrow> 'p diag \<Rightarrow> 'p diag run" where
  "exception_handler u e Divide_error s = panic u (panic_info (place e) (lit ''EXCEPTION: DIVIDE ERROR'' @ [10] @ stack_frame e)) s"
| "exception_handler u e Breakpoint s = serial_println u (lit ''EXCEPTION: BREAKPOINT'' @ [10] @ stack_frame e) s"
| "exception_handler u e Invalid_opcode s = panic u (panic_info (place e) (lit ''EXCEPTION: INVALID OPCODE'' @ [10] @ stack_frame e)) s"
| "exception_handler u e Double_fault s =
     run_then (serial_println u (lit ''EXCEPTION: DOUBLE FAULT (error_code='' @ map unat (dec_text (unat (error_code e))) @ lit '')'' @ [10] @
       stack_frame e) s) Halted"
| "exception_handler u e General_protection_fault s =
     panic u (panic_info (place e) (lit ''EXCEPTION: GENERAL PROTECTION FAULT (error_code=0x'' @ lower_hex (unat (error_code e)) @ lit '')'' @
       [10] @ stack_frame e)) s"
| "exception_handler u e Page_fault s =
     panic u (panic_info (place e) (lit ''EXCEPTION: PAGE FAULT'' @ [10] @ lit ''Accessed address: '' @ fault_address e @ [10] @
       lit ''Error code: '' @ fault_code e @ [10] @ stack_frame e)) s"
| "exception_handler u e (Hardware i) s = Returns s"

section \<open>Tests\<close>

fun run_tests :: "('s \<Rightarrow> 's run) list \<Rightarrow> 's \<Rightarrow> 's run" where
  "run_tests [] s = Returns s"
| "run_tests (test # tests) s = run_then (test s) (run_tests tests)"

definition test_runner :: "'p uart \<Rightarrow> ('p diag \<Rightarrow> 'p diag run) list \<Rightarrow> 'p diag \<Rightarrow> 'p diag run" where
  "test_runner u tests s =
     run_then (serial_print u (lit ''Running '' @ map unat (dec_text (length tests)) @ lit '' tests...'' @ [10]) s) (\<lambda>s.
     run_then (run_tests tests s) (\<lambda>s.
     run_then (serial_print u (lit ''All tests passed!'' @ [10]) s) (exit_qemu Success)))"

text \<open>\<^verbatim>\<open>assert_eq!(1, 1)\<close>.\<close>

definition trivial_assertion :: "'p uart \<Rightarrow> unichar list \<Rightarrow> 'p diag \<Rightarrow> 'p diag run" where
  "trivial_assertion u info s = (if (1 :: int) = 1 then Returns s else panic u info s)"

text \<open>The host: the emulator ends at the first write to the port of its exit device, with the status the device makes
  of the value (\<open>debug_exit\<close>); the runner turns the status into its own.\<close>

definition qemu_status :: "(u32 \<Rightarrow> int) \<Rightarrow> 'p diag \<Rightarrow> int option" where
  "qemu_status debug_exit s = (case filter (\<lambda>(p, v). p = 0xf4) (port_writes s) of [] \<Rightarrow> None | (p, v) # _ \<Rightarrow> Some (debug_exit v))"

definition runner_exit :: "int option \<Rightarrow> int" where
  "runner_exit status = (let code = (case status of Some c \<Rightarrow> c | None \<Rightarrow> 1) in if code = 33 then 0 else code)"

definition verdict :: "(u32 \<Rightarrow> int) \<Rightarrow> 'p diag \<Rightarrow> int option" where
  "verdict debug_exit s = map_option (\<lambda>c. runner_exit (Some c)) (qemu_status debug_exit s)"

section \<open>How a run ends\<close>

text \<open>The port works, its lock is free, and the exit device has not been written.\<close>

definition diag_ok :: "'p uart \<Rightarrow> 'p diag \<Rightarrow> bool" where
  "diag_ok u s \<longleftrightarrow> (\<forall>p t. \<exists>p'. uart_write u p t = Some p') \<and> \<not> serial_lock s \<and> (\<forall>(p, v) \<in> set (port_writes s). p \<noteq> 0xf4)"

lemma serial_print_ok:
  assumes "diag_ok u s"
  shows "\<exists>s'. serial_print u t s = Returns s' \<and> diag_ok u s' \<and> port_writes s' = port_writes s \<and>
    SERIAL s' = Option.bind (SERIAL s) (\<lambda>p. uart_write u p t)"
proof (cases "SERIAL s")
  case None
  then show ?thesis using assms by (simp add: serial_print_def diag_ok_def)
next
  case (Some p)
  obtain p' where "uart_write u p t = Some p'" using assms unfolding diag_ok_def by blast
  then show ?thesis using assms Some by (simp add: serial_print_def diag_ok_def)
qed

lemma serial_print_locked: "serial_lock s \<Longrightarrow> serial_print u t s = Spins s"
  by (simp add: serial_print_def)

lemma exit_qemu_status:
  assumes "diag_ok u s"
  shows "\<exists>s'. exit_qemu c s = Halted s' \<and> qemu_status dev s' = Some (dev (exit_value c))"
proof -
  have "filter (\<lambda>(p, v). p = 0xf4) (port_writes s) = []" using assms by (auto simp: diag_ok_def filter_empty_conv)
  then show ?thesis by (simp add: exit_qemu_def qemu_status_def)
qed

lemma panic_status:
  assumes "diag_ok u s"
  shows "\<exists>s'. panic u info s = Halted s' \<and> qemu_status dev s' = Some (dev 0x11)"
proof -
  obtain s1 where "serial_print u (lit ''KERNEL PANIC: '' @ info @ [10]) s = Returns s1" "diag_ok u s1"
    using serial_print_ok [OF assms] by blast
  then show ?thesis using exit_qemu_status [of u s1 Failed dev] by (simp add: panic_def)
qed

lemma panic_locked: "serial_lock s \<Longrightarrow> panic u info s = Spins s"
  by (simp add: panic_def serial_print_locked)

text \<open>A test passes, or it panics; it leaves the lock free and the exit device alone.\<close>

definition test_ok :: "'p uart \<Rightarrow> ('p diag \<Rightarrow> 'p diag run) \<Rightarrow> bool" where
  "test_ok u test \<longleftrightarrow> (\<forall>s. diag_ok u s \<longrightarrow> (\<exists>s'. diag_ok u s' \<and> (test s = Returns s' \<or> (\<exists>info. test s = panic u info s'))))"

lemma run_tests_ends:
  assumes "diag_ok u s" and "\<forall>test \<in> set tests. test_ok u test"
  shows "(\<exists>s'. run_tests tests s = Returns s' \<and> diag_ok u s') \<or> (\<exists>s'. run_tests tests s = Halted s' \<and> qemu_status dev s' = Some (dev 0x11))"
  using assms
proof (induction tests arbitrary: s)
  case (Cons test tests)
  obtain s1 where s1: "diag_ok u s1" "test s = Returns s1 \<or> (\<exists>info. test s = panic u info s1)"
    using Cons.prems unfolding test_ok_def by fastforce
  from s1(2) show ?case
  proof
    assume "test s = Returns s1"
    then show ?thesis using Cons.IH [OF s1(1)] Cons.prems(2) by simp
  next
    assume "\<exists>info. test s = panic u info s1"
    then obtain info where "test s = panic u info s1" ..
    then show ?thesis using panic_status [OF s1(1), of info dev] by auto
  qed
qed simp

section \<open>Properties\<close>

text \<open>The verdict of a test run. With a working serial port and tests that return or panic, the run halts, and the
  runner on the host exits with 0 if every test returned and with 35 if one panicked.\<close>

lemma test_verdict:
  assumes "diag_ok u s" and "\<forall>test \<in> set tests. test_ok u test" and "debug_exit 0x10 = 33" and "debug_exit 0x11 = 35"
  shows "\<exists>s'. test_runner u tests s = Halted s' \<and>
    verdict debug_exit s' = Some (if \<exists>s1 s2. serial_print u (lit ''Running '' @ map unat (dec_text (length tests)) @ lit '' tests...'' @ [10]) s = Returns s1 \<and>
      run_tests tests s1 = Returns s2 then 0 else 35)"
proof -
  obtain s1 where s1: "serial_print u (lit ''Running '' @ map unat (dec_text (length tests)) @ lit '' tests...'' @ [10]) s = Returns s1" "diag_ok u s1"
    using serial_print_ok [OF assms(1)] by blast
  from run_tests_ends [OF s1(2) assms(2), of debug_exit] show ?thesis
  proof
    assume "\<exists>s2. run_tests tests s1 = Returns s2 \<and> diag_ok u s2"
    then obtain s2 where s2: "run_tests tests s1 = Returns s2" "diag_ok u s2" by blast
    obtain s3 where s3: "serial_print u (lit ''All tests passed!'' @ [10]) s2 = Returns s3" "diag_ok u s3"
      using serial_print_ok [OF s2(2)] by blast
    obtain s4 where "exit_qemu Success s3 = Halted s4" "qemu_status debug_exit s4 = Some (debug_exit 0x10)"
      using exit_qemu_status [OF s3(2), of Success debug_exit] by auto
    then show ?thesis using s1(1) s2(1) s3(1) assms(3) by (simp add: test_runner_def verdict_def runner_exit_def)
  next
    assume "\<exists>s2. run_tests tests s1 = Halted s2 \<and> qemu_status debug_exit s2 = Some (debug_exit 0x11)"
    then obtain s2 where "run_tests tests s1 = Halted s2" "qemu_status debug_exit s2 = Some 35" using assms(4) by auto
    then show ?thesis using s1(1) by (simp add: test_runner_def verdict_def runner_exit_def)
  qed
qed

text \<open>How each exception ends. With the lock free: the breakpoint returns, a double fault halts and leaves the
  emulator running, the others panic, which ends the emulator with the status for failure. An exception
  inside a print, with the lock held, waits for the lock for ever.\<close>

lemma exceptions_end:
  shows "diag_ok u s \<Longrightarrow> \<exists>s'. exception_handler u e Breakpoint s = Returns s' \<and> diag_ok u s'"
    and "diag_ok u s \<Longrightarrow> \<exists>s'. exception_handler u e Double_fault s = Halted s' \<and> diag_ok u s'"
    and "diag_ok u s \<Longrightarrow> h \<in> {Divide_error, Invalid_opcode, General_protection_fault, Page_fault} \<Longrightarrow>
      \<exists>s'. exception_handler u e h s = Halted s' \<and> qemu_status dev s' = Some (dev 0x11)"
    and "serial_lock s \<Longrightarrow> h \<in> {Divide_error, Breakpoint, Invalid_opcode, Double_fault, General_protection_fault, Page_fault} \<Longrightarrow>
      exception_handler u e h s = Spins s"
proof -
  assume ok: "diag_ok u s"
  show "\<exists>s'. exception_handler u e Breakpoint s = Returns s' \<and> diag_ok u s'"
    using serial_print_ok [OF ok] by (auto simp: serial_println_def)
  show "\<exists>s'. exception_handler u e Double_fault s = Halted s' \<and> diag_ok u s'"
    using serial_print_ok [OF ok] by (simp add: serial_println_def) (metis run_then.simps(1))
next
  assume "diag_ok u s" and "h \<in> {Divide_error, Invalid_opcode, General_protection_fault, Page_fault}"
  then show "\<exists>s'. exception_handler u e h s = Halted s' \<and> qemu_status dev s' = Some (dev 0x11)"
    using panic_status [of u s _ dev] by auto
next
  assume "serial_lock s" and "h \<in> {Divide_error, Breakpoint, Invalid_opcode, Double_fault, General_protection_fault, Page_fault}"
  then show "exception_handler u e h s = Spins s"
    by (auto simp: panic_locked serial_println_def serial_print_locked)
qed

section \<open>The stack of the double fault handler\<close>

text \<open>The processor enters the handler of a gate: on the stack the gate names in the interrupt stack table of the
  loaded task state segment, else on the interrupted one; it aligns the stack pointer and pushes \<open>n\<close> words.\<close>

definition handler_rsp :: "tss \<Rightarrow> gate \<Rightarrow> nat \<Rightarrow> u64 \<Rightarrow> u64" where
  "handler_rsp t g n rsp =
     ((case stack_index g of Some i \<Rightarrow> interrupt_stack_table t ! unat i | None \<Rightarrow> rsp) AND NOT 0xF) - 8 * of_nat n"

text \<open>C31: a double fault has a stack of its own. After the segment tables are loaded the task register selects the task
  state segment and the code segment register the kernel's code; whatever the stack pointer was when a
  double fault (vector 8) arrives, its six words and its handler's frame go to the 20 KiB array of
  \<^verbatim>\<open>gdt.rs\<close>, of which at least 20416 bytes are left. No other gate uses that stack.\<close>

theorem double_fault_own_stack:
  assumes "gdt_contract cr lookup slots needs"
    and "stack_array_ok start"
  shows "\<exists>s' g t gate. gdt_init cr start s = Some s' \<and> gdtr s' = Some g \<and> lookup g (task_register s') = Some (tss_segment cr t) \<and>
    lookup g (seg_cs s') = Some (kernel_code_segment cr) \<and> IDT 8 = Some gate \<and> gate_handler gate = Double_fault \<and>
    (\<forall>rsp. unat start + 20416 \<le> unat (handler_rsp t gate 6 rsp) \<and> unat (handler_rsp t gate 6 rsp) + 48 \<le> unat start + STACK_SIZE) \<and>
    (\<forall>v other. IDT v = Some other \<longrightarrow> v \<noteq> 8 \<longrightarrow> stack_index other = None)"
proof -
  obtain s' g t where l: "gdt_init cr start s = Some s'" "gdtr s' = Some g" "lookup g (seg_cs s') = Some (kernel_code_segment cr)"
    "lookup g (task_register s') = Some (tss_segment cr t)" "interrupt_stack_table t ! 0 = start + of_nat STACK_SIZE"
    by (rule gdt_init_loads [OF assms, of s])
  let ?gate = "set_stack_index DOUBLE_FAULT_IST_INDEX (set_handler_fn Double_fault)"
  have gate: "IDT 8 = Some ?gate" "gate_handler ?gate = Double_fault" "stack_index ?gate = Some 0"
    by (simp_all add: IDT_def vectors set_stack_index_def set_handler_fn_def DOUBLE_FAULT_IST_INDEX_def)
  have others: "stack_index other = None" if "IDT v = Some other" "v \<noteq> 8" for v other
    using that by (auto simp: IDT_def set_handler_fn_def split: if_splits)
  have top: "unat (start + of_nat STACK_SIZE) = unat start + 20480"
  proof -
    have "unat start + 20480 < 2 ^ 64" using assms(2) by (auto simp: stack_array_ok_def STACK_SIZE_def)
    then show ?thesis by (simp add: unat_word_ariths STACK_SIZE_def)
  qed
  have rsp: "handler_rsp t ?gate 6 rsp = ((start + of_nat STACK_SIZE) AND NOT 0xF) - 48" for rsp
    by (simp add: handler_rsp_def gate(3) l(5))
  have low: "unat ((start + of_nat STACK_SIZE) AND NOT 0xF) = (unat start + 20480) div 16 * 16"
    using unat_and_not_mask [of "start + of_nat STACK_SIZE" 4] top by (simp add: mask_eq_exp_minus_1)
  have "48 \<le> unat ((start + of_nat STACK_SIZE) AND NOT 0xF)" unfolding low by simp
  then have "unat (((start + of_nat STACK_SIZE) AND NOT 0xF) - 48) = (unat start + 20480) div 16 * 16 - 48"
    unfolding low [symmetric] by (simp only: unat_sub_if') simp
  then have "unat start + 20416 \<le> unat (handler_rsp t ?gate 6 rsp) \<and> unat (handler_rsp t ?gate 6 rsp) + 48 \<le> unat start + STACK_SIZE" for rsp
    unfolding rsp STACK_SIZE_def by simp
  then show ?thesis using l(1-4) gate(1,2) others by blast
qed

theorem double_fault_own_stack_witness:
  "\<exists>s' g t. gdt_init sample_gdt 0x100000 \<lparr>gdtr = None, seg_cs = 0, seg_ss = 0x10, task_register = 0\<rparr> = Some s' \<and> gdtr s' = Some g \<and>
    lookup_from 1 g (task_register s') = Some (Tss_segment t) \<and> lookup_from 1 g (seg_cs s') = Some Kernel_code"
proof -
  have "stack_array_ok 0x100000" by (simp add: stack_array_ok_def STACK_SIZE_def)
  from double_fault_own_stack [OF sample_gdt_contract this, of "\<lparr>gdtr = None, seg_cs = 0, seg_ss = 0x10, task_register = 0\<rparr>"]
  show ?thesis by (auto simp: sample_gdt_def)
qed

end
