(* ===== verification/Host.thy ===== *)
theory Host
  imports Diagnostics
begin

text \<open>
  The host's side: the build script \<^verbatim>\<open>build.rs\<close>, which makes a disk image of the kernel, and the runner
  \<^verbatim>\<open>src/main.rs\<close>, which starts the emulator on it and turns its status into an exit code. The crate \<^verbatim>\<open>bootloader\<close>, the
  environment of the build and the emulator are parameters; a path is its string. \<^term>\<open>None\<close> is a panic.
\<close>

section \<open>Paths\<close>

text \<open>\<^verbatim>\<open>PathBuf::with_extension\<close> of the standard library: a trailing slash and a last component \<^verbatim>\<open>.\<close> do not count; a path
  without a last name (the root, or ending in \<^verbatim>\<open>..\<close>) is unchanged; the stem is the name up to its last dot, unless that
  dot is its first character.\<close>

function trim_end :: "string \<Rightarrow> string" where
  "trim_end p = (if p \<noteq> [] \<and> last p = CHR ''/'' then trim_end (butlast p)
     else if 2 \<le> length p \<and> drop (length p - 2) p = ''/.'' then trim_end (take (length p - 2) p) else p)"
  by pat_completeness auto
termination by (relation "measure length") auto

declare trim_end.simps [simp del]

definition last_name :: "string \<Rightarrow> string" where
  "last_name p = rev (takeWhile (\<lambda>c. c \<noteq> CHR ''/'') (rev p))"

definition file_stem :: "string \<Rightarrow> string" where
  "file_stem name = (let ext = takeWhile (\<lambda>c. c \<noteq> CHR ''.'') (rev name)
     in if length ext + 1 < length name then take (length name - length ext - 1) name else name)"

definition with_extension :: "string \<Rightarrow> string \<Rightarrow> string" where
  "with_extension path ext = (let p = trim_end path; name = last_name p
     in if name = [] \<or> name = ''.'' \<or> name = ''..'' then path
        else take (length p - length name) p @ file_stem name @ (if ext = [] then [] else CHR ''.'' # ext))"

section \<open>The build script\<close>

text \<open>\<open>create\<close> is \<^verbatim>\<open>BiosBoot::new(kernel).create_disk_image(image)\<close> on the file system. The result is the line
  printed for cargo.\<close>

definition build_main :: "(string \<Rightarrow> string option) \<Rightarrow> (string \<Rightarrow> string \<Rightarrow> 'w \<Rightarrow> 'w option) \<Rightarrow> 'w \<Rightarrow> (string \<times> 'w) option" where
  "build_main env create w = do {
     kernel_path \<leftarrow> env ''CARGO_BIN_FILE_KERNEL_kernel'';
     let bios_path = with_extension kernel_path ''img'';
     w \<leftarrow> create kernel_path bios_path w;
     Some (''cargo:rustc-env=BIOS_PATH='' @ bios_path, w)
   }"

section \<open>The runner\<close>

definition qemu_args :: "string \<Rightarrow> string list" where
  "qemu_args bios_path = [''-drive'', ''format=raw,file='' @ bios_path, ''-serial'', ''mon:stdio'',
     ''-device'', ''isa-debug-exit,iobase=0xf4,iosize=0x04'']"

text \<open>\<open>launch\<close> is \<^verbatim>\<open>Command::status\<close>: \<^term>\<open>None\<close> if the emulator cannot be started, else its exit code, if it has one.\<close>

definition runner_main :: "(string \<Rightarrow> string list \<Rightarrow> int option option) \<Rightarrow> string \<Rightarrow> int option" where
  "runner_main launch bios_path = do {
     code \<leftarrow> launch ''qemu-system-x86_64'' (qemu_args bios_path);
     Some (runner_exit code)
   }"

section \<open>What is relied on\<close>

text \<open>The emulator, on a raw drive whose file name has no comma (a comma separates its options), with the exit device at
  0xF4: it ends at the kernel's first 32-bit write to that port, and its exit code is twice the value plus one. \<open>writes\<close>
  are the port writes of the kernel in an image.\<close>

fun arg_pair :: "string \<Rightarrow> string \<Rightarrow> string list \<Rightarrow> bool" where
  "arg_pair a b (x # y # xs) = (x = a \<and> y = b \<or> arg_pair a b (y # xs))"
| "arg_pair a b xs = False"

definition qemu_contract :: "(string \<Rightarrow> string list \<Rightarrow> int option option) \<Rightarrow> (string \<Rightarrow> (u16 \<times> u32) list) \<Rightarrow> bool" where
  "qemu_contract launch writes \<longleftrightarrow>
     (\<forall>args image v rest. arg_pair ''-drive'' (''format=raw,file='' @ image) args \<longrightarrow> CHR '','' \<notin> set image \<longrightarrow>
        arg_pair ''-device'' ''isa-debug-exit,iobase=0xf4,iosize=0x04'' args \<longrightarrow>
        filter (\<lambda>(p, v). p = 0xf4) (writes image) = (0xf4, v) # rest \<longrightarrow> uint v < 128 \<longrightarrow>
        launch ''qemu-system-x86_64'' args = Some (Some (2 * uint v + 1)))"

section \<open>The image\<close>

lemma set_trim_end: "set (trim_end p) \<subseteq> set p"
proof (induction p rule: trim_end.induct)
  case (1 p)
  show ?case
    using 1 in_set_butlastD [of _ p] set_take_subset [of "length p - 2" p] unfolding trim_end.simps [of p] by auto
qed

lemma set_with_extension: "set (with_extension p ext) \<subseteq> set p \<union> {CHR ''.''} \<union> set ext"
proof -
  have "set (last_name q) \<subseteq> set q" for q unfolding last_name_def using set_takeWhileD by fastforce
  moreover have "set (file_stem n) \<subseteq> set n" for n unfolding file_stem_def Let_def by (auto dest: in_set_takeD)
  ultimately show ?thesis using set_trim_end [of p] unfolding with_extension_def Let_def by (auto dest!: in_set_takeD) blast+
qed

text \<open>A path as cargo gives it, without a dot in its name: the image lies beside the kernel.\<close>

lemma image_beside_kernel:
  assumes "CHR ''/'' \<notin> set name" and "CHR ''.'' \<notin> set name" and "name \<noteq> []"
  shows "with_extension (dir @ CHR ''/'' # name) ''img'' = dir @ CHR ''/'' # name @ ''.img''"
proof -
  let ?p = "dir @ CHR ''/'' # name"
  have "last name \<in> set name" using assms(3) by (rule last_in_set)
  then have "last name \<noteq> CHR ''/''" "last name \<noteq> CHR ''.''" using assms(1,2) by metis+
  moreover have "last ?p = last name" using assms(3) by simp
  ultimately have l: "last ?p \<noteq> CHR ''/''" "last ?p \<noteq> CHR ''.''" by simp_all
  have "drop (length ?p - 2) ?p \<noteq> ''/.''"
  proof
    assume "drop (length ?p - 2) ?p = ''/.''"
    then have "last (drop (length ?p - 2) ?p) = CHR ''.''" by simp
    moreover have "last (drop (length ?p - 2) ?p) = last ?p" using assms(3) by (intro last_drop) (cases name; simp)
    ultimately show False using l(2) by simp
  qed
  then have t: "trim_end ?p = ?p" using l(1) by (subst trim_end.simps) simp
  have n: "last_name ?p = name" using assms(1) by (simp add: last_name_def takeWhile_append)
  have all: "takeWhile (\<lambda>c. c \<noteq> CHR ''.'') (rev name) = rev name" using assms(2) by (auto simp: takeWhile_eq_all_conv)
  have s: "file_stem name = name" unfolding file_stem_def all by simp
  have "name \<noteq> ''.''" "name \<noteq> ''..''" using assms(2) by auto
  then show ?thesis using assms(3) by (simp add: with_extension_def t n s)
qed

section \<open>Properties\<close>

text \<open>C32: the verdict of a test run reaches the user. The build script puts the kernel in an image beside it and hands its
  path to the runner, which starts the emulator on that image; if the kernel in it runs its tests, with a working serial
  port and tests that return or panic, the runner exits with 0 if every test returned and with 35 if one panicked. The
  path must be without a comma.\<close>

theorem host_verdict:
  assumes "env ''CARGO_BIN_FILE_KERNEL_kernel'' = Some kernel_path" and "CHR '','' \<notin> set kernel_path"
    and "build_main env create w = Some (''cargo:rustc-env=BIOS_PATH='' @ bios_path, w')"
    and "qemu_contract launch writes"
    and "diag_ok u s" and "\<forall>test \<in> set tests. test_ok u test"
    and "\<forall>s'. test_runner u tests s = Halted s' \<longrightarrow> writes (with_extension kernel_path ''img'') = port_writes s'"
  shows "create kernel_path bios_path w = Some w' \<and>
    runner_main launch bios_path =
      Some (if \<exists>s1 s2. serial_print u (lit ''Running '' @ map unat (dec_text (length tests)) @ lit '' tests...'' @ [10]) s = Returns s1 \<and>
        run_tests tests s1 = Returns s2 then 0 else 35)"
proof -
  have b: "bios_path = with_extension kernel_path ''img''" "create kernel_path bios_path w = Some w'"
    using assms(1,3) by (auto simp: build_main_def bind_eq_Some_conv Let_def)
  have "CHR '','' \<notin> set bios_path" using set_with_extension [of kernel_path "''img''"] assms(2) unfolding b(1) by auto
  moreover have "arg_pair ''-drive'' (''format=raw,file='' @ bios_path) (qemu_args bios_path)"
    "arg_pair ''-device'' ''isa-debug-exit,iobase=0xf4,iosize=0x04'' (qemu_args bios_path)" by (simp_all add: qemu_args_def)
  ultimately have launch: "launch ''qemu-system-x86_64'' (qemu_args bios_path) = Some (Some (2 * uint v + 1))"
    if "filter (\<lambda>(p, v). p = 0xf4) (writes bios_path) = (0xf4, v) # rest" "uint v < 128" for v rest
    using assms(4) that unfolding qemu_contract_def by blast
  let ?dev = "\<lambda>v :: u32. 2 * uint v + 1"
  have dev: "?dev 0x10 = 33" "?dev 0x11 = 35" by simp_all
  obtain s' where s': "test_runner u tests s = Halted s'" "verdict ?dev s' = Some (if \<exists>s1 s2. serial_print u (lit ''Running '' @
      map unat (dec_text (length tests)) @ lit '' tests...'' @ [10]) s = Returns s1 \<and> run_tests tests s1 = Returns s2 then 0 else 35)"
    using test_verdict [OF assms(5,6) dev] by blast
  have writes: "writes bios_path = port_writes s'" using assms(7) s'(1) b(1) by simp
  obtain v rest where first: "filter (\<lambda>(p, v). p = 0xf4) (port_writes s') = (0xf4, v) # rest"
    using s'(2) by (auto simp: verdict_def qemu_status_def split: list.splits dest!: filter_eq_ConsD)
  have "runner_exit (Some (?dev v)) = (if \<exists>s1 s2. serial_print u (lit ''Running '' @
      map unat (dec_text (length tests)) @ lit '' tests...'' @ [10]) s = Returns s1 \<and> run_tests tests s1 = Returns s2 then 0 else 35)"
    using s'(2) first by (simp add: verdict_def qemu_status_def)
  moreover from this have "uint v < 128" by (auto simp: runner_exit_def Let_def split: if_splits)
  ultimately show ?thesis using launch [OF first [folded writes]] b(2) by (simp add: runner_main_def)
qed

text \<open>The witness: a port that collects its texts and one test, which passes; the file system is the list of the images made.\<close>

theorem host_verdict_witness:
  "\<exists>line. build_main (\<lambda>_. Some ''/target/kernel-1'') (\<lambda>k i w. Some ((k, i) # w)) [] =
      Some (line @ ''/target/kernel-1.img'', [(''/target/kernel-1'', ''/target/kernel-1.img'')]) \<and>
    runner_main (\<lambda>program args. Some (Some 33)) ''/target/kernel-1.img'' = Some 0"
proof -
  let ?u = "\<lparr>uart_new = (\<lambda>p. []), uart_init = (\<lambda>p. p), uart_write = (\<lambda>p t. Some (p @ t))\<rparr> :: unichar list uart"
  let ?s = "\<lparr>SERIAL = Some [], serial_lock = False, port_writes = []\<rparr>" and ?tests = "[trivial_assertion ?u []]"
  let ?env = "\<lambda>name :: string. Some ''/target/kernel-1''" and ?create = "\<lambda>k i w. Some ((k :: string, i :: string) # w)"
  let ?launch = "\<lambda>(program :: string) (args :: string list). Some (Some (33 :: int))"
  let ?writes = "\<lambda>image :: string. [(0xf4 :: u16, 0x10 :: u32)]"
  have image: "with_extension ''/target/kernel-1'' ''img'' = ''/target/kernel-1.img''"
    using image_beside_kernel [of "''kernel-1''" "''/target''"] by simp
  have env: "?env ''CARGO_BIN_FILE_KERNEL_kernel'' = Some ''/target/kernel-1''" "CHR '','' \<notin> set ''/target/kernel-1''" by simp_all
  have build: "build_main ?env ?create [] = Some (''cargo:rustc-env=BIOS_PATH='' @ ''/target/kernel-1.img'', [(''/target/kernel-1'', ''/target/kernel-1.img'')])"
    by (simp add: build_main_def image Let_def)
  have qemu: "qemu_contract ?launch ?writes" by (auto simp: qemu_contract_def)
  have ok: "diag_ok ?u ?s" "\<forall>test \<in> set ?tests. test_ok ?u test" by (auto simp: diag_ok_def test_ok_def trivial_assertion_def)
  have run: "\<forall>s'. test_runner ?u ?tests ?s = Halted s' \<longrightarrow> ?writes (with_extension ''/target/kernel-1'' ''img'') = port_writes s'"
    by (auto simp: test_runner_def serial_print_def trivial_assertion_def exit_qemu_def)
  have "runner_main ?launch ''/target/kernel-1.img'' = Some 0"
    using host_verdict [OF env build qemu ok run] by (simp add: serial_print_def trivial_assertion_def)
  then show ?thesis using build by blast
qed

end
