(* ===== verification/Memory.thy ===== *)
theory Memory
  imports Ring
begin

text \<open>
  \<^verbatim>\<open>kernel/src/memory.rs\<close>: the frame allocator that hands out the 4 KiB frames of the usable
  memory regions the boot loader reports, one after the other and never back.

  The region type belongs to the crate \<^verbatim>\<open>bootloader_api\<close>; its kinds are those the kernel
  names, \<open>OtherKind\<close> standing for the rest of a non-exhaustive enumeration. A frame is made by
  \<^verbatim>\<open>PhysFrame::containing_address(PhysAddr::new(addr))\<close> of the crate \<^verbatim>\<open>x86_64\<close>: the parameter
  \<open>mk_frame\<close>, which panics (\<^term>\<open>None\<close>) on an address that is not a valid physical address. What is
  relied on is \<open>frame_ctor\<close>: a page-aligned address below 2^52 gives the frame that starts there.
\<close>

section \<open>The active page table\<close>

text \<open>The level 4 table is at the physical address in the register CR3, which the boot loader maps at the physical
  offset. \<open>virt_add\<close> is \<^verbatim>\<open>VirtAddr + u64\<close> and \<open>offset_page_table\<close> is \<^verbatim>\<open>OffsetPageTable::new\<close> of the crate \<^verbatim>\<open>x86_64\<close>,
  on the address of the table.\<close>

definition active_level_4_table :: "(u64 \<Rightarrow> u64 \<Rightarrow> u64 option) \<Rightarrow> u64 \<Rightarrow> u64 \<Rightarrow> u64 option" where
  "active_level_4_table virt_add cr3 phys_offset = virt_add phys_offset cr3"

definition init_page_table :: "(u64 \<Rightarrow> u64 \<Rightarrow> u64 option) \<Rightarrow> (u64 \<Rightarrow> u64 \<Rightarrow> 'm) \<Rightarrow> u64 \<Rightarrow> u64 \<Rightarrow> 'm option" where
  "init_page_table virt_add offset_page_table cr3 phys_offset = do {
     l4_table \<leftarrow> active_level_4_table virt_add cr3 phys_offset;
     Some (offset_page_table l4_table phys_offset)
   }"

section \<open>The iterator over usable frames\<close>

datatype region_kind = Usable | Bootloader | UnknownUefi u32 | UnknownBios u32 | OtherKind

record region =
  rstart :: u64
  rend :: u64
  rkind :: region_kind

record frame_iter =
  regions :: "region list"
  region_idx :: usize
  next_addr :: u64

definition align_up :: "u64 \<Rightarrow> u64 \<Rightarrow> u64 option" where
  "align_up addr align = do {
     s \<leftarrow> u64_add addr align;
     t \<leftarrow> u64_sub s 1;
     m \<leftarrow> u64_sub align 1;
     Some (t AND NOT m)
   }"

function advance_to_usable :: "frame_iter \<Rightarrow> frame_iter option" where
  "advance_to_usable it =
     (if region_idx it < length (regions it)
      then (let region = regions it ! region_idx it
            in if rkind region = Usable
               then (case align_up (rstart region) 4096 of
                       None \<Rightarrow> None
                     | Some aligned_start \<Rightarrow>
                         if aligned_start < rend region
                         then Some (it\<lparr>next_addr := max (next_addr it) aligned_start\<rparr>)
                         else advance_to_usable (it\<lparr>region_idx := region_idx it + 1\<rparr>))
               else advance_to_usable (it\<lparr>region_idx := region_idx it + 1\<rparr>))
      else Some it)"
  by pat_completeness auto
termination
  by (relation "measure (\<lambda>it. length (regions it) - region_idx it)") auto

declare advance_to_usable.simps [simp del]

lemma advance_to_usable_mono:
  "advance_to_usable it = Some it' \<Longrightarrow> regions it' = regions it \<and> region_idx it \<le> region_idx it'"
proof (induction it rule: advance_to_usable.induct)
  case (1 it)
  from "1.prems" show ?case
    by (subst (asm) advance_to_usable.simps)
      (auto simp: Let_def split: if_splits option.splits dest: "1.IH"(1) [OF _ refl] "1.IH"(2) [OF _ refl])
qed

definition new_iter :: "region list \<Rightarrow> frame_iter option" where
  "new_iter memory_regions =
     advance_to_usable \<lparr>regions = memory_regions, region_idx = 0, next_addr = 0\<rparr>"

function next_frame :: "(u64 \<Rightarrow> 'f option) \<Rightarrow> frame_iter \<Rightarrow> ('f option \<times> frame_iter) option" where
  "next_frame mk_frame it =
     (if region_idx it \<ge> length (regions it) then Some (None, it)
      else (let region = regions it ! region_idx it
            in case u64_add (next_addr it) 4096 of
                 None \<Rightarrow> None
               | Some after \<Rightarrow>
                   if after \<le> rend region
                   then (case mk_frame (next_addr it) of
                           None \<Rightarrow> None
                         | Some frame \<Rightarrow> Some (Some frame, it\<lparr>next_addr := after\<rparr>))
                   else (case advance_to_usable (it\<lparr>region_idx := region_idx it + 1\<rparr>) of
                           None \<Rightarrow> None
                         | Some it' \<Rightarrow> next_frame mk_frame it')))"
  by pat_completeness auto
termination
  by (relation "measure (\<lambda>(mk, it). length (regions it) - region_idx it)")
    (auto dest!: advance_to_usable_mono)

declare next_frame.simps [simp del]

definition boot_allocator_new :: "region list \<Rightarrow> frame_iter option" where
  "boot_allocator_new memory_regions = new_iter memory_regions"

definition allocate_frame :: "(u64 \<Rightarrow> 'f option) \<Rightarrow> frame_iter \<Rightarrow> ('f option \<times> frame_iter) option" where
  "allocate_frame mk_frame a = next_frame mk_frame a"

section \<open>Alignment\<close>

text \<open>The start of the first page at or after an address.\<close>

definition page_up :: "nat \<Rightarrow> nat" where
  "page_up a = (a + 4095) div 4096 * 4096"

lemma page_up_ge: "a \<le> page_up a"
  using div_mult_mod_eq [of "a + 4095" 4096] mod_less_divisor [of 4096 "a + 4095"]
  unfolding page_up_def by linarith

lemma page_up_aligned: "4096 dvd page_up a"
  by (simp add: page_up_def)

lemma page_up_least:
  assumes "4096 dvd f" and "a \<le> f"
  shows "page_up a \<le> f"
proof -
  from assms(1) obtain k where k: "f = k * 4096" by (metis dvd_def mult.commute)
  have "(a + 4095) div 4096 \<le> (k * 4096 + 4095) div 4096"
    using assms(2) k by (intro div_le_mono) simp
  also have "\<dots> = k" by simp
  finally show ?thesis by (simp add: page_up_def k)
qed

lemma align_up_page:
  assumes "unat a + 4096 < 2 ^ 64"
  shows "\<exists>w. align_up a 4096 = Some w \<and> unat w = page_up (unat a)"
proof -
  have s: "u64_add a 4096 = Some (a + 4096)" using assms by (simp add: u64_add_def)
  have us: "unat (a + 4096) = unat a + 4096" using unat_u64_add [OF s] by simp
  have le: "1 \<le> a + 4096" using us by (simp add: word_le_nat_alt)
  have "unat (a + 4096 - 1) = unat a + 4095" using unat_sub [OF le] us by simp
  moreover have "(4095 :: u64) = mask 12" by (simp add: mask_eq_exp_minus_1)
  ultimately have "unat ((a + 4096 - 1) AND NOT 4095) = page_up (unat a)"
    by (simp only: unat_and_not_mask page_up_def) simp
  moreover have "align_up a 4096 = Some ((a + 4096 - 1) AND NOT 4095)"
    using s le by (simp add: align_up_def u64_sub_def)
  ultimately show ?thesis by blast
qed

section \<open>The list of frames a region map holds\<close>

text \<open>The frames of \<open>[lo, hi)\<close> that start at \<open>lo\<close>, and what the allocator hands out, in order, when
  it enters a list of regions with \<open>next_addr = cur\<close>.\<close>

definition frames_between :: "nat \<Rightarrow> nat \<Rightarrow> nat list" where
  "frames_between lo hi = map (\<lambda>i. lo + 4096 * i) [0..<(hi - lo) div 4096]"

definition first_frame :: "region \<Rightarrow> nat" where
  "first_frame r = page_up (unat (rstart r))"

definition has_start :: "region \<Rightarrow> bool" where
  "has_start r \<longleftrightarrow> rkind r = Usable \<and> first_frame r < unat (rend r)"

fun frame_list :: "nat \<Rightarrow> region list \<Rightarrow> nat list" where
  "frame_list cur [] = []"
| "frame_list cur (r # rs) =
     (if has_start r
      then (let lo = max cur (first_frame r); fs = frames_between lo (unat (rend r))
            in fs @ frame_list (lo + 4096 * length fs) rs)
      else frame_list cur rs)"

lemma frames_between_Nil: "hi < lo + 4096 \<Longrightarrow> frames_between lo hi = []"
  by (simp add: frames_between_def)

lemma frames_between_Cons:
  assumes "lo + 4096 \<le> hi"
  shows "frames_between lo hi = lo # frames_between (lo + 4096) hi"
proof -
  have "hi - lo = (hi - (lo + 4096)) + 4096" using assms by simp
  then have "(hi - lo) div 4096 = Suc ((hi - (lo + 4096)) div 4096)"
    by (simp only: div_add_self2)
  then show ?thesis
    by (simp add: frames_between_def upt_conv_Cons map_Suc_upt [symmetric] comp_def algebra_simps
        del: upt_Suc)
qed

lemma in_frames_between:
  assumes "f \<in> set (frames_between lo hi)"
  shows "lo \<le> f" and "f + 4096 \<le> hi" and "4096 dvd f \<longleftrightarrow> 4096 dvd lo"
proof -
  obtain i where i: "i < (hi - lo) div 4096" "f = lo + 4096 * i"
    using assms by (auto simp: frames_between_def)
  have "4096 * Suc i \<le> 4096 * ((hi - lo) div 4096)" using i(1) by simp
  also have "\<dots> \<le> hi - lo" by (rule times_div_less_eq_dividend)
  finally show "f + 4096 \<le> hi" using i(1) by (simp add: i(2))
  show "lo \<le> f" by (simp add: i(2))
  show "4096 dvd f \<longleftrightarrow> 4096 dvd lo" by (simp add: i(2) dvd_add_left_iff)
qed

lemma sorted_frames_between: "sorted_wrt (<) (frames_between lo hi)"
  by (simp add: frames_between_def sorted_wrt_map)

lemma end_of_frames: "lo \<le> hi \<Longrightarrow> lo + 4096 * length (frames_between lo hi) \<le> hi"
  using times_div_less_eq_dividend [of 4096 "hi - lo"] by (simp add: frames_between_def)

section \<open>The iterator runs through that list\<close>

definition region_ok :: "region \<Rightarrow> bool" where
  "region_ok r \<longleftrightarrow> (rkind r = Usable \<longrightarrow> unat (rstart r) \<le> 2 ^ 52 \<and> unat (rend r) \<le> 2 ^ 52)"

definition regions_ok :: "region list \<Rightarrow> bool" where
  "regions_ok rs \<longleftrightarrow> list_all region_ok rs"

definition frame_ctor :: "(u64 \<Rightarrow> 'f option) \<Rightarrow> ('f \<Rightarrow> nat) \<Rightarrow> bool" where
  "frame_ctor mk_frame addr_of \<longleftrightarrow> (\<forall>a. 4096 dvd unat a \<longrightarrow> unat a < 2 ^ 52 \<longrightarrow>
     (\<exists>f. mk_frame a = Some f \<and> addr_of f = unat a))"

definition pending :: "frame_iter \<Rightarrow> nat list" where
  "pending it =
     (if region_idx it < length (regions it)
      then (let fs = frames_between (unat (next_addr it)) (unat (rend (regions it ! region_idx it)))
            in fs @ frame_list (unat (next_addr it) + 4096 * length fs)
                 (drop (Suc (region_idx it)) (regions it)))
      else [])"

definition addr_ok :: "frame_iter \<Rightarrow> bool" where
  "addr_ok it \<longleftrightarrow> regions_ok (regions it) \<and> unat (next_addr it) \<le> 2 ^ 52 \<and> 4096 dvd unat (next_addr it)"

definition iter_inv :: "frame_iter \<Rightarrow> bool" where
  "iter_inv it \<longleftrightarrow> addr_ok it \<and>
     (region_idx it < length (regions it) \<longrightarrow> has_start (regions it ! region_idx it) \<and>
        first_frame (regions it ! region_idx it) \<le> unat (next_addr it))"

lemma unat_max: "unat (max a b) = max (unat a) (unat b)"
  by (simp add: max_def word_le_nat_alt)

lemma region_ok_nth: "regions_ok rs \<Longrightarrow> i < length rs \<Longrightarrow> region_ok (rs ! i)"
  by (simp add: regions_ok_def list_all_length)

lemma align_up_region:
  assumes "region_ok r" and "rkind r = Usable"
  shows "\<exists>w. align_up (rstart r) 4096 = Some w \<and> unat w = first_frame r"
  using assms align_up_page [of "rstart r"] by (simp add: region_ok_def first_frame_def)

lemma advance_to_usable_spec:
  "addr_ok it \<Longrightarrow> \<exists>it'. advance_to_usable it = Some it' \<and> iter_inv it' \<and> regions it' = regions it \<and>
    pending it' = frame_list (unat (next_addr it)) (drop (region_idx it) (regions it))"
proof (induction it rule: advance_to_usable.induct)
  case (1 it)
  let ?r = "regions it ! region_idx it" and ?skip = "it\<lparr>region_idx := region_idx it + 1\<rparr>"
  show ?case
  proof (cases "region_idx it < length (regions it)")
    case False
    then show ?thesis
      using "1.prems" by (subst advance_to_usable.simps) (simp add: iter_inv_def pending_def)
  next
    case idx: True
    have drop: "drop (region_idx it) (regions it) = ?r # drop (Suc (region_idx it)) (regions it)"
      using idx by (simp add: Cons_nth_drop_Suc)
    have rok: "region_ok ?r" using "1.prems" idx by (simp add: addr_ok_def region_ok_nth)
    have skip_ok: "addr_ok ?skip" using "1.prems" by (simp add: addr_ok_def)
    show ?thesis
    proof (cases "rkind ?r = Usable")
      case False
      with "1.IH"(2) [OF idx refl False skip_ok] idx show ?thesis
        by (subst advance_to_usable.simps) (simp add: drop has_start_def)
    next
      case usable: True
      obtain w where w: "align_up (rstart ?r) 4096 = Some w" "unat w = first_frame ?r"
        using align_up_region [OF rok usable] by blast
      show ?thesis
      proof (cases "w < rend ?r")
        case True
        then have hs: "has_start ?r" using usable w(2) by (simp add: has_start_def word_less_nat_alt)
        let ?it = "it\<lparr>next_addr := max (next_addr it) w\<rparr>"
        have un: "unat (next_addr ?it) = max (unat (next_addr it)) (first_frame ?r)"
          by (simp add: unat_max w(2))
        have "first_frame ?r \<le> 2 ^ 52"
          using hs rok usable by (simp add: has_start_def region_ok_def)
        moreover have "4096 dvd first_frame ?r" by (simp add: first_frame_def page_up_aligned)
        ultimately have "addr_ok ?it"
          using "1.prems" unfolding addr_ok_def un by (auto simp: max_def)
        then have "iter_inv ?it" using hs un by (simp add: iter_inv_def)
        moreover have "pending ?it = frame_list (unat (next_addr it)) (drop (region_idx it) (regions it))"
          using idx hs unfolding pending_def un drop by (simp add: Let_def)
        moreover have "advance_to_usable it = Some ?it"
          using True idx usable w(1) by (subst advance_to_usable.simps) simp
        ultimately show ?thesis by simp
      next
        case False
        then have "\<not> has_start ?r" using w(2) by (simp add: has_start_def word_less_nat_alt)
        with "1.IH"(1) [OF idx refl usable w(1) False skip_ok] idx usable w(1) False show ?thesis
          by (subst advance_to_usable.simps) (simp add: drop)
      qed
    qed
  qed
qed

lemma new_iter_spec:
  assumes "regions_ok rs"
  shows "\<exists>it. new_iter rs = Some it \<and> iter_inv it \<and> pending it = frame_list 0 rs"
  using advance_to_usable_spec [of "\<lparr>regions = rs, region_idx = 0, next_addr = 0\<rparr>"] assms
  by (auto simp: new_iter_def addr_ok_def)

lemma next_frame_spec:
  assumes "frame_ctor mk_frame addr_of" and "iter_inv it"
  shows "\<exists>r it'. next_frame mk_frame it = Some (r, it') \<and> iter_inv it' \<and> pending it' = tl (pending it) \<and>
    map_option addr_of r = (case pending it of [] \<Rightarrow> None | x # _ \<Rightarrow> Some x)"
  using assms
proof (induction mk_frame it rule: next_frame.induct)
  case (1 mk it)
  let ?r = "regions it ! region_idx it" and ?n = "unat (next_addr it)"
  let ?skip = "it\<lparr>region_idx := region_idx it + 1\<rparr>"
  show ?case
  proof (cases "region_idx it < length (regions it)")
    case False
    then have "next_frame mk it = Some (None, it)" "pending it = []"
      by (simp_all add: next_frame.simps [of mk it] pending_def)
    with "1.prems"(2) show ?thesis by simp
  next
    case idx: True
    have hs: "rkind ?r = Usable" using "1.prems"(2) idx by (simp add: iter_inv_def has_start_def)
    have aok: "addr_ok it" using "1.prems"(2) by (simp add: iter_inv_def)
    have rend: "unat (rend ?r) \<le> 2 ^ 52"
      using aok idx hs region_ok_nth [of "regions it" "region_idx it"] by (simp add: addr_ok_def region_ok_def)
    have add: "u64_add (next_addr it) 4096 = Some (next_addr it + 4096)"
      using aok by (simp add: u64_add_def addr_ok_def)
    have after: "unat (next_addr it + 4096) = ?n + 4096" using unat_u64_add [OF add] by simp
    show ?thesis
    proof (cases "next_addr it + 4096 \<le> rend ?r")
      case True
      then have le: "?n + 4096 \<le> unat (rend ?r)" by (simp add: word_le_nat_alt after)
      then obtain f where f: "mk (next_addr it) = Some f" "addr_of f = ?n"
        using "1.prems"(1) aok rend by (auto simp: frame_ctor_def addr_ok_def)
      let ?it = "it\<lparr>next_addr := next_addr it + 4096\<rparr>"
      have "next_frame mk it = Some (Some f, ?it)"
        using idx add True f(1) by (simp add: next_frame.simps [of mk it])
      moreover have "pending it = ?n # pending ?it"
      proof -
        define fs where "fs = frames_between (?n + 4096) (unat (rend ?r))"
        have fields: "region_idx ?it = region_idx it" "regions ?it = regions it"
          "next_addr ?it = next_addr it + 4096" by simp_all
        have new: "pending ?it
            = fs @ frame_list (?n + 4096 + 4096 * length fs) (drop (Suc (region_idx it)) (regions it))"
          using idx by (simp only: pending_def fields after Let_def fs_def if_True)
        have "frames_between ?n (unat (rend ?r)) = ?n # fs"
          unfolding fs_def using le by (rule frames_between_Cons)
        then have "pending it
            = ?n # fs @ frame_list (?n + 4096 * Suc (length fs)) (drop (Suc (region_idx it)) (regions it))"
          using idx by (simp only: pending_def Let_def if_True append_Cons length_Cons)
        then show ?thesis by (simp only: new mult_Suc_right add.assoc)
      qed
      moreover have "iter_inv ?it"
        using "1.prems"(2) aok le rend by (auto simp: iter_inv_def addr_ok_def after intro: trans_le_add1)
      ultimately show ?thesis using f(2) by simp
    next
      case False
      then have nil: "frames_between ?n (unat (rend ?r)) = []"
        by (intro frames_between_Nil) (simp add: word_le_nat_alt after)
      obtain it1 where it1: "advance_to_usable ?skip = Some it1" "iter_inv it1"
        "pending it1 = frame_list ?n (drop (Suc (region_idx it)) (regions it))"
        using advance_to_usable_spec [of ?skip] aok by (auto simp: addr_ok_def)
      have "pending it = pending it1" using idx it1(3) by (simp add: pending_def nil)
      moreover have "next_frame mk it = next_frame mk it1"
        using idx add False it1(1) by (simp add: next_frame.simps [of mk it])
      ultimately show ?thesis
        using "1.IH" [OF _ refl add False it1(1) "1.prems"(1) it1(2)] idx by simp
    qed
  qed
qed

section \<open>The interface of a frame source\<close>

text \<open>What the heap initialisation relies on: each call returns the next of a fixed list of frames,
  \<^term>\<open>None\<close> when the list is used up.\<close>

locale frame_source =
  fixes alloc :: "'a \<Rightarrow> ('f option \<times> 'a) option"
    and remaining :: "'a \<Rightarrow> nat list"
    and inv :: "'a \<Rightarrow> bool"
    and addr_of :: "'f \<Rightarrow> nat"
  assumes alloc_spec: "inv a \<Longrightarrow> \<exists>r a'. alloc a = Some (r, a') \<and> inv a' \<and> remaining a' = tl (remaining a) \<and>
      map_option addr_of r = (case remaining a of [] \<Rightarrow> None | x # _ \<Rightarrow> Some x)"
begin

lemma alloc_none:
  assumes "inv a" and "remaining a = []"
  shows "\<exists>a'. alloc a = Some (None, a') \<and> inv a' \<and> remaining a' = []"
  using alloc_spec [OF assms(1)] assms(2) by auto

lemma alloc_some:
  assumes "inv a" and "remaining a = x # xs"
  shows "\<exists>f a'. alloc a = Some (Some f, a') \<and> addr_of f = x \<and> inv a' \<and> remaining a' = xs"
  using alloc_spec [OF assms(1)] assms(2) by auto

lemma drain_alloc:
  assumes "inv a"
  shows "\<exists>fs a'. drain alloc n a = Some (fs, a') \<and> map addr_of fs = take n (remaining a) \<and> inv a' \<and>
    remaining a' = drop n (remaining a)"
  using assms
proof (induction n arbitrary: a)
  case 0
  then show ?case by simp
next
  case (Suc n)
  show ?case
  proof (cases "remaining a")
    case Nil
    from alloc_none [OF Suc.prems Nil] Suc.IH Nil show ?thesis by fastforce
  next
    case (Cons x xs)
    from alloc_some [OF Suc.prems Cons] obtain f a1
      where a1: "alloc a = Some (Some f, a1)" "addr_of f = x" "inv a1" "remaining a1 = xs" by blast
    from Suc.IH [OF a1(3)] a1 Cons show ?thesis by auto
  qed
qed

end

interpretation frames: frame_source "allocate_frame mk_frame" pending
  "\<lambda>it. frame_ctor mk_frame addr_of \<and> iter_inv it" addr_of
  for mk_frame :: "u64 \<Rightarrow> 'f option" and addr_of :: "'f \<Rightarrow> nat"
proof unfold_locales
  fix it assume "frame_ctor mk_frame addr_of \<and> iter_inv it"
  with next_frame_spec [of mk_frame addr_of it]
  show "\<exists>r it'. allocate_frame mk_frame it = Some (r, it') \<and> (frame_ctor mk_frame addr_of \<and> iter_inv it') \<and>
      pending it' = tl (pending it) \<and>
      map_option addr_of r = (case pending it of [] \<Rightarrow> None | x # _ \<Rightarrow> Some x)"
    by (simp add: allocate_frame_def)
qed

section \<open>What the list holds\<close>

lemma frame_list_lower: "f \<in> set (frame_list cur rs) \<Longrightarrow> cur \<le> f"
proof (induction cur rs rule: frame_list.induct)
  case (2 cur r rs)
  show ?case
  proof (cases "has_start r")
    case True
    let ?lo = "max cur (first_frame r)"
    let ?fs = "frames_between ?lo (unat (rend r))"
    have "f \<in> set ?fs \<or> f \<in> set (frame_list (?lo + 4096 * length ?fs) rs)"
      using "2.prems" True by (simp add: Let_def)
    then have "?lo \<le> f"
      using in_frames_between(1) "2.IH"(1) [OF True refl refl] by fastforce
    then show ?thesis by simp
  next
    case False
    with "2.IH"(2) "2.prems" show ?thesis by simp
  qed
qed simp

lemma frames_between_upper:
  assumes "x \<in> set (frames_between lo hi)"
  shows "x < lo + 4096 * length (frames_between lo hi)"
proof -
  from assms obtain i where "i < (hi - lo) div 4096" "x = lo + 4096 * i"
    by (auto simp: frames_between_def)
  then show ?thesis by (simp add: frames_between_def)
qed

lemma sorted_frame_list: "sorted_wrt (<) (frame_list cur rs)"
proof (induction cur rs rule: frame_list.induct)
  case (2 cur r rs)
  show ?case
  proof (cases "has_start r")
    case True
    let ?lo = "max cur (first_frame r)"
    let ?fs = "frames_between ?lo (unat (rend r))"
    have "x < y" if "x \<in> set ?fs" and "y \<in> set (frame_list (?lo + 4096 * length ?fs) rs)" for x y
      using frames_between_upper [OF that(1)] frame_list_lower [OF that(2)] by simp
    moreover have "frame_list cur (r # rs) = ?fs @ frame_list (?lo + 4096 * length ?fs) rs"
      using True by (simp only: frame_list.simps Let_def if_True)
    ultimately show ?thesis
      using "2.IH"(1) [OF True refl refl] sorted_frames_between [of ?lo "unat (rend r)"]
      by (simp only: sorted_wrt_append) blast
  next
    case False
    with "2.IH"(2) show ?thesis by simp
  qed
qed simp

lemma frame_list_usable:
  assumes "f \<in> set (frame_list cur rs)" and "4096 dvd cur"
  shows "4096 dvd f \<and> (\<exists>r \<in> set rs. rkind r = Usable \<and> unat (rstart r) \<le> f \<and> f + 4096 \<le> unat (rend r))"
  using assms
proof (induction cur rs rule: frame_list.induct)
  case (2 cur r rs)
  show ?case
  proof (cases "has_start r")
    case True
    let ?lo = "max cur (first_frame r)"
    let ?fs = "frames_between ?lo (unat (rend r))"
    have lo: "4096 dvd ?lo" using "2.prems"(2) by (simp add: max_def first_frame_def page_up_aligned)
    have le: "unat (rstart r) \<le> ?lo"
      using page_up_ge [of "unat (rstart r)"] by (simp add: first_frame_def)
    show ?thesis
    proof (cases "f \<in> set ?fs")
      case f: True
      show ?thesis
        using in_frames_between [OF f] lo le True by (auto simp: has_start_def intro!: bexI [of _ r])
    next
      case False
      with "2.prems"(1) True have "f \<in> set (frame_list (?lo + 4096 * length ?fs) rs)"
        by (simp add: Let_def)
      moreover have "4096 dvd ?lo + 4096 * length ?fs" using lo by simp
      ultimately show ?thesis using "2.IH"(1) [OF True refl refl] by auto
    qed
  next
    case False
    with "2.IH"(2) "2.prems" show ?thesis by auto
  qed
qed simp

text \<open>On a map sorted by address, whose regions do not overlap, no whole usable page is skipped.\<close>

definition ascending :: "region list \<Rightarrow> bool" where
  "ascending rs \<longleftrightarrow> sorted_wrt (\<lambda>r1 r2. unat (rend r1) \<le> unat (rstart r2)) rs"

lemma in_frames_betweenI:
  assumes "4096 dvd f" and "4096 dvd lo" and "lo \<le> f" and "f + 4096 \<le> hi"
  shows "f \<in> set (frames_between lo hi)"
proof -
  have "4096 dvd f - lo" using assms by (simp add: dvd_diff_nat)
  then obtain i where "f - lo = 4096 * i" by (rule dvdE)
  with assms(3) have i: "f = lo + 4096 * i" by simp
  have "Suc i \<le> (hi - lo) div 4096"
    using assms(4) unfolding i by (subst less_eq_div_iff_mult_less_eq) auto
  then show ?thesis using i by (auto simp: frames_between_def)
qed

lemma frame_list_complete:
  assumes "ascending rs" and "r \<in> set rs" and "rkind r = Usable" and "4096 dvd f"
    and "unat (rstart r) \<le> f" and "f + 4096 \<le> unat (rend r)" and "cur \<le> f" and "4096 dvd cur"
  shows "f \<in> set (frame_list cur rs)"
  using assms
proof (induction cur rs rule: frame_list.induct)
  case (2 cur r0 rs)
  have asc: "ascending rs" using "2.prems"(1) by (simp add: ascending_def)
  show ?case
  proof (cases "has_start r0")
    case True
    let ?lo = "max cur (first_frame r0)"
    let ?fs = "frames_between ?lo (unat (rend r0))"
    have lo: "4096 dvd ?lo" using "2.prems"(8) by (simp add: max_def first_frame_def page_up_aligned)
    show ?thesis
    proof (cases "r = r0")
      case True
      then have "first_frame r0 \<le> f" using "2.prems"(4,5) by (simp add: first_frame_def page_up_least)
      then have "f \<in> set ?fs"
        using "2.prems"(4,6,7) lo True by (intro in_frames_betweenI) auto
      then show ?thesis using \<open>has_start r0\<close> by (simp add: Let_def)
    next
      case False
      with "2.prems"(1,2) have r: "r \<in> set rs" and "unat (rend r0) \<le> unat (rstart r)"
        by (auto simp: ascending_def)
      then have "unat (rend r0) \<le> f" using "2.prems"(5) by simp
      moreover have "?lo + 4096 * length ?fs \<le> max cur (unat (rend r0))"
      proof (cases "?lo \<le> unat (rend r0)")
        case True
        then show ?thesis using end_of_frames [OF True] by simp
      next
        case False
        then have "unat (rend r0) < ?lo" by (simp only: not_le)
        then have "?fs = []" by (intro frames_between_Nil) linarith
        then show ?thesis using False True by (auto simp: has_start_def max_def split: if_splits)
      qed
      ultimately have "?lo + 4096 * length ?fs \<le> f" using "2.prems"(7) by simp
      then have "f \<in> set (frame_list (?lo + 4096 * length ?fs) rs)"
        using "2.IH"(1) [OF True refl refl asc r "2.prems"(3-6)] lo by simp
      then show ?thesis using True by (simp add: Let_def)
    qed
  next
    case False
    have "r \<noteq> r0"
    proof
      assume "r = r0"
      then have "first_frame r0 \<le> f" using "2.prems"(4,5) by (simp add: first_frame_def page_up_least)
      with \<open>r = r0\<close> "2.prems"(3,6) False show False by (simp add: has_start_def)
    qed
    with "2.IH"(2) [OF False asc] "2.prems" False show ?thesis by simp
  qed
qed simp

section \<open>Properties\<close>

text \<open>An allocator on a well-formed map, drained \<open>n\<close> times.\<close>

lemma boot_allocator_drain:
  assumes "regions_ok rs" and "frame_ctor mk_frame addr_of"
  shows "\<exists>it fs it'. boot_allocator_new rs = Some it \<and>
    drain (allocate_frame mk_frame) n it = Some (fs, it') \<and> map addr_of fs = take n (frame_list 0 rs)"
proof -
  from new_iter_spec [OF assms(1)] obtain it
    where it: "new_iter rs = Some it" "iter_inv it" "pending it = frame_list 0 rs" by blast
  from frames.drain_alloc [of mk_frame addr_of it n] assms(2) it show ?thesis
    by (auto simp: boot_allocator_new_def)
qed

text \<open>A region map as a boot loader reports it, and the identity as the frame constructor.\<close>

definition sample_map :: "region list" where
  "sample_map = [\<lparr>rstart = 0, rend = 0x1800, rkind = Usable\<rparr>, \<lparr>rstart = 0x1800, rend = 0x4000, rkind = Bootloader\<rparr>,
     \<lparr>rstart = 0x4010, rend = 0x7000, rkind = Usable\<rparr>]"

lemma sample_map_ok: "regions_ok sample_map" "ascending sample_map"
  by (simp_all add: sample_map_def regions_ok_def region_ok_def ascending_def)

lemma sample_frame_ctor: "frame_ctor (\<lambda>a. if unat a < 2 ^ 52 then Some a else None) unat"
  by (simp add: frame_ctor_def)

text \<open>C18: the frame allocator never panics and never hands out a frame twice: on any memory map with
  addresses below 2^52, sorted or not, overlapping or not, the frames it returns have strictly
  increasing page-aligned addresses, and each lies wholly inside a usable region.\<close>

theorem frames_distinct_usable:
  assumes "regions_ok rs" and "frame_ctor mk_frame addr_of"
  shows "\<exists>it fs it'. boot_allocator_new rs = Some it \<and>
    drain (allocate_frame mk_frame) n it = Some (fs, it') \<and>
    sorted_wrt (<) (map addr_of fs) \<and>
    (\<forall>f \<in> set fs. 4096 dvd addr_of f \<and>
      (\<exists>r \<in> set rs. rkind r = Usable \<and> unat (rstart r) \<le> addr_of f \<and> addr_of f + 4096 \<le> unat (rend r)))"
proof -
  from boot_allocator_drain [OF assms, of n] obtain it fs it' where
    fs: "boot_allocator_new rs = Some it" "drain (allocate_frame mk_frame) n it = Some (fs, it')"
    "map addr_of fs = take n (frame_list 0 rs)" by blast
  have "addr_of f \<in> set (frame_list 0 rs)" if "f \<in> set fs" for f
    using that fs(3) in_set_takeD [of "addr_of f" n] by (metis image_eqI set_map)
  with frame_list_usable [of _ 0 rs] fs sorted_wrt_take [OF sorted_frame_list, of n 0 rs] show ?thesis
    by (intro exI [of _ it] exI [of _ fs] exI [of _ it']) simp
qed

theorem frames_distinct_usable_witness:
  "\<exists>it fs it'. boot_allocator_new sample_map = Some it \<and>
    drain (allocate_frame (\<lambda>a. if unat a < 2 ^ 52 then Some a else None)) 2 it = Some (fs, it') \<and>
    sorted_wrt (<) (map unat fs)"
  using frames_distinct_usable [OF sample_map_ok(1) sample_frame_ctor, of 2] by blast

text \<open>C19: on a memory map sorted by address without overlaps, with addresses below 2^52, the allocator is complete and goes in order. There is
  one list of addresses, strictly increasing, which are exactly those of the page-aligned 4 KiB frames that fit in
  the usable regions, no more and no less; the first \<open>k\<close> calls hand out its first \<open>k\<close> frames in this order, for
  every \<open>k\<close>; and once they are used up every further call returns none.\<close>

theorem frames_complete:
  assumes "regions_ok rs" and "ascending rs" and "frame_ctor mk_frame addr_of"
  shows "\<exists>it l. boot_allocator_new rs = Some it \<and> sorted_wrt (<) l \<and>
    set l = {f. 4096 dvd f \<and> (\<exists>r \<in> set rs. rkind r = Usable \<and> unat (rstart r) \<le> f \<and> f + 4096 \<le> unat (rend r))} \<and>
    (\<forall>k. \<exists>fs it' r it''. drain (allocate_frame mk_frame) k it = Some (fs, it') \<and> map addr_of fs = take k l \<and>
       allocate_frame mk_frame it' = Some (r, it'') \<and> (r = None \<longleftrightarrow> length l \<le> k))"
proof -
  let ?l = "frame_list 0 rs"
  from new_iter_spec [OF assms(1)] obtain it
    where it: "new_iter rs = Some it" "iter_inv it" "pending it = ?l" by blast
  have "\<exists>fs it' r it''. drain (allocate_frame mk_frame) k it = Some (fs, it') \<and> map addr_of fs = take k ?l \<and>
    allocate_frame mk_frame it' = Some (r, it'') \<and> (r = None \<longleftrightarrow> length ?l \<le> k)" for k
  proof -
    have inv: "frame_ctor mk_frame addr_of \<and> iter_inv it" using assms(3) it(2) by simp
    obtain fs it' where fs: "drain (allocate_frame mk_frame) k it = Some (fs, it')" "map addr_of fs = take k ?l"
      "frame_ctor mk_frame addr_of \<and> iter_inv it'" "pending it' = drop k ?l"
      using frames.drain_alloc [OF inv, of k] unfolding it(3) by blast
    from frames.alloc_spec [OF fs(3)] obtain r it'' where r: "allocate_frame mk_frame it' = Some (r, it'')"
      "map_option addr_of r = (case drop k ?l of [] \<Rightarrow> None | x # _ \<Rightarrow> Some x)" unfolding fs(4) by blast
    have "r = None \<longleftrightarrow> length ?l \<le> k" using r(2) by (cases "drop k ?l") auto
    then show ?thesis using fs(1,2) r(1) by blast
  qed
  moreover have "set ?l = {f. 4096 dvd f \<and>
      (\<exists>r \<in> set rs. rkind r = Usable \<and> unat (rstart r) \<le> f \<and> f + 4096 \<le> unat (rend r))}"
    using frame_list_usable [of _ 0 rs] frame_list_complete [OF assms(2)] by fastforce
  moreover have "boot_allocator_new rs = Some it" using it(1) by (simp add: boot_allocator_new_def)
  ultimately show ?thesis using sorted_frame_list by blast
qed

text \<open>On the sample map the usable frames start at 0, 0x5000 and 0x6000, and a fourth call returns none.\<close>

theorem frames_complete_witness:
  "\<exists>it fs it' it''. boot_allocator_new sample_map = Some it \<and>
    drain (allocate_frame (\<lambda>a. if unat a < 2 ^ 52 then Some a else None)) 3 it = Some (fs, it') \<and>
    map unat fs = [0, 0x5000, 0x6000] \<and> allocate_frame (\<lambda>a. if unat a < 2 ^ 52 then Some a else None) it' = Some (None, it'')"
proof -
  let ?mk = "\<lambda>a :: u64. if unat a < 2 ^ 52 then Some a else None"
  obtain it l where l: "boot_allocator_new sample_map = Some it" "sorted_wrt (<) l"
    "set l = {f. 4096 dvd f \<and> (\<exists>r \<in> set sample_map. rkind r = Usable \<and> unat (rstart r) \<le> f \<and> f + 4096 \<le> unat (rend r))}"
    "\<forall>k. \<exists>fs it' r it''. drain (allocate_frame ?mk) k it = Some (fs, it') \<and> map unat fs = take k l \<and>
       allocate_frame ?mk it' = Some (r, it'') \<and> (r = None \<longleftrightarrow> length l \<le> k)"
    using frames_complete [OF sample_map_ok sample_frame_ctor] by blast
  have "4096 dvd f \<and> (f + 4096 \<le> 0x1800 \<or> 0x4010 \<le> f \<and> f + 4096 \<le> 0x7000) \<longleftrightarrow> f = 0 \<or> f = 0x5000 \<or> f = 0x6000" for f :: nat
    by (auto elim!: dvdE)
  then have "set l = set [0, 0x5000, 0x6000]" unfolding l(3) by (auto simp: sample_map_def)
  then have "l = [0, 0x5000, 0x6000]" using l(2) by (intro strict_sorted_equal) auto
  then show ?thesis using spec [OF l(4), of 3] l(1) by auto
qed

end
