(* ===== verification/Allocator.thy ===== *)
theory Allocator
  imports Memory "HOL-Library.Sublist"
begin

text \<open>
  \<^verbatim>\<open>kernel/src/allocator.rs\<close>: mapping the kernel heap. The function is generic in the frame
  allocator and the page mapper, as the source is (\<^verbatim>\<open>impl FrameAllocator\<close>, \<^verbatim>\<open>impl Mapper\<close>):
  \<open>alloc\<close> is the interface \<open>frame_source\<close> of \<open>Memory\<close>, and \<open>map_to\<close>, \<open>containing_address\<close> and
  \<open>range_inclusive\<close> are those of the crate \<^verbatim>\<open>x86_64\<close>. \<open>map_to\<close> returning \<^term>\<open>None\<close> is its error
  result, on which the source panics (\<^verbatim>\<open>expect\<close>). The heap itself is the crate
  \<^verbatim>\<open>linked_list_allocator\<close>, of which only the range it is given is kept here; theory
  \<open>Heap\<close> has its use. Flushing the TLB has no
  effect on this state.
\<close>

section \<open>The operation\<close>

definition HEAP_START :: u64 where
  "HEAP_START = 0x444444440000"

definition HEAP_SIZE :: u64 where
  "HEAP_SIZE = 8 * 1024 * 1024"

datatype page_flag = PRESENT | WRITABLE

type_synonym ('m, 'p, 'f, 'a) map_to =
  "'m \<Rightarrow> 'p \<Rightarrow> 'f \<Rightarrow> page_flag set \<Rightarrow> 'a \<Rightarrow> ('m \<times> 'a) option"

definition map_heap_page ::
  "('a \<Rightarrow> ('f option \<times> 'a) option) \<Rightarrow> ('m, 'p, 'f, 'a) map_to \<Rightarrow> 'p \<Rightarrow> 'm \<times> 'a \<Rightarrow> ('m \<times> 'a) option" where
  "map_heap_page alloc map_to page s =
     (case alloc (snd s) of
        None \<Rightarrow> None
      | Some (None, frame_allocator) \<Rightarrow> None
      | Some (Some frame, frame_allocator) \<Rightarrow>
          map_to (fst s) page frame {PRESENT, WRITABLE} frame_allocator)"

definition allocator_init ::
  "('a \<Rightarrow> ('f option \<times> 'a) option) \<Rightarrow> ('m, 'p, 'f, 'a) map_to \<Rightarrow> (u64 \<Rightarrow> 'p) \<Rightarrow> ('p \<Rightarrow> 'p \<Rightarrow> 'p list) \<Rightarrow>
    'm \<Rightarrow> 'a \<Rightarrow> ('m \<times> 'a \<times> (u64 \<times> u64)) option" where
  "allocator_init alloc map_to containing_address range_inclusive mapper frame_allocator = do {
     heap_end \<leftarrow> u64_add HEAP_START HEAP_SIZE;
     last \<leftarrow> u64_sub heap_end 1;
     let start_page = containing_address HEAP_START;
     let end_page = containing_address last;
     (m, a) \<leftarrow> foldM (map_heap_page alloc map_to) (range_inclusive start_page end_page)
       (mapper, frame_allocator);
     Some (m, a, (HEAP_START, HEAP_SIZE))
   }"

section \<open>What is relied on\<close>

text \<open>The mapper: on a page that is not mapped, with at least three frames left for new page tables,
  \<open>map_to\<close> succeeds, takes at most three frames, and maps just that page, with the flags it is given. \<open>translate\<close> is the
  mapping held by the page tables: the frame of each mapped page and the flags of its entry.\<close>

definition mapper_contract ::
  "('a \<Rightarrow> bool) \<Rightarrow> ('a \<Rightarrow> nat list) \<Rightarrow> ('m, 'p, 'f, 'a) map_to \<Rightarrow> ('m \<Rightarrow> 'p \<Rightarrow> ('f \<times> page_flag set) option) \<Rightarrow> bool" where
  "mapper_contract ok remaining map_to translate \<longleftrightarrow>
     (\<forall>m p f fl a. ok a \<longrightarrow> translate m p = None \<longrightarrow> 3 \<le> length (remaining a) \<longrightarrow>
        (\<exists>m' a' k. map_to m p f fl a = Some (m', a') \<and> k \<le> 3 \<and> ok a' \<and>
           remaining a' = drop k (remaining a) \<and> translate m' = (translate m)(p \<mapsto> (f, fl))))"

text \<open>Page ranges: one page for every 4 KiB from the page of the first address to the page of the last.\<close>

definition page_range_contract :: "(u64 \<Rightarrow> 'p) \<Rightarrow> ('p \<Rightarrow> 'p \<Rightarrow> 'p list) \<Rightarrow> bool" where
  "page_range_contract containing_address range_inclusive \<longleftrightarrow>
     (\<forall>a b. a \<le> b \<longrightarrow> distinct (range_inclusive (containing_address a) (containing_address b)) \<and>
        length (range_inclusive (containing_address a) (containing_address b))
          = unat b div 4096 - unat a div 4096 + 1)"

section \<open>The loop over the heap's pages\<close>

context frame_source begin

lemma map_heap_pages:
  assumes "mapper_contract inv remaining map_to translate" and "inv a" and "distinct ps"
    and "\<forall>p \<in> set ps. translate m p = None" and "4 * length ps \<le> length (remaining a)"
  shows "\<exists>m' a' fs. foldM (map_heap_page alloc map_to) ps (m, a) = Some (m', a') \<and> length fs = length ps \<and>
    translate m' = (translate m)(ps [\<mapsto>] map (\<lambda>f. (f, {PRESENT, WRITABLE})) fs) \<and> subseq (map addr_of fs) (remaining a)"
  using assms(2-)
proof (induction ps arbitrary: m a)
  case Nil
  then show ?case by simp
next
  case (Cons p ps)
  obtain x xs where xs: "remaining a = x # xs" using Cons.prems(4) by (cases "remaining a") auto
  from alloc_some [OF Cons.prems(1) xs] obtain f a1
    where a1: "alloc a = Some (Some f, a1)" "addr_of f = x" "inv a1" "remaining a1 = xs" by blast
  have "translate m p = None" "3 \<le> length (remaining a1)"
    using Cons.prems(3,4) xs a1(4) by auto
  then obtain m2 a2 k where a2: "map_to m p f {PRESENT, WRITABLE} a1 = Some (m2, a2)" "k \<le> 3" "inv a2"
    "remaining a2 = drop k xs" "translate m2 = (translate m)(p \<mapsto> (f, {PRESENT, WRITABLE}))"
    using assms(1) a1(3) unfolding mapper_contract_def a1(4) [symmetric] by blast
  have "map_heap_page alloc map_to p (m, a) = Some (m2, a2)"
    using a1(1) a2(1) by (simp add: map_heap_page_def)
  moreover have "\<exists>m' a' fs. foldM (map_heap_page alloc map_to) ps (m2, a2) = Some (m', a') \<and>
      length fs = length ps \<and> translate m' = (translate m2)(ps [\<mapsto>] map (\<lambda>f. (f, {PRESENT, WRITABLE})) fs) \<and> subseq (map addr_of fs) (remaining a2)"
    using Cons.prems(2,3,4) a2(2,5) xs
    by (intro Cons.IH [OF a2(3)]) (auto simp: a2(4))
  ultimately obtain m' a' fs where
    r: "foldM (map_heap_page alloc map_to) (p # ps) (m, a) = Some (m', a')" "length fs = length ps"
      "translate m' = (translate m)(p # ps [\<mapsto>] map (\<lambda>f. (f, {PRESENT, WRITABLE})) (f # fs))" "subseq (map addr_of fs) (drop k xs)"
    by (auto simp: a2(4,5))
  have "subseq (map addr_of fs) xs"
    using subseq_drop_many [OF r(4), of "take k xs"] by simp
  with r(1-3) xs a1(2) show ?case by (intro exI [of _ m'] exI [of _ a'] exI [of _ "f # fs"]) simp
qed

end

lemma sorted_wrt_subseq: "subseq xs ys \<Longrightarrow> sorted_wrt P ys \<Longrightarrow> sorted_wrt P xs"
  by (induction rule: list_emb.induct) (auto dest: list_emb_set)

lemma set_subseq: "subseq xs ys \<Longrightarrow> set xs \<subseteq> set ys"
  by (induction rule: list_emb.induct) auto

lemma heap_constants:
  "u64_add HEAP_START HEAP_SIZE = Some 0x444444C40000"
  "u64_sub 0x444444C40000 1 = Some 0x444444C3FFFF"
  "HEAP_START \<le> 0x444444C3FFFF"
  "unat (0x444444C3FFFF :: u64) div 4096 - unat HEAP_START div 4096 + 1 = 2048"
  by (simp_all add: HEAP_START_def HEAP_SIZE_def u64_add_def u64_sub_def word_le_nat_alt)

section \<open>Property\<close>

lemma heap_init_spec:
  assumes "regions_ok rs" and "frame_ctor mk_frame addr_of"
    and "mapper_contract (\<lambda>it. frame_ctor mk_frame addr_of \<and> iter_inv it) pending map_to translate"
    and "page_range_contract page_of range_inclusive"
    and "\<forall>p \<in> set (range_inclusive (page_of HEAP_START) (page_of (HEAP_START + HEAP_SIZE - 1))). translate m p = None"
    and "8192 \<le> length (frame_list 0 rs)"
  shows "\<exists>it m' it' ps fs. boot_allocator_new rs = Some it \<and>
    allocator_init (allocate_frame mk_frame) map_to page_of range_inclusive m it
      = Some (m', it', (HEAP_START, HEAP_SIZE)) \<and>
    ps = range_inclusive (page_of HEAP_START) (page_of (HEAP_START + HEAP_SIZE - 1)) \<and>
    length ps = 2048 \<and> length fs = 2048 \<and> translate m' = (translate m)(ps [\<mapsto>] map (\<lambda>f. (f, {PRESENT, WRITABLE})) fs) \<and>
    sorted_wrt (<) (map addr_of fs) \<and> set (map addr_of fs) \<subseteq> set (frame_list 0 rs)"
proof -
  let ?last = "0x444444C3FFFF :: u64"
  let ?ps = "range_inclusive (page_of HEAP_START) (page_of ?last)"
  from new_iter_spec [OF assms(1)] obtain it
    where it: "new_iter rs = Some it" "iter_inv it" "pending it = frame_list 0 rs" by blast
  have ps: "distinct ?ps" "length ?ps = 2048"
    using assms(4) heap_constants(3,4) unfolding page_range_contract_def by metis+
  have last: "HEAP_START + HEAP_SIZE - 1 = ?last" by (simp add: HEAP_START_def HEAP_SIZE_def)
  have "frame_ctor mk_frame addr_of \<and> iter_inv it" "4 * length ?ps \<le> length (pending it)"
    using assms(2,6) it ps(2) by auto
  from frames.map_heap_pages [OF assms(3) this(1) ps(1) _ this(2), of m] assms(5) [unfolded last]
  obtain m' it' fs where
    fs: "foldM (map_heap_page (allocate_frame mk_frame) map_to) ?ps (m, it) = Some (m', it')"
      "length fs = 2048" "translate m' = (translate m)(?ps [\<mapsto>] map (\<lambda>f. (f, {PRESENT, WRITABLE})) fs)"
      "subseq (map addr_of fs) (frame_list 0 rs)"
    using it(3) ps(2) by auto
  have "sorted_wrt (<) (map addr_of fs)"
    using fs(4) sorted_frame_list [of 0 rs] by (metis sorted_wrt_subseq)
  moreover have "set (map addr_of fs) \<subseteq> set (frame_list 0 rs)"
    using fs(4) by (rule set_subseq)
  moreover have "allocator_init (allocate_frame mk_frame) map_to page_of range_inclusive m it
      = Some (m', it', (HEAP_START, HEAP_SIZE))"
    using fs(1) by (simp add: allocator_init_def heap_constants(1,2))
  ultimately show ?thesis
    using it(1) ps(2) fs(2,3) unfolding last boot_allocator_new_def
    by (intro exI [of _ it] exI [of _ m'] exI [of _ it'] exI [of _ ?ps] exI [of _ fs]) simp
qed

text \<open>C20: with 8192 usable frames on the machine the kernel heap is set up: every one of its 2048 pages
  is mapped present and writable (its entry has exactly these two flags), no two pages to the same frame, all to frames of usable regions in ascending order,
  no other page changes, and the heap gets exactly the range \<open>HEAP_START .. HEAP_START + 8 MiB\<close>.\<close>

theorem heap_init_maps_heap:
  assumes "regions_ok rs" and "frame_ctor mk_frame addr_of"
    and "mapper_contract (\<lambda>it. frame_ctor mk_frame addr_of \<and> iter_inv it) pending map_to translate"
    and "page_range_contract page_of range_inclusive"
    and "\<forall>p \<in> set (range_inclusive (page_of HEAP_START) (page_of (HEAP_START + HEAP_SIZE - 1))). translate m p = None"
    and "8192 \<le> length (frame_list 0 rs)"
  shows "\<exists>it m' it' ps fs. boot_allocator_new rs = Some it \<and>
    allocator_init (allocate_frame mk_frame) map_to page_of range_inclusive m it
      = Some (m', it', (HEAP_START, HEAP_SIZE)) \<and>
    ps = range_inclusive (page_of HEAP_START) (page_of (HEAP_START + HEAP_SIZE - 1)) \<and>
    length ps = 2048 \<and> length fs = 2048 \<and> translate m' = (translate m)(ps [\<mapsto>] map (\<lambda>f. (f, {PRESENT, WRITABLE})) fs) \<and>
    sorted_wrt (<) (map addr_of fs) \<and> set (map addr_of fs) \<subseteq> set (frame_list 0 rs)"
  by (rule heap_init_spec [OF assms])

text \<open>The witness: one usable region of 32 MiB, page numbers for pages, and a mapper that needs no
  page tables of its own.\<close>

theorem heap_init_maps_heap_witness:
  "\<exists>it m' it' ps fs. boot_allocator_new [\<lparr>rstart = 0, rend = 0x2000000, rkind = Usable\<rparr>] = Some it \<and>
    allocator_init (allocate_frame (\<lambda>a. if unat a < 2 ^ 52 then Some a else None))
      (\<lambda>m p f fl a. Some (m(p \<mapsto> (f, fl)), a)) (\<lambda>a. unat a div 4096) (\<lambda>p q. [p..<Suc q]) Map.empty it
      = Some (m', it', (HEAP_START, HEAP_SIZE)) \<and> length ps = 2048 \<and> m' = (\<lambda>_. None)(ps [\<mapsto>] map (\<lambda>f. (f, {PRESENT, WRITABLE})) fs)"
proof -
  let ?rs = "[\<lparr>rstart = 0, rend = 0x2000000, rkind = Usable\<rparr>]"
  let ?mk = "\<lambda>a :: u64. if unat a < 2 ^ 52 then Some a else None"
  let ?map = "\<lambda>m p f (fl :: page_flag set) a. Some (m(p \<mapsto> (f, fl)), a) :: ((nat \<rightharpoonup> u64 \<times> page_flag set) \<times> frame_iter) option"
  have rs: "regions_ok ?rs" by (simp add: regions_ok_def region_ok_def)
  have len: "8192 \<le> length (frame_list 0 ?rs)"
    by (simp add: has_start_def first_frame_def page_up_def frames_between_def Let_def)
  have map: "mapper_contract (\<lambda>it. frame_ctor ?mk unat \<and> iter_inv it) pending ?map (\<lambda>m. m)"
    unfolding mapper_contract_def by (auto intro!: exI [of _ 0])
  have pages: "page_range_contract (\<lambda>a. unat a div 4096) (\<lambda>p q. [p..<Suc q])"
    by (auto simp: page_range_contract_def word_le_nat_alt Suc_diff_le div_le_mono)
  show ?thesis
    using heap_init_maps_heap [OF rs sample_frame_ctor map pages _ len, of Map.empty] by auto
qed

end
