(* ===== verification/Heap.thy ===== *)
theory Heap
  imports Allocator
begin

text \<open>
  The use of the kernel heap. The allocator is the crate \<^verbatim>\<open>linked_list_allocator\<close>, the static \<^verbatim>\<open>ALLOCATOR\<close> of
  \<^verbatim>\<open>kernel/src/allocator.rs\<close>, given by its three operations; \<open>heap_contract\<close> says what is relied on. On top of it
  are the two ways in which the kernel allocates: \<^verbatim>\<open>vec![0u8; n]\<close> and \<^verbatim>\<open>Vec::push\<close>, with the growth of the
  standard library. An allocation that fails is a panic, as the default handler of allocation errors makes it.
\<close>

section \<open>Operations\<close>

record 'h heap_crate =
  heap_init :: "u64 \<Rightarrow> u64 \<Rightarrow> 'h"
  heap_alloc :: "usize \<Rightarrow> usize \<Rightarrow> 'h \<Rightarrow> (u64 \<times> 'h) option"
  heap_dealloc :: "u64 \<Rightarrow> usize \<Rightarrow> usize \<Rightarrow> 'h \<Rightarrow> 'h"

text \<open>\<^verbatim>\<open>vec![0u8; n]\<close>: the address of the elements, dangling when there are none.\<close>

definition zeroed_vec :: "'h heap_crate \<Rightarrow> usize \<Rightarrow> 'h \<Rightarrow> (u64 \<times> 'h) option" where
  "zeroed_vec hc n h = (if n = 0 then Some (1, h) else if 2 ^ 63 \<le> n then None else heap_alloc hc n 1 h)"

text \<open>The storage of a \<^verbatim>\<open>Vec\<close>: its address and its capacity. \<open>reserve_one\<close> makes room for one more element before
  a \<^verbatim>\<open>push\<close> or an \<^verbatim>\<open>insert\<close>, for elements of \<open>sz\<close> bytes with alignment 8.\<close>

record raw_vec =
  vec_ptr :: u64
  vec_cap :: usize

definition vec_new :: raw_vec where
  "vec_new = \<lparr>vec_ptr = 8, vec_cap = 0\<rparr>"

definition min_non_zero_cap :: "usize \<Rightarrow> usize" where
  "min_non_zero_cap sz = (if sz = 1 then 8 else if sz \<le> 1024 then 4 else 1)"

definition reserve_one :: "'h heap_crate \<Rightarrow> usize \<Rightarrow> usize \<Rightarrow> raw_vec \<times> 'h \<Rightarrow> (raw_vec \<times> 'h) option" where
  "reserve_one hc sz len = (\<lambda>(v, h).
     if len < vec_cap v then Some (v, h)
     else do {
       let cap = max (max (2 * vec_cap v) (len + 1)) (min_non_zero_cap sz);
       bytes \<leftarrow> umul cap sz;
       (p, h) \<leftarrow> (if 2 ^ 63 \<le> bytes then None else heap_alloc hc bytes 8 h);
       let h = (if vec_cap v = 0 then h else heap_dealloc hc (vec_ptr v) (vec_cap v * sz) 8 h);
       Some (\<lparr>vec_ptr = p, vec_cap = cap\<rparr>, h)
     })"

section \<open>What is relied on\<close>

text \<open>\<open>live\<close> are the blocks handed out, with their addresses and sizes, \<open>arena\<close> the range given to the allocator. A
  block lies in the range, apart from the other blocks. \<open>hole h n\<close>: there is a hole of \<open>n\<close> bytes. The allocator
  rounds sizes up to a multiple of 8, and to 16 at least, and keeps the rest of the hole it splits if 16 bytes are left.\<close>

type_synonym block = "nat \<times> nat"

definition apart :: "block \<Rightarrow> block \<Rightarrow> bool" where
  "apart b c \<longleftrightarrow> fst b + snd b \<le> fst c \<or> fst c + snd c \<le> fst b"

definition padded :: "usize \<Rightarrow> usize" where
  "padded sz = max 16 ((sz + 7) div 8 * 8)"

definition heap_contract ::
  "'h heap_crate \<Rightarrow> ('h \<Rightarrow> nat \<times> nat) \<Rightarrow> ('h \<Rightarrow> block list) \<Rightarrow> ('h \<Rightarrow> nat \<Rightarrow> bool) \<Rightarrow> bool" where
  "heap_contract hc arena live hole \<longleftrightarrow>
     (\<forall>a n. unat a + unat n < 2 ^ 64 \<longrightarrow> 8 dvd unat a \<longrightarrow> 8 dvd unat n \<longrightarrow>
        arena (heap_init hc a n) = (unat a, unat a + unat n) \<and> live (heap_init hc a n) = [] \<and> hole (heap_init hc a n) (unat n)) \<and>
     (\<forall>h sz al p h'. 0 < sz \<longrightarrow> heap_alloc hc sz al h = Some (p, h') \<longrightarrow>
        arena h' = arena h \<and> live h' = (unat p, sz) # live h \<and>
        fst (arena h) \<le> unat p \<and> unat p + sz \<le> snd (arena h) \<and> (\<forall>b \<in> set (live h). apart (unat p, sz) b)) \<and>
     (\<forall>h sz al n. 0 < sz \<longrightarrow> al \<in> {1, 8} \<longrightarrow> hole h n \<longrightarrow> padded sz + 16 \<le> n \<longrightarrow>
        (\<exists>p h'. heap_alloc hc sz al h = Some (p, h') \<and> hole h' (n - padded sz)))"

section \<open>The blocks in use\<close>

text \<open>The invariant of the heap, and the bytes in use. Blocks that are apart within a range fill at most that range.\<close>

definition heap_inv :: "('h \<Rightarrow> nat \<times> nat) \<Rightarrow> ('h \<Rightarrow> block list) \<Rightarrow> 'h \<Rightarrow> bool" where
  "heap_inv arena live h \<longleftrightarrow> arena h = (unat HEAP_START, unat HEAP_START + unat HEAP_SIZE) \<and>
     (\<forall>b \<in> set (live h). unat HEAP_START \<le> fst b \<and> fst b + snd b \<le> unat HEAP_START + unat HEAP_SIZE) \<and> sorted_wrt apart (live h)"

definition in_use :: "('h \<Rightarrow> block list) \<Rightarrow> 'h \<Rightarrow> nat" where
  "in_use live h = sum_list (map snd (live h))"

lemma blocks_fit:
  assumes "sorted_wrt apart bs" and "\<forall>b \<in> set bs. a \<le> fst b \<and> fst b + snd b \<le> e"
  shows "sum_list (map snd bs) \<le> e - a"
proof -
  let ?cells = "\<lambda>b :: block. {fst b..<fst b + snd b}"
  have "card (\<Union>b \<in> set bs. ?cells b) = sum_list (map snd bs)"
    using assms(1)
  proof (induction bs)
    case (Cons b bs)
    have "?cells b \<inter> (\<Union>c \<in> set bs. ?cells c) = {}" using Cons.prems by (fastforce simp: apart_def)
    then show ?case using Cons by (simp add: card_Un_disjoint)
  qed simp
  moreover have "(\<Union>b \<in> set bs. ?cells b) \<subseteq> {a..<e}" using assms(2) by fastforce
  ultimately show ?thesis using card_mono [of "{a..<e}" "\<Union>b \<in> set bs. ?cells b"] by simp
qed

lemma in_use_bound: "heap_inv arena live h \<Longrightarrow> in_use live h \<le> unat HEAP_SIZE"
  using blocks_fit [of "live h" "unat HEAP_START" "unat HEAP_START + unat HEAP_SIZE"] by (simp add: heap_inv_def in_use_def)

lemma heap_init_inv:
  assumes "heap_contract hc arena live hole"
  shows "heap_inv arena live (heap_init hc HEAP_START HEAP_SIZE)" and "live (heap_init hc HEAP_START HEAP_SIZE) = []"
    and "hole (heap_init hc HEAP_START HEAP_SIZE) (unat HEAP_SIZE)"
proof -
  have "unat HEAP_START + unat HEAP_SIZE < 2 ^ 64" "8 dvd unat HEAP_START" "8 dvd unat HEAP_SIZE"
    by (simp_all add: HEAP_START_def HEAP_SIZE_def)
  note init = assms [unfolded heap_contract_def, THEN conjunct1, rule_format, OF this]
  show "heap_inv arena live (heap_init hc HEAP_START HEAP_SIZE)" using init by (simp add: heap_inv_def)
  show "live (heap_init hc HEAP_START HEAP_SIZE) = []" "hole (heap_init hc HEAP_START HEAP_SIZE) (unat HEAP_SIZE)" using init by simp_all
qed

lemma heap_alloc_inv:
  assumes "heap_contract hc arena live hole" and "heap_inv arena live h" and "0 < sz" and "heap_alloc hc sz al h = Some (p, h')"
  shows "heap_inv arena live h'" and "live h' = (unat p, sz) # live h"
  using assms(1) [unfolded heap_contract_def, THEN conjunct2, THEN conjunct1, rule_format, OF assms(3,4)] assms(2)
  by (auto simp: heap_inv_def)

lemma heap_alloc_hole:
  assumes "heap_contract hc arena live hole" and "0 < sz" and "al \<in> {1, 8}" and "hole h n" and "padded sz + 16 \<le> n"
  obtains p h' where "heap_alloc hc sz al h = Some (p, h')" and "hole h' (n - padded sz)"
  using assms(1) [unfolded heap_contract_def, THEN conjunct2, THEN conjunct2, rule_format, OF assms(2-5)] by blast

text \<open>The two ways to allocate. With a hole that is large enough they succeed; when they succeed, the blocks in use grow
  by what was asked for.\<close>

lemma zeroed_vec_adds:
  assumes "heap_contract hc arena live hole" and "heap_inv arena live h" and "zeroed_vec hc n h = Some (p, h')"
  shows "heap_inv arena live h'" and "in_use live h' = in_use live h + n" and "0 < n \<Longrightarrow> live h' = (unat p, n) # live h"
proof -
  have "heap_inv arena live h' \<and> in_use live h' = in_use live h + n \<and> (0 < n \<longrightarrow> live h' = (unat p, n) # live h)"
  proof (cases "n = 0")
    case True
    then show ?thesis using assms(2,3) by (simp add: zeroed_vec_def)
  next
    case False
    then have "heap_alloc hc n 1 h = Some (p, h')" using assms(3) by (simp add: zeroed_vec_def split: if_splits)
    from heap_alloc_inv [OF assms(1,2) _ this] show ?thesis using False by (simp add: in_use_def)
  qed
  then show "heap_inv arena live h'" and "in_use live h' = in_use live h + n" and "0 < n \<Longrightarrow> live h' = (unat p, n) # live h"
    by simp_all
qed

lemma zeroed_vec_hole:
  assumes "heap_contract hc arena live hole" and "hole h r" and "padded n + 16 \<le> r" and "0 < n" and "r < 2 ^ 63"
  obtains p h' where "zeroed_vec hc n h = Some (p, h')" and "hole h' (r - padded n)"
proof -
  have "n \<le> padded n" by (simp add: padded_def le_max_iff_disj) presburger
  then have "n < 2 ^ 63" using assms(3,5) by linarith
  then show ?thesis using heap_alloc_hole [OF assms(1,4) _ assms(2,3), of 1] that assms(4) by (auto simp: zeroed_vec_def)
qed

lemma reserve_within: "len < vec_cap v \<Longrightarrow> reserve_one hc sz len (v, h) = Some (v, h)"
  by (simp add: reserve_one_def)

lemma reserve_first:
  assumes "1 < sz" and "sz \<le> 1024"
  shows "reserve_one hc sz 0 (vec_new, h) = map_option (\<lambda>(p, h'). (\<lparr>vec_ptr = p, vec_cap = 4\<rparr>, h')) (heap_alloc hc (4 * sz) 8 h)"
proof -
  have "min_non_zero_cap sz = 4" using assms by (simp add: min_non_zero_cap_def)
  then show ?thesis using assms by (simp add: reserve_one_def vec_new_def in_range map_option_case split: option.split)
qed

section \<open>A heap that keeps the contract\<close>

text \<open>Blocks one after the other from the start of the range.\<close>

type_synonym bump = "(u64 \<times> u64) \<times> usize list"

definition bump_top :: "usize list \<Rightarrow> nat" where
  "bump_top szs = sum_list (map padded szs)"

definition bump_heap :: "bump heap_crate" where
  "bump_heap = \<lparr>heap_init = (\<lambda>a n. ((a, n), [])),
     heap_alloc = (\<lambda>sz al ((a, n), szs).
       if unat a + unat n < 2 ^ 64 \<and> bump_top szs + padded sz \<le> unat n then Some (a + of_nat (bump_top szs), ((a, n), sz # szs)) else None),
     heap_dealloc = (\<lambda>p sz al h. h)\<rparr>"

fun bump_blocks :: "nat \<Rightarrow> usize list \<Rightarrow> block list" where
  "bump_blocks a [] = []"
| "bump_blocks a (sz # szs) = (a + bump_top szs, sz) # bump_blocks a szs"

lemma le_padded: "n \<le> padded n"
proof -
  have "n \<le> (n + 7) div 8 * 8" by presburger
  then show ?thesis by (simp add: padded_def)
qed

lemma bump_blocks_below: "b \<in> set (bump_blocks a szs) \<Longrightarrow> fst b + snd b \<le> a + bump_top szs"
proof (induction szs)
  case (Cons sz szs)
  then show ?case using le_padded [of sz] by (fastforce simp: bump_top_def)
qed simp

lemma bump_heap_contract:
  "heap_contract bump_heap (\<lambda>h. (unat (fst (fst h)), unat (fst (fst h)) + unat (snd (fst h)))) (\<lambda>h. bump_blocks (unat (fst (fst h))) (snd h))
     (\<lambda>h m. unat (fst (fst h)) + unat (snd (fst h)) < 2 ^ 64 \<and> m + bump_top (snd h) \<le> unat (snd (fst h)))"
proof -
  have alloc: "unat p = unat a + bump_top szs \<and> h' = ((a, n), sz # szs) \<and> unat p + sz \<le> unat a + unat n \<and>
    (\<forall>b \<in> set (bump_blocks (unat a) szs). apart (unat p, sz) b)"
    if "heap_alloc bump_heap sz al ((a, n), szs) = Some (p, h')" for a n szs sz al p h'
  proof -
    have c: "unat a + unat n < 2 ^ 64" "bump_top szs + padded sz \<le> unat n" "p = a + of_nat (bump_top szs)" "h' = ((a, n), sz # szs)"
      using that by (auto simp: bump_heap_def split: if_splits)
    have "unat a + bump_top szs < 2 ^ 64" using c(1,2) by linarith
    then have "unat p = unat a + bump_top szs" unfolding c(3) by (simp add: unat_word_ariths unat_of_nat)
    then show ?thesis using c le_padded [of sz] bump_blocks_below [of _ "unat a" szs] by (fastforce simp: apart_def)
  qed
  have serve: "\<exists>p h'. heap_alloc bump_heap sz al ((a, n), szs) = Some (p, h') \<and> fst h' = (a, n) \<and> snd h' = sz # szs"
    if "unat a + unat n < 2 ^ 64" "m + bump_top szs \<le> unat n" "padded sz + 16 \<le> m" for a n szs sz al m
    using that by (simp add: bump_heap_def)
  show ?thesis
    unfolding heap_contract_def
  proof (intro conjI)
    show "\<forall>h sz al p h'. 0 < sz \<longrightarrow> heap_alloc bump_heap sz al h = Some (p, h') \<longrightarrow>
        (unat (fst (fst h')), unat (fst (fst h')) + unat (snd (fst h'))) = (unat (fst (fst h)), unat (fst (fst h)) + unat (snd (fst h))) \<and>
        bump_blocks (unat (fst (fst h'))) (snd h') = (unat p, sz) # bump_blocks (unat (fst (fst h))) (snd h) \<and>
        fst (unat (fst (fst h)), unat (fst (fst h)) + unat (snd (fst h))) \<le> unat p \<and>
        unat p + sz \<le> snd (unat (fst (fst h)), unat (fst (fst h)) + unat (snd (fst h))) \<and>
        (\<forall>b \<in> set (bump_blocks (unat (fst (fst h))) (snd h)). apart (unat p, sz) b)"
    proof (intro allI impI)
      fix h :: bump and sz al p h' assume step: "heap_alloc bump_heap sz al h = Some (p, h')"
      obtain a n szs where h: "h = ((a, n), szs)" by (cases h) auto
      show "(unat (fst (fst h')), unat (fst (fst h')) + unat (snd (fst h'))) = (unat (fst (fst h)), unat (fst (fst h)) + unat (snd (fst h))) \<and>
        bump_blocks (unat (fst (fst h'))) (snd h') = (unat p, sz) # bump_blocks (unat (fst (fst h))) (snd h) \<and>
        fst (unat (fst (fst h)), unat (fst (fst h)) + unat (snd (fst h))) \<le> unat p \<and>
        unat p + sz \<le> snd (unat (fst (fst h)), unat (fst (fst h)) + unat (snd (fst h))) \<and>
        (\<forall>b \<in> set (bump_blocks (unat (fst (fst h))) (snd h)). apart (unat p, sz) b)"
        using alloc [OF step [unfolded h]] by (auto simp: h)
    qed
    show "\<forall>h sz al m. 0 < sz \<longrightarrow> al \<in> {1, 8} \<longrightarrow>
        unat (fst (fst h)) + unat (snd (fst h)) < 2 ^ 64 \<and> m + bump_top (snd h) \<le> unat (snd (fst h)) \<longrightarrow> padded sz + 16 \<le> m \<longrightarrow>
        (\<exists>p h'. heap_alloc bump_heap sz al h = Some (p, h') \<and>
          unat (fst (fst h')) + unat (snd (fst h')) < 2 ^ 64 \<and> m - padded sz + bump_top (snd h') \<le> unat (snd (fst h')))"
    proof (intro allI impI)
      fix h :: bump and sz al m assume m: "padded sz + 16 \<le> m"
        and h: "unat (fst (fst h)) + unat (snd (fst h)) < 2 ^ 64 \<and> m + bump_top (snd h) \<le> unat (snd (fst h))"
      obtain a n szs where eq: "h = ((a, n), szs)" by (cases h) auto
      obtain p h' where "heap_alloc bump_heap sz al ((a, n), szs) = Some (p, h')" "fst h' = (a, n)" "snd h' = sz # szs"
        using serve [of a n m szs sz al] h m eq by auto
      then show "\<exists>p h'. heap_alloc bump_heap sz al h = Some (p, h') \<and>
          unat (fst (fst h')) + unat (snd (fst h')) < 2 ^ 64 \<and> m - padded sz + bump_top (snd h') \<le> unat (snd (fst h'))"
        using h m unfolding eq by (intro exI [of _ p] exI [of _ h'] conjI) (simp_all add: bump_top_def)
    qed
  qed (simp add: bump_heap_def bump_top_def)
qed

end
