(* ===== verification/Console.thy ===== *)
theory Console
  imports Glyphs
begin

text \<open>
  The text console of \<^verbatim>\<open>kernel/src/framebuffer.rs\<close>: its state, every operation of
  \<^verbatim>\<open>impl Console\<close>, and the terminal it implements. The terminal is a grid of cells; since
  \<open>draw_char\<close> only adds the lit points of a glyph, a cell holds the list of the characters
  printed over each other in it. \<open>displays\<close> relates a pixel buffer to a grid, and
  \<open>write_str_refines\<close> is the refinement for whole strings.
\<close>

section \<open>Operations\<close>

record console =
  content :: rect
  col :: usize
  row :: usize
  cols :: usize
  rows :: usize
  cursor_visible :: bool

abbreviation "black \<equiv> (0, 0, 0) :: rgb"
abbreviation "white \<equiv> (0xFF, 0xFF, 0xFF) :: rgb"

definition fill_content :: "fb_info \<Rightarrow> rect \<Rightarrow> fb_buffer \<Rightarrow> fb_buffer option" where
  "fill_content info r = fill_rect info (rx r) (ry r) (rwidth r) (rheight r) black"

definition console_new :: "fb_info \<Rightarrow> rect \<Rightarrow> fb_buffer \<Rightarrow> (console \<times> fb_buffer) option" where
  "console_new info r buf = do {
     n_cols \<leftarrow> udiv (rwidth r) FONT_WIDTH;
     n_rows \<leftarrow> udiv (rheight r) FONT_HEIGHT;
     buf \<leftarrow> fill_content info r buf;
     Some (\<lparr>content = r, col = 0, row = 0, cols = n_cols, rows = n_rows, cursor_visible = False\<rparr>, buf)
   }"

definition console_clear :: "fb_info \<Rightarrow> console \<times> fb_buffer \<Rightarrow> (console \<times> fb_buffer) option" where
  "console_clear info = (\<lambda>(con, buf). do {
     buf \<leftarrow> fill_content info (content con) buf;
     Some (con\<lparr>col := 0, row := 0\<rparr>, buf)
   })"

text \<open>\<open>copy_within(src..src + n, dst)\<close>: the bytes are copied as they were.\<close>

definition copy_within :: "fb_buffer \<Rightarrow> usize \<Rightarrow> usize \<Rightarrow> usize \<Rightarrow> fb_buffer option" where
  "copy_within buf src n dst =
     (if src + n \<le> length buf \<and> dst + n \<le> length buf then Some (write_slice buf dst (sub_slice buf src n)) else None)"

definition scroll_row :: "fb_info \<Rightarrow> rect \<Rightarrow> usize \<Rightarrow> usize \<Rightarrow> usize \<Rightarrow> fb_buffer \<Rightarrow> fb_buffer option" where
  "scroll_row info r row_bytes src_y dst_y buf = do {
     src_start \<leftarrow> pixel_offset info (rx r) src_y;
     dst_start \<leftarrow> pixel_offset info (rx r) dst_y;
     src_end \<leftarrow> uadd src_start row_bytes;
     if src_end \<le> length buf then do {
       dst_end \<leftarrow> uadd dst_start row_bytes;
       if dst_end \<le> length buf then copy_within buf src_start row_bytes dst_start else Some buf
     } else Some buf
   }"

fun scroll_rows :: "fb_info \<Rightarrow> rect \<Rightarrow> usize \<Rightarrow> usize \<Rightarrow> usize list \<Rightarrow> fb_buffer \<Rightarrow> fb_buffer option" where
  "scroll_rows info r row_bytes content_y_end [] buf = Some buf"
| "scroll_rows info r row_bytes content_y_end (wy # wys) buf = do {
     dst_y \<leftarrow> uadd (ry r) wy;
     src_y \<leftarrow> uadd dst_y FONT_HEIGHT;
     next \<leftarrow> uadd src_y 1;
     if content_y_end < next then Some buf
     else scroll_row info r row_bytes src_y dst_y buf \<bind> scroll_rows info r row_bytes content_y_end wys
   }"

definition scroll_up :: "fb_info \<Rightarrow> console \<times> fb_buffer \<Rightarrow> (console \<times> fb_buffer) option" where
  "scroll_up info = (\<lambda>(con, buf).
     if rows con = 0 then Some (con, buf)
     else do {
       let r = content con;
       row_bytes \<leftarrow> umul (rwidth r) (bytes_per_pixel info);
       content_y_end \<leftarrow> uadd (ry r) (rheight r);
       let max_copy_rows = saturating_sub (rheight r) FONT_HEIGHT;
       buf \<leftarrow> scroll_rows info r row_bytes content_y_end [0..<max_copy_rows] buf;
       let clear_y_start = saturating_sub content_y_end FONT_HEIGHT;
       buf \<leftarrow> fill_rect info (rx r) clear_y_start (rwidth r) FONT_HEIGHT black buf;
       last_row \<leftarrow> usub (rows con) 1;
       Some (con\<lparr>row := last_row\<rparr>, buf)
     })"

definition cell_origin :: "console \<Rightarrow> usize \<Rightarrow> usize \<Rightarrow> (usize \<times> usize) option" where
  "cell_origin con c r = do {
     dx \<leftarrow> umul c FONT_WIDTH;
     x0 \<leftarrow> uadd (rx (content con)) dx;
     dy \<leftarrow> umul r FONT_HEIGHT;
     y0 \<leftarrow> uadd (ry (content con)) dy;
     Some (x0, y0)
   }"

definition draw_char :: "font \<Rightarrow> fb_info \<Rightarrow> console \<Rightarrow> unichar \<Rightarrow> usize \<Rightarrow> usize \<Rightarrow> fb_buffer \<Rightarrow> fb_buffer option" where
  "draw_char font info con ch c r buf = do {
     (x0, y0) \<leftarrow> cell_origin con c r;
     draw_char_at font info x0 y0 ch white buf
   }"

definition clear_char :: "fb_info \<Rightarrow> console \<Rightarrow> usize \<Rightarrow> usize \<Rightarrow> fb_buffer \<Rightarrow> fb_buffer option" where
  "clear_char info con c r buf = do {
     (x0, y0) \<leftarrow> cell_origin con c r;
     foldM (\<lambda>dy. foldM (\<lambda>dx buf. do {
         x \<leftarrow> uadd x0 dx;
         y \<leftarrow> uadd y0 dy;
         put_pixel info x y black buf
       }) [0..<FONT_WIDTH]) [0..<FONT_HEIGHT] buf
   }"

definition cursor_bar :: "fb_info \<Rightarrow> console \<Rightarrow> rgb \<Rightarrow> fb_buffer \<Rightarrow> fb_buffer option" where
  "cursor_bar info con c buf = do {
     (x, y0) \<leftarrow> cell_origin con (col con) (row con);
     foldM (\<lambda>dy buf. do { y \<leftarrow> uadd y0 dy; put_pixel info x y c buf }) [0..<FONT_HEIGHT] buf
   }"

definition draw_cursor :: "fb_info \<Rightarrow> console \<times> fb_buffer \<Rightarrow> (console \<times> fb_buffer) option" where
  "draw_cursor info = (\<lambda>(con, buf).
     if \<not> cursor_visible con then do {
       buf \<leftarrow> cursor_bar info con white buf;
       Some (con\<lparr>cursor_visible := True\<rparr>, buf)
     } else Some (con, buf))"

definition erase_cursor :: "fb_info \<Rightarrow> console \<times> fb_buffer \<Rightarrow> (console \<times> fb_buffer) option" where
  "erase_cursor info = (\<lambda>(con, buf).
     if cursor_visible con then do {
       buf \<leftarrow> cursor_bar info con black buf;
       Some (con\<lparr>cursor_visible := False\<rparr>, buf)
     } else Some (con, buf))"

definition new_line :: "fb_info \<Rightarrow> console \<times> fb_buffer \<Rightarrow> (console \<times> fb_buffer) option" where
  "new_line info = (\<lambda>(con, buf). do {
     let con = con\<lparr>col := 0\<rparr>;
     r \<leftarrow> uadd (row con) 1;
     let con = con\<lparr>row := r\<rparr>;
     if rows con \<le> row con then scroll_up info (con, buf) else Some (con, buf)
   })"

definition write_char :: "font \<Rightarrow> fb_info \<Rightarrow> unichar \<Rightarrow> console \<times> fb_buffer \<Rightarrow> (console \<times> fb_buffer) option" where
  "write_char font info c = (\<lambda>(con, buf).
     if rows con = 0 \<or> cols con = 0 then Some (con, buf)
     else if c = 10 then new_line info (con, buf)
     else if c = 13 then Some (con\<lparr>col := 0\<rparr>, buf)
     else if c = 8 then
       (if 0 < col con then do {
          k \<leftarrow> usub (col con) 1;
          let con = con\<lparr>col := k\<rparr>;
          buf \<leftarrow> clear_char info con (col con) (row con) buf;
          Some (con, buf)
        } else Some (con, buf))
     else do {
       (con, buf) \<leftarrow> (if cols con \<le> col con then new_line info (con, buf) else Some (con, buf));
       buf \<leftarrow> draw_char font info con c (col con) (row con) buf;
       k \<leftarrow> uadd (col con) 1;
       Some (con\<lparr>col := k\<rparr>, buf)
     })"

definition write_str :: "font \<Rightarrow> fb_info \<Rightarrow> unichar list \<Rightarrow> console \<times> fb_buffer \<Rightarrow> (console \<times> fb_buffer) option" where
  "write_str font info s = foldM (write_char font info) s"

section \<open>The terminal\<close>

record terminal =
  grid :: "nat \<times> nat \<Rightarrow> unichar list"
  trow :: nat
  tcol :: nat

definition term_clear :: "terminal \<Rightarrow> terminal" where
  "term_clear t = t\<lparr>grid := \<lambda>_. [], trow := 0, tcol := 0\<rparr>"

definition term_newline :: "nat \<Rightarrow> terminal \<Rightarrow> terminal" where
  "term_newline n_rows t =
     (if n_rows \<le> trow t + 1
      then t\<lparr>grid := \<lambda>(r, c). if r + 1 < n_rows then grid t (r + 1, c) else [], trow := n_rows - 1, tcol := 0\<rparr>
      else t\<lparr>trow := trow t + 1, tcol := 0\<rparr>)"

definition term_print :: "unichar \<Rightarrow> terminal \<Rightarrow> terminal" where
  "term_print ch t = t\<lparr>grid := (grid t)((trow t, tcol t) := ch # grid t (trow t, tcol t)), tcol := tcol t + 1\<rparr>"

definition term_write :: "nat \<Rightarrow> nat \<Rightarrow> unichar \<Rightarrow> terminal \<Rightarrow> terminal" where
  "term_write n_cols n_rows ch t =
     (if n_cols = 0 \<or> n_rows = 0 then t
      else if ch = 10 then term_newline n_rows t
      else if ch = 13 then t\<lparr>tcol := 0\<rparr>
      else if ch = 8 then
        (if tcol t = 0 then t
         else t\<lparr>grid := (grid t)((trow t, tcol t - 1) := []), tcol := tcol t - 1\<rparr>)
      else term_print ch (if n_cols \<le> tcol t then term_newline n_rows t else t))"

definition term_write_str :: "nat \<Rightarrow> nat \<Rightarrow> unichar list \<Rightarrow> terminal \<Rightarrow> terminal" where
  "term_write_str n_cols n_rows s t = foldl (\<lambda>t ch. term_write n_cols n_rows ch t) t s"

section \<open>Invariant and display relation\<close>

definition content_ok :: "fb_info \<Rightarrow> nat \<Rightarrow> rect \<Rightarrow> bool" where
  "content_ok info n r \<longleftrightarrow> info_ok info \<and> rx r + rwidth r \<le> width info \<and> ry r + rheight r \<le> height info \<and>
     stride info * height info * bytes_per_pixel info \<le> n"

definition con_inv :: "fb_info \<Rightarrow> nat \<Rightarrow> console \<Rightarrow> bool" where
  "con_inv info n con \<longleftrightarrow> content_ok info n (content con) \<and>
     cols con = rwidth (content con) div 8 \<and> rows con = rheight (content con) div 16 \<and>
     (rows con = 0 \<or> row con < rows con) \<and> col con \<le> cols con"

definition lit_point :: "font \<Rightarrow> nat \<Rightarrow> nat \<Rightarrow> (nat \<times> nat \<Rightarrow> unichar list) \<Rightarrow> nat \<Rightarrow> nat \<Rightarrow> bool" where
  "lit_point font n_cols n_rows g u v \<longleftrightarrow> u div 8 < n_cols \<and> v div 16 < n_rows \<and>
     (\<exists>ch \<in> set (g (v div 16, u div 8)). ink font ch (u mod 8, v mod 16))"

definition displays :: "font \<Rightarrow> fb_info \<Rightarrow> console \<Rightarrow> fb_buffer \<Rightarrow> (nat \<times> nat \<Rightarrow> unichar list) \<Rightarrow> bool" where
  "displays font info con buf g \<longleftrightarrow> (\<forall>u v. u < rwidth (content con) \<longrightarrow> v < rheight (content con) \<longrightarrow>
     has_colour info buf (rx (content con) + u, ry (content con) + v)
       (if lit_point font (cols con) (rows con) g u v then white else black))"

definition content_box :: "console \<Rightarrow> (nat \<times> nat) set" where
  "content_box con = box (rx (content con)) (ry (content con)) (rwidth (content con)) (rheight (content con))"

text \<open>\<open>con_refines\<close>: the console and its buffer stand for the terminal \<open>t\<close>; where the relation is not
  \<open>exact\<close> only the positions are compared, not what the pixels show (a window also holds the bar of
  the text cursor).\<close>

definition con_refines :: "font \<Rightarrow> fb_info \<Rightarrow> nat \<Rightarrow> bool \<Rightarrow> console \<times> fb_buffer \<Rightarrow> terminal \<Rightarrow> bool" where
  "con_refines font info n exact = (\<lambda>(con, buf) t. con_inv info n con \<and> length buf = n \<and>
     row con = trow t \<and> col con = tcol t \<and> (exact \<longrightarrow> displays font info con buf (grid t)))"

text \<open>\<open>same_outside\<close>: the console keeps its geometry and cursor flag, and no pixel outside its content
  changes.\<close>

definition same_outside :: "fb_info \<Rightarrow> console \<times> fb_buffer \<Rightarrow> console \<times> fb_buffer \<Rightarrow> bool" where
  "same_outside info = (\<lambda>(con, buf) (con', buf').
     content con' = content con \<and> cols con' = cols con \<and> rows con' = rows con \<and>
     cursor_visible con' = cursor_visible con \<and> length buf' = length buf \<and>
     (\<forall>p. p \<notin> content_box con \<longrightarrow> view info buf' p = view info buf p))"

section \<open>Effects on the buffer\<close>

lemma content_canvas:
  "content_ok info n r \<Longrightarrow> rx r \<le> a \<Longrightarrow> a < rx r + rwidth r \<Longrightarrow> ry r \<le> b \<Longrightarrow> b < ry r + rheight r \<Longrightarrow>
    (a, b) \<in> canvas info n"
  by (rule frame_canvas) (auto simp: content_ok_def)

lemma content_ok_info: "content_ok info n r \<Longrightarrow> info_ok info"
  by (simp add: content_ok_def)

lemma draws_step:
  assumes "fb.draws info n f [(P, c)]" and "info_ok info" and "length buf = n"
  obtains t where "f buf = Some t" and "length t = n"
    and "\<And>p. p \<in> P \<Longrightarrow> p \<in> canvas info n \<Longrightarrow> has_colour info t p c"
    and "\<And>p. p \<notin> P \<Longrightarrow> view info t p = view info buf p"
proof -
  obtain t where t: "f buf = Some t" "fb.paints info n [(P, c)] buf t"
    using fb.drawsE [OF assms(1)] assms(2,3) by blast
  show ?thesis
  proof (rule that [OF t(1)])
    show "length t = n" using fb.paints_ok [OF t(2)] by simp
    show "has_colour info t p c" if "p \<in> P" "p \<in> canvas info n" for p
      by (rule has_colour_painted [OF t(2) that(2)]) (simp add: that(1))
    show "view info t p = view info buf p" if "p \<notin> P" for p
      by (rule view_unpainted [OF t(2)]) (simp add: that)
  qed
qed

lemma copy_offsets:
  assumes "content_ok info n r" and "length buf = n" and "y < ry r + rheight r"
  shows "pixel_offset info (rx r) y = Some ((y * stride info + rx r) * bytes_per_pixel info)"
    and "(y * stride info + rx r) * bytes_per_pixel info + rwidth r * bytes_per_pixel info \<le> length buf"
    and "(y * stride info + rx r) * bytes_per_pixel info + rwidth r * bytes_per_pixel info < 2 ^ 64"
proof -
  have info: "info_ok info" "rx r + rwidth r \<le> stride info" "y < height info"
    using assms by (auto simp: content_ok_def info_ok_def)
  have "y * stride info + rx r + rwidth r \<le> Suc y * stride info" using info by simp
  also have "\<dots> \<le> height info * stride info" using info by (intro mult_le_mono1) simp
  finally have "(y * stride info + rx r + rwidth r) * bytes_per_pixel info
    \<le> height info * stride info * bytes_per_pixel info" by (rule mult_le_mono1)
  then have le: "(y * stride info + rx r) * bytes_per_pixel info + rwidth r * bytes_per_pixel info
    \<le> stride info * height info * bytes_per_pixel info" by (simp add: algebra_simps)
  then show "(y * stride info + rx r) * bytes_per_pixel info + rwidth r * bytes_per_pixel info \<le> length buf"
    "(y * stride info + rx r) * bytes_per_pixel info + rwidth r * bytes_per_pixel info < 2 ^ 64"
    using assms info by (simp_all add: content_ok_def info_ok_def)
  then have small: "(y * stride info + rx r) * bytes_per_pixel info < 2 ^ 64" by simp
  have "1 \<le> bytes_per_pixel info" using info by (simp add: info_ok_def)
  then have "y * stride info + rx r < 2 ^ 64"
    using small by (metis le_less_trans mult_le_mono2 nat_mult_1_right)
  then show "pixel_offset info (rx r) y = Some ((y * stride info + rx r) * bytes_per_pixel info)"
    using small by (simp add: pixel_offset_def in_range)
qed

lemma scroll_row_view:
  assumes "content_ok info n r" and "length buf = n" and "y + 16 < ry r + rheight r"
  obtains t where "scroll_row info r (rwidth r * bytes_per_pixel info) (y + 16) y buf = Some t" and "length t = n"
    and "\<And>a b. view info t (a, b) = (if b = y \<and> rx r \<le> a \<and> a < rx r + rwidth r
      then view info buf (a, y + 16) else view info buf (a, b))"
proof -
  have y: "y < ry r + rheight r" using assms(3) by simp
  note src = copy_offsets [OF assms] and dst = copy_offsets [OF assms(1,2) y]
  have w: "rx r + rwidth r \<le> stride info" using assms(1) by (simp add: content_ok_def info_ok_def)
  define t where "t = write_slice buf ((y * stride info + rx r) * bytes_per_pixel info)
    (sub_slice buf (((y + 16) * stride info + rx r) * bytes_per_pixel info) (rwidth r * bytes_per_pixel info))"
  show ?thesis
  proof
    show "scroll_row info r (rwidth r * bytes_per_pixel info) (y + 16) y buf = Some t"
      unfolding scroll_row_def src(1) dst(1) bind.bind_lunit
      using src(2,3) dst(2,3) by (simp add: in_range copy_within_def t_def del: mult_Suc add_mult_distrib)
    show "length t = n" unfolding t_def using src(2) dst(2) assms(2) by (subst length_write_slice) auto
    show "view info t (a, b) = (if b = y \<and> rx r \<le> a \<and> a < rx r + rwidth r
      then view info buf (a, y + 16) else view info buf (a, b))" for a b
      unfolding t_def using view_copy_row [OF refl w dst(2) w src(2), of a b] by auto
  qed
qed

lemma scroll_rows_view:
  assumes "content_ok info n r" and "length buf = n" and "m + 16 \<le> rheight r"
  shows "\<exists>t. scroll_rows info r (rwidth r * bytes_per_pixel info) (ry r + rheight r) [k..<m] buf = Some t \<and>
    length t = n \<and> (\<forall>a b. view info t (a, b) =
      (if ry r + k \<le> b \<and> b < ry r + m \<and> rx r \<le> a \<and> a < rx r + rwidth r
       then view info buf (a, b + 16) else view info buf (a, b)))"
  using assms(2)
proof (induction "m - k" arbitrary: k buf)
  case 0
  then show ?case by (intro exI [of _ buf]) auto
next
  case (Suc d)
  then have k: "k < m" "d = m - Suc k" by auto
  then have "ry r + k + 16 < ry r + rheight r" using assms(3) by simp
  from scroll_row_view [OF assms(1) Suc.prems this] obtain t where
    t: "scroll_row info r (rwidth r * bytes_per_pixel info) (ry r + k + 16) (ry r + k) buf = Some t" "length t = n"
    "\<And>a b. view info t (a, b) = (if b = ry r + k \<and> rx r \<le> a \<and> a < rx r + rwidth r
      then view info buf (a, ry r + k + 16) else view info buf (a, b))" by metis
  from Suc.hyps(1) [OF k(2) t(2)] obtain u where
    u: "scroll_rows info r (rwidth r * bytes_per_pixel info) (ry r + rheight r) [Suc k..<m] t = Some u" "length u = n"
    "\<And>a b. view info u (a, b) = (if ry r + Suc k \<le> b \<and> b < ry r + m \<and> rx r \<le> a \<and> a < rx r + rwidth r
       then view info t (a, b + 16) else view info t (a, b))" by metis
  have small: "ry r + rheight r < 2 ^ 64" using assms(1) by (simp add: content_ok_def info_ok_def)
  have "[k..<m] = k # [Suc k..<m]" using k by (simp add: upt_conv_Cons)
  then have "scroll_rows info r (rwidth r * bytes_per_pixel info) (ry r + rheight r) [k..<m] buf = Some u"
    using t(1) u(1) k assms(3) small by (simp add: in_range FONT_sizes)
  moreover have "view info u (a, b) = (if ry r + k \<le> b \<and> b < ry r + m \<and> rx r \<le> a \<and> a < rx r + rwidth r
       then view info buf (a, b + 16) else view info buf (a, b))" for a b
    unfolding u(3) t(3) using k by (cases "b = ry r + k") auto
  ultimately show ?case using u(2) by blast
qed

lemma scroll_up_view:
  assumes "content_ok info n (content con)" and "length buf = n" and "0 < rows con" and "16 \<le> rheight (content con)"
  obtains t where "scroll_up info (con, buf) = Some (con\<lparr>row := rows con - 1\<rparr>, t)" and "length t = n"
    and "\<And>u v. u < rwidth (content con) \<Longrightarrow> v + 16 < rheight (content con) \<Longrightarrow>
      view info t (rx (content con) + u, ry (content con) + v) = view info buf (rx (content con) + u, ry (content con) + (v + 16))"
    and "\<And>u v. u < rwidth (content con) \<Longrightarrow> v < rheight (content con) \<Longrightarrow> rheight (content con) \<le> v + 16 \<Longrightarrow>
      has_colour info t (rx (content con) + u, ry (content con) + v) black"
    and "\<And>p. p \<notin> content_box con \<Longrightarrow> view info t p = view info buf p"
proof -
  let ?r = "content con"
  have info: "info_ok info" "rx ?r + rwidth ?r \<le> stride info" "ry ?r + rheight ?r < 2 ^ 64" "rows con \<noteq> 0"
    using assms by (auto simp: content_ok_def info_ok_def)
  have bytes: "rwidth ?r * bytes_per_pixel info < 2 ^ 64"
    using copy_offsets(3) [OF assms(1,2), of "ry ?r"] assms(4) by simp
  have "rheight ?r - 16 + 16 \<le> rheight ?r" using assms(4) by simp
  from scroll_rows_view [OF assms(1,2) this, of 0] obtain s where
    s: "scroll_rows info ?r (rwidth ?r * bytes_per_pixel info) (ry ?r + rheight ?r) [0..<rheight ?r - 16] buf = Some s"
      "length s = n"
      "\<And>a b. view info s (a, b) = (if ry ?r \<le> b \<and> b < ry ?r + (rheight ?r - 16) \<and> rx ?r \<le> a \<and> a < rx ?r + rwidth ?r
       then view info buf (a, b + 16) else view info buf (a, b))" by auto
  obtain t where
    t: "fill_rect info (rx ?r) (ry ?r + rheight ?r - 16) (rwidth ?r) 16 black s = Some t" "length t = n"
      "\<And>p. p \<in> box (rx ?r) (ry ?r + rheight ?r - 16) (rwidth ?r) 16 \<Longrightarrow> p \<in> canvas info n \<Longrightarrow> has_colour info t p black"
      "\<And>p. p \<notin> box (rx ?r) (ry ?r + rheight ?r - 16) (rwidth ?r) 16 \<Longrightarrow> view info t p = view info s p"
    using draws_step [OF fill_rect_draws info(1) s(2)] by blast
  show ?thesis
  proof (rule that [of t])
    show "scroll_up info (con, buf) = Some (con\<lparr>row := rows con - 1\<rparr>, t)"
      using s(1) t(1) info(3,4) bytes by (simp add: scroll_up_def in_range FONT_sizes saturating_sub_def Let_def)
    show "length t = n" by (rule t(2))
    show "view info t (rx ?r + u, ry ?r + v) = view info buf (rx ?r + u, ry ?r + (v + 16))"
      if "u < rwidth ?r" "v + 16 < rheight ?r" for u v
      using that assms(4) t(4) [of "(rx ?r + u, ry ?r + v)"] s(3) [of "rx ?r + u" "ry ?r + v"] by (simp add: add.assoc)
    show "has_colour info t (rx ?r + u, ry ?r + v) black"
      if "u < rwidth ?r" "v < rheight ?r" "rheight ?r \<le> v + 16" for u v
      using that by (intro t(3) content_canvas [OF assms(1)]) auto
    show "view info t p = view info buf p" if "p \<notin> content_box con" for p
      using that assms(4) t(4) [of p] s(3) [of "fst p" "snd p"] by (auto simp: content_box_def box_def)
  qed
qed

section \<open>Each operation refines the terminal\<close>

lemma con_inv_facts:
  assumes "con_inv info n con"
  shows "content_ok info n (content con)" and "8 * cols con \<le> rwidth (content con)" and "16 * rows con \<le> rheight (content con)"
  using assms by (auto simp: con_inv_def)

lemma console_new_refines:
  assumes "content_ok info n r" and "length buf = n"
  shows "\<exists>con t. console_new info r buf = Some (con, t) \<and> content con = r \<and> \<not> cursor_visible con \<and>
    con_refines font info n exact (con, t) \<lparr>grid = \<lambda>_. [], trow = 0, tcol = 0\<rparr> \<and>
    (\<forall>p. p \<notin> content_box con \<longrightarrow> view info t p = view info buf p)"
proof -
  obtain t where t: "fill_content info r buf = Some t" "length t = n"
      "\<And>p. p \<in> box (rx r) (ry r) (rwidth r) (rheight r) \<Longrightarrow> p \<in> canvas info n \<Longrightarrow> has_colour info t p black"
      "\<And>p. p \<notin> box (rx r) (ry r) (rwidth r) (rheight r) \<Longrightarrow> view info t p = view info buf p"
    unfolding fill_content_def
    using draws_step [OF fill_rect_draws content_ok_info [OF assms(1)] assms(2)] by blast
  define con where "con = \<lparr>content = r, col = 0, row = 0, cols = rwidth r div 8, rows = rheight r div 16,
    cursor_visible = False\<rparr>"
  have "console_new info r buf = Some (con, t)"
    using t(1) by (simp add: console_new_def in_range FONT_sizes con_def)
  moreover have "con_inv info n con" using assms(1) by (auto simp: con_inv_def con_def)
  moreover have "displays font info con t (\<lambda>_. [])"
    unfolding displays_def con_def
    by (auto simp: lit_point_def intro!: t(3) content_canvas [OF assms(1)])
  ultimately show ?thesis
    using t by (intro exI [of _ con] exI [of _ t]) (simp add: con_refines_def content_box_def, simp add: con_def)
qed

lemma console_clear_refines:
  assumes "con_refines font info n exact (con, buf) t"
  shows "\<exists>s. console_clear info (con, buf) = Some s \<and> con_refines font info n exact s (term_clear t) \<and>
    same_outside info (con, buf) s"
proof -
  let ?r = "content con"
  have inv: "con_inv info n con" "length buf = n" using assms by (auto simp: con_refines_def)
  note ok = con_inv_facts(1) [OF inv(1)]
  obtain s where s: "fill_content info ?r buf = Some s" "length s = n"
      "\<And>p. p \<in> box (rx ?r) (ry ?r) (rwidth ?r) (rheight ?r) \<Longrightarrow> p \<in> canvas info n \<Longrightarrow> has_colour info s p black"
      "\<And>p. p \<notin> box (rx ?r) (ry ?r) (rwidth ?r) (rheight ?r) \<Longrightarrow> view info s p = view info buf p"
    unfolding fill_content_def
    using draws_step [OF fill_rect_draws content_ok_info [OF ok] inv(2)] by blast
  have "displays font info (con\<lparr>col := 0, row := 0\<rparr>) s (\<lambda>_. [])"
    unfolding displays_def by (auto simp: lit_point_def intro!: s(3) content_canvas [OF ok])
  then have "con_refines font info n exact (con\<lparr>col := 0, row := 0\<rparr>, s) (term_clear t)"
    using inv s(2) by (auto simp: con_refines_def con_inv_def term_clear_def)
  then show ?thesis
    using s inv(2) by (intro exI [of _ "(con\<lparr>col := 0, row := 0\<rparr>, s)"])
      (simp add: console_clear_def same_outside_def content_box_def)
qed

lemma same_outside_refl: "same_outside info s s"
  by (auto simp: same_outside_def)

lemma same_outside_trans: "same_outside info s t \<Longrightarrow> same_outside info t u \<Longrightarrow> same_outside info s u"
  by (auto simp: same_outside_def content_box_def split: prod.splits)

lemma new_line_refines:
  assumes "con_refines font info n exact (con, buf) t" and "0 < rows con"
  shows "\<exists>s. new_line info (con, buf) = Some s \<and> con_refines font info n exact s (term_newline (rows con) t) \<and>
    same_outside info (con, buf) s"
proof -
  let ?r = "content con"
  have inv: "con_inv info n con" "length buf = n" "row con = trow t" "exact \<Longrightarrow> displays font info con buf (grid t)"
    using assms by (auto simp: con_refines_def)
  note ok = con_inv_facts [OF inv(1)]
  have row: "row con < rows con" using inv(1) assms(2) by (auto simp: con_inv_def)
  have small: "row con + 1 < 2 ^ 64" using row ok(1,3) by (simp add: content_ok_def info_ok_def)
  show ?thesis
  proof (cases "rows con \<le> row con + 1")
    case False
    let ?con = "con\<lparr>col := 0, row := row con + 1\<rparr>"
    have "new_line info (con, buf) = Some (?con, buf)"
      using False small by (simp add: new_line_def in_range)
    moreover have "con_refines font info n exact (?con, buf) (term_newline (rows con) t)"
      using False inv row by (simp add: con_refines_def con_inv_def term_newline_def displays_def)
    moreover have "same_outside info (con, buf) (?con, buf)" by (simp add: same_outside_def)
    ultimately show ?thesis by blast
  next
    case True
    let ?mid = "con\<lparr>col := 0, row := row con + 1\<rparr>"
    let ?con = "con\<lparr>col := 0, row := rows con - 1\<rparr>"
    have mid: "content ?mid = ?r" "rows ?mid = rows con" "content_box ?mid = content_box con" by (simp_all add: content_box_def)
    have h: "16 \<le> rheight ?r" using ok(3) assms(2) by simp
    obtain s where s: "scroll_up info (?mid, buf) = Some (?con, s)" "length s = n"
      "\<And>u v. u < rwidth ?r \<Longrightarrow> v + 16 < rheight ?r \<Longrightarrow>
        view info s (rx ?r + u, ry ?r + v) = view info buf (rx ?r + u, ry ?r + (v + 16))"
      "\<And>u v. u < rwidth ?r \<Longrightarrow> v < rheight ?r \<Longrightarrow> rheight ?r \<le> v + 16 \<Longrightarrow> has_colour info s (rx ?r + u, ry ?r + v) black"
      "\<And>p. p \<notin> content_box con \<Longrightarrow> view info s p = view info buf p"
      using scroll_up_view [of info n ?mid buf] ok(1) inv(2) assms(2) h unfolding mid by auto
    have "new_line info (con, buf) = Some (?con, s)"
      using True small s(1) by (simp add: new_line_def in_range)
    moreover have "con_refines font info n exact (?con, s) (term_newline (rows con) t)"
    proof -
      let ?g = "\<lambda>(r, c). if r + 1 < rows con then grid t (r + 1, c) else []"
      have "has_colour info s (rx ?r + u, ry ?r + v) (if lit_point font (cols con) (rows con) ?g u v then white else black)"
        if exact: "exact" and uv: "u < rwidth ?r" "v < rheight ?r" for u v
      proof (cases "v + 16 < rheight ?r")
        case True
        have "lit_point font (cols con) (rows con) ?g u v = lit_point font (cols con) (rows con) (grid t) u (v + 16)"
        proof -
          have "(v + 16) div 16 = Suc (v div 16)" by simp
          then show ?thesis unfolding lit_point_def by auto
        qed
        moreover have "has_colour info buf (rx ?r + u, ry ?r + (v + 16))
          (if lit_point font (cols con) (rows con) (grid t) u (v + 16) then white else black)"
          using inv(4) [OF exact] uv True by (simp add: displays_def)
        ultimately show ?thesis using has_colour_view [OF s(3) [OF uv(1) True]] by simp
      next
        case False
        then have "\<not> lit_point font (cols con) (rows con) ?g u v" using ok(3) by (auto simp: lit_point_def)
        then show ?thesis using s(4) [OF uv] False by simp
      qed
      then have "exact \<longrightarrow> displays font info ?con s ?g" by (simp add: displays_def)
      then show ?thesis
        using True inv row s(2) by (simp add: con_refines_def con_inv_def term_newline_def)
    qed
    moreover have "same_outside info (con, buf) (?con, s)" using s(2,5) inv(2) by (simp add: same_outside_def)
    ultimately show ?thesis by blast
  qed
qed

lemma cell_origin_in_range:
  assumes "con_inv info n con" and "c \<le> cols con" and "r < rows con"
  shows "cell_origin con c r = Some (rx (content con) + 8 * c, ry (content con) + 16 * r)"
    and "rx (content con) + 8 * c \<le> width info" and "ry (content con) + 16 * r + 16 \<le> height info"
    and "width info < 2 ^ 64" and "height info < 2 ^ 64"
proof -
  note ok = con_inv_facts [OF assms(1)]
  have small: "width info < 2 ^ 64" "height info < 2 ^ 64" using ok(1) by (auto simp: content_ok_def info_ok_def)
  have le: "rx (content con) + 8 * c \<le> width info" "ry (content con) + 16 * r + 16 \<le> height info"
    using ok assms(2,3) by (auto simp: content_ok_def)
  then show "cell_origin con c r = Some (rx (content con) + 8 * c, ry (content con) + 16 * r)"
    using small by (simp add: cell_origin_def in_range FONT_sizes mult.commute)
  show "rx (content con) + 8 * c \<le> width info" "ry (content con) + 16 * r + 16 \<le> height info"
    "width info < 2 ^ 64" "height info < 2 ^ 64" using le small by auto
qed

lemma clear_char_draws:
  assumes "con_inv info n con" and "c < cols con" and "r < rows con"
  shows "fb.draws info n (clear_char info con c r)
    [(box (rx (content con) + 8 * c) (ry (content con) + 16 * r) 8 16, black)]"
proof -
  let ?x = "rx (content con) + 8 * c" and ?y = "ry (content con) + 16 * r"
  note org = cell_origin_in_range [OF assms(1) less_imp_le [OF assms(2)] assms(3)]
  have xw: "?x + 8 \<le> width info" using con_inv_facts [OF assms(1)] assms(2) by (auto simp: content_ok_def)
  have dot: "fb.draws info n (\<lambda>buf. uadd ?x dx \<bind> (\<lambda>x. uadd ?y dy \<bind> (\<lambda>y. put_pixel info x y black buf)))
    [({(?x + dx, ?y + dy)}, black)]" if "dx < 8" "dy < 16" for dx dy
  proof -
    have "uadd ?x dx = Some (?x + dx)" "uadd ?y dy = Some (?y + dy)"
      using that org xw by (simp_all add: in_range)
    then show ?thesis using draws_put_pixel by simp
  qed
  have "fb.draws info n (foldM (\<lambda>dy. foldM (\<lambda>dx buf. uadd ?x dx \<bind> (\<lambda>x. uadd ?y dy \<bind> (\<lambda>y. put_pixel info x y black buf)))
      [0..<8]) [0..<16]) [(\<Union>dy \<in> set [0..<16]. \<Union>dx \<in> set [0..<8]. {(?x + dx, ?y + dy)}, black)]"
    by (rule fb.draws_loop_one_colour, rule fb.draws_loop_one_colour, rule dot) auto
  moreover have "(\<Union>dy \<in> set [0..<16]. \<Union>dx \<in> set [0..<8]. {(?x + dx, ?y + dy)}) = box ?x ?y 8 16"
  proof (intro equalityI subsetI)
    fix p assume "p \<in> box ?x ?y 8 16"
    then have "p = (?x + (fst p - ?x), ?y + (snd p - ?y))" "fst p - ?x \<in> set [0..<8]" "snd p - ?y \<in> set [0..<16]"
      by (auto simp: box_def prod_eq_iff)
    then show "p \<in> (\<Union>dy \<in> set [0..<16]. \<Union>dx \<in> set [0..<8]. {(?x + dx, ?y + dy)})" by blast
  qed auto
  moreover have "clear_char info con c r = foldM (\<lambda>dy. foldM (\<lambda>dx buf.
      uadd ?x dx \<bind> (\<lambda>x. uadd ?y dy \<bind> (\<lambda>y. put_pixel info x y black buf))) [0..<8]) [0..<16]"
    by (simp add: clear_char_def fun_eq_iff org(1) FONT_sizes)
  ultimately show ?thesis by simp
qed

text \<open>The cell of a point.\<close>

lemma in_cell:
  "(8 * c \<le> u \<and> u < 8 * c + 8 \<and> 16 * r \<le> v \<and> v < 16 * r + 16) \<longleftrightarrow> u div 8 = c \<and> v div 16 = r"
  for u v c r :: nat
proof -
  have "u div 8 = c \<longleftrightarrow> 8 * c \<le> u \<and> u < 8 * c + 8" by (intro iffI conjI) linarith+
  moreover have "v div 16 = r \<longleftrightarrow> 16 * r \<le> v \<and> v < 16 * r + 16" by (intro iffI conjI) linarith+
  ultimately show ?thesis by simp
qed

lemma con_inv_col: "con_inv info n con \<Longrightarrow> k \<le> cols con \<Longrightarrow> con_inv info n (con\<lparr>col := k\<rparr>)"
  by (auto simp: con_inv_def)

lemma backspace_refines:
  assumes "con_refines font info n exact (con, buf) t" and "0 < rows con" and "0 < col con"
  defines "con' \<equiv> con\<lparr>col := col con - 1\<rparr>"
  shows "\<exists>s. clear_char info con' (col con') (row con') buf = Some s \<and>
    con_refines font info n exact (con', s) (t\<lparr>grid := (grid t)((trow t, tcol t - 1) := []), tcol := tcol t - 1\<rparr>) \<and>
    same_outside info (con, buf) (con', s)"
proof -
  let ?r = "content con"
  have inv: "con_inv info n con" "length buf = n" "row con = trow t" "col con = tcol t" "exact \<Longrightarrow> displays font info con buf (grid t)"
    using assms by (auto simp: con_refines_def)
  note ok = con_inv_facts [OF inv(1)]
  have inv': "con_inv info n con'" using inv(1) by (auto simp: con_inv_def con'_def)
  have pos: "col con' < cols con'" "row con' < rows con'"
    using inv(1) assms by (auto simp: con_inv_def con'_def)
  have same: "content con' = ?r" "cols con' = cols con" "rows con' = rows con" "row con' = row con" by (simp_all add: con'_def)
  obtain s where s: "clear_char info con' (col con') (row con') buf = Some s" "length s = n"
    "\<And>p. p \<in> box (rx ?r + 8 * col con') (ry ?r + 16 * row con) 8 16 \<Longrightarrow> p \<in> canvas info n \<Longrightarrow> has_colour info s p black"
    "\<And>p. p \<notin> box (rx ?r + 8 * col con') (ry ?r + 16 * row con) 8 16 \<Longrightarrow> view info s p = view info buf p"
    using draws_step [OF clear_char_draws [OF inv' pos] content_ok_info [OF ok(1)] inv(2)] unfolding same by blast
  let ?g = "(grid t)((row con, col con') := [])"
  have "has_colour info s (rx ?r + u, ry ?r + v) (if lit_point font (cols con) (rows con) ?g u v then white else black)"
    if exact: "exact" and uv: "u < rwidth ?r" "v < rheight ?r" for u v
  proof (cases "u div 8 = col con' \<and> v div 16 = row con")
    case True
    then have "\<not> lit_point font (cols con) (rows con) ?g u v" by (simp add: lit_point_def)
    moreover have "(rx ?r + u, ry ?r + v) \<in> box (rx ?r + 8 * col con') (ry ?r + 16 * row con) 8 16"
      using True in_cell [of "col con'" u "row con" v] by auto
    ultimately show ?thesis using s(3) content_canvas [OF ok(1)] uv by simp
  next
    case False
    then have "(rx ?r + u, ry ?r + v) \<notin> box (rx ?r + 8 * col con') (ry ?r + 16 * row con) 8 16"
      using in_cell [of "col con'" u "row con" v] by auto
    moreover have "lit_point font (cols con) (rows con) ?g u v = lit_point font (cols con) (rows con) (grid t) u v"
      using False by (auto simp: lit_point_def)
    ultimately show ?thesis
      using inv(5) [OF exact] uv has_colour_view [OF s(4)] by (simp add: displays_def)
  qed
  then have "exact \<longrightarrow> displays font info con' s ?g" by (simp add: displays_def same)
  then have "con_refines font info n exact (con', s) (t\<lparr>grid := (grid t)((trow t, tcol t - 1) := []), tcol := tcol t - 1\<rparr>)"
    using inv inv' s(2) by (simp add: con_refines_def con'_def)
  moreover have "same_outside info (con, buf) (con', s)"
  proof -
    have "box (rx ?r + 8 * col con') (ry ?r + 16 * row con) 8 16 \<subseteq> content_box con"
      using ok(2,3) pos same by (auto simp: content_box_def)
    then show ?thesis using s(2,4) inv(2) by (auto simp: same_outside_def con'_def)
  qed
  ultimately show ?thesis using s(1) by blast
qed

lemma print_refines:
  assumes "con_refines font info n exact (con, buf) t" and "font_ok font" and "0 < rows con" and "col con < cols con"
  shows "\<exists>s. draw_char font info con ch (col con) (row con) buf = Some s \<and> uadd (col con) 1 = Some (col con + 1) \<and>
    con_refines font info n exact (con\<lparr>col := col con + 1\<rparr>, s) (term_print ch t) \<and>
    same_outside info (con, buf) (con\<lparr>col := col con + 1\<rparr>, s)"
proof -
  let ?r = "content con" and ?c = "col con" and ?con = "con\<lparr>col := col con + 1\<rparr>"
  have inv: "con_inv info n con" "length buf = n" "row con = trow t" "?c = tcol t" "exact \<Longrightarrow> displays font info con buf (grid t)"
    using assms by (auto simp: con_refines_def)
  note ok = con_inv_facts [OF inv(1)]
  have row: "row con < rows con" using inv(1) assms(3) by (auto simp: con_inv_def)
  note org = cell_origin_in_range [OF inv(1) less_imp_le [OF assms(4)] row]
  have "rx ?r + 8 * ?c + 8 < 2 ^ 64"
    using ok(1,2) assms(4) org(4) by (simp add: content_ok_def)
  moreover have "ry ?r + 16 * row con + 16 < 2 ^ 64" using org(3,5) by simp
  ultimately have "fb.draws info n (draw_char_at font info (rx ?r + 8 * ?c) (ry ?r + 16 * row con) ch white)
    [(char_points font (rx ?r + 8 * ?c) (ry ?r + 16 * row con) ch, white)]"
    using assms(2) by (intro draw_char_at_draws)
  from draws_step [OF this content_ok_info [OF ok(1)] inv(2)] obtain s where
    s: "draw_char_at font info (rx ?r + 8 * ?c) (ry ?r + 16 * row con) ch white buf = Some s" "length s = n"
    "\<And>p. p \<in> char_points font (rx ?r + 8 * ?c) (ry ?r + 16 * row con) ch \<Longrightarrow> p \<in> canvas info n \<Longrightarrow> has_colour info s p white"
    "\<And>p. p \<notin> char_points font (rx ?r + 8 * ?c) (ry ?r + 16 * row con) ch \<Longrightarrow> view info s p = view info buf p"
    by blast
  let ?g = "(grid t)((row con, ?c) := ch # grid t (row con, ?c))"
  have cell: "(rx ?r + u, ry ?r + v) \<in> char_points font (rx ?r + 8 * ?c) (ry ?r + 16 * row con) ch
    \<longleftrightarrow> u div 8 = ?c \<and> v div 16 = row con \<and> ink font ch (u mod 8, v mod 16)" for u v
  proof -
    have "u mod 8 = u - 8 * ?c" if "u div 8 = ?c" using that by (simp add: minus_div_mult_eq_mod [symmetric] mult.commute)
    moreover have "v mod 16 = v - 16 * row con" if "v div 16 = row con"
      using that by (simp add: minus_div_mult_eq_mod [symmetric] mult.commute)
    ultimately show ?thesis
      using in_cell [of ?c u "row con" v] by (auto simp: char_points_def ink_def)
  qed
  have "has_colour info s (rx ?r + u, ry ?r + v) (if lit_point font (cols con) (rows con) ?g u v then white else black)"
    if exact: "exact" and uv: "u < rwidth ?r" "v < rheight ?r" for u v
  proof (cases "u div 8 = ?c \<and> v div 16 = row con \<and> ink font ch (u mod 8, v mod 16)")
    case True
    then have "lit_point font (cols con) (rows con) ?g u v" using row assms(4) by (simp add: lit_point_def)
    then show ?thesis using True cell s(3) content_canvas [OF ok(1)] uv by simp
  next
    case False
    then have "lit_point font (cols con) (rows con) ?g u v = lit_point font (cols con) (rows con) (grid t) u v"
      by (auto simp: lit_point_def)
    then show ?thesis
      using inv(5) [OF exact] uv has_colour_view [OF s(4)] False cell [of u v] by (simp add: displays_def)
  qed
  then have "exact \<longrightarrow> displays font info ?con s ?g" by (simp add: displays_def)
  then have "con_refines font info n exact (?con, s) (term_print ch t)"
    using inv s(2) assms(4) con_inv_col [OF inv(1), of "?c + 1"] by (simp add: con_refines_def term_print_def)
  moreover have "same_outside info (con, buf) (?con, s)"
  proof -
    have "char_points font (rx ?r + 8 * ?c) (ry ?r + 16 * row con) ch \<subseteq> content_box con"
      using ok(2,3) assms(4) row by (auto simp: content_box_def char_points_def ink_def box_def)
    then show ?thesis using s(2,4) inv(2) by (auto simp: same_outside_def)
  qed
  moreover have "?c + 1 < 2 ^ 64" using org(2,4) by simp
  ultimately show ?thesis using s(1) by (intro exI [of _ s]) (simp add: draw_char_def org(1) in_range)
qed

lemma write_char_refines:
  assumes "con_refines font info n exact s t" and "font_ok font"
  shows "\<exists>s'. write_char font info ch s = Some s' \<and>
    con_refines font info n exact s' (term_write (cols (fst s)) (rows (fst s)) ch t) \<and> same_outside info s s'"
proof -
  obtain con buf where s: "s = (con, buf)" by (cases s)
  note ref = assms(1) [unfolded s]
  have same: "row con = trow t" "col con = tcol t" using ref by (auto simp: con_refines_def)
  consider "rows con = 0 \<or> cols con = 0" | "0 < rows con" "0 < cols con" "ch = 10"
    | "0 < rows con" "0 < cols con" "ch = 13" | "0 < rows con" "0 < cols con" "ch = 8" "col con = 0"
    | "0 < rows con" "0 < cols con" "ch = 8" "0 < col con"
    | "0 < rows con" "0 < cols con" "ch \<noteq> 10" "ch \<noteq> 13" "ch \<noteq> 8" by blast
  then show ?thesis
  proof cases
    case 1
    then show ?thesis using ref same_outside_refl by (auto simp: write_char_def term_write_def s)
  next
    case 2
    then show ?thesis using new_line_refines [OF ref] by (simp add: write_char_def term_write_def s)
  next
    case 3
    have "con_refines font info n exact (con\<lparr>col := 0\<rparr>, buf) (t\<lparr>tcol := 0\<rparr>)"
    proof -
      have "con_inv info n con" "exact \<longrightarrow> displays font info con buf (grid t)" using ref by (auto simp: con_refines_def)
      then have "con_inv info n (con\<lparr>col := 0\<rparr>)" "exact \<longrightarrow> displays font info (con\<lparr>col := 0\<rparr>) buf (grid t)"
        by (simp_all add: con_inv_col displays_def)
      then show ?thesis using ref by (simp add: con_refines_def)
    qed
    moreover have "same_outside info (con, buf) (con\<lparr>col := 0\<rparr>, buf)" by (simp add: same_outside_def)
    ultimately show ?thesis using 3 by (simp add: write_char_def term_write_def s)
  next
    case 4
    then show ?thesis using ref same same_outside_refl by (simp add: write_char_def term_write_def s)
  next
    case 5
    then show ?thesis using backspace_refines [OF ref 5(1,4)] same
      by (auto simp: write_char_def term_write_def s in_range)
  next
    case 6
    obtain con' buf' where nl: "(if cols con \<le> col con then new_line info (con, buf) else Some (con, buf)) = Some (con', buf')"
      "con_refines font info n exact (con', buf') (if cols con \<le> tcol t then term_newline (rows con) t else t)"
      "same_outside info (con, buf) (con', buf')"
      using new_line_refines [OF ref 6(1)] ref same_outside_refl [of info "(con, buf)"] same by (cases "cols con \<le> tcol t") auto
    have geo: "rows con' = rows con" "cols con' = cols con" using nl(3) by (auto simp: same_outside_def)
    have col: "col con' < cols con'"
      using nl(1,2) 6 geo same by (auto simp: con_refines_def term_newline_def split: if_splits)
    from print_refines [OF nl(2) assms(2) _ col, of ch] obtain u where
      u: "draw_char font info con' ch (col con') (row con') buf' = Some u" "uadd (col con') 1 = Some (col con' + 1)"
      "con_refines font info n exact (con'\<lparr>col := col con' + 1\<rparr>, u) (term_print ch (if cols con \<le> tcol t then term_newline (rows con) t else t))"
      "same_outside info (con', buf') (con'\<lparr>col := col con' + 1\<rparr>, u)"
      using 6(1) geo by auto
    have "write_char font info ch s = Some (con'\<lparr>col := col con' + 1\<rparr>, u)"
      using 6 nl(1) u(1,2) by (simp add: write_char_def s)
    moreover have "term_write (cols (fst s)) (rows (fst s)) ch t
      = term_print ch (if cols con \<le> tcol t then term_newline (rows con) t else t)"
      using 6 by (simp add: term_write_def s)
    ultimately show ?thesis using u(3) same_outside_trans [OF nl(3) u(4)] s by simp
  qed
qed

lemma write_str_step:
  assumes "con_refines font info n exact s t" and "font_ok font"
  shows "\<exists>s'. write_str font info str s = Some s' \<and>
    con_refines font info n exact s' (term_write_str (cols (fst s)) (rows (fst s)) str t) \<and> same_outside info s s'"
  using assms(1)
proof (induction str arbitrary: s t)
  case Nil
  then show ?case using same_outside_refl by (auto simp: write_str_def term_write_str_def)
next
  case (Cons ch str)
  obtain s1 where s1: "write_char font info ch s = Some s1"
    "con_refines font info n exact s1 (term_write (cols (fst s)) (rows (fst s)) ch t)" "same_outside info s s1"
    using write_char_refines [OF Cons.prems assms(2)] by blast
  have geo: "cols (fst s1) = cols (fst s)" "rows (fst s1) = rows (fst s)"
    using s1(3) by (auto simp: same_outside_def split: prod.splits)
  obtain s2 where "write_str font info str s1 = Some s2"
    "con_refines font info n exact s2 (term_write_str (cols (fst s)) (rows (fst s)) str (term_write (cols (fst s)) (rows (fst s)) ch t))"
    "same_outside info s1 s2"
    using Cons.IH [OF s1(2)] unfolding geo by blast
  then show ?case
    using s1(1) same_outside_trans [OF s1(3)] by (auto simp: write_str_def term_write_str_def)
qed

section \<open>The text cursor\<close>

lemma cursor_bar_draws:
  assumes "rx (content con) + 8 * col con < 2 ^ 64" and "ry (content con) + 16 * row con + 16 < 2 ^ 64"
  shows "fb.draws info n (cursor_bar info con c)
    [(box (rx (content con) + 8 * col con) (ry (content con) + 16 * row con) 1 16, c)]"
proof -
  let ?x = "rx (content con) + 8 * col con" and ?y = "ry (content con) + 16 * row con"
  have org: "cell_origin con (col con) (row con) = Some (?x, ?y)"
    using assms by (simp add: cell_origin_def in_range FONT_sizes mult.commute)
  have "uadd ?y dy = Some (?y + dy)" if "dy < 16" for dy using that assms by (simp add: in_range)
  then have "fb.draws info n (foldM (\<lambda>dy buf. uadd ?y dy \<bind> (\<lambda>y. put_pixel info ?x y c buf)) [0..<16])
    [(\<Union>dy \<in> set [0..<16]. {(?x, ?y + dy)}, c)]"
    by (intro fb.draws_loop_one_colour) (simp add: draws_put_pixel)
  moreover have "(\<Union>dy \<in> set [0..<16]. {(?x, ?y + dy)}) = box ?x ?y 1 16"
  proof (intro equalityI subsetI)
    fix p assume "p \<in> box ?x ?y 1 16"
    then have "p = (?x, ?y + (snd p - ?y))" "snd p - ?y \<in> set [0..<16]" by (auto simp: box_def prod_eq_iff)
    then show "p \<in> (\<Union>dy \<in> set [0..<16]. {(?x, ?y + dy)})" by blast
  qed auto
  moreover have "cursor_bar info con c = foldM (\<lambda>dy buf. uadd ?y dy \<bind> (\<lambda>y. put_pixel info ?x y c buf)) [0..<16]"
    by (simp add: cursor_bar_def fun_eq_iff org FONT_sizes)
  ultimately show ?thesis by simp
qed

lemma cursor_bar_range:
  assumes "con_inv info n con" and "0 < rows con"
  shows "rx (content con) + 8 * col con < 2 ^ 64" and "ry (content con) + 16 * row con + 16 < 2 ^ 64"
proof -
  have "col con \<le> cols con" "row con < rows con" using assms by (auto simp: con_inv_def)
  from cell_origin_in_range [OF assms(1) this]
  show "rx (content con) + 8 * col con < 2 ^ 64" "ry (content con) + 16 * row con + 16 < 2 ^ 64" by auto
qed

section \<open>Properties\<close>

definition term_blank :: terminal where
  "term_blank = \<lparr>grid = \<lambda>_. [], trow = 0, tcol = 0\<rparr>"

text \<open>C11: the console is a terminal. A console made in a content rectangle that lies in the frame, and
  then written any string, never panics; its cursor position is that of the terminal model
  (line feed, carriage return, backspace, wrap at the right edge, scrolling at the bottom), every
  pixel of the content reads white where the terminal shows ink of a character and black
  elsewhere, and every pixel outside the content reads as before.\<close>

theorem console_refines_terminal:
  assumes "content_ok info (length buf) r" and "font_ok font" and "keeps_colour info"
  shows "\<exists>con t buf'. console_new info r buf \<bind> write_str font info str = Some (con, buf') \<and>
    t = term_write_str (rwidth r div 8) (rheight r div 16) str term_blank \<and>
    row con = trow t \<and> col con = tcol t \<and>
    (\<forall>u < rwidth r. \<forall>v < rheight r. read_pixel info buf' (rx r + u) (ry r + v) =
      Some (if lit_point font (rwidth r div 8) (rheight r div 16) (grid t) u v then white else black)) \<and>
    (\<forall>x y. (x, y) \<notin> box (rx r) (ry r) (rwidth r) (rheight r) \<longrightarrow> read_pixel info buf' x y = read_pixel info buf x y)"
proof -
  let ?n = "length buf"
  obtain con0 buf0 where new: "console_new info r buf = Some (con0, buf0)" "content con0 = r"
    "con_refines font info ?n True (con0, buf0) term_blank"
    "\<forall>p. p \<notin> content_box con0 \<longrightarrow> view info buf0 p = view info buf p"
    using console_new_refines [OF assms(1) refl, of font True] by (auto simp: term_blank_def)
  have geo: "cols con0 = rwidth r div 8" "rows con0 = rheight r div 16"
    using new(2,3) by (auto simp: con_refines_def con_inv_def)
  let ?t = "term_write_str (rwidth r div 8) (rheight r div 16) str term_blank"
  obtain con buf' where w: "write_str font info str (con0, buf0) = Some (con, buf')"
    "con_refines font info ?n True (con, buf') ?t" "same_outside info (con0, buf0) (con, buf')"
    using write_str_step [OF new(3) assms(2), of str] geo by auto
  have con: "content con = r" "cols con = rwidth r div 8" "rows con = rheight r div 16"
    using w(3) new(2) geo by (auto simp: same_outside_def)
  have len: "length buf' = ?n" and disp: "displays font info con buf' (grid ?t)"
    and pos: "row con = trow ?t" "col con = tcol ?t" using w(2) by (auto simp: con_refines_def)
  note info = content_ok_info [OF assms(1)]
  have shown: "shown info c = c" for c using assms(3) by (auto simp: shown_def keeps_colour_def split: prod.split)
  have inside: "read_pixel info buf' (rx r + u) (ry r + v) =
      Some (if lit_point font (rwidth r div 8) (rheight r div 16) (grid ?t) u v then white else black)"
    if "u < rwidth r" "v < rheight r" for u v
  proof -
    have "has_colour info buf' (rx r + u, ry r + v)
      (if lit_point font (rwidth r div 8) (rheight r div 16) (grid ?t) u v then white else black)"
      using disp that con unfolding displays_def by simp
    moreover have "(rx r + u, ry r + v) \<in> canvas info (length buf')"
      unfolding len by (rule content_canvas [OF assms(1)]) (use that in auto)
    ultimately show ?thesis using read_has_colour [OF info disjI1 [OF assms(3)]] shown by simp
  qed
  have outside: "read_pixel info buf' x y = read_pixel info buf x y"
    if "(x, y) \<notin> box (rx r) (ry r) (rwidth r) (rheight r)" for x y
  proof -
    have "view info buf' (x, y) = view info buf (x, y)"
      using that w(3) new(2,4) by (simp add: same_outside_def content_box_def)
    then show ?thesis by (simp add: read_pixel_spec [OF info] len)
  qed
  show ?thesis
    using new(1) w(1) pos inside outside by (intro exI [of _ con] exI [of _ ?t] exI [of _ buf']) simp
qed

definition tiny_info :: fb_info where
  "tiny_info = \<lparr>width = 16, height = 32, stride = 16, bytes_per_pixel = 3, pixel_format = Rgb\<rparr>"

definition block_font :: font where
  "block_font ch = (if ch = 63 then Some (replicate 8 0xFF) else None)"

theorem console_refines_terminal_witness:
  "\<exists>con buf'. console_new tiny_info \<lparr>rx = 0, ry = 0, rwidth = 16, rheight = 32\<rparr> (replicate 1536 0) \<bind>
      write_str block_font tiny_info (lit ''ab'' @ [10] @ lit ''c'') = Some (con, buf') \<and>
    row con = 1 \<and> col con = 1 \<and> read_pixel tiny_info buf' 3 20 = Some white \<and> read_pixel tiny_info buf' 9 20 = Some black"
proof -
  let ?r = "\<lparr>rx = 0, ry = 0, rwidth = 16, rheight = 32\<rparr>"
  have ok: "content_ok tiny_info (length (replicate 1536 (0 :: u8))) ?r"
    by (simp add: content_ok_def tiny_info_def info_ok_def format_ok_def)
  have font: "font_ok block_font" by (simp add: font_ok_def block_font_def)
  have keeps: "keeps_colour tiny_info" by (simp add: keeps_colour_def tiny_info_def)
  let ?t = "term_write_str 2 2 (lit ''ab'' @ [10] @ lit ''c'') term_blank"
  have t: "trow ?t = 1" "tcol ?t = 1" "grid ?t (1, 0) = [99]" "grid ?t (1, 1) = []"
    by (simp_all add: lit_def term_write_str_def term_write_def term_print_def term_newline_def term_blank_def)
  have "bit (255 :: u8) 3" by simp
  then have "lit_point block_font 2 2 (grid ?t) 3 20" "\<not> lit_point block_font 2 2 (grid ?t) 9 20"
    using t by (simp_all add: lit_point_def ink_def glyph_of_def block_font_def)
  then show ?thesis
    using console_refines_terminal [OF ok font keeps, of "lit ''ab'' @ [10] @ lit ''c''"] t by auto
qed

end
