(* ===== verification/Cursor.thy ===== *)
theory Cursor
  imports Shapes
begin

text \<open>
  The mouse cursor of \<^verbatim>\<open>kernel/src/wm.rs\<close> (\<^verbatim>\<open>CursorState\<close>) and its sprite. The cursor is drawn into
  the frame over what is there; \<open>save_background\<close> keeps the pixels below and
  \<open>restore_background\<close> puts them back. \<open>uncovered\<close> says that a buffer is a picture with the cursor
  drawn over it, and that the saved pixels are those of the picture.
\<close>

section \<open>State\<close>

definition CURSOR_W :: usize where "CURSOR_W = 12"

definition CURSOR_H :: usize where "CURSOR_H = 16"

definition CURSOR_SPRITE :: "nat list list" where
  "CURSOR_SPRITE = [
    [1,0,0,0,0,0,0,0,0,0,0,0],
    [1,1,0,0,0,0,0,0,0,0,0,0],
    [1,2,1,0,0,0,0,0,0,0,0,0],
    [1,2,2,1,0,0,0,0,0,0,0,0],
    [1,2,2,2,1,0,0,0,0,0,0,0],
    [1,2,2,2,2,1,0,0,0,0,0,0],
    [1,2,2,2,2,2,1,0,0,0,0,0],
    [1,2,2,2,2,2,2,1,0,0,0,0],
    [1,2,2,2,2,2,2,2,1,0,0,0],
    [1,2,2,2,2,2,2,2,2,1,0,0],
    [1,2,2,2,2,2,1,1,1,1,1,0],
    [1,2,2,1,2,2,1,0,0,0,0,0],
    [1,2,1,0,1,2,2,1,0,0,0,0],
    [1,1,0,0,1,2,2,1,0,0,0,0],
    [1,0,0,0,0,1,2,2,1,0,0,0],
    [0,0,0,0,0,1,1,1,0,0,0,0]]"

record cursor =
  cur_x :: int
  cur_y :: int
  screen_width :: int
  screen_height :: int
  saved_bg :: "rgb list"
  visible :: bool

text \<open>\<open>usize as i32\<close> and \<open>i32 as usize\<close>.\<close>

definition usize_as_i32 :: "usize \<Rightarrow> int" where
  "usize_as_i32 n = sint (of_nat n :: u32)"

definition i32_as_usize :: "int \<Rightarrow> usize" where
  "i32_as_usize v = nat (v mod 2 ^ 64)"

text \<open>\<open>clamp\<close> panics when the bounds are crossed.\<close>

definition i32_clamp :: "int \<Rightarrow> int \<Rightarrow> int \<Rightarrow> int option" where
  "i32_clamp v lo hi = (if lo \<le> hi then Some (max lo (min hi v)) else None)"

section \<open>Operations\<close>

definition cursor_new :: "usize \<Rightarrow> usize \<Rightarrow> cursor" where
  "cursor_new w h = \<lparr>cur_x = usize_as_i32 (w div 2), cur_y = usize_as_i32 (h div 2), screen_width = usize_as_i32 w,
     screen_height = usize_as_i32 h, saved_bg = replicate (CURSOR_W * CURSOR_H) (0, 0, 0), visible = False\<rparr>"

definition save_pixel :: "fb_info \<Rightarrow> fb_buffer \<Rightarrow> usize \<Rightarrow> usize \<Rightarrow> usize \<Rightarrow> usize \<Rightarrow> rgb list \<Rightarrow> rgb list option" where
  "save_pixel info buf cx cy sy sx bg = do {
     x \<leftarrow> uadd cx sx;
     y \<leftarrow> uadd cy sy;
     c \<leftarrow> read_pixel info buf x y;
     set_at bg (sy * CURSOR_W + sx) c
   }"

definition save_background :: "fb_info \<Rightarrow> fb_buffer \<Rightarrow> cursor \<Rightarrow> cursor option" where
  "save_background info buf cur = do {
     let cx = i32_as_usize (cur_x cur);
     let cy = i32_as_usize (cur_y cur);
     bg \<leftarrow> foldM (\<lambda>sy. foldM (save_pixel info buf cx cy sy) [0..<CURSOR_W]) [0..<CURSOR_H] (saved_bg cur);
     Some (cur\<lparr>saved_bg := bg\<rparr>)
   }"

definition restore_pixel :: "fb_info \<Rightarrow> rgb list \<Rightarrow> usize \<Rightarrow> usize \<Rightarrow> usize \<Rightarrow> usize \<Rightarrow> fb_buffer \<Rightarrow> fb_buffer option" where
  "restore_pixel info bg cx cy sy sx buf =
     (if CURSOR_SPRITE ! sy ! sx \<noteq> 0 then do {
        c \<leftarrow> get_at bg (sy * CURSOR_W + sx);
        x \<leftarrow> uadd cx sx;
        y \<leftarrow> uadd cy sy;
        put_pixel info x y c buf
      } else Some buf)"

definition restore_background :: "fb_info \<Rightarrow> cursor \<Rightarrow> fb_buffer \<Rightarrow> fb_buffer option" where
  "restore_background info cur buf =
     (if \<not> visible cur then Some buf
      else (let cx = i32_as_usize (cur_x cur); cy = i32_as_usize (cur_y cur)
            in foldM (\<lambda>sy. foldM (restore_pixel info (saved_bg cur) cx cy sy) [0..<CURSOR_W]) [0..<CURSOR_H] buf))"

definition sprite_pixel :: "fb_info \<Rightarrow> usize \<Rightarrow> usize \<Rightarrow> usize \<Rightarrow> usize \<Rightarrow> fb_buffer \<Rightarrow> fb_buffer option" where
  "sprite_pixel info cx cy sy sx buf =
     (if CURSOR_SPRITE ! sy ! sx = 1 then do {
        x \<leftarrow> uadd cx sx; y \<leftarrow> uadd cy sy; put_pixel info x y (0x00, 0x00, 0x00) buf }
      else if CURSOR_SPRITE ! sy ! sx = 2 then do {
        x \<leftarrow> uadd cx sx; y \<leftarrow> uadd cy sy; put_pixel info x y (0xFF, 0xFF, 0xFF) buf }
      else Some buf)"

definition cursor_draw :: "fb_info \<Rightarrow> cursor \<Rightarrow> fb_buffer \<Rightarrow> fb_buffer option" where
  "cursor_draw info cur buf =
     (let cx = i32_as_usize (cur_x cur); cy = i32_as_usize (cur_y cur)
      in foldM (\<lambda>sy. foldM (sprite_pixel info cx cy sy) [0..<CURSOR_W]) [0..<CURSOR_H] buf)"

definition apply_delta :: "int \<Rightarrow> int \<Rightarrow> cursor \<Rightarrow> cursor option" where
  "apply_delta dx dy cur = do {
     x \<leftarrow> i32_chk (cur_x cur + dx);
     y \<leftarrow> i32_chk (cur_y cur - dy);
     x_max \<leftarrow> i32_chk (screen_width cur - 1);
     x \<leftarrow> i32_clamp x 0 x_max;
     y_max \<leftarrow> i32_chk (screen_height cur - 1);
     y \<leftarrow> i32_clamp y 0 y_max;
     Some (cur\<lparr>cur_x := x, cur_y := y\<rparr>)
   }"

section \<open>Where the cursor is\<close>

definition cursor_inv :: "fb_info \<Rightarrow> cursor \<Rightarrow> bool" where
  "cursor_inv info cur \<longleftrightarrow> 0 < width info \<and> width info < 2 ^ 30 \<and> 0 < height info \<and> height info < 2 ^ 30 \<and>
     screen_width cur = int (width info) \<and> screen_height cur = int (height info) \<and>
     0 \<le> cur_x cur \<and> cur_x cur < int (width info) \<and> 0 \<le> cur_y cur \<and> cur_y cur < int (height info) \<and>
     length (saved_bg cur) = CURSOR_W * CURSOR_H"

definition i16_range :: "int \<Rightarrow> bool" where
  "i16_range v \<longleftrightarrow> - (2 ^ 15) \<le> v \<and> v < 2 ^ 15"

lemma usize_as_i32_small: "n < 2 ^ 31 \<Longrightarrow> usize_as_i32 n = int n"
proof -
  assume n: "n < 2 ^ 31"
  then have "unat (of_nat n :: u32) = n" by (simp add: unsigned_of_nat take_bit_nat_eq_self)
  then have "uint (of_nat n :: u32) = int n" by (metis uint_nat)
  moreover have "- (2 ^ 31) \<le> int n" by (rule order_trans [of _ 0]) simp_all
  ultimately show ?thesis using n
    unfolding usize_as_i32_def sint_uint by (simp add: signed_take_bit_int_eq_self)
qed

lemma cursor_new_inv:
  "0 < width info \<Longrightarrow> width info < 2 ^ 30 \<Longrightarrow> 0 < height info \<Longrightarrow> height info < 2 ^ 30 \<Longrightarrow>
    cursor_inv info (cursor_new (width info) (height info)) \<and> \<not> visible (cursor_new (width info) (height info))"
  by (simp add: cursor_inv_def cursor_new_def usize_as_i32_small)

lemma apply_delta_spec:
  assumes "cursor_inv info cur" and "i16_range dx" and "i16_range dy"
  shows "apply_delta dx dy cur = Some (cur\<lparr>cur_x := max 0 (min (int (width info) - 1) (cur_x cur + dx)),
    cur_y := max 0 (min (int (height info) - 1) (cur_y cur - dy))\<rparr>)"
    and "cursor_inv info (cur\<lparr>cur_x := max 0 (min (int (width info) - 1) (cur_x cur + dx)),
    cur_y := max 0 (min (int (height info) - 1) (cur_y cur - dy))\<rparr>)"
proof -
  have r: "0 \<le> cur_x cur" "cur_x cur < int (width info)" "0 \<le> cur_y cur" "cur_y cur < int (height info)"
    "int (width info) < 2 ^ 30" "int (height info) < 2 ^ 30" "1 \<le> int (width info)" "1 \<le> int (height info)"
    "screen_width cur = int (width info)" "screen_height cur = int (height info)"
    using assms(1) by (auto simp: cursor_inv_def)
  have d: "- (2 ^ 15) \<le> dx" "dx < 2 ^ 15" "- (2 ^ 15) \<le> dy" "dy < 2 ^ 15" using assms(2,3) by (auto simp: i16_range_def)
  have chk: "i32_chk v = Some v" if "- (2 ^ 30) \<le> v" "v < 2 ^ 31" for v using that by (simp add: i32_chk_def)
  have "i32_chk (cur_x cur + dx) = Some (cur_x cur + dx)" "i32_chk (cur_y cur - dy) = Some (cur_y cur - dy)"
    using r d by (auto intro!: chk)
  moreover have "i32_chk (int (width info) - 1) = Some (int (width info) - 1)"
    "i32_chk (int (height info) - 1) = Some (int (height info) - 1)" using r by (auto intro!: chk)
  ultimately show "apply_delta dx dy cur = Some (cur\<lparr>cur_x := max 0 (min (int (width info) - 1) (cur_x cur + dx)),
    cur_y := max 0 (min (int (height info) - 1) (cur_y cur - dy))\<rparr>)"
    using r(7,8) by (simp add: apply_delta_def i32_clamp_def r(9,10))
  show "cursor_inv info (cur\<lparr>cur_x := max 0 (min (int (width info) - 1) (cur_x cur + dx)),
    cur_y := max 0 (min (int (height info) - 1) (cur_y cur - dy))\<rparr>)"
    using assms(1) r by (auto simp: cursor_inv_def)
qed

section \<open>Saving, drawing and restoring\<close>

definition cursor_pos :: "cursor \<Rightarrow> nat \<times> nat" where
  "cursor_pos cur = (nat (cur_x cur), nat (cur_y cur))"

text \<open>The colour of the sprite at column \<open>u\<close>, line \<open>v\<close>.\<close>

definition sprite_colour :: "nat \<Rightarrow> nat \<Rightarrow> rgb option" where
  "sprite_colour v u = (if CURSOR_SPRITE ! v ! u = 1 then Some (0, 0, 0)
     else if CURSOR_SPRITE ! v ! u = 2 then Some (0xFF, 0xFF, 0xFF) else None)"

definition cursor_pic :: "cursor \<Rightarrow> (nat \<times> nat, rgb) picture" where
  "cursor_pic cur = grid_pic (nat (cur_x cur)) (nat (cur_y cur)) sprite_colour 12 16"

definition saved_colour :: "rgb list \<Rightarrow> nat \<Rightarrow> nat \<Rightarrow> rgb option" where
  "saved_colour bg v u = (if CURSOR_SPRITE ! v ! u \<noteq> 0 then Some (bg ! (v * 12 + u)) else None)"

definition saved_pic :: "cursor \<Rightarrow> (nat \<times> nat, rgb) picture" where
  "saved_pic cur = grid_pic (nat (cur_x cur)) (nat (cur_y cur)) (saved_colour (saved_bg cur)) 12 16"

lemma cursor_index: "sy < 16 \<Longrightarrow> sx < 12 \<Longrightarrow> sy * 12 + sx < 192" for sx sy :: nat
  by simp

lemma cursor_in_range:
  assumes "cursor_inv info cur" and "sx < 12" and "sy < 16"
  shows "i32_as_usize (cur_x cur) = nat (cur_x cur)" and "i32_as_usize (cur_y cur) = nat (cur_y cur)"
    and "uadd (nat (cur_x cur)) sx = Some (nat (cur_x cur) + sx)" and "uadd (nat (cur_y cur)) sy = Some (nat (cur_y cur) + sy)"
proof -
  have r: "0 \<le> cur_x cur" "cur_x cur < 2 ^ 30" "0 \<le> cur_y cur" "cur_y cur < 2 ^ 30"
    using assms(1) by (auto simp: cursor_inv_def)
  then show "i32_as_usize (cur_x cur) = nat (cur_x cur)" "i32_as_usize (cur_y cur) = nat (cur_y cur)"
    by (simp_all add: i32_as_usize_def)
  have "nat (cur_x cur) < 2 ^ 30" "nat (cur_y cur) < 2 ^ 30" using r by (simp_all add: nat_less_iff)
  then show "uadd (nat (cur_x cur)) sx = Some (nat (cur_x cur) + sx)" "uadd (nat (cur_y cur)) sy = Some (nat (cur_y cur) + sy)"
    using assms(2,3) by (simp_all add: in_range)
qed

lemma sprite_shape: "v < 16 \<Longrightarrow> u < 12 \<Longrightarrow> CURSOR_SPRITE ! v ! u \<le> 2"
  by (simp add: CURSOR_SPRITE_def less_Suc_eq numeral_eq_Suc) (elim disjE; simp)

lemma cursor_draw_draws:
  assumes "cursor_inv info cur"
  shows "fb.draws info n (cursor_draw info cur) (cursor_pic cur)"
proof -
  note r = cursor_in_range [OF assms]
  have pos: "i32_as_usize (cur_x cur) = nat (cur_x cur)" "i32_as_usize (cur_y cur) = nat (cur_y cur)"
    using r(1,2) [of 0 0] by auto
  have "fb.draws info n (sprite_pixel info (nat (cur_x cur)) (nat (cur_y cur)) sy sx)
    (stroke (nat (cur_x cur)) (nat (cur_y cur)) sprite_colour sy sx)" if "sx < 12" "sy < 16" for sx sy
    using fb.draws_nothing [of info n] draws_put_pixel [of info n] r(3,4) [OF that]
    by (simp add: sprite_pixel_def [abs_def] stroke_def sprite_colour_def fb.draws_def)
  then show ?thesis
    unfolding cursor_pic_def cursor_draw_def [abs_def] Let_def pos CURSOR_W_def CURSOR_H_def
    by (intro grid_draws) auto
qed

lemma restore_draws:
  assumes "cursor_inv info cur" and "visible cur"
  shows "fb.draws info n (restore_background info cur) (saved_pic cur)"
proof -
  note r = cursor_in_range [OF assms(1)]
  have pos: "i32_as_usize (cur_x cur) = nat (cur_x cur)" "i32_as_usize (cur_y cur) = nat (cur_y cur)"
    using r(1,2) [of 0 0] by auto
  have len: "length (saved_bg cur) = 192" using assms(1) by (simp add: cursor_inv_def CURSOR_W_def CURSOR_H_def)
  have "fb.draws info n (restore_pixel info (saved_bg cur) (nat (cur_x cur)) (nat (cur_y cur)) sy sx)
    (stroke (nat (cur_x cur)) (nat (cur_y cur)) (saved_colour (saved_bg cur)) sy sx)" if "sx < 12" "sy < 16" for sx sy
    using fb.draws_nothing [of info n] draws_put_pixel [of info n] r(3,4) [OF that] cursor_index [OF that(2,1)] len
    by (simp add: restore_pixel_def [abs_def] stroke_def saved_colour_def fb.draws_def CURSOR_W_def in_range)
  then show ?thesis
    using assms(2) unfolding saved_pic_def restore_background_def [abs_def] Let_def pos CURSOR_W_def CURSOR_H_def
    by (simp, intro grid_draws) auto
qed

lemma save_background_spec:
  assumes "cursor_inv info cur" and "info_ok info"
  obtains bg where "save_background info buf cur = Some (cur\<lparr>saved_bg := bg\<rparr>)" and "length bg = 192"
    and "\<And>sx sy. sx < 12 \<Longrightarrow> sy < 16 \<Longrightarrow>
      read_pixel info buf (nat (cur_x cur) + sx) (nat (cur_y cur) + sy) = Some (bg ! (sy * 12 + sx))"
proof -
  note r = cursor_in_range [OF assms(1)]
  have pos: "i32_as_usize (cur_x cur) = nat (cur_x cur)" "i32_as_usize (cur_y cur) = nat (cur_y cur)"
    using r(1,2) [of 0 0] by auto
  let ?x = "nat (cur_x cur)" and ?y = "nat (cur_y cur)"
  define good where "good = (\<lambda>bg sy sx. read_pixel info buf (?x + sx) (?y + sy) = Some (bg ! (sy * 12 + sx)))"
  define I where "I = (\<lambda>sy bg. length bg = 192 \<and> (\<forall>v < sy. \<forall>u < 12. good bg v u))"
  define J where "J = (\<lambda>sy sx bg. I sy bg \<and> (\<forall>u < sx. good bg sy u))"
  have pixel: "\<exists>bg'. save_pixel info buf ?x ?y sy sx bg = Some bg' \<and> J sy (Suc sx) bg'"
    if sy: "sy < 16" and sx: "sx < 12" and J: "J sy sx bg" for sy sx bg
  proof -
    obtain c where c: "read_pixel info buf (?x + sx) (?y + sy) = Some c" by (simp add: read_pixel_spec [OF assms(2)])
    have len: "length bg = 192" using J by (simp add: J_def I_def)
    let ?bg = "bg[sy * 12 + sx := c]"
    have "save_pixel info buf ?x ?y sy sx bg = Some ?bg"
      using r(3,4) [OF sx sy] c len cursor_index [OF sy sx] by (simp add: save_pixel_def in_range CURSOR_W_def)
    moreover have "good ?bg v u" if uv: "v < sy \<and> u < 12 \<or> v = sy \<and> u \<le> sx" for v u
    proof (cases "v = sy \<and> u = sx")
      case True
      then show ?thesis using c len cursor_index [OF sy sx] by (simp add: good_def)
    next
      case False
      have "v * 12 + u \<noteq> sy * 12 + sx" using uv False sx by auto
      moreover have "good bg v u" using uv False J unfolding J_def I_def by (metis le_neq_implies_less)
      ultimately show ?thesis by (simp add: good_def)
    qed
    ultimately show ?thesis using len by (intro exI [of _ ?bg]) (auto simp: J_def I_def less_Suc_eq_le)
  qed
  have row: "\<exists>bg'. foldM (save_pixel info buf ?x ?y sy) [0..<12] bg = Some bg' \<and> I (Suc sy) bg'"
    if "sy < 16" "I sy bg" for sy bg
  proof -
    have "\<exists>bg'. foldM (save_pixel info buf ?x ?y sy) [0..<12] bg = Some bg' \<and> J sy 12 bg'"
      by (rule foldM_upt [where I = "J sy"]) (use that pixel in \<open>auto simp: J_def\<close>)
    then show ?thesis by (auto simp: J_def I_def less_Suc_eq)
  qed
  have "\<exists>bg. foldM (\<lambda>sy. foldM (save_pixel info buf ?x ?y sy) [0..<12]) [0..<16] (saved_bg cur) = Some bg \<and> I 16 bg"
    by (rule foldM_upt [where I = I]) (use row assms(1) in \<open>auto simp: I_def cursor_inv_def CURSOR_W_def CURSOR_H_def\<close>)
  then obtain bg where bg: "foldM (\<lambda>sy. foldM (save_pixel info buf ?x ?y sy) [0..<12]) [0..<16] (saved_bg cur) = Some bg"
    "I 16 bg" by blast
  show ?thesis
  proof (rule that [of bg])
    show "save_background info buf cur = Some (cur\<lparr>saved_bg := bg\<rparr>)"
      using bg(1) by (simp add: save_background_def pos CURSOR_W_def CURSOR_H_def Let_def)
  qed (use bg(2) in \<open>simp_all add: I_def good_def\<close>)
qed

section \<open>The cursor over a scene\<close>

text \<open>\<open>scene_shown\<close>: the buffer shows the scene; \<open>cursor_over\<close>: it shows the cursor over the scene, and the
  cursor's saved pixels are those of the scene.\<close>

definition scene_shown :: "fb_info \<Rightarrow> nat \<Rightarrow> (nat \<times> nat \<Rightarrow> rgb) \<Rightarrow> fb_buffer \<Rightarrow> bool" where
  "scene_shown info n scene buf \<longleftrightarrow> length buf = n \<and>
     (\<forall>x y. (x, y) \<in> canvas info n \<longrightarrow> read_pixel info buf x y = Some (scene (x, y)))"

definition cursor_over :: "fb_info \<Rightarrow> nat \<Rightarrow> (nat \<times> nat \<Rightarrow> rgb) \<Rightarrow> cursor \<Rightarrow> fb_buffer \<Rightarrow> bool" where
  "cursor_over info n scene cur buf \<longleftrightarrow> length buf = n \<and> visible cur \<and>
     (\<forall>x y. (x, y) \<in> canvas info n \<longrightarrow> read_pixel info buf x y =
        Some (case colour_at (cursor_pic cur) (x, y) of None \<Rightarrow> scene (x, y) | Some c \<Rightarrow> c)) \<and>
     (\<forall>x y c. (x, y) \<in> canvas info n \<longrightarrow> colour_at (saved_pic cur) (x, y) = Some c \<longrightarrow> c = scene (x, y))"

lemma pics_same_points:
  "colour_at (cursor_pic cur) p = None \<longleftrightarrow> colour_at (saved_pic cur) p = None"
proof -
  obtain x y where p: "p = (x, y)" by (cases p)
  have "sprite_colour v u = None \<longleftrightarrow> saved_colour bg v u = None" if "u < 12" "v < 16" for u v bg
    using sprite_shape [OF that(2,1)] by (auto simp: sprite_colour_def saved_colour_def)
  then show ?thesis by (auto simp: p cursor_pic_def saved_pic_def colour_at_grid)
qed

lemma shown_id: "keeps_colour info \<Longrightarrow> shown info c = c"
  by (auto simp: shown_def keeps_colour_def split: prod.split)

lemma restore_shows:
  assumes "info_ok info" and "keeps_colour info" and "cursor_inv info cur" and "cursor_over info n scene cur buf"
  shows "\<exists>t. restore_background info cur buf = Some t \<and> scene_shown info n scene t"
proof -
  have over: "length buf = n" "visible cur" using assms(4) by (auto simp: cursor_over_def)
  from read_drawn [OF restore_draws [OF assms(3) over(2)] assms(1) over(1) disjI1 [OF assms(2)]] obtain t where
    t: "restore_background info cur buf = Some t" "length t = n"
    "\<And>x y. (x, y) \<in> canvas info n \<Longrightarrow> read_pixel info t x y =
      (case colour_at (saved_pic cur) (x, y) of None \<Rightarrow> read_pixel info buf x y | Some c \<Rightarrow> Some (shown info c))"
    by auto
  have "read_pixel info t x y = Some (scene (x, y))" if "(x, y) \<in> canvas info n" for x y
  proof (cases "colour_at (saved_pic cur) (x, y)")
    case None
    then have "colour_at (cursor_pic cur) (x, y) = None" by (simp add: pics_same_points)
    then show ?thesis using t(3) [OF that] None assms(4) that by (simp add: cursor_over_def)
  next
    case (Some c)
    moreover have "c = scene (x, y)" using assms(4) that Some unfolding cursor_over_def by blast
    ultimately show ?thesis using t(3) [OF that] shown_id [OF assms(2)] by simp
  qed
  then show ?thesis using t(1,2) by (auto simp: scene_shown_def)
qed

lemma draw_shows:
  assumes "info_ok info" and "keeps_colour info" and "cursor_inv info cur" and "scene_shown info n scene buf"
  shows "\<exists>cur' t. save_background info buf cur = Some cur' \<and> cursor_draw info cur' buf = Some t \<and>
    cursor_inv info cur' \<and> cur_x cur' = cur_x cur \<and> cur_y cur' = cur_y cur \<and>
    cursor_over info n scene (cur'\<lparr>visible := True\<rparr>) t"
proof -
  have len: "length buf = n" using assms(4) by (simp add: scene_shown_def)
  obtain bg where bg: "save_background info buf cur = Some (cur\<lparr>saved_bg := bg\<rparr>)" "length bg = 192"
    "\<And>sx sy. sx < 12 \<Longrightarrow> sy < 16 \<Longrightarrow>
      read_pixel info buf (nat (cur_x cur) + sx) (nat (cur_y cur) + sy) = Some (bg ! (sy * 12 + sx))"
    using save_background_spec [OF assms(3,1)] by blast
  let ?cur = "cur\<lparr>saved_bg := bg\<rparr>"
  have inv: "cursor_inv info ?cur" using assms(3) bg(2) by (simp add: cursor_inv_def CURSOR_W_def CURSOR_H_def)
  have pic: "cursor_pic (?cur\<lparr>visible := True\<rparr>) = cursor_pic ?cur" by (simp add: cursor_pic_def)
  from read_drawn [OF cursor_draw_draws [OF inv] assms(1) len disjI1 [OF assms(2)]] obtain t where
    t: "cursor_draw info ?cur buf = Some t" "length t = n"
    "\<And>x y. (x, y) \<in> canvas info n \<Longrightarrow> read_pixel info t x y =
      (case colour_at (cursor_pic ?cur) (x, y) of None \<Rightarrow> read_pixel info buf x y | Some c \<Rightarrow> Some (shown info c))"
    by auto
  have "read_pixel info t x y = Some (case colour_at (cursor_pic ?cur) (x, y) of None \<Rightarrow> scene (x, y) | Some c \<Rightarrow> c)"
    if "(x, y) \<in> canvas info n" for x y
    using t(3) [OF that] assms(4) that shown_id [OF assms(2)] by (auto simp: scene_shown_def split: option.split)
  moreover have "c = scene (x, y)"
    if "(x, y) \<in> canvas info n" "colour_at (saved_pic (?cur\<lparr>visible := True\<rparr>)) (x, y) = Some c" for x y c
  proof -
    have "nat (cur_x cur) \<le> x" "x - nat (cur_x cur) < 12" "nat (cur_y cur) \<le> y" "y - nat (cur_y cur) < 16"
      "c = bg ! ((y - nat (cur_y cur)) * 12 + (x - nat (cur_x cur)))"
      using that(2) by (auto simp: saved_pic_def colour_at_grid saved_colour_def split: if_splits)
    then have "read_pixel info buf x y = Some c"
      using bg(3) [of "x - nat (cur_x cur)" "y - nat (cur_y cur)"] by simp
    then show ?thesis using assms(4) that(1) by (simp add: scene_shown_def)
  qed
  ultimately have "cursor_over info n scene (?cur\<lparr>visible := True\<rparr>) t"
    using t(2) by (simp add: cursor_over_def pic)
  then show ?thesis using bg(1) t(1) inv by (intro exI [of _ ?cur] exI [of _ t]) simp
qed

section \<open>Properties\<close>

text \<open>The pointer never leaves the screen. A new cursor is on the screen, and a movement by any
  mouse event never panics and puts it at the clamped sum, the vertical axis reversed.\<close>

lemma cursor_stays_on_screen:
  assumes "cursor_inv info cur" and "i16_range dx" and "i16_range dy"
  shows "\<exists>cur'. apply_delta dx dy cur = Some cur' \<and> cursor_inv info cur' \<and>
    cur_x cur' = max 0 (min (int (width info) - 1) (cur_x cur + dx)) \<and>
    cur_y cur' = max 0 (min (int (height info) - 1) (cur_y cur - dy)) \<and>
    0 \<le> cur_x cur' \<and> cur_x cur' < int (width info) \<and> 0 \<le> cur_y cur' \<and> cur_y cur' < int (height info)"
proof -
  note d = apply_delta_spec [OF assms]
  have "0 < int (width info)" "0 < int (height info)" using assms(1) by (auto simp: cursor_inv_def)
  then show ?thesis using d by (intro exI conjI) auto
qed

text \<open>C37: moving the pointer leaves no trace. On a buffer that shows a scene, saving the background,
  drawing the cursor and restoring the background never panics, shows in between the sprite over
  the scene, and gives back the scene.\<close>

theorem cursor_leaves_no_trace:
  assumes "info_ok info" and "keeps_colour info" and "cursor_inv info cur" and "scene_shown info (length buf) scene buf"
  shows "\<exists>cur' drawn restored. save_background info buf cur = Some cur' \<and> cursor_draw info cur' buf = Some drawn \<and>
    (\<forall>x y. (x, y) \<in> canvas info (length buf) \<longrightarrow> read_pixel info drawn x y =
      Some (case colour_at (cursor_pic cur) (x, y) of None \<Rightarrow> scene (x, y) | Some c \<Rightarrow> c)) \<and>
    restore_background info (cur'\<lparr>visible := True\<rparr>) drawn = Some restored \<and>
    scene_shown info (length buf) scene restored"
proof -
  from draw_shows [OF assms] obtain cur' t where
    d: "save_background info buf cur = Some cur'" "cursor_draw info cur' buf = Some t" "cursor_inv info cur'"
      "cur_x cur' = cur_x cur" "cur_y cur' = cur_y cur" "cursor_over info (length buf) scene (cur'\<lparr>visible := True\<rparr>) t"
    by blast
  have inv: "cursor_inv info (cur'\<lparr>visible := True\<rparr>)" using d(3) by (simp add: cursor_inv_def)
  have pic: "cursor_pic (cur'\<lparr>visible := True\<rparr>) = cursor_pic cur" using d(4,5) by (simp add: cursor_pic_def)
  from restore_shows [OF assms(1,2) inv d(6)] obtain r where
    "restore_background info (cur'\<lparr>visible := True\<rparr>) t = Some r" "scene_shown info (length buf) scene r" by blast
  then show ?thesis using d(1,2,6) by (intro exI [of _ cur'] exI [of _ t] exI [of _ r]) (simp add: cursor_over_def pic)
qed

theorem cursor_leaves_no_trace_witness:
  "\<exists>cur' drawn restored. save_background sample_info (replicate 8220 0) (cursor_new 1024 768) = Some cur' \<and>
    cursor_draw sample_info cur' (replicate 8220 0) = Some drawn \<and>
    restore_background sample_info (cur'\<lparr>visible := True\<rparr>) drawn = Some restored \<and>
    scene_shown sample_info 8220 (\<lambda>_. (0, 0, 0)) restored"
proof -
  have inv: "cursor_inv sample_info (cursor_new 1024 768)"
    using cursor_new_inv [of sample_info] by (simp add: sample_info_def)
  have "scene_shown sample_info (length (replicate 8220 (0 :: u8))) (\<lambda>_. (0, 0, 0)) (replicate 8220 0)"
  proof -
    have "decode sample_info (sub_slice (replicate 8220 0) k 4) = (0, 0, 0)" if "k + 4 \<le> 8220" for k
      using that by (simp add: decode_def sample_info_def)
    then show ?thesis
      by (auto simp: scene_shown_def read_pixel_spec [OF sample_info_ok(1)] view_def canvas_def stored_def)
        (simp add: sample_info_def)
  qed
  from cursor_leaves_no_trace [OF sample_info_ok inv this] show ?thesis by auto
qed

end
