(* ===== verification/Utf8.thy ===== *)
theory Utf8
  imports Glyphs
begin

text \<open>
  The UTF-8 functions of the Rust core library that the kernel calls: \<^verbatim>\<open>str::as_bytes\<close> and
  \<^verbatim>\<open>core::str::from_utf8\<close>, on code points and bytes, with the well-formed byte ranges of the
  Unicode standard (no overlong forms, no surrogates).
\<close>

definition utf8_char :: "unichar \<Rightarrow> u8 list" where
  "utf8_char c =
     (if c < 0x80 then [of_nat c]
      else if c < 0x800 then [of_nat (0xC0 + c div 64), of_nat (0x80 + c mod 64)]
      else if c < 0x10000 then
        [of_nat (0xE0 + c div 4096), of_nat (0x80 + c div 64 mod 64), of_nat (0x80 + c mod 64)]
      else [of_nat (0xF0 + c div 262144), of_nat (0x80 + c div 4096 mod 64), of_nat (0x80 + c div 64 mod 64),
        of_nat (0x80 + c mod 64)])"

definition as_bytes :: "unichar list \<Rightarrow> u8 list" where
  "as_bytes s = concat (map utf8_char s)"

definition in_bytes :: "nat \<Rightarrow> nat \<Rightarrow> u8 \<Rightarrow> bool" where
  "in_bytes lo hi b \<longleftrightarrow> lo \<le> unat b \<and> unat b \<le> hi"

text \<open>The first character of a byte string, and how many bytes follow its first byte.\<close>

definition utf8_next :: "u8 \<Rightarrow> u8 list \<Rightarrow> (unichar \<times> nat) option" where
  "utf8_next b bs =
     (let n = unat b; tail = (\<lambda>k. unat (bs ! k) - 0x80); is_tail = (\<lambda>k. in_bytes 0x80 0xBF (bs ! k))
      in if n < 0x80 then Some (n, 0)
         else if 0xC2 \<le> n \<and> n \<le> 0xDF \<and> 1 \<le> length bs \<and> is_tail 0
           then Some ((n - 0xC0) * 64 + tail 0, 1)
         else if 0xE0 \<le> n \<and> n \<le> 0xEF \<and> 2 \<le> length bs \<and> is_tail 1 \<and>
             in_bytes (if n = 0xE0 then 0xA0 else 0x80) (if n = 0xED then 0x9F else 0xBF) (bs ! 0)
           then Some ((n - 0xE0) * 4096 + tail 0 * 64 + tail 1, 2)
         else if 0xF0 \<le> n \<and> n \<le> 0xF4 \<and> 3 \<le> length bs \<and> is_tail 1 \<and> is_tail 2 \<and>
             in_bytes (if n = 0xF0 then 0x90 else 0x80) (if n = 0xF4 then 0x8F else 0xBF) (bs ! 0)
           then Some ((n - 0xF0) * 262144 + tail 0 * 4096 + tail 1 * 64 + tail 2, 3)
         else None)"

fun from_utf8 :: "u8 list \<Rightarrow> unichar list option" where
  "from_utf8 [] = Some []"
| "from_utf8 (b # bs) = (case utf8_next b bs of
      None \<Rightarrow> None
    | Some (c, k) \<Rightarrow> (case from_utf8 (drop k bs) of None \<Rightarrow> None | Some cs \<Rightarrow> Some (c # cs)))"

text \<open>\<^verbatim>\<open>core::str::from_utf8(&buf[..len]).unwrap_or(dflt)\<close>\<close>

definition str_of :: "unichar list \<Rightarrow> u8 list \<Rightarrow> usize \<Rightarrow> unichar list option" where
  "str_of dflt buf n =
     (if n \<le> length buf then Some (case from_utf8 (take n buf) of Some s \<Rightarrow> s | None \<Rightarrow> dflt) else None)"

section \<open>ASCII text\<close>

definition ascii :: "unichar list \<Rightarrow> bool" where
  "ascii s \<longleftrightarrow> (\<forall>c \<in> set s. c < 0x80)"

lemma as_bytes_ascii: "ascii s \<Longrightarrow> as_bytes s = map of_nat s"
  by (induction s) (auto simp: ascii_def as_bytes_def utf8_char_def)

lemma from_utf8_ascii_bytes: "\<forall>b \<in> set bs. unat b < 0x80 \<Longrightarrow> from_utf8 bs = Some (map unat bs)"
  by (induction bs) (auto simp: utf8_next_def Let_def)

lemma str_of_ascii:
  assumes "n \<le> length buf" and "\<forall>b \<in> set (take n buf). unat b < 0x80"
  shows "str_of def buf n = Some (map unat (take n buf))"
  using assms from_utf8_ascii_bytes [OF assms(2)] by (simp add: str_of_def)

lemma from_utf8_ascii: "ascii s \<Longrightarrow> from_utf8 (as_bytes s) = Some s"
proof -
  assume s: "ascii s"
  have u: "unat (of_nat c :: u8) = c" if "c \<in> set s" for c
  proof -
    have "c < 2 ^ 8" using s that by (auto simp: ascii_def)
    then show ?thesis by (simp add: unsigned_of_nat take_bit_nat_eq_self)
  qed
  then have "map (unat \<circ> (of_nat :: nat \<Rightarrow> u8)) s = s" by (simp add: map_idI)
  moreover have "\<forall>b \<in> set (map of_nat s :: u8 list). unat b < 0x80" using s u by (auto simp: ascii_def)
  ultimately show ?thesis using from_utf8_ascii_bytes [of "map of_nat s"] by (simp add: as_bytes_ascii s)
qed

lemma length_as_bytes_ascii: "ascii s \<Longrightarrow> length (as_bytes s) = length s"
  by (simp add: as_bytes_ascii)

lemma from_utf8_length: "from_utf8 bs = Some s \<Longrightarrow> length s \<le> length bs"
proof (induction bs arbitrary: s rule: from_utf8.induct)
  case (2 b bs)
  then obtain c k cs where "utf8_next b bs = Some (c, k)" "from_utf8 (drop k bs) = Some cs" "s = c # cs"
    by (auto split: option.splits)
  with 2(1) show ?case by fastforce
qed simp

end
