(* ===== verification/Window.thy ===== *)
theory Window
  imports Console Cursor Utf8
begin

text \<open>
  The windows of \<^verbatim>\<open>kernel/src/wm.rs\<close>: the record \<open>WmWindow\<close>, the frame around its content, and the
  routines that draw the windows and the task bar into the back buffer. A title is stored as
  at most 32 bytes of UTF-8.
\<close>

section \<open>Windows\<close>

definition MAX_TITLE :: usize where "MAX_TITLE = 32"

definition DEFAULT_TITLE_BAR_HEIGHT :: usize where "DEFAULT_TITLE_BAR_HEIGHT = 24"

definition WINDOW_PADDING :: usize where "WINDOW_PADDING = 6"

definition TASKBAR_HEIGHT :: usize where "TASKBAR_HEIGHT = 28"

record wm_window =
  win_id :: usize
  win_x :: usize
  win_y :: usize
  win_width :: usize
  win_height :: usize
  title :: "u8 list"
  title_len :: usize
  win_buf :: fb_buffer
  buf_info :: fb_info
  win_console :: "console option"
  dirty :: bool
  owner_task :: usize

definition decode_title :: "u8 list \<Rightarrow> usize \<Rightarrow> unichar list option" where
  "decode_title bytes n =
     (if n \<le> length bytes then Some (case from_utf8 (take n bytes) of Some s \<Rightarrow> s | None \<Rightarrow> lit ''?'') else None)"

definition title_str :: "wm_window \<Rightarrow> unichar list option" where
  "title_str win = decode_title (title win) (title_len win)"

definition content_rect :: "wm_window \<Rightarrow> rect option" where
  "content_rect win = do {
     let title_h = min DEFAULT_TITLE_BAR_HEIGHT (win_height win);
     y \<leftarrow> uadd title_h WINDOW_PADDING;
     pad \<leftarrow> umul WINDOW_PADDING 2;
     chrome \<leftarrow> uadd title_h pad;
     Some \<lparr>rx = WINDOW_PADDING, ry = y, rwidth = saturating_sub (win_width win) pad,
       rheight = saturating_sub (win_height win) chrome\<rparr>
   }"

definition draw_chrome :: "font \<Rightarrow> bool \<Rightarrow> wm_window \<Rightarrow> wm_window option" where
  "draw_chrome font focused win = do {
     let info = buf_info win;
     let title_h = min DEFAULT_TITLE_BAR_HEIGHT (win_height win);
     let tb_color = (if focused then (0x20, 0x3A, 0x58) else (0x18, 0x2A, 0x40));
     buf \<leftarrow> fill_rect info 0 0 (win_width win) title_h tb_color (win_buf win);
     buf \<leftarrow> draw_rect_outline info \<lparr>rx = 0, ry = 0, rwidth = win_width win, rheight = win_height win\<rparr>
       (0x55, 0x5A, 0x66) buf;
     buf \<leftarrow> (if FONT_HEIGHT \<le> title_h then do {
         d \<leftarrow> usub title_h FONT_HEIGHT;
         text_y \<leftarrow> udiv d 2;
         str \<leftarrow> decode_title (title win) (title_len win);
         draw_text font info WINDOW_PADDING text_y str (0xF0, 0xF2, 0xF6) buf
       } else Some buf);
     Some (win\<lparr>win_buf := buf\<rparr>)
   }"

definition init_chrome :: "font \<Rightarrow> wm_window \<Rightarrow> wm_window option" where
  "init_chrome font win = do {
     buf \<leftarrow> fill_rect (buf_info win) 0 0 (win_width win) (win_height win) black (win_buf win);
     draw_chrome font False (win\<lparr>win_buf := buf\<rparr>)
   }"

section \<open>Drawing on the screen\<close>

definition blit_row :: "fb_info \<Rightarrow> wm_window \<Rightarrow> usize \<Rightarrow> usize \<Rightarrow> fb_buffer \<Rightarrow> fb_buffer option" where
  "blit_row info win copy_w rw fb = do {
     let bpp = bytes_per_pixel info;
     r \<leftarrow> uadd 0 rw;
     s \<leftarrow> umul r (stride (buf_info win));
     s \<leftarrow> uadd s 0;
     src_offset \<leftarrow> umul s bpp;
     r \<leftarrow> uadd (win_y win) rw;
     d \<leftarrow> umul r (stride info);
     d \<leftarrow> uadd d (win_x win);
     dst_offset \<leftarrow> umul d bpp;
     bytes \<leftarrow> umul copy_w bpp;
     src_end \<leftarrow> uadd src_offset bytes;
     if src_end \<le> length (win_buf win) then do {
       dst_end \<leftarrow> uadd dst_offset bytes;
       if dst_end \<le> length fb then copy_into fb dst_offset (sub_slice (win_buf win) src_offset bytes) else Some fb
     } else Some fb
   }"

definition blit_window :: "fb_info \<Rightarrow> wm_window \<Rightarrow> fb_buffer \<Rightarrow> fb_buffer option" where
  "blit_window info win fb =
     (let copy_w = min (win_width win) (saturating_sub (width info) (win_x win));
          copy_h = min (win_height win) (saturating_sub (height info) (win_y win))
      in foldM (blit_row info win copy_w) [0..<copy_h] fb)"

definition taskbar_label :: "font \<Rightarrow> fb_info \<Rightarrow> usize \<Rightarrow> usize \<Rightarrow> usize option \<Rightarrow> wm_window \<Rightarrow>
    usize \<times> fb_buffer \<Rightarrow> (usize \<times> fb_buffer) option" where
  "taskbar_label font info tb_y tb_height focused win = (\<lambda>(lx, buf). do {
     let is_focused = (focused = Some (win_id win));
     let text_rgb = (if is_focused then (0xFF, 0xFF, 0xFF) else (0x88, 0x8C, 0x96));
     buf \<leftarrow> (if is_focused then do {
         w \<leftarrow> umul (title_len win) FONT_WIDTH;
         label_w \<leftarrow> uadd w 12;
         x \<leftarrow> usub lx 4;
         y \<leftarrow> uadd tb_y 2;
         h \<leftarrow> usub tb_height 4;
         fill_rect info x y label_w h (0x28, 0x32, 0x44) buf
       } else Some buf);
     y \<leftarrow> uadd tb_y 6;
     str \<leftarrow> title_str win;
     buf \<leftarrow> draw_text font info lx y str text_rgb buf;
     w \<leftarrow> umul (title_len win) FONT_WIDTH;
     step \<leftarrow> uadd w 16;
     lx \<leftarrow> uadd lx step;
     Some (lx, buf)
   })"

definition draw_taskbar :: "font \<Rightarrow> fb_info \<Rightarrow> usize \<Rightarrow> wm_window list \<Rightarrow> usize option \<Rightarrow> fb_buffer \<Rightarrow> fb_buffer option" where
  "draw_taskbar font info tb_height wins focused buf = do {
     let tb_y = saturating_sub (height info) tb_height;
     buf \<leftarrow> fill_rect info 0 tb_y (width info) tb_height (0x1A, 0x1E, 0x28) buf;
     buf \<leftarrow> fill_rect info 0 tb_y (width info) 1 (0x33, 0x38, 0x44) buf;
     y \<leftarrow> uadd tb_y 6;
     buf \<leftarrow> draw_text font info 8 y (lit ''r-os'') (0xE0, 0xE4, 0xEC) buf;
     let sep_x = 8 + 4 * FONT_WIDTH + 6;
     y \<leftarrow> uadd tb_y 4;
     h \<leftarrow> usub tb_height 8;
     buf \<leftarrow> fill_rect info sep_x y 1 h (0x44, 0x48, 0x55) buf;
     (lx, buf) \<leftarrow> foldM (taskbar_label font info tb_y tb_height focused) wins (sep_x + 8, buf);
     Some buf
   }"

section \<open>Well-formed screens and windows\<close>

definition screen_ok :: "fb_info \<Rightarrow> bool" where
  "screen_ok info \<longleftrightarrow> info_ok info \<and> 0 < width info \<and> stride info = width info \<and> width info \<le> 2 ^ 15 \<and>
     28 \<le> height info \<and> height info \<le> 2 ^ 15 \<and> bytes_per_pixel info \<le> 16"

text \<open>The layout of a window's buffer.\<close>

definition win_info :: "fb_info \<Rightarrow> nat \<Rightarrow> nat \<Rightarrow> fb_info" where
  "win_info info w h = info\<lparr>width := w, height := h, stride := w\<rparr>"

definition win_size :: "wm_window \<Rightarrow> nat" where
  "win_size win = win_width win * win_height win * bytes_per_pixel (buf_info win)"

definition win_content :: "wm_window \<Rightarrow> rect" where
  "win_content win = \<lparr>rx = 6, ry = 30, rwidth = win_width win - 12, rheight = win_height win - 36\<rparr>"

definition win_ok :: "fb_info \<Rightarrow> wm_window \<Rightarrow> bool" where
  "win_ok info win \<longleftrightarrow> win_x win \<le> 2 ^ 15 \<and> win_y win \<le> 2 ^ 15 \<and> 12 \<le> win_width win \<and> win_width win \<le> 2 ^ 15 \<and>
     52 \<le> win_height win \<and> win_height win \<le> 2 ^ 15 \<and> buf_info win = win_info info (win_width win) (win_height win) \<and>
     length (win_buf win) = win_size win \<and> length (title win) = 32 \<and> title_len win \<le> 32 \<and>
     (\<forall>con. win_console win = Some con \<longrightarrow> con_inv (buf_info win) (win_size win) con \<and> content con = win_content win)"

lemma win_info_ok:
  assumes "screen_ok info" and "w \<le> 2 ^ 15" and "h \<le> 2 ^ 15"
  shows "info_ok (win_info info w h)" and "w * h * bytes_per_pixel info < 2 ^ 64"
proof -
  have "w * h * bytes_per_pixel info \<le> 2 ^ 15 * 2 ^ 15 * 16"
    using assms by (intro mult_le_mono) (auto simp: screen_ok_def)
  then show "w * h * bytes_per_pixel info < 2 ^ 64" by simp
  then show "info_ok (win_info info w h)"
    using assms by (auto simp: screen_ok_def info_ok_def win_info_def)
qed

lemma win_info_simps [simp]:
  "width (win_info info w h) = w" "height (win_info info w h) = h" "stride (win_info info w h) = w"
  "bytes_per_pixel (win_info info w h) = bytes_per_pixel info" "pixel_format (win_info info w h) = pixel_format info"
  by (simp_all add: win_info_def)

lemma win_info_format [simp]:
  "keeps_colour (win_info info w h) = keeps_colour info" "decode (win_info info w h) = decode info"
  "encode (win_info info w h) = encode info" "shown (win_info info w h) = shown info"
  by (cases "pixel_format info"; simp add: keeps_colour_def decode_def encode_def pixel_bytes_def shown_def fun_eq_iff)+

lemma win_ok_facts:
  assumes "screen_ok info" and "win_ok info win"
  shows "info_ok (buf_info win)" and "content_ok (buf_info win) (win_size win) (win_content win)"
    and "stride (buf_info win) * height (buf_info win) * bytes_per_pixel (buf_info win) = win_size win"
proof -
  have w: "win_width win \<le> 2 ^ 15" "win_height win \<le> 2 ^ 15" "12 \<le> win_width win" "52 \<le> win_height win"
    "buf_info win = win_info info (win_width win) (win_height win)"
    using assms(2) by (auto simp: win_ok_def)
  show info: "info_ok (buf_info win)" unfolding w(5) by (rule win_info_ok [OF assms(1) w(1,2)])
  show sz: "stride (buf_info win) * height (buf_info win) * bytes_per_pixel (buf_info win) = win_size win"
    by (simp add: win_size_def w(5))
  show "content_ok (buf_info win) (win_size win) (win_content win)"
    using info sz w(3,4) by (simp add: content_ok_def win_content_def) (simp add: w(5))
qed

lemma content_rect_eq: "win_ok info win \<Longrightarrow> content_rect win = Some (win_content win)"
  by (simp add: win_ok_def content_rect_def win_content_def DEFAULT_TITLE_BAR_HEIGHT_def WINDOW_PADDING_def in_range
      saturating_sub_def Let_def)

lemma decode_title_total:
  assumes "n \<le> length bytes" and "0 < n \<or> True"
  obtains str where "decode_title bytes n = Some str" and "length str \<le> max n 1"
proof (cases "from_utf8 (take n bytes)")
  case None
  then show ?thesis using assms that [of "lit ''?''"] by (simp add: decode_title_def lit_def)
next
  case (Some str)
  then show ?thesis using assms that [of str] from_utf8_length [OF Some] by (simp add: decode_title_def)
qed

section \<open>The chrome\<close>

text \<open>Drawing the chrome keeps everything of the window but its buffer, and the pixels of its content.\<close>

lemma draw_chrome_spec:
  assumes "screen_ok info" and "win_ok info win" and "font_ok font"
  obtains buf where "draw_chrome font focused win = Some (win\<lparr>win_buf := buf\<rparr>)" and "win_ok info (win\<lparr>win_buf := buf\<rparr>)"
    and "\<And>u v. 6 \<le> u \<Longrightarrow> u + 6 < win_width win \<Longrightarrow> 30 \<le> v \<Longrightarrow> v + 6 < win_height win \<Longrightarrow>
      view (buf_info win) buf (u, v) = view (buf_info win) (win_buf win) (u, v)"
proof -
  let ?i = "buf_info win" and ?w = "win_width win" and ?h = "win_height win" and ?n = "win_size win"
  let ?r = "\<lparr>rx = 0, ry = 0, rwidth = ?w, rheight = ?h\<rparr>"
  have ok: "52 \<le> ?h" "12 \<le> ?w" "length (win_buf win) = ?n" "title_len win \<le> length (title win)" "title_len win \<le> 32"
    "width ?i = ?w" "height ?i = ?h"
    using assms(2) by (auto simp: win_ok_def)
  note info = win_ok_facts(1) [OF assms(1,2)]
  define tb where "tb = (if focused then (0x20, 0x3A, 0x58) else (0x18, 0x2A, 0x40) :: rgb)"
  obtain b1 where b1: "fill_rect ?i 0 0 ?w 24 tb (win_buf win) = Some b1" "length b1 = ?n"
    "\<And>p. p \<notin> box 0 0 ?w 24 \<Longrightarrow> view ?i b1 p = view ?i (win_buf win) p"
    using draws_step [OF fill_rect_draws info ok(3)] by blast
  obtain b2 where b2: "draw_rect_outline ?i ?r (0x55, 0x5A, 0x66) b1 = Some b2" "length b2 = ?n"
    "\<And>p. p \<notin> outline_points ?i ?r \<Longrightarrow> view ?i b2 p = view ?i b1 p"
  proof (rule draws_step [OF draw_rect_outline_draws info b1(2), of ?r "(0x55, 0x5A, 0x66)"])
    have "rwidth ?r \<noteq> 0" "rheight ?r \<noteq> 0" using ok(1,2) by auto
    then show "\<And>t. draw_rect_outline ?i ?r (0x55, 0x5A, 0x66) b1 = Some t \<Longrightarrow> length t = ?n \<Longrightarrow>
      (\<And>p. p \<notin> (if rwidth ?r = 0 \<or> rheight ?r = 0 then {} else outline_points ?i ?r) \<Longrightarrow> view ?i t p = view ?i b1 p) \<Longrightarrow> thesis"
      using that by simp
  qed
  obtain str where str: "decode_title (title win) (title_len win) = Some str" "length str \<le> max (title_len win) 1"
    using decode_title_total [OF ok(4)] by blast
  have "fb.draws ?i ?n (draw_text font ?i 6 4 str (0xF0, 0xF2, 0xF6)) [(text_points font 6 4 str, (0xF0, 0xF2, 0xF6))]"
    using str(2) ok(5) assms(3) by (intro draw_text_draws) auto
  then obtain b3 where b3: "draw_text font ?i 6 4 str (0xF0, 0xF2, 0xF6) b2 = Some b3" "length b3 = ?n"
    "\<And>p. p \<notin> text_points font 6 4 str \<Longrightarrow> view ?i b3 p = view ?i b2 p"
    using draws_step [OF _ info b2(2)] by blast
  have "draw_chrome font focused win = Some (win\<lparr>win_buf := b3\<rparr>)"
    using b1(1) b2(1) b3(1) str(1) ok(1)
    by (simp add: draw_chrome_def DEFAULT_TITLE_BAR_HEIGHT_def FONT_sizes WINDOW_PADDING_def in_range tb_def [symmetric] Let_def)
  moreover have "win_ok info (win\<lparr>win_buf := b3\<rparr>)"
    using assms(2) b3(2) by (auto simp: win_ok_def win_size_def win_content_def)
  moreover have "view ?i b3 (u, v) = view ?i (win_buf win) (u, v)"
    if "6 \<le> u" "u + 6 < ?w" "30 \<le> v" "v + 6 < ?h" for u v
  proof -
    have "(u, v) \<notin> text_points font 6 4 str" using that(3) by (auto simp: text_points_def char_points_def ink_def)
    moreover have "(u, v) \<notin> outline_points ?i ?r" using that ok(6,7) by (auto simp: outline_points_def Let_def)
    moreover have "(u, v) \<notin> box 0 0 ?w 24" using that(3) by simp
    ultimately show ?thesis using b1(3) b2(3) b3(3) by metis
  qed
  ultimately show ?thesis by (rule that)
qed

section \<open>Copying a window to the screen\<close>

definition covers :: "wm_window \<Rightarrow> nat \<times> nat \<Rightarrow> bool" where
  "covers win p \<longleftrightarrow> win_x win \<le> fst p \<and> fst p < win_x win + win_width win \<and>
     win_y win \<le> snd p \<and> snd p < win_y win + win_height win"

lemma blit_row_nothing:
  assumes "screen_ok info" and "win_ok info win" and "rw < win_height win" and "win_y win + rw < height info"
  shows "blit_row info win 0 rw fb = Some fb"
proof -
  let ?bpp = "bytes_per_pixel info"
  have info: "info_ok info" "stride info \<le> 2 ^ 15" "height info \<le> 2 ^ 15" "?bpp \<le> 16" using assms(1) by (auto simp: screen_ok_def)
  have w: "win_x win \<le> 2 ^ 15" "win_width win \<le> 2 ^ 15" "win_height win \<le> 2 ^ 15"
    "buf_info win = win_info info (win_width win) (win_height win)"
    using assms(2) by (auto simp: win_ok_def)
  have rw: "rw \<le> 2 ^ 15" "win_y win + rw \<le> 2 ^ 15" using assms(3,4) w(3) info(3) by auto
  have s1: "rw * win_width win \<le> 2 ^ 15 * 2 ^ 15" using rw(1) w(2) by (intro mult_le_mono) auto
  then have s2: "rw * win_width win * ?bpp \<le> 2 ^ 15 * 2 ^ 15 * 16" by (rule mult_le_mono [OF _ info(4)])
  have "(win_y win + rw) * stride info \<le> 2 ^ 15 * 2 ^ 15" using rw(2) info(2) by (intro mult_le_mono) auto
  then have d1: "(win_y win + rw) * stride info + win_x win \<le> 2 ^ 31" "(win_y win + rw) * stride info \<le> 2 ^ 30"
    using w(1) by auto
  then have d2: "((win_y win + rw) * stride info + win_x win) * ?bpp \<le> 2 ^ 31 * 16" by (intro mult_le_mono [OF _ info(4)]) auto
  show ?thesis
    using rw s1 s2 d1 d2 by (simp add: blit_row_def w(4) in_range Let_def copy_into_def write_slice_def sub_slice_def)
qed

lemma blit_row_view:
  assumes "screen_ok info" and "win_ok info win" and "length fb = stride info * height info * bytes_per_pixel info"
    and "rw < win_height win" and "win_y win + rw < height info"
  defines "copy_w \<equiv> min (win_width win) (width info - win_x win)"
  obtains t where "blit_row info win copy_w rw fb = Some t" and "length t = length fb"
    and "\<And>a b. a < width info \<Longrightarrow> view info t (a, b) =
      (if b = win_y win + rw \<and> covers win (a, b) then view (buf_info win) (win_buf win) (a - win_x win, rw) else view info fb (a, b))"
proof (cases "win_x win \<le> width info")
  case True
  let ?bpp = "bytes_per_pixel info" and ?wi = "buf_info win"
  have w: "?wi = win_info info (win_width win) (win_height win)" "length (win_buf win) = win_size win"
    using assms(2) by (auto simp: win_ok_def)
  have info: "info_ok info" "stride info = width info" using assms(1) by (auto simp: screen_ok_def)
  have bpp: "bytes_per_pixel ?wi = ?bpp" "stride ?wi = win_width win" by (simp_all add: w(1))
  have small: "win_width win * win_height win * ?bpp < 2 ^ 64" "stride info * height info * ?bpp < 2 ^ 64"
    using win_info_ok(2) [OF assms(1)] assms(2) info(1) by (auto simp: win_ok_def info_ok_def)
  have cw: "win_x win + copy_w \<le> stride info" "copy_w \<le> win_width win" using True info(2) by (auto simp: copy_w_def)
  have "Suc rw * win_width win \<le> win_height win * win_width win" using assms(4) by (intro mult_le_mono1) simp
  then have "(rw * win_width win + copy_w) * ?bpp \<le> win_width win * win_height win * ?bpp"
    using cw(2) by (intro mult_le_mono1) (simp add: mult.commute)
  then have src: "rw * win_width win * ?bpp + copy_w * ?bpp \<le> win_width win * win_height win * ?bpp"
    by (simp add: add_mult_distrib)
  have "Suc (win_y win + rw) * stride info \<le> height info * stride info" using assms(5) by (intro mult_le_mono1) simp
  then have "((win_y win + rw) * stride info + win_x win + copy_w) * ?bpp \<le> stride info * height info * ?bpp"
    using cw(1) by (intro mult_le_mono1) (simp add: mult.commute)
  then have dst: "((win_y win + rw) * stride info + win_x win) * ?bpp + copy_w * ?bpp \<le> stride info * height info * ?bpp"
    by (simp add: add_mult_distrib)
  have pos: "1 \<le> ?bpp" using info by (simp add: info_ok_def)
  then have le: "k \<le> k * ?bpp" for k :: nat by simp
  have lt: "k < 2 ^ 64" if "k * ?bpp < 2 ^ 64" for k :: nat using le [of k] that by linarith
  have ranges: "rw * win_width win * ?bpp < 2 ^ 64" "copy_w * ?bpp < 2 ^ 64"
    "((win_y win + rw) * stride info + win_x win) * ?bpp < 2 ^ 64"
    "rw * win_width win * ?bpp + copy_w * ?bpp < 2 ^ 64"
    "((win_y win + rw) * stride info + win_x win) * ?bpp + copy_w * ?bpp < 2 ^ 64"
    using src dst small by linarith+
  have ranges': "rw * win_width win < 2 ^ 64" "(win_y win + rw) * stride info + win_x win < 2 ^ 64"
    using lt ranges(1,3) by auto
  have "win_y win + rw < 2 ^ 64" "rw < 2 ^ 64" using assms(4,5) info(1) assms(2) by (auto simp: info_ok_def win_ok_def)
  define t where "t = write_slice fb (((win_y win + rw) * stride info + win_x win) * ?bpp)
    (sub_slice (win_buf win) ((rw * stride ?wi + 0) * ?bpp) (copy_w * ?bpp))"
  have lens: "rw * win_width win * ?bpp + copy_w * ?bpp \<le> length (win_buf win)"
    "((win_y win + rw) * stride info + win_x win) * ?bpp + copy_w * ?bpp \<le> length fb"
    using src dst w(2) bpp assms(3) by (simp_all add: win_size_def)
  show ?thesis
  proof (rule that [of t])
    show "blit_row info win copy_w rw fb = Some t"
      using ranges ranges' \<open>win_y win + rw < 2 ^ 64\<close> \<open>rw < 2 ^ 64\<close> lens
      unfolding blit_row_def Let_def bpp t_def
      by (simp only: uadd_in_range umul_in_range bind.bind_lunit add_0 add_0_right if_True copy_into_def length_sub_slice)
    show "length t = length fb" unfolding t_def using lens by (subst length_write_slice) (simp_all add: bpp)
    show "view info t (a, b) = (if b = win_y win + rw \<and> covers win (a, b) then view ?wi (win_buf win) (a - win_x win, rw)
      else view info fb (a, b))" if "a < width info" for a b
      using view_copy_row [OF bpp(1) cw(1) lens(2), of 0 rw "win_buf win" a b] cw(2) lens(1) that assms(4)
      by (auto simp: t_def bpp covers_def copy_w_def)
  qed
next
  case False
  then have "copy_w = 0" by (simp add: copy_w_def)
  then have "blit_row info win copy_w rw fb = Some fb" using blit_row_nothing [OF assms(1,2,4,5)] by simp
  moreover have "\<not> covers win (a, b)" if "a < width info" for a b using False that by (simp add: covers_def)
  ultimately show ?thesis by (intro that [of fb]) auto
qed

lemma blit_window_view:
  assumes "screen_ok info" and "win_ok info win" and "length fb = stride info * height info * bytes_per_pixel info"
  obtains t where "blit_window info win fb = Some t" and "length t = length fb"
    and "\<And>a b. a < width info \<Longrightarrow> b < height info \<Longrightarrow> view info t (a, b) =
      (if covers win (a, b) then view (buf_info win) (win_buf win) (a - win_x win, b - win_y win) else view info fb (a, b))"
proof -
  define cw where "cw = min (win_width win) (width info - win_x win)"
  define ch where "ch = min (win_height win) (height info - win_y win)"
  define I where "I = (\<lambda>k t. length t = length fb \<and> (\<forall>a < width info. \<forall>b < height info. view info t (a, b) =
    (if covers win (a, b) \<and> b < win_y win + k then view (buf_info win) (win_buf win) (a - win_x win, b - win_y win)
     else view info fb (a, b))))"
  have "\<exists>t. foldM (blit_row info win cw) [0..<ch] fb = Some t \<and> I ch t"
  proof (rule foldM_upt [where I = I])
    show "I 0 fb" by (auto simp: I_def covers_def)
  next
    fix k s assume k: "k < ch" and I: "I k s"
    have "length s = stride info * height info * bytes_per_pixel info" "k < win_height win" "win_y win + k < height info"
      using k I assms(3) by (auto simp: I_def ch_def)
    from blit_row_view [OF assms(1,2) this, folded cw_def] obtain t where
      t: "blit_row info win cw k s = Some t" "length t = length s"
        "\<And>a b. a < width info \<Longrightarrow> view info t (a, b) = (if b = win_y win + k \<and> covers win (a, b)
          then view (buf_info win) (win_buf win) (a - win_x win, k) else view info s (a, b))" by blast
    have "I (Suc k) t" using I t(2,3) by (auto simp: I_def)
    then show "\<exists>t. blit_row info win cw k s = Some t \<and> I (Suc k) t" using t(1) by blast
  qed
  then obtain t where t: "foldM (blit_row info win cw) [0..<ch] fb = Some t" "I ch t" by blast
  show ?thesis
  proof (rule that [of t])
    show "blit_window info win fb = Some t"
      using t(1) by (simp add: blit_window_def cw_def ch_def saturating_sub_def Let_def)
    show "length t = length fb" using t(2) by (simp add: I_def)
    show "view info t (a, b) = (if covers win (a, b) then view (buf_info win) (win_buf win) (a - win_x win, b - win_y win)
      else view info fb (a, b))" if "a < width info" "b < height info" for a b
    proof -
      have "covers win (a, b) \<Longrightarrow> b < win_y win + ch" using that by (auto simp: covers_def ch_def)
      then show ?thesis using t(2) that by (auto simp: I_def)
    qed
  qed
qed

section \<open>The task bar\<close>

text \<open>The picture of one label whose text starts at column \<open>lx\<close>, and of all the labels.\<close>

definition title_ok :: "wm_window \<Rightarrow> bool" where
  "title_ok win \<longleftrightarrow> length (title win) = 32 \<and> title_len win \<le> 32"

definition label_width :: "wm_window \<Rightarrow> nat" where
  "label_width win = title_len win * 8 + 16"

definition label_pic :: "font \<Rightarrow> nat \<Rightarrow> nat \<Rightarrow> nat option \<Rightarrow> nat \<Rightarrow> wm_window \<Rightarrow> (nat \<times> nat, rgb) picture" where
  "label_pic font y h focused lx win =
     [(if focused = Some (win_id win) then box (lx - 4) (y + 2) (title_len win * 8 + 12) (h - 4) else {}, (0x28, 0x32, 0x44)),
      (text_points font lx (y + 6) (the (title_str win)),
        if focused = Some (win_id win) then (0xFF, 0xFF, 0xFF) else (0x88, 0x8C, 0x96))]"

fun labels_pic :: "font \<Rightarrow> nat \<Rightarrow> nat \<Rightarrow> nat option \<Rightarrow> nat \<Rightarrow> wm_window list \<Rightarrow> (nat \<times> nat, rgb) picture" where
  "labels_pic font y h focused lx [] = []"
| "labels_pic font y h focused lx (win # wins) =
     label_pic font y h focused lx win @ labels_pic font y h focused (lx + label_width win) wins"

lemma title_str_total:
  assumes "title_ok win"
  shows "\<exists>str. title_str win = Some str \<and> length str \<le> 32"
proof -
  have "title_len win \<le> length (title win)" using assms by (simp add: title_ok_def)
  then obtain str where "decode_title (title win) (title_len win) = Some str" "length str \<le> max (title_len win) 1"
    using decode_title_total by blast
  then show ?thesis using assms by (auto simp: title_str_def title_ok_def)
qed

lemma taskbar_label_draws:
  assumes "font_ok font" and "title_ok win" and "4 \<le> lx" and "lx < 2 ^ 62" and "y < 2 ^ 62" and "8 \<le> h"
  obtains f where "\<And>buf. taskbar_label font info y h focused win (lx, buf) = map_option (Pair (lx + label_width win)) (f buf)"
    and "fb.draws info n f (label_pic font y h focused lx win)"
proof -
  obtain str where str: "title_str win = Some str" "length str \<le> 32" using title_str_total [OF assms(2)] by blast
  have len: "title_len win \<le> 32" using assms(2) by (simp add: title_ok_def)
  define b where "b \<longleftrightarrow> focused = Some (win_id win)"
  define c :: rgb where "c = (if b then (0xFF, 0xFF, 0xFF) else (0x88, 0x8C, 0x96))"
  define f where "f = (\<lambda>buf. (if b then fill_rect info (lx - 4) (y + 2) (title_len win * 8 + 12) (h - 4) (0x28, 0x32, 0x44) buf
    else Some buf) \<bind> draw_text font info lx (y + 6) str c)"
  show ?thesis
  proof (rule that [of f])
    show "taskbar_label font info y h focused win (lx, buf) = map_option (Pair (lx + label_width win)) (f buf)" for buf
      using assms(3-6) len str(1)
      by (cases b) (auto simp: taskbar_label_def b_def c_def f_def in_range FONT_sizes label_width_def Let_def bind_eq_None_conv
          map_option_case add.assoc split: option.split bind_split)
    have "fb.draws info n f ([(if b then box (lx - 4) (y + 2) (title_len win * 8 + 12) (h - 4) else {}, (0x28, 0x32, 0x44))] @
      [(text_points font lx (y + 6) str, c)])"
      unfolding f_def using assms str(2)
      by (intro fb.draws_seq fb.draws_when fill_rect_draws draw_text_draws) auto
    then show "fb.draws info n f (label_pic font y h focused lx win)"
      by (simp add: label_pic_def b_def [symmetric] c_def [symmetric] str(1))
  qed
qed

lemma label_width_le: "title_ok win \<Longrightarrow> label_width win \<le> 272"
  by (simp add: title_ok_def label_width_def)

lemma taskbar_labels_draw:
  assumes "font_ok font" and "\<forall>win \<in> set wins. title_ok win" and "4 \<le> lx" and "lx + 272 * length wins < 2 ^ 62"
    and "y < 2 ^ 62" and "8 \<le> h"
  shows "fb.draws info n (\<lambda>buf. map_option snd (foldM (taskbar_label font info y h focused) wins (lx, buf)))
    (labels_pic font y h focused lx wins)"
  using assms(2-4)
proof (induction wins arbitrary: lx)
  case Nil
  then show ?case using fb.draws_nothing by simp
next
  case (Cons win wins)
  have win: "title_ok win" "lx < 2 ^ 62" using Cons.prems by auto
  obtain f where f: "\<And>buf. taskbar_label font info y h focused win (lx, buf) = map_option (Pair (lx + label_width win)) (f buf)"
    "fb.draws info n f (label_pic font y h focused lx win)"
    using taskbar_label_draws [OF assms(1) win(1) Cons.prems(2) win(2) assms(5,6)] by blast
  have "fb.draws info n (\<lambda>buf. map_option snd (foldM (taskbar_label font info y h focused) wins (lx + label_width win, buf)))
    (labels_pic font y h focused (lx + label_width win) wins)"
    using Cons.prems label_width_le [OF win(1)] by (intro Cons.IH) auto
  from fb.draws_seq [OF f(2) this] show ?case
    by (simp add: f(1) map_option_case option.case_distrib cong: option.case_cong)
      (auto simp: fun_eq_iff elim!: back_subst [where P = "\<lambda>g. fb.draws info n g _"] split: option.split bind_split)
qed

definition taskbar_pic :: "font \<Rightarrow> fb_info \<Rightarrow> wm_window list \<Rightarrow> nat option \<Rightarrow> (nat \<times> nat, rgb) picture" where
  "taskbar_pic font info wins focused =
     (let y = height info - 28
      in [(box 0 y (width info) 28, (0x1A, 0x1E, 0x28)), (box 0 y (width info) 1, (0x33, 0x38, 0x44)),
          (text_points font 8 (y + 6) (lit ''r-os''), (0xE0, 0xE4, 0xEC)), (box 46 (y + 4) 1 20, (0x44, 0x48, 0x55))] @
         labels_pic font y 28 focused 54 wins)"

lemma draw_taskbar_draws:
  assumes "screen_ok info" and "font_ok font" and "\<forall>win \<in> set wins. title_ok win" and "length wins \<le> 2 ^ 32"
  shows "fb.draws info n (draw_taskbar font info TASKBAR_HEIGHT wins focused) (taskbar_pic font info wins focused)"
proof -
  define y where "y = height info - 28"
  have y: "y < 2 ^ 15" "saturating_sub (height info) 28 = y" using assms(1) by (auto simp: screen_ok_def y_def saturating_sub_def)
  define labels where "labels = (\<lambda>buf. map_option snd (foldM (taskbar_label font info y 28 focused) wins (54, buf)))"
  have "fb.draws info n (\<lambda>buf. fill_rect info 0 y (width info) 28 (0x1A, 0x1E, 0x28) buf \<bind>
      (\<lambda>buf. fill_rect info 0 y (width info) 1 (0x33, 0x38, 0x44) buf \<bind>
      (\<lambda>buf. draw_text font info 8 (y + 6) (lit ''r-os'') (0xE0, 0xE4, 0xEC) buf \<bind>
      (\<lambda>buf. fill_rect info 46 (y + 4) 1 20 (0x44, 0x48, 0x55) buf \<bind> labels))))
    ([(box 0 y (width info) 28, (0x1A, 0x1E, 0x28))] @ [(box 0 y (width info) 1, (0x33, 0x38, 0x44))] @
     [(text_points font 8 (y + 6) (lit ''r-os''), (0xE0, 0xE4, 0xEC))] @ [(box 46 (y + 4) 1 20, (0x44, 0x48, 0x55))] @
     labels_pic font y 28 focused 54 wins)"
    unfolding labels_def using assms y(1)
    by (intro fb.draws_seq fill_rect_draws draw_text_draws taskbar_labels_draw) (auto simp: lit_def)
  moreover have "draw_taskbar font info TASKBAR_HEIGHT wins focused buf = fill_rect info 0 y (width info) 28 (0x1A, 0x1E, 0x28) buf \<bind>
      (\<lambda>buf. fill_rect info 0 y (width info) 1 (0x33, 0x38, 0x44) buf \<bind>
      (\<lambda>buf. draw_text font info 8 (y + 6) (lit ''r-os'') (0xE0, 0xE4, 0xEC) buf \<bind>
      (\<lambda>buf. fill_rect info 46 (y + 4) 1 20 (0x44, 0x48, 0x55) buf \<bind> labels)))" for buf
  proof -
    have tail: "(m \<bind> (\<lambda>(lx, buf). Some buf)) = map_option snd m" for m :: "(nat \<times> fb_buffer) option"
      by (cases m) auto
    show ?thesis
      using y by (simp add: draw_taskbar_def TASKBAR_HEIGHT_def FONT_sizes in_range labels_def tail Let_def)
  qed
  ultimately show ?thesis
    by (simp add: taskbar_pic_def y_def [symmetric] Let_def fb.draws_def)
qed

end
