(* ===== verification/Wm.thy ===== *)
theory Wm
  imports Window Mouse
begin

text \<open>
  The window manager of \<^verbatim>\<open>kernel/src/wm.rs\<close>: the list of windows in drawing order (the last is on top),
  the focus, the mouse pointer, the two screen-sized buffers, and the functions on the global
  \<^verbatim>\<open>WM\<close>, which run with interrupts disabled and the locks held, hence as one step.
\<close>

section \<open>State\<close>

record wm =
  windows :: "wm_window list"
  focused :: "usize option"
  next_id :: usize
  wm_cursor :: cursor
  screen_info :: fb_info
  taskbar_height :: usize
  needs_composite :: bool
  back_buf :: fb_buffer
  bg_cache :: fb_buffer

text \<open>Of the standard library: \<open>copy_from_slice\<close> panics when the lengths differ; \<open>find_mut\<close> runs an update on
  the element \<^verbatim>\<open>iter_mut().find(..)\<close> returns; \<open>position\<close> and \<open>vec_remove\<close> are those of \<^verbatim>\<open>Vec\<close>.\<close>

definition copy_from_slice :: "'a list \<Rightarrow> 'a list \<Rightarrow> 'a list option" where
  "copy_from_slice dst src = (if length dst = length src then Some src else None)"

fun find_mut :: "('a \<Rightarrow> bool) \<Rightarrow> ('a \<Rightarrow> 'a option) \<Rightarrow> 'a list \<Rightarrow> 'a list option" where
  "find_mut P f [] = Some []"
| "find_mut P f (x # xs) =
     (if P x then map_option (\<lambda>y. y # xs) (f x) else map_option (\<lambda>ys. x # ys) (find_mut P f xs))"

fun position :: "('a \<Rightarrow> bool) \<Rightarrow> 'a list \<Rightarrow> usize option" where
  "position P [] = None"
| "position P (x # xs) = (if P x then Some 0 else map_option Suc (position P xs))"

definition vec_remove :: "'a list \<Rightarrow> usize \<Rightarrow> ('a \<times> 'a list) option" where
  "vec_remove xs i = (if i < length xs then Some (xs ! i, take i xs @ drop (Suc i) xs) else None)"

section \<open>Operations\<close>

definition wm_new :: "fb_info \<Rightarrow> wm option" where
  "wm_new info = do {
     area \<leftarrow> umul (width info) (height info);
     buf_size \<leftarrow> umul area (bytes_per_pixel info);
     bg \<leftarrow> draw_background info (replicate buf_size 0);
     Some \<lparr>windows = [], focused = None, next_id = 0, wm_cursor = cursor_new (width info) (height info),
       screen_info = info, taskbar_height = TASKBAR_HEIGHT, needs_composite = True,
       back_buf = replicate buf_size 0, bg_cache = bg\<rparr>
   }"

definition title_bytes :: "unichar list \<Rightarrow> (u8 list \<times> usize) option" where
  "title_bytes s = do {
     let bytes = as_bytes s;
     let tlen = min (length bytes) MAX_TITLE;
     buf \<leftarrow> copy_into (replicate MAX_TITLE 0) 0 (sub_slice bytes 0 tlen);
     Some (buf, tlen)
   }"

definition create_window :: "font \<Rightarrow> usize \<Rightarrow> usize \<Rightarrow> usize \<Rightarrow> usize \<Rightarrow> unichar list \<Rightarrow> usize \<Rightarrow> wm \<Rightarrow> (usize \<times> wm) option" where
  "create_window font x y w h name owner wm = do {
     let wid = next_id wm;
     next \<leftarrow> uadd (next_id wm) 1;
     let wm = wm\<lparr>next_id := next\<rparr>;
     let info = (screen_info wm)\<lparr>width := w, height := h, stride := w\<rparr>;
     area \<leftarrow> umul w h;
     buf_size \<leftarrow> umul area (bytes_per_pixel info);
     (title_buf, tlen) \<leftarrow> title_bytes name;
     let win = \<lparr>win_id = wid, win_x = x, win_y = y, win_width = w, win_height = h, title = title_buf, title_len = tlen,
       win_buf = replicate buf_size 0, buf_info = info, win_console = None, dirty = True, owner_task = owner\<rparr>;
     let is_focused = (focused wm = None \<or> focused wm = Some wid);
     win \<leftarrow> draw_chrome font is_focused win;
     let wm = wm\<lparr>windows := windows wm @ [win]\<rparr>;
     let wm = (if focused wm = None then wm\<lparr>focused := Some wid\<rparr> else wm);
     Some (wid, wm\<lparr>needs_composite := True\<rparr>)
   }"

definition window_mut :: "usize \<Rightarrow> (wm_window \<Rightarrow> wm_window option) \<Rightarrow> wm \<Rightarrow> wm option" where
  "window_mut wid f wm = do { wins \<leftarrow> find_mut (\<lambda>w. win_id w = wid) f (windows wm); Some (wm\<lparr>windows := wins\<rparr>) }"

definition window :: "usize \<Rightarrow> wm \<Rightarrow> wm_window option" where
  "window wid wm = List.find (\<lambda>w. win_id w = wid) (windows wm)"

definition init_console :: "usize \<Rightarrow> wm \<Rightarrow> wm option" where
  "init_console wid = window_mut wid (\<lambda>win. do {
     r \<leftarrow> content_rect win;
     (con, buf) \<leftarrow> console_new (buf_info win) r (win_buf win);
     Some (win\<lparr>win_buf := buf, win_console := Some con\<rparr>)
   })"

definition is_focused :: "usize \<Rightarrow> wm \<Rightarrow> bool" where
  "is_focused wid wm \<longleftrightarrow> focused wm = Some wid"

definition mark_dirty :: "usize \<Rightarrow> wm \<Rightarrow> wm option" where
  "mark_dirty wid wm = do {
     wm \<leftarrow> window_mut wid (\<lambda>win. Some (win\<lparr>dirty := True\<rparr>)) wm;
     Some (wm\<lparr>needs_composite := True\<rparr>)
   }"

definition redraw_chrome :: "font \<Rightarrow> usize \<Rightarrow> bool \<Rightarrow> wm \<Rightarrow> wm option" where
  "redraw_chrome font wid foc = window_mut wid (\<lambda>win. do {
     win \<leftarrow> draw_chrome font foc win;
     Some (win\<lparr>dirty := True\<rparr>)
   })"

definition raise_window :: "usize \<Rightarrow> wm \<Rightarrow> wm option" where
  "raise_window wid wm = (case position (\<lambda>w. win_id w = wid) (windows wm) of
      None \<Rightarrow> Some wm
    | Some pos \<Rightarrow> do { (win, rest) \<leftarrow> vec_remove (windows wm) pos; Some (wm\<lparr>windows := rest @ [win]\<rparr>) })"

definition focus_window :: "font \<Rightarrow> usize \<Rightarrow> wm \<Rightarrow> wm option" where
  "focus_window font wid wm =
     (if focused wm = Some wid then Some wm
      else do {
        wm \<leftarrow> (case focused wm of Some old_id \<Rightarrow> redraw_chrome font old_id False wm | None \<Rightarrow> Some wm);
        wm \<leftarrow> raise_window wid wm;
        wm \<leftarrow> redraw_chrome font wid True wm;
        Some (wm\<lparr>focused := Some wid, needs_composite := True\<rparr>)
      })"

definition composite :: "font \<Rightarrow> fb_info \<Rightarrow> wm \<times> fb_buffer \<Rightarrow> (wm \<times> fb_buffer) option" where
  "composite font info = (\<lambda>(wm, fb). do {
     back \<leftarrow> copy_from_slice (back_buf wm) (bg_cache wm);
     back \<leftarrow> draw_taskbar font info (taskbar_height wm) (windows wm) (focused wm) back;
     back \<leftarrow> foldM (blit_window info) (windows wm) back;
     cur \<leftarrow> save_background info back (wm_cursor wm);
     back \<leftarrow> cursor_draw info cur back;
     let cur = cur\<lparr>visible := True\<rparr>;
     fb \<leftarrow> copy_from_slice fb back;
     Some (wm\<lparr>back_buf := back, wm_cursor := cur, needs_composite := False,
       windows := map (\<lambda>win. win\<lparr>dirty := False\<rparr>) (windows wm)\<rparr>, fb)
   })"

fun label_at :: "usize \<Rightarrow> wm_window list \<Rightarrow> usize \<Rightarrow> usize option option" where
  "label_at mx [] lx = Some None"
| "label_at mx (win # wins) lx = do {
     w \<leftarrow> umul (title_len win) FONT_WIDTH;
     label_w \<leftarrow> uadd w 16;
     hit \<leftarrow> (if saturating_sub lx 4 \<le> mx then do { e \<leftarrow> uadd lx label_w; Some (mx < e) } else Some False);
     if hit then Some (Some (win_id win))
     else do { lx \<leftarrow> uadd lx label_w; label_at mx wins lx }
   }"

definition handle_taskbar_click :: "font \<Rightarrow> usize \<Rightarrow> wm \<Rightarrow> wm option" where
  "handle_taskbar_click font mx wm = do {
     let sep_x = 8 + 4 * FONT_WIDTH + 6 + 8;
     target \<leftarrow> label_at mx (windows wm) sep_x;
     case target of Some wid \<Rightarrow> focus_window font wid wm | None \<Rightarrow> Some wm
   }"

definition in_window :: "usize \<Rightarrow> usize \<Rightarrow> wm_window \<Rightarrow> bool option" where
  "in_window mx my win =
     (if win_x win \<le> mx then do {
        x_end \<leftarrow> uadd (win_x win) (win_width win);
        if mx < x_end \<and> win_y win \<le> my then do {
          y_end \<leftarrow> uadd (win_y win) (win_height win);
          Some (my < y_end)
        } else Some False
      } else Some False)"

fun window_at :: "usize \<Rightarrow> usize \<Rightarrow> wm_window list \<Rightarrow> usize option option" where
  "window_at mx my [] = Some None"
| "window_at mx my (win # wins) = do {
     hit \<leftarrow> in_window mx my win;
     if hit then Some (Some (win_id win)) else window_at mx my wins
   }"

definition restore_cursor :: "fb_info \<Rightarrow> cursor \<Rightarrow> fb_buffer \<Rightarrow> fb_buffer option" where
  "restore_cursor info cur fb =
     (if visible cur then
        (let cx = i32_as_usize (cur_x cur); cy = i32_as_usize (cur_y cur)
         in foldM (\<lambda>sy. foldM (restore_pixel info (saved_bg cur) cx cy sy) [0..<CURSOR_W]) [0..<CURSOR_H] fb)
      else Some fb)"

definition left_click :: "font \<Rightarrow> wm \<Rightarrow> wm option" where
  "left_click font wm = do {
     let mx = i32_as_usize (cur_x (wm_cursor wm));
     let my = i32_as_usize (cur_y (wm_cursor wm));
     let tb_y = saturating_sub (height (screen_info wm)) (taskbar_height wm);
     if tb_y \<le> my then do {
       wm \<leftarrow> handle_taskbar_click font mx wm;
       Some (wm\<lparr>needs_composite := True\<rparr>)
     } else do {
       clicked_id \<leftarrow> window_at mx my (rev (windows wm));
       case clicked_id of Some wid \<Rightarrow> focus_window font wid wm | None \<Rightarrow> Some wm
     }
   }"

definition handle_mouse :: "font \<Rightarrow> mouse_event \<Rightarrow> fb_info \<Rightarrow> wm \<times> fb_buffer \<Rightarrow> (wm \<times> fb_buffer) option" where
  "handle_mouse font event info = (\<lambda>(wm, fb). do {
     fb \<leftarrow> restore_cursor info (wm_cursor wm) fb;
     cur \<leftarrow> apply_delta (dx event) (dy event) (wm_cursor wm);
     let wm = wm\<lparr>wm_cursor := cur\<rparr>;
     wm \<leftarrow> (if mouse_event.left event then left_click font wm else Some wm);
     if \<not> needs_composite wm then do {
       cur \<leftarrow> save_background info fb (wm_cursor wm);
       fb \<leftarrow> cursor_draw info cur fb;
       Some (wm\<lparr>wm_cursor := cur\<lparr>visible := True\<rparr>\<rparr>, fb)
     } else Some (wm, fb)
   })"

definition request_composite :: "wm \<Rightarrow> wm" where
  "request_composite wm = wm\<lparr>needs_composite := True\<rparr>"

section \<open>The global window manager\<close>

text \<open>The statics \<^verbatim>\<open>WM\<close> and \<^verbatim>\<open>FB_STATE\<close>. A function on the window manager returns its result; with no
  window manager it is not called.\<close>

record desktop =
  WM :: "wm option"
  FB_STATE :: "(fb_info \<times> fb_buffer) option"

text \<open>The access to the frame buffer in \<^verbatim>\<open>framebuffer.rs\<close>.\<close>

definition with_fb :: "(fb_info \<Rightarrow> fb_buffer \<Rightarrow> ('r \<times> fb_buffer) option) \<Rightarrow> desktop \<Rightarrow> ('r option \<times> desktop) option" where
  "with_fb f d = (case FB_STATE d of
      Some (info, buf) \<Rightarrow> do { (r, buf) \<leftarrow> f info buf; Some (Some r, d\<lparr>FB_STATE := Some (info, buf)\<rparr>) }
    | None \<Rightarrow> Some (None, d))"

definition framebuffer_info :: "desktop \<Rightarrow> fb_info option" where
  "framebuffer_info d = map_option fst (FB_STATE d)"

definition wm_init :: "desktop \<Rightarrow> desktop option" where
  "wm_init d = (case framebuffer_info d of
      Some info \<Rightarrow> do { wm \<leftarrow> wm_new info; Some (d\<lparr>WM := Some wm\<rparr>) }
    | None \<Rightarrow> Some d)"

definition with_wm :: "(wm \<Rightarrow> ('r \<times> wm) option) \<Rightarrow> desktop \<Rightarrow> ('r option \<times> desktop) option" where
  "with_wm f d = (case WM d of
      Some wm \<Rightarrow> do { (r, wm) \<leftarrow> f wm; Some (Some r, d\<lparr>WM := Some wm\<rparr>) }
    | None \<Rightarrow> Some (None, d))"

definition upd_wm :: "(wm \<Rightarrow> wm option) \<Rightarrow> desktop \<Rightarrow> desktop option" where
  "upd_wm f d = do { (_, d) \<leftarrow> with_wm (\<lambda>wm. do { wm \<leftarrow> f wm; Some ((), wm) }) d; Some d }"

definition wm_create_window :: "font \<Rightarrow> usize \<Rightarrow> usize \<Rightarrow> usize \<Rightarrow> usize \<Rightarrow> unichar list \<Rightarrow> usize \<Rightarrow> desktop \<Rightarrow>
    (usize \<times> desktop) option" where
  "wm_create_window font x y w h name owner d = do {
     (r, d) \<leftarrow> with_wm (create_window font x y w h name owner) d;
     Some (case r of Some wid \<Rightarrow> wid | None \<Rightarrow> 0, d)
   }"

definition wm_init_console :: "usize \<Rightarrow> desktop \<Rightarrow> desktop option" where
  "wm_init_console wid = upd_wm (init_console wid)"

definition wm_is_focused :: "usize \<Rightarrow> desktop \<Rightarrow> bool" where
  "wm_is_focused wid d = (case WM d of Some wm \<Rightarrow> is_focused wid wm | None \<Rightarrow> False)"

definition wm_mark_dirty :: "usize \<Rightarrow> desktop \<Rightarrow> desktop option" where
  "wm_mark_dirty wid = upd_wm (mark_dirty wid)"

definition on_console :: "(fb_info \<Rightarrow> console \<times> fb_buffer \<Rightarrow> (console \<times> fb_buffer) option) \<Rightarrow> wm_window \<Rightarrow> wm_window option" where
  "on_console f win = (case win_console win of
      Some con \<Rightarrow> do {
        (con, buf) \<leftarrow> f (buf_info win) (con, win_buf win);
        Some (win\<lparr>win_console := Some con, win_buf := buf, dirty := True\<rparr>)
      }
    | None \<Rightarrow> Some win)"

definition console_op :: "(fb_info \<Rightarrow> console \<times> fb_buffer \<Rightarrow> (console \<times> fb_buffer) option) \<Rightarrow> usize \<Rightarrow> wm \<Rightarrow> wm option" where
  "console_op f wid wm = do { wm \<leftarrow> window_mut wid (on_console f) wm; Some (wm\<lparr>needs_composite := True\<rparr>) }"

definition console_write :: "font \<Rightarrow> usize \<Rightarrow> unichar list \<Rightarrow> desktop \<Rightarrow> desktop option" where
  "console_write font wid s = upd_wm (console_op (\<lambda>info. write_str font info s) wid)"

definition console_show_cursor :: "usize \<Rightarrow> desktop \<Rightarrow> desktop option" where
  "console_show_cursor wid = upd_wm (console_op draw_cursor wid)"

definition console_hide_cursor :: "usize \<Rightarrow> desktop \<Rightarrow> desktop option" where
  "console_hide_cursor wid = upd_wm (console_op erase_cursor wid)"

definition wm_console_clear :: "usize \<Rightarrow> desktop \<Rightarrow> desktop option" where
  "wm_console_clear wid = upd_wm (console_op console_clear wid)"

definition wm_composite :: "font \<Rightarrow> desktop \<Rightarrow> desktop option" where
  "wm_composite font d = (case (WM d, FB_STATE d) of
      (Some wm, Some (info, buf)) \<Rightarrow> do {
        (wm, buf) \<leftarrow> composite font info (wm, buf);
        Some (d\<lparr>WM := Some wm, FB_STATE := Some (info, buf)\<rparr>)
      }
    | _ \<Rightarrow> Some d)"

definition wm_handle_mouse :: "font \<Rightarrow> mouse_event \<Rightarrow> desktop \<Rightarrow> desktop option" where
  "wm_handle_mouse font event d = (case (WM d, FB_STATE d) of
      (Some wm, Some (info, buf)) \<Rightarrow> do {
        (wm, buf) \<leftarrow> handle_mouse font event info (wm, buf);
        (wm, buf) \<leftarrow> (if needs_composite wm then composite font info (wm, buf) else Some (wm, buf));
        Some (d\<lparr>WM := Some wm, FB_STATE := Some (info, buf)\<rparr>)
      }
    | _ \<Rightarrow> Some d)"

end
