(* ===== verification/WmInv.thy ===== *)
theory WmInv
  imports Wm
begin

text \<open>
  The invariant of the window manager and its preservation by every operation. Each window's buffer
  has the size and layout of its window, the identifiers are distinct and smaller than the next one, a
  window has the focus as soon as there is one, and the two screen buffers have the size of the
  screen. Under it no operation panics.
\<close>

section \<open>Updates of one window\<close>

definition upd_win :: "usize \<Rightarrow> (wm_window \<Rightarrow> wm_window) \<Rightarrow> wm_window list \<Rightarrow> wm_window list" where
  "upd_win wid g = map (\<lambda>w. if win_id w = wid then g w else w)"

lemma find_mut_none: "wid \<notin> win_id ` set ws \<Longrightarrow> find_mut (\<lambda>w. win_id w = wid) f ws = Some ws"
  by (induction ws) auto

lemma find_mut_keeps: "find_mut P f xs = Some ys \<Longrightarrow> w \<in> set xs \<Longrightarrow> \<not> P w \<Longrightarrow> w \<in> set ys"
  by (induction xs arbitrary: ys) (auto split: if_splits)

lemma upd_win_none: "wid \<notin> win_id ` set ws \<Longrightarrow> upd_win wid g ws = ws"
  by (auto simp: upd_win_def intro!: map_idI)

lemma find_mut_upd:
  assumes "distinct (map win_id ws)" and "\<And>w. w \<in> set ws \<Longrightarrow> win_id w = wid \<Longrightarrow> f w = Some (g w)"
  shows "find_mut (\<lambda>w. win_id w = wid) f ws = Some (upd_win wid g ws)"
  using assms
proof (induction ws)
  case (Cons w ws)
  have ws: "wid \<notin> win_id ` set ws" if "win_id w = wid" using Cons.prems(1) that by auto
  show ?case
  proof (cases "win_id w = wid")
    case True
    then show ?thesis using Cons.prems(2) [of w] upd_win_none [OF ws [OF True]] by (simp add: upd_win_def)
  next
    case False
    then show ?thesis using Cons by (simp add: upd_win_def)
  qed
qed (simp add: upd_win_def)

lemma map_upd_win: "(\<And>w. w \<in> set ws \<Longrightarrow> win_id w = wid \<Longrightarrow> p (g w) = p w) \<Longrightarrow> map p (upd_win wid g ws) = map p ws"
  by (simp add: upd_win_def)

lemma length_upd_win [simp]: "length (upd_win wid g ws) = length ws"
  by (simp add: upd_win_def)

section \<open>The window brought to the front\<close>

definition to_front :: "usize \<Rightarrow> wm_window list \<Rightarrow> wm_window list" where
  "to_front wid ws = filter (\<lambda>w. win_id w \<noteq> wid) ws @ filter (\<lambda>w. win_id w = wid) ws"

lemma set_to_front [simp]: "set (to_front wid ws) = set ws"
  by (auto simp: to_front_def)

lemma length_to_front [simp]: "length (to_front wid ws) = length ws"
  using sum_length_filter_compl [of "\<lambda>w. win_id w = wid" ws] by (simp add: to_front_def)

lemma to_front_Nil [simp]: "to_front wid [] = []"
  by (simp add: to_front_def)

lemma distinct_to_front: "distinct (map win_id ws) \<Longrightarrow> distinct (map win_id (to_front wid ws))"
  by (simp add: to_front_def distinct_map_filter) auto

lemma position_None: "position P xs = None \<longleftrightarrow> (\<forall>x \<in> set xs. \<not> P x)"
  by (induction xs) auto

lemma position_Some: "position P xs = Some i \<Longrightarrow> i < length xs \<and> P (xs ! i) \<and> (\<forall>x \<in> set (take i xs). \<not> P x)"
  by (induction xs arbitrary: i) (auto split: if_splits)

lemma to_front_remove:
  assumes "distinct (map win_id ws)" and "i < length ws" and "win_id (ws ! i) = wid"
  shows "(take i ws @ drop (Suc i) ws) @ [ws ! i] = to_front wid ws"
proof -
  have ws: "ws = take i ws @ ws ! i # drop (Suc i) ws" using assms(2) by (rule id_take_nth_drop)
  have "distinct (map win_id (take i ws @ ws ! i # drop (Suc i) ws))" using assms(1) ws by simp
  then have "wid \<notin> win_id ` set (take i ws)" "wid \<notin> win_id ` set (drop (Suc i) ws)"
    unfolding assms(3) [symmetric] by auto
  then have "\<forall>w \<in> set (take i ws) \<union> set (drop (Suc i) ws). win_id w \<noteq> wid" by blast
  then have "to_front wid (take i ws @ ws ! i # drop (Suc i) ws) = take i ws @ drop (Suc i) ws @ [ws ! i]"
    using assms(3) by (auto simp: to_front_def filter_empty_conv)
  then show ?thesis using ws by simp
qed

lemma raise_window_eq:
  assumes "distinct (map win_id (windows wm))"
  shows "raise_window wid wm = Some (wm\<lparr>windows := to_front wid (windows wm)\<rparr>)"
proof (cases "position (\<lambda>w. win_id w = wid) (windows wm)")
  case None
  then have "to_front wid (windows wm) = windows wm" by (simp add: position_None to_front_def filter_empty_conv)
  then show ?thesis using None by (simp add: raise_window_def)
next
  case (Some i)
  from position_Some [OF Some] have "i < length (windows wm)" "win_id (windows wm ! i) = wid" by auto
  with to_front_remove [OF assms this] show ?thesis
    by (simp add: raise_window_def Some vec_remove_def)
qed

section \<open>The invariant\<close>

definition frame_size :: "fb_info \<Rightarrow> nat" where
  "frame_size info = stride info * height info * bytes_per_pixel info"

definition wins_ok :: "fb_info \<Rightarrow> nat \<Rightarrow> wm_window list \<Rightarrow> bool" where
  "wins_ok info next ws \<longleftrightarrow> (\<forall>win \<in> set ws. win_ok info win \<and> win_id win < next) \<and> distinct (map win_id ws) \<and>
     length ws \<le> next \<and> next \<le> 2 ^ 32"

definition focus_ok :: "usize option \<Rightarrow> wm_window list \<Rightarrow> bool" where
  "focus_ok foc ws = (case foc of None \<Rightarrow> ws = [] | Some f \<Rightarrow> f \<in> win_id ` set ws)"

definition wm_inv :: "fb_info \<Rightarrow> wm \<Rightarrow> bool" where
  "wm_inv info wm \<longleftrightarrow> screen_ok info \<and> screen_info wm = info \<and> taskbar_height wm = TASKBAR_HEIGHT \<and>
     cursor_inv info (wm_cursor wm) \<and> length (back_buf wm) = frame_size info \<and> length (bg_cache wm) = frame_size info \<and>
     wins_ok info (next_id wm) (windows wm) \<and> focus_ok (focused wm) (windows wm)"

lemma wm_inv_unaffected [simp]:
  "wm_inv info (wm\<lparr>needs_composite := b\<rparr>) = wm_inv info wm"
  by (simp add: wm_inv_def)

lemma wm_inv_facts:
  assumes "wm_inv info wm"
  shows "screen_ok info" and "info_ok info" and "stride info = width info" and "cursor_inv info (wm_cursor wm)"
    and "distinct (map win_id (windows wm))" and "win \<in> set (windows wm) \<Longrightarrow> win_ok info win"
    and "length (windows wm) \<le> 2 ^ 32" and "screen_info wm = info" and "taskbar_height wm = TASKBAR_HEIGHT"
  using assms by (auto simp: wm_inv_def wins_ok_def screen_ok_def)

lemma win_ok_title: "win_ok info win \<Longrightarrow> title_ok win"
  by (simp add: win_ok_def title_ok_def)

lemma wins_ok_upd:
  assumes "wins_ok info next ws"
    and "\<And>win. win \<in> set ws \<Longrightarrow> win_id win = wid \<Longrightarrow> win_ok info win \<Longrightarrow> win_ok info (g win) \<and> win_id (g win) = wid"
  shows "wins_ok info next (upd_win wid g ws)"
proof -
  have "map win_id (upd_win wid g ws) = map win_id ws"
    using assms by (intro map_upd_win) (auto simp: wins_ok_def)
  moreover have "\<forall>win \<in> set (upd_win wid g ws). win_ok info win \<and> win_id win < next"
    using assms by (auto simp: upd_win_def wins_ok_def)
  ultimately show ?thesis using assms(1) by (simp add: wins_ok_def)
qed

lemma wins_ok_to_front: "wins_ok info next ws \<Longrightarrow> wins_ok info next (to_front wid ws)"
  by (simp add: wins_ok_def distinct_to_front)

lemma window_mut_total:
  assumes "wm_inv info wm" and "\<And>win. win \<in> set (windows wm) \<Longrightarrow> win_id win = wid \<Longrightarrow> win_ok info win \<Longrightarrow>
      f win = Some (g win) \<and> win_ok info (g win) \<and> win_id (g win) = wid"
  shows "window_mut wid f wm = Some (wm\<lparr>windows := upd_win wid g (windows wm)\<rparr>)"
    and "wm_inv info (wm\<lparr>windows := upd_win wid g (windows wm)\<rparr>)"
proof -
  note win = wm_inv_facts(6) [OF assms(1)]
  have "find_mut (\<lambda>w. win_id w = wid) f (windows wm) = Some (upd_win wid g (windows wm))"
    using assms(2) win by (intro find_mut_upd wm_inv_facts(5) [OF assms(1)]) auto
  then show "window_mut wid f wm = Some (wm\<lparr>windows := upd_win wid g (windows wm)\<rparr>)" by (simp add: window_mut_def)
  have "wins_ok info (next_id wm) (upd_win wid g (windows wm))"
    using assms by (intro wins_ok_upd) (auto simp: wm_inv_def)
  moreover have "map win_id (upd_win wid g (windows wm)) = map win_id (windows wm)"
    using assms(2) win by (intro map_upd_win) auto
  then have "win_id ` set (upd_win wid g (windows wm)) = win_id ` set (windows wm)" by (metis set_map)
  ultimately show "wm_inv info (wm\<lparr>windows := upd_win wid g (windows wm)\<rparr>)"
    using assms(1) by (cases "focused wm") (auto simp: wm_inv_def focus_ok_def upd_win_def)
qed

section \<open>Repainted windows\<close>

text \<open>The window is as before but for its frame and its dirty flag.\<close>

definition content_kept :: "wm_window \<Rightarrow> wm_window \<Rightarrow> bool" where
  "content_kept win win' \<longleftrightarrow> (\<forall>u v. 6 \<le> u \<and> u + 6 < win_width win \<and> 30 \<le> v \<and> v + 6 < win_height win \<longrightarrow>
     view (buf_info win) (win_buf win') (u, v) = view (buf_info win) (win_buf win) (u, v))"

definition repainted :: "fb_info \<Rightarrow> wm_window \<Rightarrow> wm_window \<Rightarrow> bool" where
  "repainted info win win' \<longleftrightarrow> (\<exists>buf d. win' = win\<lparr>win_buf := buf, dirty := d\<rparr>) \<and> win_ok info win' \<and> content_kept win win'"

lemma win_ok_dirty [simp]: "win_ok info (win\<lparr>dirty := d\<rparr>) = win_ok info win"
  by (simp add: win_ok_def win_size_def win_content_def)

lemma repainted_refl: "win_ok info win \<Longrightarrow> repainted info win win"
  unfolding repainted_def content_kept_def
  by (intro conjI exI [of _ "win_buf win"] exI [of _ "dirty win"]) auto

lemma repainted_trans: "repainted info w w' \<Longrightarrow> repainted info w' w'' \<Longrightarrow> repainted info w w''"
proof -
  assume a: "repainted info w w'" "repainted info w' w''"
  obtain b d b' d' where w: "w' = w\<lparr>win_buf := b, dirty := d\<rparr>" "w'' = w'\<lparr>win_buf := b', dirty := d'\<rparr>"
    using a by (auto simp: repainted_def)
  then have "w'' = w\<lparr>win_buf := b', dirty := d'\<rparr>" by simp
  moreover have "content_kept w w''" using a w by (simp add: repainted_def content_kept_def)
  ultimately show ?thesis using a(2) unfolding repainted_def by blast
qed

lemma repainted_dirty: "win_ok info win \<Longrightarrow> repainted info win (win\<lparr>dirty := d\<rparr>)"
  unfolding repainted_def content_kept_def
  by (intro conjI exI [of _ "win_buf win"] exI [of _ d]) auto

lemma repainted_same:
  "repainted info win win' \<Longrightarrow> win_id win' = win_id win \<and> win_x win' = win_x win \<and> win_y win' = win_y win \<and>
    win_width win' = win_width win \<and> win_height win' = win_height win \<and> title win' = title win \<and>
    title_len win' = title_len win \<and> win_console win' = win_console win \<and> buf_info win' = buf_info win \<and>
    owner_task win' = owner_task win"
  by (auto simp: repainted_def)

lemma draw_chrome_repaints:
  assumes "screen_ok info" and "win_ok info win" and "font_ok font"
  obtains win' where "draw_chrome font foc win = Some win'" and "repainted info win win'"
proof -
  obtain buf where buf: "draw_chrome font foc win = Some (win\<lparr>win_buf := buf\<rparr>)" "win_ok info (win\<lparr>win_buf := buf\<rparr>)"
    "\<And>u v. 6 \<le> u \<Longrightarrow> u + 6 < win_width win \<Longrightarrow> 30 \<le> v \<Longrightarrow> v + 6 < win_height win \<Longrightarrow>
      view (buf_info win) buf (u, v) = view (buf_info win) (win_buf win) (u, v)"
    using draw_chrome_spec [OF assms] by blast
  have "repainted info win (win\<lparr>win_buf := buf\<rparr>)"
    unfolding repainted_def content_kept_def using buf(2,3)
    by (intro conjI exI [of _ buf] exI [of _ "dirty win"]) auto
  then show ?thesis using buf(1) that by blast
qed

lemma redraw_chrome_repaints:
  assumes "wm_inv info wm" and "font_ok font"
  obtains g where "redraw_chrome font wid foc wm = Some (wm\<lparr>windows := upd_win wid g (windows wm)\<rparr>)"
    and "wm_inv info (wm\<lparr>windows := upd_win wid g (windows wm)\<rparr>)"
    and "\<And>win. win_ok info win \<Longrightarrow> repainted info win (g win)"
proof -
  define g where "g = (\<lambda>win. (the (draw_chrome font foc win))\<lparr>dirty := True\<rparr>)"
  have g: "draw_chrome font foc win \<noteq> None \<and> repainted info win (g win)" if win: "win_ok info win" for win
  proof -
    obtain win' where w: "draw_chrome font foc win = Some win'" "repainted info win win'"
      using draw_chrome_repaints [OF wm_inv_facts(1) [OF assms(1)] win assms(2)] by blast
    moreover have "win_ok info win'" using w(2) by (simp add: repainted_def)
    ultimately show ?thesis using repainted_trans repainted_dirty by (auto simp: g_def)
  qed
  have f: "do { win \<leftarrow> draw_chrome font foc win; Some (win\<lparr>dirty := True\<rparr>) } = Some (g win) \<and> win_ok info (g win) \<and>
    win_id (g win) = win_id win" if "win_ok info win" for win
    using g [OF that] repainted_same [of info win "g win"] by (auto simp: g_def repainted_def)
  have "redraw_chrome font wid foc wm = Some (wm\<lparr>windows := upd_win wid g (windows wm)\<rparr>)"
    unfolding redraw_chrome_def by (rule window_mut_total(1) [OF assms(1)]) (use f in auto)
  moreover have "wm_inv info (wm\<lparr>windows := upd_win wid g (windows wm)\<rparr>)"
    by (rule window_mut_total(2) [OF assms(1), where f = "\<lambda>win. Some (g win)"]) (use f in auto)
  ultimately show ?thesis using that g by blast
qed

section \<open>Changes of focus\<close>

text \<open>The windows after a change of focus: every window repainted at most, the chosen one brought to the front.\<close>

lemma upd_win_repaints:
  assumes "\<And>win. win_ok info win \<Longrightarrow> repainted info win (g win)" and "win_ok info w"
  shows "repainted info w (if win_id w = wid then g w else w)"
  using assms repainted_refl by simp

lemma map_to_front: "(\<And>w. w \<in> set ws \<Longrightarrow> win_id (g w) = win_id w) \<Longrightarrow> map g (to_front wid ws) = to_front wid (map g ws)"
  by (simp add: to_front_def filter_map comp_def cong: filter_cong)

lemma focus_window_spec:
  assumes "wm_inv info wm" and "font_ok font" and "wid \<in> win_id ` set (windows wm)" and "focused wm \<noteq> Some wid"
  obtains g where "focus_window font wid wm = Some (wm\<lparr>windows := map g (to_front wid (windows wm)), focused := Some wid,
      needs_composite := True\<rparr>)"
    and "wm_inv info (wm\<lparr>windows := map g (to_front wid (windows wm)), focused := Some wid, needs_composite := True\<rparr>)"
    and "\<And>win. win \<in> set (windows wm) \<Longrightarrow> repainted info win (g win)"
proof -
  have "\<exists>g1. (case focused wm of Some old_id \<Rightarrow> redraw_chrome font old_id False wm | None \<Rightarrow> Some wm)
      = Some (wm\<lparr>windows := map g1 (windows wm)\<rparr>) \<and> wm_inv info (wm\<lparr>windows := map g1 (windows wm)\<rparr>) \<and>
      (\<forall>win \<in> set (windows wm). repainted info win (g1 win))"
  proof (cases "focused wm")
    case None
    then show ?thesis using assms(1) repainted_refl [OF wm_inv_facts(6) [OF assms(1)]]
      by (intro exI [of _ "\<lambda>w. w"]) simp
  next
    case (Some old)
    obtain g where "redraw_chrome font old False wm = Some (wm\<lparr>windows := upd_win old g (windows wm)\<rparr>)"
      "wm_inv info (wm\<lparr>windows := upd_win old g (windows wm)\<rparr>)" "\<And>win. win_ok info win \<Longrightarrow> repainted info win (g win)"
      using redraw_chrome_repaints [OF assms(1,2)] by blast
    then show ?thesis using Some wm_inv_facts(6) [OF assms(1)]
      by (intro exI [of _ "\<lambda>w. if win_id w = old then g w else w"]) (auto simp: upd_win_def repainted_refl)
  qed
  then obtain g1 where g1: "(case focused wm of Some old_id \<Rightarrow> redraw_chrome font old_id False wm | None \<Rightarrow> Some wm)
      = Some (wm\<lparr>windows := map g1 (windows wm)\<rparr>)" "wm_inv info (wm\<lparr>windows := map g1 (windows wm)\<rparr>)"
      "\<And>win. win \<in> set (windows wm) \<Longrightarrow> repainted info win (g1 win)" by blast
  define ws where "ws = to_front wid (map g1 (windows wm))"
  have ids: "win_id (g1 w) = win_id w" if "w \<in> set (windows wm)" for w using repainted_same [OF g1(3) [OF that]] by simp
  have ws: "ws = map g1 (to_front wid (windows wm))" unfolding ws_def using ids by (rule map_to_front [symmetric])
  have inv: "wm_inv info (wm\<lparr>windows := ws\<rparr>)"
    using g1(2) wins_ok_to_front [of info "next_id wm" "map g1 (windows wm)" wid]
    by (auto simp: wm_inv_def focus_ok_def ws_def split: option.splits)
  obtain g2 where g2: "redraw_chrome font wid True (wm\<lparr>windows := ws\<rparr>) = Some (wm\<lparr>windows := upd_win wid g2 ws\<rparr>)"
      "wm_inv info (wm\<lparr>windows := upd_win wid g2 ws\<rparr>)" "\<And>win. win_ok info win \<Longrightarrow> repainted info win (g2 win)"
    using redraw_chrome_repaints [OF inv assms(2), of wid True] by auto
  define g where "g = (\<lambda>w. if win_id (g1 w) = wid then g2 (g1 w) else g1 w)"
  have final: "upd_win wid g2 ws = map g (to_front wid (windows wm))" by (simp add: ws upd_win_def g_def)
  have rep: "repainted info w (g w)" if "w \<in> set (windows wm)" for w
  proof -
    have "win_ok info (g1 w)" using g1(3) [OF that] by (simp add: repainted_def)
    then show ?thesis using g1(3) [OF that] g2(3) repainted_trans by (auto simp: g_def)
  qed
  show ?thesis
  proof (rule that [OF _ _ rep])
    have "raise_window wid (wm\<lparr>windows := map g1 (windows wm)\<rparr>) = Some (wm\<lparr>windows := ws\<rparr>)"
      using raise_window_eq [OF wm_inv_facts(5) [OF g1(2)], of wid] by (simp add: ws_def)
    then show "focus_window font wid wm = Some (wm\<lparr>windows := map g (to_front wid (windows wm)), focused := Some wid,
        needs_composite := True\<rparr>)"
      using assms(4) g1(1) g2(1) by (simp add: focus_window_def final)
    have "wid \<in> win_id ` set (map g (to_front wid (windows wm)))"
    proof -
      obtain w where w: "w \<in> set (windows wm)" "win_id w = wid" using assms(3) by auto
      moreover have "win_id (g w) = wid" using repainted_same [OF rep [OF w(1)]] w(2) by simp
      ultimately have "wid \<in> win_id ` g ` set (windows wm)" by (metis imageI)
      then show ?thesis by simp
    qed
    then show "wm_inv info (wm\<lparr>windows := map g (to_front wid (windows wm)), focused := Some wid, needs_composite := True\<rparr>)"
      using g2(2) by (simp add: wm_inv_def final focus_ok_def)
  qed
qed

section \<open>The frame composed in the back buffer\<close>

definition top_window :: "wm_window list \<Rightarrow> nat \<times> nat \<Rightarrow> wm_window option" where
  "top_window ws p = List.find (\<lambda>w. covers w p) (rev ws)"

definition window_pixel :: "wm_window \<Rightarrow> nat \<times> nat \<Rightarrow> u8 list" where
  "window_pixel win p = view (buf_info win) (win_buf win) (fst p - win_x win, snd p - win_y win)"

lemma find_snoc: "List.find P (xs @ [x]) = (case List.find P xs of None \<Rightarrow> if P x then Some x else None | Some y \<Rightarrow> Some y)"
  by (induction xs) auto

lemma blit_windows_view:
  assumes "screen_ok info" and "\<forall>win \<in> set ws. win_ok info win" and "length fb = frame_size info"
  shows "\<exists>t. foldM (blit_window info) ws fb = Some t \<and> length t = frame_size info \<and>
    (\<forall>a < width info. \<forall>b < height info. view info t (a, b) =
      (case top_window ws (a, b) of Some w \<Rightarrow> window_pixel w (a, b) | None \<Rightarrow> view info fb (a, b)))"
  using assms(2,3)
proof (induction ws arbitrary: fb)
  case Nil
  then show ?case by (simp add: top_window_def)
next
  case (Cons w ws)
  have w: "win_ok info w" "length fb = stride info * height info * bytes_per_pixel info"
    using Cons.prems by (auto simp: frame_size_def)
  obtain t where t: "blit_window info w fb = Some t" "length t = length fb"
    "\<And>a b. a < width info \<Longrightarrow> b < height info \<Longrightarrow> view info t (a, b) =
      (if covers w (a, b) then window_pixel w (a, b) else view info fb (a, b))"
    using blit_window_view [OF assms(1) w] unfolding window_pixel_def fst_conv snd_conv by blast
  obtain u where u: "foldM (blit_window info) ws t = Some u" "length u = frame_size info"
    "\<forall>a < width info. \<forall>b < height info. view info u (a, b) =
      (case top_window ws (a, b) of Some w \<Rightarrow> window_pixel w (a, b) | None \<Rightarrow> view info t (a, b))"
    using Cons.IH [of t] Cons.prems t(2) by auto
  show ?case
  proof (intro exI [of _ u] conjI allI impI)
    show "foldM (blit_window info) (w # ws) fb = Some u" using t(1) u(1) by simp
    show "length u = frame_size info" by (rule u(2))
    show "view info u (a, b) = (case top_window (w # ws) (a, b) of Some w \<Rightarrow> window_pixel w (a, b) | None \<Rightarrow> view info fb (a, b))"
      if "a < width info" "b < height info" for a b
      using u(3) t(3) that by (auto simp: top_window_def find_snoc split: option.split)
  qed
qed

definition below_cursor :: "font \<Rightarrow> fb_info \<Rightarrow> wm \<Rightarrow> nat \<times> nat \<Rightarrow> u8 list" where
  "below_cursor font info wm p = (case top_window (windows wm) p of
      Some w \<Rightarrow> window_pixel w p
    | None \<Rightarrow> render (encode info) (taskbar_pic font info (windows wm) (focused wm)) p (view info (bg_cache wm) p))"

lemma compose_back:
  assumes "wm_inv info wm" and "font_ok font"
  obtains bar bk where "copy_from_slice (back_buf wm) (bg_cache wm) = Some (bg_cache wm)"
    and "draw_taskbar font info (taskbar_height wm) (windows wm) (focused wm) (bg_cache wm) = Some bar"
    and "foldM (blit_window info) (windows wm) bar = Some bk" and "length bk = frame_size info"
    and "\<And>a b. a < width info \<Longrightarrow> b < height info \<Longrightarrow> view info bk (a, b) = below_cursor font info wm (a, b)"
proof -
  note scr = wm_inv_facts(1) [OF assms(1)] and info = wm_inv_facts(2) [OF assms(1)]
  have wins: "\<forall>win \<in> set (windows wm). win_ok info win" using wm_inv_facts(6) [OF assms(1)] by blast
  have len: "length (bg_cache wm) = frame_size info" "length (back_buf wm) = frame_size info"
    using assms(1) by (auto simp: wm_inv_def)
  have "fb.draws info (frame_size info) (draw_taskbar font info TASKBAR_HEIGHT (windows wm) (focused wm))
    (taskbar_pic font info (windows wm) (focused wm))"
    using wins by (intro draw_taskbar_draws scr assms(2) wm_inv_facts(7) [OF assms(1)]) (auto intro: win_ok_title)
  then obtain bar where bar: "draw_taskbar font info TASKBAR_HEIGHT (windows wm) (focused wm) (bg_cache wm) = Some bar"
    "fb.paints info (frame_size info) (taskbar_pic font info (windows wm) (focused wm)) (bg_cache wm) bar"
    using fb.drawsE info len(1) by metis
  have "length bar = frame_size info" using fb.paints_ok [OF bar(2)] by simp
  from blit_windows_view [OF scr wins this] obtain bk where
    bk: "foldM (blit_window info) (windows wm) bar = Some bk" "length bk = frame_size info"
    "\<forall>a < width info. \<forall>b < height info. view info bk (a, b) =
      (case top_window (windows wm) (a, b) of Some w \<Rightarrow> window_pixel w (a, b) | None \<Rightarrow> view info bar (a, b))" by blast
  show ?thesis
  proof (rule that [OF _ _ bk(1,2)])
    show "copy_from_slice (back_buf wm) (bg_cache wm) = Some (bg_cache wm)" using len by (simp add: copy_from_slice_def)
    show "draw_taskbar font info (taskbar_height wm) (windows wm) (focused wm) (bg_cache wm) = Some bar"
      using bar(1) wm_inv_facts(9) [OF assms(1)] by simp
    show "view info bk (a, b) = below_cursor font info wm (a, b)" if "a < width info" "b < height info" for a b
    proof -
      have "(a, b) \<in> canvas info (frame_size info)" using info that by (intro frame_canvas) (auto simp: frame_size_def)
      then show ?thesis using bk(3) that fb.paints_view [OF bar(2), of "(a, b)"]
        by (auto simp: below_cursor_def split: option.split)
    qed
  qed
qed

lemma composite_total:
  assumes "wm_inv info wm" and "font_ok font" and "length fb = frame_size info"
  obtains wm' fb' where "composite font info (wm, fb) = Some (wm', fb')" and "wm_inv info wm'"
    and "length fb' = frame_size info" and "needs_composite wm' = False"
    and "windows wm' = map (\<lambda>win. win\<lparr>dirty := False\<rparr>) (windows wm)" and "focused wm' = focused wm"
    and "next_id wm' = next_id wm"
proof -
  obtain bar bk where b: "copy_from_slice (back_buf wm) (bg_cache wm) = Some (bg_cache wm)"
    "draw_taskbar font info (taskbar_height wm) (windows wm) (focused wm) (bg_cache wm) = Some bar"
    "foldM (blit_window info) (windows wm) bar = Some bk" "length bk = frame_size info"
    by (rule compose_back [OF assms(1,2)])
  note cur = wm_inv_facts(4) [OF assms(1)] and info = wm_inv_facts(2) [OF assms(1)]
  obtain bg where bg: "save_background info bk (wm_cursor wm) = Some ((wm_cursor wm)\<lparr>saved_bg := bg\<rparr>)" "length bg = 192"
    using save_background_spec [OF cur info] by blast
  let ?cur = "(wm_cursor wm)\<lparr>saved_bg := bg\<rparr>"
  have cur': "cursor_inv info ?cur" "cursor_inv info (?cur\<lparr>visible := True\<rparr>)"
    using cur bg(2) by (auto simp: cursor_inv_def CURSOR_W_def CURSOR_H_def)
  obtain t where t: "cursor_draw info ?cur bk = Some t" "length t = frame_size info"
    using fb.drawsE [OF cursor_draw_draws [OF cur'(1), of "frame_size info"]] info b(4) fb.paints_ok by metis
  define wm' where "wm' = wm\<lparr>back_buf := t, wm_cursor := ?cur\<lparr>visible := True\<rparr>, needs_composite := False,
    windows := map (\<lambda>win. win\<lparr>dirty := False\<rparr>) (windows wm)\<rparr>"
  have "composite font info (wm, fb) = Some (wm', t)"
    using b bg(1) t assms(3) by (simp add: composite_def copy_from_slice_def wm'_def)
  moreover have "wm_inv info wm'"
    using assms(1) cur'(2) t(2) unfolding wm_inv_def wm'_def
    by (auto simp: wins_ok_def comp_def focus_ok_def image_image split: option.splits)
  ultimately show ?thesis using t(2) by (intro that [of wm' t]) (simp_all add: wm'_def)
qed

end
