(* ===== verification/WmOps.thy ===== *)
theory WmOps
  imports WmInv
begin

text \<open>
  The operations of the window manager keep its invariant and never panic: creation, consoles,
  drawing on a console, clicks and movements of the mouse. \<open>wm_step\<close> is the step relation of all of
  them on the desktop.
\<close>

section \<open>Creation\<close>

definition geometry_ok :: "nat \<Rightarrow> nat \<Rightarrow> nat \<Rightarrow> nat \<Rightarrow> bool" where
  "geometry_ok x y w h \<longleftrightarrow> x \<le> 2 ^ 15 \<and> y \<le> 2 ^ 15 \<and> 12 \<le> w \<and> w \<le> 2 ^ 15 \<and> 52 \<le> h \<and> h \<le> 2 ^ 15"

lemma wm_new_inv:
  assumes "screen_ok info"
  obtains wm where "wm_new info = Some wm" and "wm_inv info wm" and "windows wm = []" and "next_id wm = 0"
    and "needs_composite wm" and "\<not> visible (wm_cursor wm)"
proof -
  let ?n = "frame_size info"
  have info: "info_ok info" "width info \<le> 2 ^ 24" "height info \<le> 2 ^ 24" "stride info = width info"
    using assms by (auto simp: screen_ok_def)
  have n: "?n < 2 ^ 64" using info(1) by (simp add: info_ok_def frame_size_def)
  have "width info * height info \<le> 2 ^ 15 * 2 ^ 15" using assms by (intro mult_le_mono) (auto simp: screen_ok_def)
  then have size: "umul (width info) (height info) = Some (width info * height info)"
    "umul (width info * height info) (bytes_per_pixel info) = Some ?n"
    using n info(4) by (simp_all add: in_range frame_size_def)
  obtain bg where bg: "draw_background info (replicate ?n 0) = Some bg" "length bg = ?n"
  proof (rule fb.drawsE [OF draw_background_draws [OF info(1,3,2), of ?n]])
    show "info_ok info \<and> length (replicate ?n (0 :: u8)) = ?n" using info(1) by simp
    show "\<And>t. draw_background info (replicate ?n 0) = Some t \<Longrightarrow>
      fb.paints info ?n (background_pic info) (replicate ?n 0) t \<Longrightarrow> thesis"
      using that fb.paints_ok by blast
  qed
  define wm where "wm = \<lparr>windows = [], focused = None, next_id = 0, wm_cursor = cursor_new (width info) (height info),
       screen_info = info, taskbar_height = TASKBAR_HEIGHT, needs_composite = True,
       back_buf = replicate ?n 0, bg_cache = bg\<rparr>"
  have cur: "cursor_inv info (cursor_new (width info) (height info)) \<and> \<not> visible (cursor_new (width info) (height info))"
    using assms by (intro cursor_new_inv) (auto simp: screen_ok_def)
  have "wm_new info = Some wm" using size bg(1) by (simp add: wm_new_def wm_def)
  moreover have "wm_inv info wm"
    using assms cur bg(2) by (simp add: wm_inv_def wm_def wins_ok_def focus_ok_def)
  ultimately show ?thesis using cur by (intro that [of wm]) (simp_all add: wm_def)
qed

lemma title_bytes_eq:
  "title_bytes name = Some (take 32 (as_bytes name) @ replicate (32 - length (as_bytes name)) 0, min (length (as_bytes name)) 32)"
  by (simp add: title_bytes_def MAX_TITLE_def copy_into_def write_slice_def sub_slice_def min_def Let_def)

lemma create_window_spec:
  assumes "wm_inv info wm" and "font_ok font" and "geometry_ok x y w h" and "next_id wm < 2 ^ 32"
  obtains win where "create_window font x y w h name owner wm = Some (next_id wm, wm\<lparr>windows := windows wm @ [win],
      focused := (if focused wm = None then Some (next_id wm) else focused wm), next_id := next_id wm + 1, needs_composite := True\<rparr>)"
    and "wm_inv info (wm\<lparr>windows := windows wm @ [win],
      focused := (if focused wm = None then Some (next_id wm) else focused wm), next_id := next_id wm + 1, needs_composite := True\<rparr>)"
    and "win_ok info win" and "win_id win = next_id wm" and "win_x win = x" and "win_y win = y" and "win_width win = w"
    and "win_height win = h" and "win_console win = None" and "owner_task win = owner"
    and "take (title_len win) (title win) = take 32 (as_bytes name)" and "next_id wm \<notin> win_id ` set (windows wm)"
proof -
  note scr = wm_inv_facts(1) [OF assms(1)]
  have geo: "x \<le> 2 ^ 15" "y \<le> 2 ^ 15" "12 \<le> w" "w \<le> 2 ^ 15" "52 \<le> h" "h \<le> 2 ^ 15"
    using assms(3) by (auto simp: geometry_ok_def)
  let ?n = "w * h * bytes_per_pixel info" and ?id = "next_id wm"
  have "w * h \<le> 2 ^ 15 * 2 ^ 15" using geo by (intro mult_le_mono) auto
  then have size: "umul w h = Some (w * h)" "umul (w * h) (bytes_per_pixel info) = Some ?n"
    using win_info_ok(2) [OF scr geo(4,6)] by (simp_all add: in_range)
  define foc where "foc \<longleftrightarrow> focused wm = None \<or> focused wm = Some ?id"
  define win where "win = \<lparr>win_id = ?id, win_x = x, win_y = y, win_width = w, win_height = h,
    title = take 32 (as_bytes name) @ replicate (32 - length (as_bytes name)) 0, title_len = min (length (as_bytes name)) 32,
    win_buf = replicate ?n 0, buf_info = win_info info w h, win_console = None, dirty = True, owner_task = owner\<rparr>"
  have "win_ok info win" using geo by (simp add: win_ok_def win_def win_size_def)
  from draw_chrome_repaints [OF scr this assms(2), of foc] obtain win' where
    win': "draw_chrome font foc win = Some win'" "repainted info win win'" by blast
  have ok: "win_ok info win'" using win'(2) by (simp add: repainted_def)
  have fresh: "?id \<notin> win_id ` set (windows wm)" using assms(1) by (auto simp: wm_inv_def wins_ok_def)
  define wm' where "wm' = wm\<lparr>windows := windows wm @ [win'],
      focused := (if focused wm = None then Some ?id else focused wm), next_id := ?id + 1, needs_composite := True\<rparr>"
  have "uadd ?id 1 = Some (?id + 1)" using assms(4) by (simp add: in_range)
  then have "create_window font x y w h name owner wm = Some (?id, wm')"
    using size win'(1) wm_inv_facts(8) [OF assms(1)]
    by (simp add: create_window_def title_bytes_eq win_info_def [symmetric] foc_def win_def wm'_def Let_def)
  moreover have "wm_inv info wm'"
  proof -
    have "wins_ok info (?id + 1) (windows wm @ [win'])"
      using assms(1,4) ok fresh repainted_same [OF win'(2)] by (auto simp: wm_inv_def wins_ok_def win_def less_Suc_eq)
    moreover have "focus_ok (if focused wm = None then Some ?id else focused wm) (windows wm @ [win'])"
      using assms(1) repainted_same [OF win'(2)] by (auto simp: wm_inv_def focus_ok_def win_def split: option.splits)
    ultimately show ?thesis using assms(1) by (simp add: wm_inv_def wm'_def)
  qed
  moreover have "take (min (length (as_bytes name)) 32) (as_bytes name) = take 32 (as_bytes name)" by (simp add: min_def)
  ultimately show ?thesis
    using that [of win'] ok fresh repainted_same [OF win'(2)] by (simp add: wm'_def win_def)
qed

section \<open>Consoles\<close>

text \<open>What a drawing operation on a console promises of the geometry.\<close>

definition console_safe :: "(fb_info \<Rightarrow> console \<times> fb_buffer \<Rightarrow> (console \<times> fb_buffer) option) \<Rightarrow> bool" where
  "console_safe f \<longleftrightarrow> (\<forall>info n con buf. con_inv info n con \<and> 0 < rows con \<and> length buf = n \<longrightarrow>
     (\<exists>con' buf'. f info (con, buf) = Some (con', buf') \<and> con_inv info n con' \<and> content con' = content con \<and> length buf' = n))"

lemma con_refines_somewhere:
  "con_inv info n con \<Longrightarrow> length buf = n \<Longrightarrow> con_refines font info n False (con, buf) \<lparr>grid = \<lambda>_. [], trow = row con, tcol = col con\<rparr>"
  by (simp add: con_refines_def)

lemma write_str_safe:
  assumes "font_ok font"
  shows "console_safe (\<lambda>info. write_str font info s)"
  unfolding console_safe_def
proof (intro allI impI)
  fix info n con and buf :: fb_buffer assume a: "con_inv info n con \<and> 0 < rows con \<and> length buf = n"
  then have "con_refines font info n False (con, buf) \<lparr>grid = \<lambda>_. [], trow = row con, tcol = col con\<rparr>"
    by (intro con_refines_somewhere) auto
  from write_str_step [OF this assms, of s] show "\<exists>con' buf'. write_str font info s (con, buf) = Some (con', buf') \<and>
    con_inv info n con' \<and> content con' = content con \<and> length buf' = n"
    by (auto simp: con_refines_def same_outside_def split: prod.splits)
qed

lemma console_clear_safe: "console_safe console_clear"
  unfolding console_safe_def
proof (intro allI impI)
  fix info n con and buf :: fb_buffer assume a: "con_inv info n con \<and> 0 < rows con \<and> length buf = n"
  then have "con_refines (\<lambda>_. None) info n False (con, buf) \<lparr>grid = \<lambda>_. [], trow = row con, tcol = col con\<rparr>"
    by (intro con_refines_somewhere) auto
  from console_clear_refines [OF this] show "\<exists>con' buf'. console_clear info (con, buf) = Some (con', buf') \<and>
    con_inv info n con' \<and> content con' = content con \<and> length buf' = n"
    by (auto simp: con_refines_def same_outside_def split: prod.splits)
qed

lemma cursor_bar_step:
  assumes "con_inv info n con" and "0 < rows con" and "length buf = n"
  obtains t where "cursor_bar info con c buf = Some t" and "length t = n"
    and "\<And>p. p \<in> box (rx (content con) + 8 * col con) (ry (content con) + 16 * row con) 1 16 \<Longrightarrow> p \<in> canvas info n \<Longrightarrow>
      has_colour info t p c"
    and "\<And>p. p \<notin> box (rx (content con) + 8 * col con) (ry (content con) + 16 * row con) 1 16 \<Longrightarrow> view info t p = view info buf p"
  using draws_step [OF cursor_bar_draws [OF cursor_bar_range [OF assms(1,2)]]
      content_ok_info [OF con_inv_facts(1) [OF assms(1)]] assms(3)] by blast

lemma con_inv_cursor [simp]: "con_inv info n (con\<lparr>cursor_visible := b\<rparr>) = con_inv info n con"
  by (simp add: con_inv_def)

lemma draw_cursor_safe: "console_safe draw_cursor"
  unfolding console_safe_def
proof (intro allI impI)
  fix info n con and buf :: fb_buffer assume a: "con_inv info n con \<and> 0 < rows con \<and> length buf = n"
  then obtain t where "cursor_bar info con white buf = Some t" "length t = n" using cursor_bar_step by blast
  then show "\<exists>con' buf'. draw_cursor info (con, buf) = Some (con', buf') \<and>
    con_inv info n con' \<and> content con' = content con \<and> length buf' = n"
    using a by (auto simp: draw_cursor_def)
qed

lemma erase_cursor_safe: "console_safe erase_cursor"
  unfolding console_safe_def
proof (intro allI impI)
  fix info n con and buf :: fb_buffer assume a: "con_inv info n con \<and> 0 < rows con \<and> length buf = n"
  then obtain t where "cursor_bar info con black buf = Some t" "length t = n" using cursor_bar_step by blast
  then show "\<exists>con' buf'. erase_cursor info (con, buf) = Some (con', buf') \<and>
    con_inv info n con' \<and> content con' = content con \<and> length buf' = n"
    using a by (auto simp: erase_cursor_def)
qed

lemma win_console_rows:
  assumes "win_ok info win" and "win_console win = Some con"
  shows "con_inv (buf_info win) (win_size win) con" and "content con = win_content win" and "0 < rows con" and "length (win_buf win) = win_size win"
  using assms by (auto simp: win_ok_def con_inv_def win_content_def)

lemma win_ok_console:
  assumes "win_ok info win" and "con_inv (buf_info win) (win_size win) con" and "content con = win_content win"
    and "length buf = win_size win"
  shows "win_ok info (win\<lparr>win_console := Some con, win_buf := buf, dirty := d\<rparr>)"
  using assms by (simp add: win_ok_def win_size_def win_content_def)

lemma on_console_total:
  assumes "console_safe f" and "win_ok info win"
  obtains win' where "on_console f win = Some win'" and "win_ok info win'" and "win_id win' = win_id win"
proof (cases "win_console win")
  case None
  then show ?thesis using that [of win] assms(2) by (simp add: on_console_def)
next
  case (Some con)
  note w = win_console_rows [OF assms(2) Some]
  from assms(1) w obtain con' buf' where "f (buf_info win) (con, win_buf win) = Some (con', buf')"
    "con_inv (buf_info win) (win_size win) con'" "content con' = content con" "length buf' = win_size win"
    unfolding console_safe_def by blast
  then show ?thesis
    using that [of "win\<lparr>win_console := Some con', win_buf := buf', dirty := True\<rparr>"] win_ok_console [OF assms(2)] w(2)
    by (simp add: on_console_def Some)
qed

lemma window_mut_inv:
  assumes "wm_inv info wm" and "\<And>win. win_ok info win \<Longrightarrow> \<exists>win'. f win = Some win' \<and> win_ok info win' \<and> win_id win' = win_id win"
  shows "window_mut wid f wm = Some (wm\<lparr>windows := upd_win wid (\<lambda>w. the (f w)) (windows wm)\<rparr>)"
    and "wm_inv info (wm\<lparr>windows := upd_win wid (\<lambda>w. the (f w)) (windows wm)\<rparr>)"
proof -
  have f: "f win = Some (the (f win)) \<and> win_ok info (the (f win)) \<and> win_id (the (f win)) = win_id win" if "win_ok info win" for win
    using assms(2) [OF that] by auto
  show "window_mut wid f wm = Some (wm\<lparr>windows := upd_win wid (\<lambda>w. the (f w)) (windows wm)\<rparr>)"
    by (rule window_mut_total(1) [OF assms(1)]) (use f in auto)
  show "wm_inv info (wm\<lparr>windows := upd_win wid (\<lambda>w. the (f w)) (windows wm)\<rparr>)"
    by (rule window_mut_total(2) [OF assms(1), where f = f]) (use f in auto)
qed

lemma console_op_inv:
  assumes "wm_inv info wm" and "console_safe f"
  shows "\<exists>wm'. console_op f wid wm = Some wm' \<and> wm_inv info wm'"
proof -
  have "\<exists>win'. on_console f win = Some win' \<and> win_ok info win' \<and> win_id win' = win_id win" if "win_ok info win" for win
    using on_console_total [OF assms(2) that] by blast
  from window_mut_inv [OF assms(1) this] show ?thesis by (simp add: console_op_def)
qed

lemma mark_dirty_inv:
  assumes "wm_inv info wm"
  shows "\<exists>wm'. mark_dirty wid wm = Some wm' \<and> wm_inv info wm'"
proof -
  have "\<exists>win'. Some (win\<lparr>dirty := True\<rparr>) = Some win' \<and> win_ok info win' \<and> win_id win' = win_id win" if "win_ok info win" for win
    using that by auto
  from window_mut_inv [OF assms this] show ?thesis by (simp add: mark_dirty_def)
qed

lemma init_console_win:
  assumes "screen_ok info" and "win_ok info win"
  obtains con buf where "content_rect win = Some (win_content win)"
    and "console_new (buf_info win) (win_content win) (win_buf win) = Some (con, buf)"
    and "con_refines font (buf_info win) (win_size win) True (con, buf) term_blank" and "content con = win_content win"
    and "\<not> cursor_visible con" and "win_ok info (win\<lparr>win_buf := buf, win_console := Some con\<rparr>)"
proof -
  have len: "length (win_buf win) = win_size win" using assms(2) by (simp add: win_ok_def)
  from console_new_refines [OF win_ok_facts(2) [OF assms] len, of font True] obtain con buf where
    con: "console_new (buf_info win) (win_content win) (win_buf win) = Some (con, buf)" "content con = win_content win"
      "\<not> cursor_visible con" "con_refines font (buf_info win) (win_size win) True (con, buf) term_blank"
    unfolding term_blank_def by blast
  have "con_inv (buf_info win) (win_size win) con" "length buf = win_size win" using con(4) by (auto simp: con_refines_def)
  then have "win_ok info (win\<lparr>win_buf := buf, win_console := Some con\<rparr>)"
    using assms(2) con(2) by (simp add: win_ok_def win_size_def win_content_def)
  then show ?thesis using that content_rect_eq [OF assms(2)] con by blast
qed

lemma init_console_inv:
  assumes "wm_inv info wm"
  shows "\<exists>wm'. init_console wid wm = Some wm' \<and> wm_inv info wm'"
proof -
  let ?f = "\<lambda>win. do { r \<leftarrow> content_rect win; (con, buf) \<leftarrow> console_new (buf_info win) r (win_buf win);
     Some (win\<lparr>win_buf := buf, win_console := Some con\<rparr>) }"
  have "\<exists>win'. ?f win = Some win' \<and> win_ok info win' \<and> win_id win' = win_id win" if win: "win_ok info win" for win
    by (rule init_console_win [OF wm_inv_facts(1) [OF assms] win]) auto
  from window_mut_inv [OF assms this] show ?thesis by (simp add: init_console_def)
qed

section \<open>The mouse\<close>

lemma label_at_total:
  assumes "\<forall>win \<in> set ws. title_ok win" and "lx + 272 * length ws < 2 ^ 62"
  shows "\<exists>r. label_at mx ws lx = Some r \<and> (\<forall>i. r = Some i \<longrightarrow> i \<in> win_id ` set ws)"
  using assms
proof (induction ws arbitrary: lx)
  case (Cons w ws)
  have w: "title_len w \<le> 32" using Cons.prems(1) by (simp add: title_ok_def)
  then have a: "umul (title_len w) FONT_WIDTH = Some (title_len w * 8)" "uadd (title_len w * 8) 16 = Some (title_len w * 8 + 16)"
    "uadd lx (title_len w * 8 + 16) = Some (lx + (title_len w * 8 + 16))"
    using Cons.prems(2) by (simp_all add: in_range FONT_sizes)
  obtain r where "label_at mx ws (lx + (title_len w * 8 + 16)) = Some r \<and> (\<forall>i. r = Some i \<longrightarrow> i \<in> win_id ` set ws)"
    using Cons.IH [of "lx + (title_len w * 8 + 16)"] Cons.prems w by auto
  then show ?case using a by auto
qed simp

lemma in_window_eq:
  assumes "win_ok info win"
  shows "in_window mx my win = Some (covers win (mx, my))"
proof -
  have "win_x win \<le> 2 ^ 15" "win_y win \<le> 2 ^ 15" "win_width win \<le> 2 ^ 15" "win_height win \<le> 2 ^ 15"
    using assms by (auto simp: win_ok_def)
  then show ?thesis by (auto simp: in_window_def covers_def in_range)
qed

lemma window_at_eq:
  "\<forall>win \<in> set ws. win_ok info win \<Longrightarrow> window_at mx my ws = Some (map_option win_id (List.find (\<lambda>w. covers w (mx, my)) ws))"
  by (induction ws) (simp_all add: in_window_eq [where info = info])

lemma window_at_top:
  assumes "wm_inv info wm"
  shows "window_at mx my (rev (windows wm)) = Some (map_option win_id (top_window (windows wm) (mx, my)))"
  unfolding top_window_def using wm_inv_facts(6) [OF assms] by (intro window_at_eq) auto

lemma top_window_member: "top_window ws p = Some w \<Longrightarrow> w \<in> set ws \<and> covers w p"
  by (auto simp: top_window_def find_Some_iff) (metis length_rev nth_mem set_rev)

text \<open>A change of focus leaves the pointer and the back buffer alone.\<close>

definition desk_same :: "wm \<Rightarrow> wm \<Rightarrow> bool" where
  "desk_same wm wm' \<longleftrightarrow> wm_cursor wm' = wm_cursor wm \<and> back_buf wm' = back_buf wm \<and> bg_cache wm' = bg_cache wm \<and>
     next_id wm' = next_id wm \<and> (needs_composite wm \<longrightarrow> needs_composite wm')"

lemma focus_window_inv:
  assumes "wm_inv info wm" and "font_ok font" and "wid \<in> win_id ` set (windows wm)"
  obtains wm' where "focus_window font wid wm = Some wm'" and "wm_inv info wm'" and "focused wm' = Some wid"
    and "desk_same wm wm'" and "wm' = wm \<or> needs_composite wm'"
proof (cases "focused wm = Some wid")
  case True
  then show ?thesis using that [of wm] assms(1) by (simp add: focus_window_def desk_same_def)
next
  case False
  obtain g where "focus_window font wid wm = Some (wm\<lparr>windows := map g (to_front wid (windows wm)), focused := Some wid,
      needs_composite := True\<rparr>)"
    "wm_inv info (wm\<lparr>windows := map g (to_front wid (windows wm)), focused := Some wid, needs_composite := True\<rparr>)"
    using focus_window_spec [OF assms False] by blast
  then show ?thesis
    by (intro that [of "wm\<lparr>windows := map g (to_front wid (windows wm)), focused := Some wid, needs_composite := True\<rparr>"])
      (simp_all add: desk_same_def)
qed

lemma handle_taskbar_click_inv:
  assumes "wm_inv info wm" and "font_ok font"
  obtains wm' where "handle_taskbar_click font mx wm = Some wm'" and "wm_inv info wm'" and "desk_same wm wm'"
proof -
  have "\<exists>r. label_at mx (windows wm) 54 = Some r \<and> (\<forall>i. r = Some i \<longrightarrow> i \<in> win_id ` set (windows wm))"
    using wm_inv_facts(6,7) [OF assms(1)] by (intro label_at_total) (auto intro: win_ok_title)
  then obtain r where r: "label_at mx (windows wm) 54 = Some r" "\<forall>i. r = Some i \<longrightarrow> i \<in> win_id ` set (windows wm)" by blast
  show ?thesis
  proof (cases r)
    case None
    then show ?thesis using r assms(1) by (intro that [of wm]) (simp_all add: handle_taskbar_click_def FONT_sizes desk_same_def)
  next
    case (Some i)
    then obtain wm' where "focus_window font i wm = Some wm'" "wm_inv info wm'" "desk_same wm wm'"
      using focus_window_inv [OF assms] r(2) by blast
    then show ?thesis using r Some by (intro that [of wm']) (simp_all add: handle_taskbar_click_def FONT_sizes)
  qed
qed

lemma left_click_inv:
  assumes "wm_inv info wm" and "font_ok font"
  obtains wm' where "left_click font wm = Some wm'" and "wm_inv info wm'" and "desk_same wm wm'" and "wm' = wm \<or> needs_composite wm'"
proof -
  let ?mx = "nat (cur_x (wm_cursor wm))" and ?my = "nat (cur_y (wm_cursor wm))"
  have pos: "i32_as_usize (cur_x (wm_cursor wm)) = ?mx" "i32_as_usize (cur_y (wm_cursor wm)) = ?my"
    using cursor_in_range(1,2) [OF wm_inv_facts(4) [OF assms(1)], of 0 0] by auto
  show ?thesis
  proof (cases "saturating_sub (height (screen_info wm)) (taskbar_height wm) \<le> ?my")
    case True
    obtain wm' where "handle_taskbar_click font ?mx wm = Some wm'" "wm_inv info wm'" "desk_same wm wm'"
      using handle_taskbar_click_inv [OF assms] by blast
    then show ?thesis using True
      by (intro that [of "wm'\<lparr>needs_composite := True\<rparr>"]) (simp_all add: left_click_def pos desk_same_def)
  next
    case False
    show ?thesis
    proof (cases "top_window (windows wm) (?mx, ?my)")
      case None
      then show ?thesis using False window_at_top [OF assms(1)] assms(1)
        by (intro that [of wm]) (simp_all add: left_click_def pos desk_same_def)
    next
      case (Some w)
      then have "win_id w \<in> win_id ` set (windows wm)" using top_window_member by blast
      then obtain wm' where "focus_window font (win_id w) wm = Some wm'" "wm_inv info wm'" "desk_same wm wm'"
        "wm' = wm \<or> needs_composite wm'"
        using focus_window_inv [OF assms] by blast
      then show ?thesis using False Some window_at_top [OF assms(1)]
        by (intro that [of wm']) (simp_all add: left_click_def pos)
    qed
  qed
qed

lemma restore_cursor_eq: "restore_cursor = restore_background"
  by (auto simp: fun_eq_iff restore_cursor_def restore_background_def)

lemma restore_total:
  assumes "cursor_inv info cur" and "info_ok info"
  obtains t where "restore_background info cur buf = Some t" and "length t = length buf"
proof (cases "visible cur")
  case True
  show ?thesis
  proof (rule fb.drawsE [OF restore_draws [OF assms(1) True, of "length buf"], of buf])
    show "info_ok info \<and> length buf = length buf" using assms(2) by simp
    show "\<And>t. restore_background info cur buf = Some t \<Longrightarrow> fb.paints info (length buf) (saved_pic cur) buf t \<Longrightarrow> thesis"
      using that fb.paints_ok by blast
  qed
next
  case False
  then show ?thesis using that [of buf] by (simp add: restore_background_def)
qed

definition move_ok :: "mouse_event \<Rightarrow> bool" where
  "move_ok e \<longleftrightarrow> i16_range (dx e) \<and> i16_range (dy e)"

lemma wm_inv_cursor: "wm_inv info wm \<Longrightarrow> cursor_inv info cur \<Longrightarrow> wm_inv info (wm\<lparr>wm_cursor := cur\<rparr>)"
  by (simp add: wm_inv_def)

lemma handle_mouse_inv:
  assumes "wm_inv info wm" and "font_ok font" and "move_ok e" and "length fb = frame_size info"
  obtains wm' fb' where "handle_mouse font e info (wm, fb) = Some (wm', fb')" and "wm_inv info wm'" and "length fb' = frame_size info"
    and "next_id wm' = next_id wm"
proof -
  note cur = wm_inv_facts(4) [OF assms(1)] and info = wm_inv_facts(2) [OF assms(1)]
  obtain fb1 where fb1: "restore_cursor info (wm_cursor wm) fb = Some fb1" "length fb1 = frame_size info"
    using restore_total [OF cur info] assms(4) restore_cursor_eq by metis
  define cur1 where "cur1 = (wm_cursor wm)\<lparr>cur_x := max 0 (min (int (width info) - 1) (cur_x (wm_cursor wm) + dx e)),
    cur_y := max 0 (min (int (height info) - 1) (cur_y (wm_cursor wm) - dy e))\<rparr>"
  have cur1: "apply_delta (dx e) (dy e) (wm_cursor wm) = Some cur1" "cursor_inv info cur1"
    using apply_delta_spec [OF cur] assms(3) by (auto simp: move_ok_def cur1_def)
  have inv1: "wm_inv info (wm\<lparr>wm_cursor := cur1\<rparr>)" using wm_inv_cursor [OF assms(1) cur1(2)] .
  obtain lc where "left_click font (wm\<lparr>wm_cursor := cur1\<rparr>) = Some lc" "wm_inv info lc" "next_id lc = next_id wm"
    using left_click_inv [OF inv1 assms(2)] by (auto simp: desk_same_def)
  then obtain wm2 where wm2: "(if mouse_event.left e then left_click font (wm\<lparr>wm_cursor := cur1\<rparr>) else Some (wm\<lparr>wm_cursor := cur1\<rparr>)) = Some wm2"
    "wm_inv info wm2" "next_id wm2 = next_id wm"
    using inv1 by (cases "mouse_event.left e") auto
  show ?thesis
  proof (cases "needs_composite wm2")
    case True
    then show ?thesis using fb1 cur1(1) wm2 by (intro that [of wm2 fb1]) (simp_all add: handle_mouse_def)
  next
    case False
    note cur2 = wm_inv_facts(4) [OF wm2(2)]
    obtain bg where bg: "save_background info fb1 (wm_cursor wm2) = Some ((wm_cursor wm2)\<lparr>saved_bg := bg\<rparr>)" "length bg = 192"
      using save_background_spec [OF cur2 info] by blast
    let ?cur = "(wm_cursor wm2)\<lparr>saved_bg := bg\<rparr>"
    have c: "cursor_inv info ?cur" "cursor_inv info (?cur\<lparr>visible := True\<rparr>)"
      using cur2 bg(2) by (auto simp: cursor_inv_def CURSOR_W_def CURSOR_H_def)
    obtain t where t: "cursor_draw info ?cur fb1 = Some t" "length t = frame_size info"
      using fb.drawsE [OF cursor_draw_draws [OF c(1), of "frame_size info"]] info fb1(2) fb.paints_ok by metis
    show ?thesis
    proof (rule that)
      show "handle_mouse font e info (wm, fb) = Some (wm2\<lparr>wm_cursor := ?cur\<lparr>visible := True\<rparr>\<rparr>, t)"
        using fb1(1) cur1(1) wm2(1) bg(1) t(1) False by (simp add: handle_mouse_def)
      show "wm_inv info (wm2\<lparr>wm_cursor := ?cur\<lparr>visible := True\<rparr>\<rparr>)" by (rule wm_inv_cursor [OF wm2(2) c(2)])
    qed (use t(2) wm2(3) in simp_all)
  qed
qed

end
