(* ===== verification/WmDesk.thy ===== *)
theory WmDesk
  imports WmOps
begin

text \<open>
  The desktop: the requests that the tasks, the mouse and the idle loop make of the window manager, and the invariant that
  every sequence of them keeps. Here the buffers of the windows are always there; theory \<open>WmHeap\<close> has the
  requests with the heap that may refuse them, and \<open>WmScene\<close> what the screen shows.
\<close>

section \<open>Requests\<close>

datatype request =
    Create usize usize usize usize "unichar list" usize
  | Init_console usize
  | Write usize "unichar list"
  | Show_cursor usize
  | Hide_cursor usize
  | Clear usize
  | Mark_dirty usize
  | Mouse_event mouse_event
  | Composite

fun serve :: "font \<Rightarrow> request \<Rightarrow> desktop \<Rightarrow> desktop option" where
  "serve font (Create x y w h name owner) d = map_option snd (wm_create_window font x y w h name owner d)"
| "serve font (Init_console wid) d = wm_init_console wid d"
| "serve font (Write wid s) d = console_write font wid s d"
| "serve font (Show_cursor wid) d = console_show_cursor wid d"
| "serve font (Hide_cursor wid) d = console_hide_cursor wid d"
| "serve font (Clear wid) d = wm_console_clear wid d"
| "serve font (Mark_dirty wid) d = wm_mark_dirty wid d"
| "serve font (Mouse_event e) d = wm_handle_mouse font e d"
| "serve font Composite d = wm_composite font d"

fun request_ok :: "request \<Rightarrow> bool" where
  "request_ok (Create x y w h name owner) = geometry_ok x y w h"
| "request_ok (Mouse_event e) = move_ok e"
| "request_ok _ = True"

section \<open>No panic\<close>

definition desk_inv :: "fb_info \<Rightarrow> nat \<Rightarrow> desktop \<Rightarrow> bool" where
  "desk_inv info k d \<longleftrightarrow> (\<exists>wm buf. WM d = Some wm \<and> FB_STATE d = Some (info, buf) \<and> length buf = frame_size info \<and>
     wm_inv info wm \<and> next_id wm \<le> k)"

lemma desk_inv_mono: "desk_inv info k d \<Longrightarrow> k \<le> l \<Longrightarrow> desk_inv info l d"
  by (auto simp: desk_inv_def)

lemma wm_init_inv:
  assumes "screen_ok info" and "FB_STATE d = Some (info, buf)" and "length buf = frame_size info"
  obtains d' wm where "wm_init d = Some d'" and "desk_inv info 0 d'" and "d' = d\<lparr>WM := Some wm\<rparr>" and "wm_inv info wm"
    and "windows wm = []" and "needs_composite wm" and "next_id wm = 0"
proof -
  obtain wm where wm: "wm_new info = Some wm" "wm_inv info wm" "windows wm = []" "next_id wm = 0" "needs_composite wm"
    using wm_new_inv [OF assms(1)] by blast
  then show ?thesis
    using assms(2,3) by (intro that [of "d\<lparr>WM := Some wm\<rparr>" wm]) (auto simp: wm_init_def framebuffer_info_def desk_inv_def)
qed

lemma upd_wm_eq: "WM d = Some wm \<Longrightarrow> f wm = Some wm' \<Longrightarrow> upd_wm f d = Some (d\<lparr>WM := Some wm'\<rparr>)"
  by (simp add: upd_wm_def with_wm_def)

lemma window_mut_next_id: "window_mut wid f wm = Some wm' \<Longrightarrow> next_id wm' = next_id wm"
  by (auto simp: window_mut_def bind_eq_Some_conv)

lemma upd_wm_inv:
  assumes "desk_inv info k d"
    and "\<And>wm. wm_inv info wm \<Longrightarrow> \<exists>wm'. f wm = Some wm' \<and> wm_inv info wm'"
    and "\<And>wm wm'. f wm = Some wm' \<Longrightarrow> next_id wm' = next_id wm"
  shows "\<exists>d'. upd_wm f d = Some d' \<and> desk_inv info k d'"
proof -
  obtain wm buf where d: "WM d = Some wm" "FB_STATE d = Some (info, buf)" "length buf = frame_size info"
    "wm_inv info wm" "next_id wm \<le> k" using assms(1) by (auto simp: desk_inv_def)
  obtain wm' where wm': "f wm = Some wm'" "wm_inv info wm'" using assms(2) [OF d(4)] by blast
  then show ?thesis using upd_wm_eq [of d wm f, OF d(1) wm'(1)] d assms(3) [OF wm'(1)] by (auto simp: desk_inv_def)
qed

lemma console_op_next_id: "console_op f wid wm = Some wm' \<Longrightarrow> next_id wm' = next_id wm"
  by (auto simp: console_op_def bind_eq_Some_conv dest: window_mut_next_id)

lemma console_op_desk:
  assumes "desk_inv info k d" and "console_safe f"
  shows "\<exists>d'. upd_wm (console_op f wid) d = Some d' \<and> desk_inv info k d'"
  by (rule upd_wm_inv [OF assms(1)]) (auto intro: console_op_inv [OF _ assms(2)] dest: console_op_next_id)

lemma desk_create:
  assumes "desk_inv info k d" and "font_ok font" and "geometry_ok x y w h" and "k < 2 ^ 32"
  shows "\<exists>wid d'. wm_create_window font x y w h name owner d = Some (wid, d') \<and> desk_inv info (Suc k) d'"
proof -
  obtain wm buf where d: "WM d = Some wm" "FB_STATE d = Some (info, buf)" "length buf = frame_size info"
    "wm_inv info wm" "next_id wm \<le> k" using assms(1) by (auto simp: desk_inv_def)
  have nxt: "next_id wm < 2 ^ 32" using d(5) assms(4) by simp
  obtain wm' where "create_window font x y w h name owner wm = Some (next_id wm, wm')" "wm_inv info wm'" "next_id wm' = next_id wm + 1"
    by (rule create_window_spec [OF d(4) assms(2,3) nxt, of name owner]) auto
  then show ?thesis using d by (auto simp: wm_create_window_def with_wm_def desk_inv_def)
qed

lemma desk_composite:
  assumes "desk_inv info k d" and "font_ok font"
  shows "\<exists>d'. wm_composite font d = Some d' \<and> desk_inv info k d'"
proof -
  obtain wm buf where d: "WM d = Some wm" "FB_STATE d = Some (info, buf)" "length buf = frame_size info"
    "wm_inv info wm" "next_id wm \<le> k" using assms(1) by (auto simp: desk_inv_def)
  obtain wm' buf' where "composite font info (wm, buf) = Some (wm', buf')" "wm_inv info wm'" "length buf' = frame_size info"
    "next_id wm' = next_id wm"
    using composite_total [OF d(4) assms(2) d(3)] by metis
  then show ?thesis using d by (auto simp: wm_composite_def desk_inv_def)
qed

lemma desk_mouse:
  assumes "desk_inv info k d" and "font_ok font" and "move_ok e"
  shows "\<exists>d'. wm_handle_mouse font e d = Some d' \<and> desk_inv info k d'"
proof -
  obtain wm buf where d: "WM d = Some wm" "FB_STATE d = Some (info, buf)" "length buf = frame_size info"
    "wm_inv info wm" "next_id wm \<le> k" using assms(1) by (auto simp: desk_inv_def)
  obtain wm1 buf1 where m: "handle_mouse font e info (wm, buf) = Some (wm1, buf1)" "wm_inv info wm1" "length buf1 = frame_size info"
    "next_id wm1 = next_id wm" by (rule handle_mouse_inv [OF d(4) assms(2,3) d(3)])
  obtain wm2 buf2 where "composite font info (wm1, buf1) = Some (wm2, buf2)" "wm_inv info wm2" "length buf2 = frame_size info"
    "next_id wm2 = next_id wm1"
    using composite_total [OF m(2) assms(2) m(3)] by metis
  then show ?thesis using d m by (cases "needs_composite wm1") (auto simp: wm_handle_mouse_def desk_inv_def)
qed

fun creates :: "request \<Rightarrow> bool" where
  "creates (Create x y w h name owner) = True"
| "creates _ = False"

lemma serve_inv_same:
  assumes "desk_inv info k d" and "font_ok font" and "request_ok r" and "\<not> creates r"
  shows "\<exists>d'. serve font r d = Some d' \<and> desk_inv info k d'"
proof -
  note ops = upd_wm_inv [OF assms(1)] console_op_desk [OF assms(1)]
  show ?thesis
  proof (cases r)
    case (Init_console wid)
    then show ?thesis
      by (auto simp: wm_init_console_def init_console_def intro!: ops init_console_inv [unfolded init_console_def] dest: window_mut_next_id)
  next
    case (Mark_dirty wid)
    then show ?thesis
      by (auto simp: wm_mark_dirty_def intro!: ops mark_dirty_inv)
        (auto simp: mark_dirty_def bind_eq_Some_conv dest: window_mut_next_id)
  next
    case (Mouse_event e)
    then show ?thesis using assms(3) by (auto intro: desk_mouse [OF assms(1,2)])
  next
    case Composite
    then show ?thesis by (auto intro: desk_composite [OF assms(1,2)])
  qed (use assms(4) in \<open>auto simp: console_write_def console_show_cursor_def console_hide_cursor_def wm_console_clear_def
      intro!: ops write_str_safe draw_cursor_safe erase_cursor_safe console_clear_safe assms(2)\<close>)
qed

lemma serve_inv:
  assumes "desk_inv info k d" and "font_ok font" and "request_ok r" and "k < 2 ^ 32"
  shows "\<exists>d'. serve font r d = Some d' \<and> desk_inv info (Suc k) d'"
proof (cases "creates r")
  case True
  then obtain x y w h name owner where r: "r = Create x y w h name owner" by (cases r) auto
  then show ?thesis using desk_create [OF assms(1,2) _ assms(4), of x y w h name owner] assms(3) by auto
next
  case False
  then show ?thesis using serve_inv_same [OF assms(1-3)] desk_inv_mono [of info k _ "Suc k"] by auto
qed

lemma serve_all_inv:
  assumes "desk_inv info k d" and "font_ok font" and "\<forall>r \<in> set rs. request_ok r" and "k + length rs \<le> 2 ^ 32"
  shows "\<exists>d'. foldM (serve font) rs d = Some d' \<and> desk_inv info (k + length rs) d'"
  using assms(1,3,4)
proof (induction rs arbitrary: k d)
  case (Cons r rs)
  obtain d1 where d1: "serve font r d = Some d1" "desk_inv info (Suc k) d1"
    using serve_inv [OF Cons.prems(1) assms(2), of r] Cons.prems(2,3) by auto
  from Cons.IH [OF d1(2)] Cons.prems(2,3) obtain d2 where "foldM (serve font) rs d1 = Some d2" "desk_inv info (Suc k + length rs) d2"
    by auto
  then show ?case using d1(1) by simp
qed simp

definition sample_desktop :: desktop where
  "sample_desktop = \<lparr>WM = None, FB_STATE = Some (sample_info, replicate (frame_size sample_info) 0)\<rparr>"

lemma sample_desktop_ok:
  "screen_ok sample_info" "FB_STATE sample_desktop = Some (sample_info, replicate (frame_size sample_info) 0)"
  "length (replicate (frame_size sample_info) (0 :: u8)) = frame_size sample_info"
  using sample_info_ok(1) by (simp_all add: sample_desktop_def screen_ok_def) (simp_all add: sample_info_def)

lemma block_font_ok: "font_ok block_font"
  by (simp add: font_ok_def block_font_def)

definition sample_requests :: "request list" where
  "sample_requests = [Create 380 80 520 420 (lit ''Shell'') 1, Create 20 40 340 520 (lit ''Memory Map'') 2, Init_console 0,
     Write 0 (lit ''r-os> ''), Show_cursor 0, Composite,
     Mouse_event \<lparr>dx = 5, dy = - 300, left = True, right = False, middle = False\<rparr>]"

lemma sample_requests_ok: "\<forall>r \<in> set sample_requests. request_ok r" "length sample_requests = 7"
  by (simp_all add: sample_requests_def geometry_ok_def move_ok_def i16_range_def)

end
