(* ===== verification/WmScene.thy ===== *)
theory WmScene
  imports WmDesk
begin

text \<open>
  What the screen shows. \<open>scene\<close> is the painter's picture of the desktop: the topmost window at a
  point, below the windows the task bar, below it the background. A composition puts it on the
  screen with the pointer over it, and the other operations keep the screen up to date or ask for a
  composition.
\<close>

section \<open>The scene\<close>

definition scene :: "font \<Rightarrow> fb_info \<Rightarrow> wm \<Rightarrow> nat \<times> nat \<Rightarrow> rgb" where
  "scene font info wm p = (case top_window (windows wm) p of
      Some w \<Rightarrow> decode (buf_info w) (window_pixel w p)
    | None \<Rightarrow> (case colour_at (taskbar_pic font info (windows wm) (focused wm)) p of
          Some c \<Rightarrow> c
        | None \<Rightarrow> decode info (view info (bg_cache wm) p)))"

lemma canvas_in_frame: "(a, b) \<in> canvas info n \<Longrightarrow> a < width info \<and> b < height info"
  by (simp add: canvas_def)

lemma read_canvas: "info_ok info \<Longrightarrow> (x, y) \<in> canvas info (length buf) \<Longrightarrow> read_pixel info buf x y = Some (decode info (view info buf (x, y)))"
  by (simp add: read_pixel_spec)

lemma scene_of_views:
  assumes "wm_inv info wm" and "keeps_colour info" and "length bk = frame_size info"
    and "\<And>a b. a < width info \<Longrightarrow> b < height info \<Longrightarrow> view info bk (a, b) = below_cursor font info wm (a, b)"
  shows "scene_shown info (frame_size info) (scene font info wm) bk"
proof -
  note info = wm_inv_facts(2) [OF assms(1)]
  have "decode info (below_cursor font info wm (x, y)) = scene font info wm (x, y)"
    if "(x, y) \<in> canvas info (frame_size info)" for x y
  proof (cases "top_window (windows wm) (x, y)")
    case None
    have "length (bg_cache wm) = frame_size info" using assms(1) by (simp add: wm_inv_def)
    then have "length (view info (bg_cache wm) (x, y)) = bytes_per_pixel info" using length_view that by metis
    then show ?thesis using None decode_encode [OF info disjI1 [OF assms(2)]] shown_id [OF assms(2)]
      by (simp add: below_cursor_def scene_def fb.render_colour_at split: option.split)
  next
    case (Some w)
    then have "buf_info w = win_info info (win_width w) (win_height w)"
      using top_window_member [OF Some] wm_inv_facts(6) [OF assms(1)] by (simp add: win_ok_def)
    then show ?thesis using Some by (simp add: below_cursor_def scene_def)
  qed
  moreover have "view info bk (x, y) = below_cursor font info wm (x, y)" if "(x, y) \<in> canvas info (frame_size info)" for x y
    using assms(4) canvas_in_frame [OF that] by blast
  ultimately show ?thesis using assms(3) info by (simp add: scene_shown_def read_canvas)
qed

lemma scene_unaffected [simp]:
  "scene font info (wm\<lparr>wm_cursor := c\<rparr>) = scene font info wm" "scene font info (wm\<lparr>back_buf := b\<rparr>) = scene font info wm"
  "scene font info (wm\<lparr>needs_composite := n\<rparr>) = scene font info wm"
  by (simp_all add: scene_def fun_eq_iff split: option.split)

lemma labels_pic_dirty: "labels_pic font y h foc lx (map (\<lambda>w. w\<lparr>dirty := d\<rparr>) ws) = labels_pic font y h foc lx ws"
  by (induction ws arbitrary: lx) (simp_all add: label_pic_def label_width_def title_str_def)

lemma find_map: "List.find P (map f xs) = map_option f (List.find (\<lambda>x. P (f x)) xs)"
  by (induction xs) auto

lemma scene_dirty: "scene font info (wm\<lparr>windows := map (\<lambda>w. w\<lparr>dirty := d\<rparr>) (windows wm)\<rparr>) = scene font info wm"
proof
  fix p
  have "top_window (map (\<lambda>w. w\<lparr>dirty := d\<rparr>) (windows wm)) p = map_option (\<lambda>w. w\<lparr>dirty := d\<rparr>) (top_window (windows wm) p)"
    by (simp add: top_window_def rev_map find_map covers_def)
  then show "scene font info (wm\<lparr>windows := map (\<lambda>w. w\<lparr>dirty := d\<rparr>) (windows wm)\<rparr>) p = scene font info wm p"
    by (simp add: scene_def taskbar_pic_def labels_pic_dirty window_pixel_def split: option.split)
qed

section \<open>Composition\<close>

lemma composite_scene:
  assumes "wm_inv info wm" and "font_ok font" and "keeps_colour info" and "length fb = frame_size info"
  obtains wm' fb' where "composite font info (wm, fb) = Some (wm', fb')" and "wm_inv info wm'"
    and "cursor_over info (frame_size info) (scene font info wm) (wm_cursor wm') fb'"
    and "scene font info wm' = scene font info wm" and "\<not> needs_composite wm'"
    and "cur_x (wm_cursor wm') = cur_x (wm_cursor wm)" and "cur_y (wm_cursor wm') = cur_y (wm_cursor wm)"
    and "next_id wm' = next_id wm"
proof -
  obtain bar bk where b: "copy_from_slice (back_buf wm) (bg_cache wm) = Some (bg_cache wm)"
    "draw_taskbar font info (taskbar_height wm) (windows wm) (focused wm) (bg_cache wm) = Some bar"
    "foldM (blit_window info) (windows wm) bar = Some bk" "length bk = frame_size info"
    "\<And>a b. a < width info \<Longrightarrow> b < height info \<Longrightarrow> view info bk (a, b) = below_cursor font info wm (a, b)"
    by (rule compose_back [OF assms(1,2)]) blast
  note cur = wm_inv_facts(4) [OF assms(1)] and info = wm_inv_facts(2) [OF assms(1)]
  have "scene_shown info (frame_size info) (scene font info wm) bk" by (rule scene_of_views [OF assms(1,3) b(4,5)])
  from draw_shows [OF info assms(3) cur this] obtain cur' t where
    c: "save_background info bk (wm_cursor wm) = Some cur'" "cursor_draw info cur' bk = Some t" "cursor_inv info cur'"
      "cur_x cur' = cur_x (wm_cursor wm)" "cur_y cur' = cur_y (wm_cursor wm)"
      "cursor_over info (frame_size info) (scene font info wm) (cur'\<lparr>visible := True\<rparr>) t" by blast
  have len: "length t = frame_size info" using c(6) by (simp add: cursor_over_def)
  define wm' where "wm' = wm\<lparr>back_buf := t, wm_cursor := cur'\<lparr>visible := True\<rparr>, needs_composite := False,
    windows := map (\<lambda>win. win\<lparr>dirty := False\<rparr>) (windows wm)\<rparr>"
  have comp: "composite font info (wm, fb) = Some (wm', t)"
    using b c(1,2) len assms(4) by (simp add: composite_def copy_from_slice_def wm'_def)
  moreover have "wm_inv info wm'"
    by (rule composite_total [OF assms(1,2,4)]) (use comp in simp)
  moreover have "scene font info wm' = scene font info wm"
    using scene_dirty [where wm = "wm\<lparr>back_buf := t, wm_cursor := cur'\<lparr>visible := True\<rparr>, needs_composite := False\<rparr>" and d = False]
    by (simp add: wm'_def)
  ultimately show ?thesis using c by (intro that [of wm' t]) (simp_all add: wm'_def)
qed

text \<open>C14: a composition is the painter's picture. It never panics, and afterwards every pixel of the
  screen reads as the pointer's sprite where it covers the point, else as the pixel of the topmost
  window that covers the point, else as the task bar, else as the background.\<close>

theorem composite_paints_scene:
  assumes "wm_inv info wm" and "font_ok font" and "keeps_colour info" and "length fb = frame_size info"
  shows "\<exists>wm' fb'. composite font info (wm, fb) = Some (wm', fb') \<and>
    (\<forall>x < width info. \<forall>y < height info. read_pixel info fb' x y = Some (
      case colour_at (cursor_pic (wm_cursor wm)) (x, y) of Some c \<Rightarrow> c
      | None \<Rightarrow> (case top_window (windows wm) (x, y) of
          Some w \<Rightarrow> decode (buf_info w) (view (buf_info w) (win_buf w) (x - win_x w, y - win_y w))
        | None \<Rightarrow> (case colour_at (taskbar_pic font info (windows wm) (focused wm)) (x, y) of
            Some c \<Rightarrow> c | None \<Rightarrow> decode info (view info (bg_cache wm) (x, y))))))"
proof -
  obtain wm' fb' where c: "composite font info (wm, fb) = Some (wm', fb')"
    "cursor_over info (frame_size info) (scene font info wm) (wm_cursor wm') fb'"
    "cur_x (wm_cursor wm') = cur_x (wm_cursor wm)" "cur_y (wm_cursor wm') = cur_y (wm_cursor wm)"
    by (rule composite_scene [OF assms])
  have pic: "cursor_pic (wm_cursor wm') = cursor_pic (wm_cursor wm)" using c(3,4) by (simp add: cursor_pic_def)
  have canvas: "(x, y) \<in> canvas info (frame_size info)" if "x < width info" "y < height info" for x y
    using wm_inv_facts(2) [OF assms(1)] that by (intro frame_canvas) (auto simp: frame_size_def)
  have px: "read_pixel info fb' x y = Some (case colour_at (cursor_pic (wm_cursor wm)) (x, y) of Some c \<Rightarrow> c
      | None \<Rightarrow> scene font info wm (x, y))" if "x < width info" "y < height info" for x y
    using c(2) canvas [OF that] by (simp add: cursor_over_def pic option.case_eq_if)
  show ?thesis
    using c(1) px unfolding scene_def window_pixel_def fst_conv snd_conv by blast
qed

lemma sample_wm:
  obtains wm where "wm_new sample_info = Some wm" and "wm_inv sample_info wm" and "windows wm = []"
    and "cur_x (wm_cursor wm) = 512" and "cur_y (wm_cursor wm) = 384"
proof -
  obtain wm where wm: "wm_new sample_info = Some wm" "wm_inv sample_info wm" "windows wm = []"
    by (rule wm_new_inv [OF sample_desktop_ok(1)])
  have "wm_cursor wm = cursor_new 1024 768" using wm(1) by (auto simp: wm_new_def bind_eq_Some_conv sample_info_def)
  then show ?thesis using wm that by (simp add: cursor_new_def usize_as_i32_small)
qed

theorem composite_paints_scene_witness:
  "\<exists>wm wm' fb'. wm_new sample_info = Some wm \<and>
    composite block_font sample_info (wm, replicate (frame_size sample_info) 0) = Some (wm', fb') \<and>
    read_pixel sample_info fb' 512 384 = Some (0, 0, 0) \<and> read_pixel sample_info fb' 0 767 = Some (0x1A, 0x1E, 0x28)"
proof -
  obtain wm where wm: "wm_new sample_info = Some wm" "wm_inv sample_info wm" "windows wm = []"
    "cur_x (wm_cursor wm) = 512" "cur_y (wm_cursor wm) = 384" by (rule sample_wm)
  have pic: "cursor_pic (wm_cursor wm) = grid_pic 512 384 sprite_colour 12 16" using wm(4,5) by (simp add: cursor_pic_def)
  have c1: "colour_at (grid_pic 512 384 sprite_colour 12 16) (512, 384) = Some (0, 0, 0)"
    by (simp add: colour_at_grid sprite_colour_def CURSOR_SPRITE_def)
  have c2: "colour_at (grid_pic 512 384 sprite_colour 12 16) (0, 767) = None"
    by (simp add: colour_at_grid)
  have c3: "colour_at (taskbar_pic block_font sample_info [] foc) (0, 767) = Some (0x1A, 0x1E, 0x28)" for foc
    by (simp add: taskbar_pic_def sample_info_def text_points_def char_points_def)
  have c4: "top_window [] p = None" for p by (simp add: top_window_def)
  have size: "width sample_info = 1024" "height sample_info = 768" by (simp_all add: sample_info_def)
  from composite_paints_scene [OF wm(2) block_font_ok sample_info_ok(2) sample_desktop_ok(3)] obtain wm' fb' where
    "composite block_font sample_info (wm, replicate (frame_size sample_info) 0) = Some (wm', fb')"
    "read_pixel sample_info fb' 512 384 = Some (0, 0, 0)" "read_pixel sample_info fb' 0 767 = Some (0x1A, 0x1E, 0x28)"
    unfolding size wm(3) pic by (auto simp: c1 c2 c3 c4)
  then show ?thesis using wm(1) by blast
qed

section \<open>The screen between two compositions\<close>

lemma handle_mouse_scene:
  assumes "wm_inv info wm" and "font_ok font" and "keeps_colour info" and "move_ok e" and "length fb = frame_size info"
    and "needs_composite wm \<or> cursor_over info (frame_size info) (scene font info wm) (wm_cursor wm) fb"
  obtains wm' fb' where "handle_mouse font e info (wm, fb) = Some (wm', fb')"
    and "needs_composite wm' \<or> cursor_over info (frame_size info) (scene font info wm') (wm_cursor wm') fb'"
    and "\<not> mouse_event.left e \<Longrightarrow> needs_composite wm' = needs_composite wm"
proof -
  note cur = wm_inv_facts(4) [OF assms(1)] and info = wm_inv_facts(2) [OF assms(1)]
  obtain fb1 where fb1: "restore_cursor info (wm_cursor wm) fb = Some fb1" "length fb1 = frame_size info"
    using restore_total [OF cur info] assms(5) restore_cursor_eq by metis
  define cur1 where "cur1 = (wm_cursor wm)\<lparr>cur_x := max 0 (min (int (width info) - 1) (cur_x (wm_cursor wm) + dx e)),
    cur_y := max 0 (min (int (height info) - 1) (cur_y (wm_cursor wm) - dy e))\<rparr>"
  have cur1: "apply_delta (dx e) (dy e) (wm_cursor wm) = Some cur1" "cursor_inv info cur1"
    using apply_delta_spec [OF cur] assms(4) by (auto simp: move_ok_def cur1_def)
  define wm1 where "wm1 = wm\<lparr>wm_cursor := cur1\<rparr>"
  have inv1: "wm_inv info wm1" unfolding wm1_def using wm_inv_cursor [OF assms(1) cur1(2)] .
  obtain lc where lc: "left_click font wm1 = Some lc" "lc = wm1 \<or> needs_composite lc"
    using left_click_inv [OF inv1 assms(2)] by blast
  define wm2 where "wm2 = (if mouse_event.left e then lc else wm1)"
  have wm2: "(if mouse_event.left e then left_click font wm1 else Some wm1) = Some wm2" "wm2 = wm1 \<or> needs_composite wm2"
    "\<not> mouse_event.left e \<Longrightarrow> wm2 = wm1"
    using lc by (auto simp: wm2_def)
  show ?thesis
  proof (cases "needs_composite wm2")
    case True
    moreover have "needs_composite wm1 = needs_composite wm" by (simp add: wm1_def)
    moreover have "handle_mouse font e info (wm, fb) = Some (wm2, fb1)"
      using True fb1(1) cur1(1) wm2(1) calculation wm2(3) by (cases "mouse_event.left e") (simp_all add: handle_mouse_def wm1_def)
    ultimately show ?thesis using True wm2(3) by (intro that [of wm2 fb1]) simp_all
  next
    case False
    then have w: "wm2 = wm1" "\<not> needs_composite wm" using wm2(2) by (auto simp: wm1_def)
    then have "cursor_over info (frame_size info) (scene font info wm) (wm_cursor wm) fb" using assms(6) by simp
    from restore_shows [OF info assms(3) cur this] fb1(1) have "scene_shown info (frame_size info) (scene font info wm) fb1"
      by (simp add: restore_cursor_eq)
    from draw_shows [OF info assms(3) cur1(2) this] obtain cur' t where
      d: "save_background info fb1 cur1 = Some cur'" "cursor_draw info cur' fb1 = Some t"
        "cursor_over info (frame_size info) (scene font info wm) (cur'\<lparr>visible := True\<rparr>) t" by blast
    have "handle_mouse font e info (wm, fb) = Some (wm1\<lparr>wm_cursor := cur'\<lparr>visible := True\<rparr>\<rparr>, t)"
      using fb1(1) cur1(1) wm2(1) d(1,2) False w(1)
      by (simp add: handle_mouse_def wm1_def [symmetric]) (simp add: wm1_def)
    then show ?thesis using d(3) False w
      by (intro that [of "wm1\<lparr>wm_cursor := cur'\<lparr>visible := True\<rparr>\<rparr>" t]) (auto simp: wm1_def)
  qed
qed

definition up_to_date :: "font \<Rightarrow> fb_info \<Rightarrow> desktop \<Rightarrow> bool" where
  "up_to_date font info d \<longleftrightarrow> (\<forall>wm buf. WM d = Some wm \<longrightarrow> FB_STATE d = Some (info, buf) \<longrightarrow>
     needs_composite wm \<or> cursor_over info (frame_size info) (scene font info wm) (wm_cursor wm) buf)"

text \<open>A request that neither draws on the screen nor changes a window unannounced, and one that announces
  its changes.\<close>

fun before_first_frame :: "request \<Rightarrow> bool" where
  "before_first_frame Composite = False"
| "before_first_frame (Mouse_event e) = False"
| "before_first_frame _ = True"

fun announced :: "request \<Rightarrow> bool" where
  "announced (Init_console wid) = False"
| "announced _ = True"

definition due :: "desktop \<Rightarrow> bool" where
  "due d \<longleftrightarrow> (\<forall>wm. WM d = Some wm \<longrightarrow> needs_composite wm)"

lemma due_up_to_date: "due d \<Longrightarrow> up_to_date font info d"
  by (simp add: due_def up_to_date_def)

lemma upd_wm_Some:
  assumes "upd_wm f d = Some d'"
  shows "d' = d \<and> WM d = None \<or> (\<exists>wm wm'. WM d = Some wm \<and> f wm = Some wm' \<and> d' = d\<lparr>WM := Some wm'\<rparr>)"
  using assms by (auto simp: upd_wm_def with_wm_def bind_eq_Some_conv split: option.splits)

lemma window_mut_due: "window_mut wid f wm = Some wm' \<Longrightarrow> needs_composite wm' = needs_composite wm"
  by (auto simp: window_mut_def bind_eq_Some_conv)

lemma console_op_due: "upd_wm (console_op f wid) d = Some d' \<Longrightarrow> due d'"
  by (drule upd_wm_Some) (auto simp: due_def console_op_def bind_eq_Some_conv)

lemma serve_due:
  assumes "serve font r d = Some d'" and "before_first_frame r" and "announced r \<or> due d"
  shows "due d'"
proof (cases r)
  case (Create x y w h name owner)
  then show ?thesis using assms(1)
    by (auto simp: wm_create_window_def with_wm_def create_window_def bind_eq_Some_conv due_def Let_def split: option.splits)
next
  case (Init_console wid)
  then have "upd_wm (init_console wid) d = Some d'" "due d" using assms(1,3) by (auto simp: wm_init_console_def)
  with upd_wm_Some [OF this(1)] show ?thesis by (auto simp: due_def init_console_def dest: window_mut_due)
next
  case (Mark_dirty wid)
  then have "upd_wm (mark_dirty wid) d = Some d'" using assms(1) by (simp add: wm_mark_dirty_def)
  from upd_wm_Some [OF this] show ?thesis by (auto simp: due_def mark_dirty_def bind_eq_Some_conv)
qed (use assms in \<open>auto simp: console_write_def console_show_cursor_def console_hide_cursor_def wm_console_clear_def
      dest: console_op_due\<close>)

lemma composite_up_to_date:
  assumes "wm_inv info wm" and "font_ok font" and "keeps_colour info" and "length buf = frame_size info"
    and "composite font info (wm, buf) = Some (wm', buf')"
  shows "cursor_over info (frame_size info) (scene font info wm') (wm_cursor wm') buf'"
  by (rule composite_scene [OF assms(1-4)]) (use assms(5) in auto)

lemma serve_up_to_date:
  assumes "serve font r d = Some d'" and "desk_inv info k d" and "font_ok font" and "keeps_colour info"
    and "request_ok r" and "announced r" and "up_to_date font info d"
  shows "up_to_date font info d'"
proof (cases "before_first_frame r")
  case True
  then show ?thesis using serve_due [OF assms(1) True] assms(6) due_up_to_date by blast
next
  case False
  obtain wm buf where d: "WM d = Some wm" "FB_STATE d = Some (info, buf)" "length buf = frame_size info" "wm_inv info wm"
    using assms(2) by (auto simp: desk_inv_def)
  show ?thesis
  proof (cases r)
    case Composite
    then show ?thesis using assms(1) d composite_up_to_date [OF d(4) assms(3,4) d(3)]
      by (auto simp: wm_composite_def bind_eq_Some_conv up_to_date_def)
  next
    case (Mouse_event e)
    have e: "move_ok e" using assms(5) Mouse_event by simp
    have up: "needs_composite wm \<or> cursor_over info (frame_size info) (scene font info wm) (wm_cursor wm) buf"
      using assms(7) d by (simp add: up_to_date_def)
    obtain wm1 buf1 where m: "handle_mouse font e info (wm, buf) = Some (wm1, buf1)"
      "needs_composite wm1 \<or> cursor_over info (frame_size info) (scene font info wm1) (wm_cursor wm1) buf1"
      by (rule handle_mouse_scene [OF d(4) assms(3,4) e d(3) up])
    have "wm_inv info wm1" "length buf1 = frame_size info"
      by (rule handle_mouse_inv [OF d(4) assms(3) e d(3)], use m(1) in simp)+
    from composite_up_to_date [OF this(1) assms(3,4) this(2)] show ?thesis
      using assms(1) Mouse_event d m by (auto simp: wm_handle_mouse_def bind_eq_Some_conv up_to_date_def split: if_splits)
  qed (use False in auto)
qed

lemma serve_all_due:
  assumes "foldM (serve font) rs d = Some d'" and "\<forall>r \<in> set rs. before_first_frame r" and "due d"
  shows "due d'"
  by (rule foldM_Some_inv [OF assms(1), where P = due]) (use assms(2,3) serve_due in auto)

text \<open>Only the initialising of a console draws into a window without asking for a composition. \<open>hushed rs\<close>: there is one
  among \<open>rs\<close> with no composition after it.\<close>

definition hushed :: "request list \<Rightarrow> bool" where
  "hushed rs \<longleftrightarrow> (\<exists>earlier wid later. rs = earlier @ Init_console wid # later \<and> Composite \<notin> set later)"

lemma hushed_Cons: "hushed (r # rs) \<longleftrightarrow> hushed rs \<or> \<not> announced r \<and> Composite \<notin> set rs"
proof
  assume "hushed (r # rs)"
  then obtain earlier wid later where "r # rs = earlier @ Init_console wid # later" "Composite \<notin> set later" by (auto simp: hushed_def)
  then show "hushed rs \<or> \<not> announced r \<and> Composite \<notin> set rs" by (cases earlier) (auto simp: hushed_def)
next
  assume "hushed rs \<or> \<not> announced r \<and> Composite \<notin> set rs"
  then show "hushed (r # rs)"
  proof
    assume "hushed rs"
    then obtain earlier wid later where "rs = earlier @ Init_console wid # later" "Composite \<notin> set later" by (auto simp: hushed_def)
    then show ?thesis unfolding hushed_def by (intro exI [of _ "r # earlier"] exI [of _ wid] exI [of _ later]) simp
  next
    assume "\<not> announced r \<and> Composite \<notin> set rs"
    then obtain wid where "r = Init_console wid" "Composite \<notin> set rs" by (cases r) auto
    then show ?thesis unfolding hushed_def by (intro exI [of _ "[]"] exI [of _ wid] exI [of _ rs]) simp
  qed
qed

text \<open>A composition brings the screen up to date whatever was before.\<close>

lemma serve_any_up_to_date:
  assumes "foldM (serve font) rs d = Some d'" and "desk_inv info k d" and "font_ok font" and "keeps_colour info"
    and "\<forall>r \<in> set rs. request_ok r" and "up_to_date font info d \<or> Composite \<in> set rs" and "k + length rs \<le> 2 ^ 32" and "\<not> hushed rs"
  shows "up_to_date font info d'"
  using assms(1,2,5-)
proof (induction rs arbitrary: k d)
  case (Cons r rs)
  obtain d1 where d1: "serve font r d = Some d1" "desk_inv info (Suc k) d1"
    using serve_inv [OF Cons.prems(2) assms(3), of r] Cons.prems(3,5) by auto
  have "up_to_date font info d1 \<or> Composite \<in> set rs"
  proof (cases "r = Composite \<or> announced r \<and> up_to_date font info d")
    case True
    have up: "up_to_date font info d1" if "r = Composite"
    proof -
      obtain wm buf where d: "WM d = Some wm" "FB_STATE d = Some (info, buf)" "length buf = frame_size info" "wm_inv info wm"
        using Cons.prems(2) by (auto simp: desk_inv_def)
      show ?thesis using d1(1) d composite_up_to_date [OF d(4) assms(3,4) d(3)] that
        by (auto simp: wm_composite_def bind_eq_Some_conv up_to_date_def)
    qed
    then show ?thesis using True serve_up_to_date [OF d1(1) Cons.prems(2) assms(3,4)] Cons.prems(3) by auto
  next
    case False
    then show ?thesis using Cons.prems(4,6) by (auto simp: hushed_Cons)
  qed
  then show ?case using Cons.IH [OF _ d1(2)] Cons.prems d1(1) by (auto simp: hushed_Cons)
qed simp

text \<open>C9: the screen never shows a stale picture unnoticed. Take any requests before the first frame that draw nothing on the
  screen (as at the boot, where the consoles are initialised), and then any requests at all, on a frame buffer of packed lines in a format that keeps
  colours, with screens, windows and moves of a size that fits (\<open>screen_ok\<close>, \<open>request_ok\<close>). The screen shows, at every pixel, the current windows, task bar and pointer; or a composition is due; or since the last composition a console was initialised,
  the one request that changes a window without asking for a composition (the kernel does that only before its first frame).\<close>

theorem screen_up_to_date:
  assumes "screen_ok info" and "FB_STATE d = Some (info, buf)" and "length buf = frame_size info" and "font_ok font"
    and "keeps_colour info" and "\<forall>r \<in> set boot. request_ok r \<and> before_first_frame r"
    and "\<forall>r \<in> set rs. request_ok r" and "length boot + length rs \<le> 2 ^ 32"
  shows "\<exists>d' wm fb. wm_init d \<bind> foldM (serve font) (boot @ rs) = Some d' \<and> WM d' = Some wm \<and> FB_STATE d' = Some (info, fb) \<and>
    (needs_composite wm \<or> (\<forall>x < width info. \<forall>y < height info. read_pixel info fb x y = Some (
      case colour_at (cursor_pic (wm_cursor wm)) (x, y) of None \<Rightarrow> scene font info wm (x, y) | Some c \<Rightarrow> c)) \<or>
     (\<exists>earlier wid later. rs = earlier @ Init_console wid # later \<and> Composite \<notin> set later))"
proof -
  obtain d0 where d0: "wm_init d = Some d0" "desk_inv info 0 d0" "due d0"
    by (rule wm_init_inv [OF assms(1-3)]) (auto simp: due_def)
  obtain d1 where d1: "foldM (serve font) boot d0 = Some d1" "desk_inv info (length boot) d1"
    using serve_all_inv [OF d0(2) assms(4), of boot] assms(6,8) by auto
  have due: "due d1" by (rule serve_all_due [OF d1(1) _ d0(3)]) (use assms(6) in blast)
  obtain d' where d': "foldM (serve font) rs d1 = Some d'" "desk_inv info (length boot + length rs) d'"
    using serve_all_inv [OF d1(2) assms(4,7,8)] by blast
  have up: "up_to_date font info d'" if "\<not> hushed rs"
    by (rule serve_any_up_to_date [OF d'(1) d1(2) assms(4,5,7) _ assms(8) that]) (simp add: due_up_to_date [OF due])
  obtain wm fb where w: "WM d' = Some wm" "FB_STATE d' = Some (info, fb)" "wm_inv info wm" using d'(2) by (auto simp: desk_inv_def)
  have "(x, y) \<in> canvas info (frame_size info)" if "x < width info" "y < height info" for x y
    using wm_inv_facts(2) [OF w(3)] that by (intro frame_canvas) (auto simp: frame_size_def)
  then have "needs_composite wm \<or> (\<forall>x < width info. \<forall>y < height info. read_pixel info fb x y = Some (
      case colour_at (cursor_pic (wm_cursor wm)) (x, y) of None \<Rightarrow> scene font info wm (x, y) | Some c \<Rightarrow> c)) \<or> hushed rs"
    using up w(1,2) by (auto simp: up_to_date_def cursor_over_def)
  moreover have "wm_init d \<bind> foldM (serve font) (boot @ rs) = Some d'" using d0(1) d1(1) d'(1) by (simp add: foldM_append)
  ultimately show ?thesis using w(1,2) unfolding hushed_def by blast
qed

text \<open>The witness: after a composition and a move of the mouse the screen is current or a composition is due.\<close>

theorem screen_up_to_date_witness:
  "\<exists>d' wm fb. wm_init sample_desktop \<bind> foldM (serve block_font) ([Create 380 80 520 420 (lit ''Shell'') 1, Init_console 0] @
      [Composite, Mouse_event \<lparr>dx = 5, dy = - 30, left = False, right = False, middle = False\<rparr>]) = Some d' \<and>
    WM d' = Some wm \<and> FB_STATE d' = Some (sample_info, fb) \<and>
    (needs_composite wm \<or> read_pixel sample_info fb 900 700 = Some (
      case colour_at (cursor_pic (wm_cursor wm)) (900, 700) of None \<Rightarrow> scene block_font sample_info wm (900, 700) | Some c \<Rightarrow> c))"
proof -
  let ?boot = "[Create 380 80 520 420 (lit ''Shell'') 1, Init_console 0]"
  let ?rs = "[Composite, Mouse_event \<lparr>dx = 5, dy = - 30, left = False, right = False, middle = False\<rparr>]"
  have boot: "\<forall>r \<in> set ?boot. request_ok r \<and> before_first_frame r" by (simp add: geometry_ok_def)
  have rs: "\<forall>r \<in> set ?rs. request_ok r" by (simp add: move_ok_def i16_range_def)
  have len: "length ?boot + length ?rs \<le> 2 ^ 32" by simp
  have loud: "\<not> (\<exists>earlier wid later. ?rs = earlier @ Init_console wid # later \<and> Composite \<notin> set later)"
    by (auto simp: Cons_eq_append_conv)
  have "900 < width sample_info" "700 < height sample_info" by (simp_all add: sample_info_def)
  with screen_up_to_date [OF sample_desktop_ok block_font_ok sample_info_ok(2) boot rs len] loud show ?thesis by blast
qed

text \<open>C22: the fast path of the mouse equals a composition. When the screen shows the desktop and an
  event leads to no composition, moving the sprite in place leaves every pixel of the screen as a
  full composition of the new state would.\<close>

theorem mouse_fast_path_equals_composite:
  assumes "wm_inv info wm" and "font_ok font" and "keeps_colour info" and "move_ok e" and "length fb = frame_size info"
    and "cursor_over info (frame_size info) (scene font info wm) (wm_cursor wm) fb"
  shows "\<exists>wm1 fb1. handle_mouse font e info (wm, fb) = Some (wm1, fb1) \<and>
    (\<not> needs_composite wm1 \<longrightarrow> (\<exists>wm2 fb2. composite font info (wm1, fb1) = Some (wm2, fb2) \<and>
       (\<forall>x < width info. \<forall>y < height info. read_pixel info fb1 x y = read_pixel info fb2 x y))) \<and>
    (mouse_event.left e \<or> needs_composite wm1 = needs_composite wm)"
proof -
  obtain wm1 fb1 where m: "handle_mouse font e info (wm, fb) = Some (wm1, fb1)"
    "needs_composite wm1 \<or> cursor_over info (frame_size info) (scene font info wm1) (wm_cursor wm1) fb1"
    "\<not> mouse_event.left e \<Longrightarrow> needs_composite wm1 = needs_composite wm"
    by (rule handle_mouse_scene [OF assms(1-5) disjI2 [OF assms(6)]]) blast
  have inv1: "wm_inv info wm1" "length fb1 = frame_size info"
    by (rule handle_mouse_inv [OF assms(1,2,4,5)], use m(1) in simp)+
  obtain wm2 fb2 where c: "composite font info (wm1, fb1) = Some (wm2, fb2)"
    "cursor_over info (frame_size info) (scene font info wm1) (wm_cursor wm2) fb2"
    "cur_x (wm_cursor wm2) = cur_x (wm_cursor wm1)" "cur_y (wm_cursor wm2) = cur_y (wm_cursor wm1)"
    by (rule composite_scene [OF inv1(1) assms(2,3) inv1(2)])
  have pic: "cursor_pic (wm_cursor wm2) = cursor_pic (wm_cursor wm1)" using c(3,4) by (simp add: cursor_pic_def)
  have "read_pixel info fb1 x y = read_pixel info fb2 x y" if "x < width info" "y < height info" "\<not> needs_composite wm1" for x y
  proof -
    have "(x, y) \<in> canvas info (frame_size info)"
      using wm_inv_facts(2) [OF assms(1)] that by (intro frame_canvas) (auto simp: frame_size_def)
    then show ?thesis using c(2) m(2) that(3) by (simp add: cursor_over_def pic)
  qed
  then show ?thesis using m(1,3) c(1) by blast
qed

theorem mouse_fast_path_equals_composite_witness:
  "\<exists>wm fb wm1 fb1 wm2 fb2. handle_mouse block_font \<lparr>dx = - 7, dy = 9, left = False, right = False, middle = False\<rparr>
      sample_info (wm, fb) = Some (wm1, fb1) \<and> \<not> needs_composite wm1 \<and> composite block_font sample_info (wm1, fb1) = Some (wm2, fb2) \<and>
    read_pixel sample_info fb1 505 375 = read_pixel sample_info fb2 505 375"
proof -
  obtain wm0 where wm0: "wm_inv sample_info wm0" by (rule sample_wm)
  obtain wm fb where c: "wm_inv sample_info wm"
    "cursor_over sample_info (frame_size sample_info) (scene block_font sample_info wm0) (wm_cursor wm) fb"
    "scene block_font sample_info wm = scene block_font sample_info wm0" "\<not> needs_composite wm"
    by (rule composite_scene [OF wm0 block_font_ok sample_info_ok(2) sample_desktop_ok(3)])
  have over: "cursor_over sample_info (frame_size sample_info) (scene block_font sample_info wm) (wm_cursor wm) fb"
    using c(2,3) by simp
  have len: "length fb = frame_size sample_info" using over by (simp add: cursor_over_def)
  let ?e = "\<lparr>dx = - 7, dy = 9, left = False, right = False, middle = False\<rparr>"
  have e: "move_ok ?e" by (simp add: move_ok_def i16_range_def)
  have xy: "505 < width sample_info" "375 < height sample_info" by (simp_all add: sample_info_def)
  obtain wm1 fb1 where m: "handle_mouse block_font ?e sample_info (wm, fb) = Some (wm1, fb1)"
    "\<not> needs_composite wm1 \<longrightarrow> (\<exists>wm2 fb2. composite block_font sample_info (wm1, fb1) = Some (wm2, fb2) \<and>
       (\<forall>x < width sample_info. \<forall>y < height sample_info. read_pixel sample_info fb1 x y = read_pixel sample_info fb2 x y))"
    "needs_composite wm1 = needs_composite wm"
    using mouse_fast_path_equals_composite [OF c(1) block_font_ok sample_info_ok(2) e len over] by auto
  then show ?thesis using c(4) xy by blast
qed

end
