(* ===== verification/WmFocus.thy ===== *)
theory WmFocus
  imports WmScene
begin

text \<open>
  Which window a click selects and what happens to the others, which label of the task bar a click hits,
  and the frame layouts on which a composition fails.
\<close>

section \<open>Clicks on windows\<close>

lemma filter_distinct_one: "distinct xs \<Longrightarrow> x \<in> set xs \<Longrightarrow> filter (\<lambda>i. i = x) xs = [x]"
  by (induction xs) (auto simp: filter_empty_conv)

text \<open>C23: a click raises the topmost window under the pointer. Above the task bar a left click never
  panics; where no window is, nothing changes; otherwise the topmost window at the pointer gets the
  focus, moves to the front unless it had the focus, the other windows keep their order, and no
  window loses a pixel of its content.\<close>

theorem click_raises_top_window:
  assumes "wm_inv info wm" and "font_ok font" and "cur_y (wm_cursor wm) < int (height info) - 28"
  shows "\<exists>wm'. left_click font wm = Some wm' \<and>
    (case top_window (windows wm) (cursor_pos (wm_cursor wm)) of
       None \<Rightarrow> wm' = wm
     | Some w \<Rightarrow> focused wm' = Some (win_id w) \<and>
         map win_id (windows wm') = (if focused wm = Some (win_id w) then map win_id (windows wm)
           else filter (\<lambda>i. i \<noteq> win_id w) (map win_id (windows wm)) @ [win_id w]) \<and>
         (\<forall>v \<in> set (windows wm). \<exists>v' \<in> set (windows wm'). repainted info v v'))"
proof -
  let ?p = "cursor_pos (wm_cursor wm)"
  have pos: "i32_as_usize (cur_x (wm_cursor wm)) = fst ?p" "i32_as_usize (cur_y (wm_cursor wm)) = snd ?p"
    using cursor_in_range(1,2) [OF wm_inv_facts(4) [OF assms(1)], of 0 0] by (auto simp: cursor_pos_def)
  have above: "\<not> height (screen_info wm) - 28 \<le> snd ?p"
    using assms(3) wm_inv_facts(4,8) [OF assms(1)] by (auto simp: cursor_pos_def cursor_inv_def)
  have click: "left_click font wm = (case top_window (windows wm) ?p of Some w \<Rightarrow> focus_window font (win_id w) wm | None \<Rightarrow> Some wm)"
    using above window_at_top [OF assms(1), of "fst ?p" "snd ?p"] wm_inv_facts(9) [OF assms(1)]
    by (auto simp: left_click_def pos saturating_sub_def TASKBAR_HEIGHT_def Let_def split: option.split)
  show ?thesis
  proof (cases "top_window (windows wm) ?p")
    case None
    then show ?thesis by (simp add: click)
  next
    case (Some w)
    have w: "w \<in> set (windows wm)" using top_window_member [OF Some] by simp
    show ?thesis
    proof (cases "focused wm = Some (win_id w)")
      case True
      then show ?thesis using Some repainted_refl wm_inv_facts(6) [OF assms(1)] by (auto simp: click focus_window_def)
    next
      case False
      obtain g where g: "focus_window font (win_id w) wm = Some (wm\<lparr>windows := map g (to_front (win_id w) (windows wm)),
          focused := Some (win_id w), needs_composite := True\<rparr>)" "\<And>win. win \<in> set (windows wm) \<Longrightarrow> repainted info win (g win)"
        using focus_window_spec [OF assms(1,2) _ False] w by blast
      have "map win_id (map g (to_front (win_id w) (windows wm))) = map win_id (to_front (win_id w) (windows wm))"
        using repainted_same [OF g(2)] by simp
      moreover have "map win_id (filter (\<lambda>v. win_id v = win_id w) (windows wm)) = [win_id w]"
      proof -
        have "filter (\<lambda>i. i = win_id w) (map win_id (windows wm)) = [win_id w]"
          using wm_inv_facts(5) [OF assms(1)] w by (intro filter_distinct_one) auto
        then show ?thesis by (simp add: filter_map comp_def)
      qed
      ultimately have "map win_id (map g (to_front (win_id w) (windows wm))) =
          filter (\<lambda>i. i \<noteq> win_id w) (map win_id (windows wm)) @ [win_id w]"
        by (simp add: to_front_def filter_map comp_def)
      then show ?thesis using g Some False by (auto simp: click)
    qed
  qed
qed

theorem click_raises_top_window_witness:
  "\<exists>wm wm'. wm_inv sample_info wm \<and> map win_id (windows wm) = [0, 1] \<and> left_click block_font wm = Some wm' \<and>
    focused wm' = Some 1"
proof -
  obtain wm0 where wm0: "wm_new sample_info = Some wm0" "wm_inv sample_info wm0" "windows wm0 = []"
    "cur_x (wm_cursor wm0) = 512" "cur_y (wm_cursor wm0) = 384" by (rule sample_wm)
  have id0: "next_id wm0 = 0" "focused wm0 = None" using wm0(1) by (auto simp: wm_new_def bind_eq_Some_conv)
  have geo: "geometry_ok 380 80 520 420" by (simp add: geometry_ok_def)
  obtain w1 where w1: "wm_inv sample_info (wm0\<lparr>windows := [w1], focused := Some 0, next_id := 1, needs_composite := True\<rparr>)"
    "win_id w1 = 0"
    by (rule create_window_spec [OF wm0(2) block_font_ok geo, of "[]" 1]) (use wm0(3) id0 in auto)
  obtain w2 where w2: "wm_inv sample_info (wm0\<lparr>windows := [w1, w2], focused := Some 0, next_id := 2, needs_composite := True\<rparr>)"
    "win_id w2 = 1" "win_x w2 = 380" "win_y w2 = 80" "win_width w2 = 520" "win_height w2 = 420"
    by (rule create_window_spec [OF w1(1) block_font_ok geo, of "[]" 1]) (auto simp: numeral_2_eq_2 [symmetric])
  let ?wm = "wm0\<lparr>windows := [w1, w2], focused := Some 0, next_id := 2, needs_composite := True\<rparr>"
  have top: "top_window (windows ?wm) (cursor_pos (wm_cursor ?wm)) = Some w2"
    using w2 wm0 by (simp add: top_window_def cursor_pos_def covers_def)
  have "cur_y (wm_cursor ?wm) < int (height sample_info) - 28" using wm0(5) by (simp add: sample_info_def)
  from click_raises_top_window [OF w2(1) block_font_ok this] obtain wm' where
    "left_click block_font ?wm = Some wm'" "focused wm' = Some (win_id w2)" unfolding top by auto
  then show ?thesis using w1(2) w2(1,2) by (intro exI [of _ ?wm] exI [of _ wm']) simp
qed

section \<open>Labels of the task bar\<close>

text \<open>The column where the text of the label of window \<open>k\<close> starts.\<close>

definition label_start :: "wm_window list \<Rightarrow> nat \<Rightarrow> nat" where
  "label_start ws k = 54 + sum_list (map label_width (take k ws))"

lemma label_at_Cons:
  assumes "title_ok w" and "lx < 2 ^ 62" and "4 \<le> lx"
  shows "label_at mx (w # ws) lx =
    (if lx - 4 \<le> mx \<and> mx < lx + label_width w then Some (Some (win_id w)) else label_at mx ws (lx + label_width w))"
proof -
  have "title_len w \<le> 32" using assms(1) by (simp add: title_ok_def)
  then show ?thesis using assms(2,3)
    by (auto simp: in_range FONT_sizes label_width_def saturating_sub_def)
qed

lemma label_at_hit:
  assumes "\<forall>w \<in> set ws. title_ok w" and "lx + 272 * length ws < 2 ^ 62" and "4 \<le> lx" and "k < length ws"
    and "lx + sum_list (map label_width (take k ws)) \<le> mx" and "mx < lx + sum_list (map label_width (take (Suc k) ws))"
  shows "label_at mx ws lx = Some (Some (win_id (ws ! k)))"
  using assms
proof (induction ws arbitrary: lx k)
  case (Cons w ws)
  have w: "title_ok w" "lx < 2 ^ 62" using Cons.prems by auto
  show ?case
  proof (cases k)
    case 0
    then show ?thesis using Cons.prems(5,6) unfolding label_at_Cons [OF w Cons.prems(3)] by auto
  next
    case (Suc j)
    have "\<not> mx < lx + label_width w" using Cons.prems(5) Suc by simp
    moreover have "label_at mx ws (lx + label_width w) = Some (Some (win_id (ws ! j)))"
      using Cons.prems Suc label_width_le [OF w(1)] by (intro Cons.IH) auto
    ultimately show ?thesis unfolding label_at_Cons [OF w Cons.prems(3)] using Suc by simp
  qed
qed simp

lemma label_at_miss:
  assumes "\<forall>w \<in> set ws. title_ok w" and "lx + 272 * length ws < 2 ^ 62" and "4 \<le> lx"
    and "mx < lx - 4 \<or> lx + sum_list (map label_width ws) \<le> mx"
  shows "label_at mx ws lx = Some None"
  using assms
proof (induction ws arbitrary: lx)
  case (Cons w ws)
  have w: "title_ok w" "lx < 2 ^ 62" using Cons.prems by auto
  have "\<not> (lx - 4 \<le> mx \<and> mx < lx + label_width w)" using Cons.prems(3,4) by auto
  moreover have "label_at mx ws (lx + label_width w) = Some None"
    using Cons.prems label_width_le [OF w(1)] by (intro Cons.IH) auto
  ultimately show ?case unfolding label_at_Cons [OF w Cons.prems(3)] by simp
qed simp

text \<open>C35: which label a click on the task bar hits. A column from the start of a label's text up to the start
  of the next one selects that label's window; the four columns before the first label select the
  first window; columns before them and past the last label select none. (So the four columns of
  a later label's highlight that lie before its text select the window before it.)\<close>

theorem taskbar_click_target:
  assumes "\<forall>w \<in> set ws. title_ok w" and "length ws \<le> 2 ^ 32"
  shows "(\<forall>k < length ws. label_start ws k \<le> mx \<and> mx < label_start ws (Suc k) \<longrightarrow> label_at mx ws 54 = Some (Some (win_id (ws ! k)))) \<and>
    (ws \<noteq> [] \<and> 50 \<le> mx \<and> mx < 54 \<longrightarrow> label_at mx ws 54 = Some (Some (win_id (hd ws)))) \<and>
    (mx < 50 \<or> label_start ws (length ws) \<le> mx \<longrightarrow> label_at mx ws 54 = Some None)"
proof -
  have len: "54 + 272 * length ws < 2 ^ 62" using assms(2) by simp
  have "label_at mx ws 54 = Some (Some (win_id (hd ws)))" if "ws \<noteq> []" "50 \<le> mx" "mx < 54"
  proof -
    obtain w vs where ws: "ws = w # vs" using \<open>ws \<noteq> []\<close> by (cases ws) auto
    show ?thesis unfolding ws using that assms(1) ws label_at_Cons [of w 54 mx vs] by simp
  qed
  then show ?thesis
    using label_at_hit [OF assms(1) len, of _ mx] label_at_miss [OF assms(1) len, of mx] by (auto simp: label_start_def)
qed

definition label_window :: "usize \<Rightarrow> unichar list \<Rightarrow> wm_window" where
  "label_window i name = \<lparr>win_id = i, win_x = 0, win_y = 0, win_width = 12, win_height = 52, title = as_bytes name @
     replicate (32 - length (as_bytes name)) 0, title_len = length (as_bytes name), win_buf = [], buf_info = sample_info,
     win_console = None, dirty = False, owner_task = 0\<rparr>"

text \<open>The first columns of the second label's highlight still belong to the first label.\<close>

theorem taskbar_click_target_witness:
  "label_at 108 [label_window 7 (lit ''Shell''), label_window 8 (lit ''Counter'')] 54 = Some (Some 7) \<and>
    label_at 110 [label_window 7 (lit ''Shell''), label_window 8 (lit ''Counter'')] 54 = Some (Some 8)"
proof -
  let ?ws = "[label_window 7 (lit ''Shell''), label_window 8 (lit ''Counter'')]"
  have "length (as_bytes (lit ''Shell'')) = 5" "length (as_bytes (lit ''Counter'')) = 7"
    by (simp_all add: lit_def as_bytes_def utf8_char_def)
  then have ok: "\<forall>w \<in> set ?ws. title_ok w" and st: "label_start ?ws 0 = 54" "label_start ?ws (Suc 0) = 110" "label_start ?ws 2 = 182"
    by (simp_all add: title_ok_def label_window_def label_start_def label_width_def)
  have len: "length ?ws \<le> 2 ^ 32" by simp
  note t = conjunct1 [OF taskbar_click_target [OF ok len]]
  have "label_at 108 ?ws 54 = Some (Some (win_id (?ws ! 0)))"
    using spec [OF t [of 108], of 0] st by simp
  moreover have "label_at 110 ?ws 54 = Some (Some (win_id (?ws ! 1)))"
    using spec [OF t [of 110], of 1] st by (simp add: numeral_2_eq_2)
  ultimately show ?thesis by (simp add: label_window_def)
qed

section \<open>Frame layouts\<close>

text \<open>Operations that keep the length of the buffer whenever they succeed.\<close>

definition len_kept :: "(fb_buffer \<Rightarrow> fb_buffer option) \<Rightarrow> bool" where
  "len_kept f \<longleftrightarrow> (\<forall>buf t. f buf = Some t \<longrightarrow> length t = length buf)"

lemma len_kept_Some: "len_kept Some"
  by (simp add: len_kept_def)

lemma len_kept_bind: "len_kept f \<Longrightarrow> len_kept g \<Longrightarrow> len_kept (\<lambda>buf. f buf \<bind> g)"
  by (auto simp: len_kept_def bind_eq_Some_conv)

lemma len_kept_const: "(\<And>v. m = Some v \<Longrightarrow> len_kept (g v)) \<Longrightarrow> len_kept (\<lambda>buf. m \<bind> (\<lambda>v. g v buf))"
  by (auto simp: len_kept_def bind_eq_Some_conv)

lemma len_kept_foldM: "(\<And>x. x \<in> set xs \<Longrightarrow> len_kept (f x)) \<Longrightarrow> len_kept (foldM f xs)"
  unfolding len_kept_def
proof (intro allI impI)
  fix buf t assume f: "\<And>x. x \<in> set xs \<Longrightarrow> \<forall>buf t. f x buf = Some t \<longrightarrow> length t = length buf" and "foldM f xs buf = Some t"
  show "length t = length buf"
    by (rule foldM_Some_inv [OF \<open>foldM f xs buf = Some t\<close>, where P = "\<lambda>t. length t = length buf"]) (use f in auto)
qed

lemma len_kept_if: "len_kept f \<Longrightarrow> len_kept g \<Longrightarrow> len_kept (\<lambda>buf. if b then f buf else g buf)"
  by (simp add: len_kept_def)

lemma put_pixel_len: "info_ok info \<Longrightarrow> len_kept (put_pixel info x y c)"
  unfolding len_kept_def
proof (intro allI impI)
  fix buf t assume "info_ok info" "put_pixel info x y c buf = Some t"
  then show "length t = length buf" using fb_draws_length [OF draws_put_pixel [of info "length buf"]] by blast
qed

lemma fill_rect_len: "info_ok info \<Longrightarrow> len_kept (fill_rect info x y w h c)"
  unfolding len_kept_def using fb_draws_length [OF fill_rect_draws] by blast

lemma draw_text_len:
  assumes "info_ok info"
  shows "len_kept (draw_text font info x y str c)"
proof (induction str arbitrary: x)
  case (Cons ch str)
  have dot: "len_kept (draw_dot info x y c i j)" for i j
    unfolding draw_dot_def by (intro len_kept_foldM len_kept_const put_pixel_len assms)
  have "len_kept (draw_char_at font info x y ch c)"
    unfolding draw_char_at_def [abs_def] Let_def
    by (intro len_kept_const len_kept_foldM) (auto intro!: len_kept_foldM len_kept_if len_kept_Some dot split: prod.split)
  from len_kept_bind [OF this Cons.IH] show ?case by simp
qed (simp add: len_kept_def)

lemma blit_window_len: "len_kept (blit_window info win)"
proof -
  have "len_kept (blit_row info win cw rw)" for cw rw
    unfolding blit_row_def [abs_def] Let_def
    by (auto simp: len_kept_def bind_eq_Some_conv copy_into_def uadd_Some_iff split: if_splits)
  then show ?thesis unfolding blit_window_def Let_def by (intro len_kept_foldM)
qed

lemma taskbar_labels_len:
  assumes "info_ok info" and "foldM (taskbar_label font info y h foc) ws (lx, buf) = Some (lx', t)"
  shows "length t = length buf"
  using assms(2)
proof (induction ws arbitrary: lx buf)
  case (Cons w ws)
  obtain lx1 buf1 where l: "taskbar_label font info y h foc w (lx, buf) = Some (lx1, buf1)"
    "foldM (taskbar_label font info y h foc) ws (lx1, buf1) = Some (lx', t)"
    using Cons.prems by (auto split: option.splits)
  have "length buf1 = length buf"
    using l(1) fill_rect_len [OF assms(1)] draw_text_len [OF assms(1)]
    by (auto simp: taskbar_label_def bind_eq_Some_conv len_kept_def Let_def split: if_splits)
  then show ?case using Cons.IH [OF l(2)] by simp
qed simp

lemma draw_taskbar_len:
  assumes "info_ok info" and "draw_taskbar font info h ws foc buf = Some t"
  shows "length t = length buf"
proof -
  note len = fill_rect_len [OF assms(1), unfolded len_kept_def, rule_format] draw_text_len [OF assms(1), unfolded len_kept_def, rule_format]
  show ?thesis
    using assms(2) by (auto simp: draw_taskbar_def Let_def bind_eq_Some_conv dest!: len taskbar_labels_len [OF assms(1)])
qed

lemma cursor_draw_len:
  assumes "info_ok info"
  shows "len_kept (cursor_draw info cur)"
proof -
  have "len_kept (sprite_pixel info cx cy sy sx)" for cx cy sy sx
    unfolding sprite_pixel_def [abs_def] by (intro len_kept_if len_kept_const len_kept_Some put_pixel_len assms)
  then show ?thesis unfolding cursor_draw_def [abs_def] Let_def by (intro len_kept_foldM)
qed

text \<open>C36: a composition needs packed lines. On a frame buffer whose lines are padded (\<open>stride\<close> larger than
  \<open>width\<close>), which the boot loader may provide, the back buffer is smaller than the frame and
  every composition panics in \<open>copy_from_slice\<close>, whatever windows there are.\<close>

theorem composite_panics_on_padded_lines:
  assumes "info_ok info" and "wm_new info = Some wm" and "length fb = frame_size info" and "width info \<noteq> stride info"
    and "0 < height info"
  shows "composite font info (wm\<lparr>windows := ws, focused := foc\<rparr>, fb) = None"
proof -
  let ?n = "width info * height info * bytes_per_pixel info"
  have len: "length (back_buf wm) = ?n"
    using assms(2) by (auto simp: wm_new_def bind_eq_Some_conv umul_Some_iff)
  have ne: "length fb \<noteq> ?n" using assms(1,3-5) by (simp add: frame_size_def info_ok_def)
  have bk_len: "length bk = ?n"
    if "copy_from_slice (back_buf wm) (bg_cache wm) = Some b0" "draw_taskbar font info h ws foc b0 = Some b1"
      "foldM (blit_window info) ws b1 = Some b2" "cursor_draw info cur b2 = Some bk" for b0 b1 b2 bk h cur
  proof -
    have "length b0 = ?n" using that(1) len by (simp add: copy_from_slice_def split: if_splits)
    moreover have "length b1 = length b0" by (rule draw_taskbar_len [OF assms(1) that(2)])
    moreover have "length b2 = length b1" using len_kept_foldM [of ws "blit_window info", OF blit_window_len] that(3) by (simp add: len_kept_def)
    moreover have "length bk = length b2" using cursor_draw_len [OF assms(1)] that(4) by (simp add: len_kept_def)
    ultimately show ?thesis by simp
  qed
  have no: "copy_from_slice fb bk = None"
    if "copy_from_slice (back_buf wm) (bg_cache wm) = Some b0" "draw_taskbar font info h ws foc b0 = Some b1"
      "foldM (blit_window info) ws b1 = Some b2" "cursor_draw info cur b2 = Some bk" for b0 b1 b2 bk h cur
    using bk_len [OF that] ne by (simp only: copy_from_slice_def if_False)
  show ?thesis
  proof (rule ccontr)
    assume "composite font info (wm\<lparr>windows := ws, focused := foc\<rparr>, fb) \<noteq> None"
    then show False
      by (clarsimp simp: composite_def Let_def bind_eq_Some_conv) (drule (3) no, simp)
  qed
qed

definition padded_info :: fb_info where
  "padded_info = \<lparr>width = 16, height = 32, stride = 17, bytes_per_pixel = 3, pixel_format = Rgb\<rparr>"

theorem composite_panics_on_padded_lines_witness:
  "\<exists>wm. wm_new padded_info = Some wm \<and>
    composite block_font padded_info (wm\<lparr>windows := [], focused := None\<rparr>, replicate (frame_size padded_info) 0) = None"
proof -
  have info: "info_ok padded_info" by (simp add: padded_info_def info_ok_def format_ok_def)
  let ?n = "width padded_info * height padded_info * bytes_per_pixel padded_info"
  have "height padded_info \<le> 2 ^ 24" "width padded_info \<le> 2 ^ 24" by (simp_all add: padded_info_def)
  from fb.drawsE [OF draw_background_draws [OF info this, of ?n], of "replicate ?n 0"] obtain bg where
    "draw_background padded_info (replicate ?n 0) = Some bg" using info by (metis length_replicate)
  moreover have "umul (width padded_info) (height padded_info) = Some (width padded_info * height padded_info)"
    "umul (width padded_info * height padded_info) (bytes_per_pixel padded_info) = Some ?n"
    by (simp_all add: padded_info_def in_range)
  ultimately obtain wm where "wm_new padded_info = Some wm" by (simp add: wm_new_def)
  then show ?thesis
    using composite_panics_on_padded_lines [OF info, of wm "replicate (frame_size padded_info) 0"]
    by (simp only: length_replicate) (simp add: padded_info_def)
qed

end
