(* ===== verification/WinText.thy ===== *)
theory WinText
  imports WmFocus
begin

text \<open>
  Windows as terminals. \<open>shows_text\<close>: a console and its buffer show the text of a terminal and, where
  the text cursor is on, its bar. The locale \<open>text_device\<close> is what the tasks rely on: writing, clearing
  and the text cursor on one window. The window manager provides it for every window with a console,
  whatever the other windows and the mouse do in between.
\<close>

section \<open>Text and cursor of a console\<close>

text \<open>No character at or after the cursor.\<close>

definition blank_ahead :: "terminal \<Rightarrow> bool" where
  "blank_ahead t \<longleftrightarrow> (\<forall>r c. trow t < r \<or> r = trow t \<and> tcol t \<le> c \<longrightarrow> grid t (r, c) = [])"

definition shows_text :: "font \<Rightarrow> fb_info \<Rightarrow> nat \<Rightarrow> bool \<Rightarrow> terminal \<Rightarrow> console \<times> fb_buffer \<Rightarrow> bool" where
  "shows_text font info n vis t = (\<lambda>(con, buf). con_inv info n con \<and> 0 < rows con \<and> length buf = n \<and>
     row con = trow t \<and> col con = tcol t \<and> cursor_visible con = vis \<and> blank_ahead t \<and>
     (\<forall>u v. u < rwidth (content con) \<longrightarrow> v < rheight (content con) \<longrightarrow>
       has_colour info buf (rx (content con) + u, ry (content con) + v)
         (if vis \<and> u = 8 * tcol t \<and> v div 16 = trow t \<or> lit_point font (cols con) (rows con) (grid t) u v then white else black)))"

lemma shows_text_hidden:
  "shows_text font info n False t (con, buf) \<longleftrightarrow>
     con_refines font info n True (con, buf) t \<and> 0 < rows con \<and> \<not> cursor_visible con \<and> blank_ahead t"
  by (auto simp: shows_text_def con_refines_def displays_def)

lemma blank_ahead_newline: "blank_ahead t \<Longrightarrow> 0 < n_rows \<Longrightarrow> blank_ahead (term_newline n_rows t)"
  by (auto simp: blank_ahead_def term_newline_def)

lemma blank_ahead_write: "blank_ahead t \<Longrightarrow> ch \<noteq> 13 \<Longrightarrow> blank_ahead (term_write n_cols n_rows ch t)"
proof (cases "n_cols = 0 \<or> n_rows = 0 \<or> ch = 10")
  case True
  assume "blank_ahead t"
  then show ?thesis using True by (auto simp: term_write_def intro: blank_ahead_newline)
next
  case False
  assume t: "blank_ahead t" "ch \<noteq> 13"
  have print: "blank_ahead (term_print ch s)" if "blank_ahead s" for s
    using that by (auto simp: blank_ahead_def term_print_def)
  have erase: "blank_ahead (t\<lparr>grid := (grid t)((trow t, tcol t - 1) := []), tcol := tcol t - 1\<rparr>)"
    unfolding blank_ahead_def
  proof (intro allI impI)
    fix r c assume "trow (t\<lparr>grid := (grid t)((trow t, tcol t - 1) := []), tcol := tcol t - 1\<rparr>) < r \<or>
      r = trow (t\<lparr>grid := (grid t)((trow t, tcol t - 1) := []), tcol := tcol t - 1\<rparr>) \<and>
      tcol (t\<lparr>grid := (grid t)((trow t, tcol t - 1) := []), tcol := tcol t - 1\<rparr>) \<le> c"
    then have "r = trow t \<and> c = tcol t - 1 \<or> trow t < r \<or> r = trow t \<and> tcol t \<le> c" by auto
    then show "grid (t\<lparr>grid := (grid t)((trow t, tcol t - 1) := []), tcol := tcol t - 1\<rparr>) (r, c) = []"
      using t(1) by (auto simp: blank_ahead_def)
  qed
  show ?thesis
    using t False print [OF blank_ahead_newline [OF t(1)]] print [OF t(1)] erase by (auto simp: term_write_def)
qed

lemma blank_ahead_write_str: "blank_ahead t \<Longrightarrow> 13 \<notin> set s \<Longrightarrow> blank_ahead (term_write_str n_cols n_rows s t)"
  by (induction s arbitrary: t) (auto simp: term_write_str_def intro: blank_ahead_write)

lemma blank_ahead_clear: "blank_ahead (term_clear t)" "blank_ahead term_blank"
  by (simp_all add: blank_ahead_def term_clear_def term_blank_def)

text \<open>The operations on a console; all keep its size.\<close>

lemma write_shows:
  assumes "shows_text font info n False t (con, buf)" and "font_ok font" and "13 \<notin> set s"
  shows "\<exists>con' buf'. write_str font info s (con, buf) = Some (con', buf') \<and>
    shows_text font info n False (term_write_str (cols con) (rows con) s t) (con', buf') \<and>
    cols con' = cols con \<and> rows con' = rows con \<and> content con' = content con"
proof -
  have h: "con_refines font info n True (con, buf) t" "0 < rows con" "\<not> cursor_visible con" "blank_ahead t"
    using assms(1) by (auto simp: shows_text_hidden)
  from write_str_step [OF h(1) assms(2), of s] obtain con' buf' where
    w: "write_str font info s (con, buf) = Some (con', buf')"
      "con_refines font info n True (con', buf') (term_write_str (cols con) (rows con) s t)"
      "same_outside info (con, buf) (con', buf')" by auto
  then show ?thesis using h blank_ahead_write_str [OF h(4) assms(3)]
    by (intro exI [of _ con'] exI [of _ buf']) (auto simp: shows_text_hidden same_outside_def)
qed

lemma clear_shows:
  assumes "shows_text font info n False t (con, buf)"
  shows "\<exists>con' buf'. console_clear info (con, buf) = Some (con', buf') \<and>
    shows_text font info n False (term_clear t) (con', buf') \<and>
    cols con' = cols con \<and> rows con' = rows con \<and> content con' = content con"
proof -
  have h: "con_refines font info n True (con, buf) t" "0 < rows con" "\<not> cursor_visible con" "blank_ahead t"
    using assms(1) by (auto simp: shows_text_hidden)
  from console_clear_refines [OF h(1)] obtain con' buf' where
    w: "console_clear info (con, buf) = Some (con', buf')" "con_refines font info n True (con', buf') (term_clear t)"
      "same_outside info (con, buf) (con', buf')" by auto
  then show ?thesis using h blank_ahead_clear(1)
    by (intro exI [of _ con'] exI [of _ buf']) (auto simp: shows_text_hidden same_outside_def)
qed

lemma bar_box: "(rx r + u, ry r + v) \<in> box (rx r + 8 * c) (ry r + 16 * k) 1 16 \<longleftrightarrow> u = 8 * c \<and> v div 16 = k"
  by auto

lemma bar_shows:
  assumes "con_inv info n con" and "0 < rows con" and "length buf = n"
  obtains t where "cursor_bar info con c buf = Some t" and "length t = n"
    and "\<And>u v. u < rwidth (content con) \<Longrightarrow> v < rheight (content con) \<Longrightarrow> u = 8 * col con \<and> v div 16 = row con \<Longrightarrow>
      has_colour info t (rx (content con) + u, ry (content con) + v) c"
    and "\<And>u v d. \<not> (u = 8 * col con \<and> v div 16 = row con) \<Longrightarrow>
      has_colour info t (rx (content con) + u, ry (content con) + v) d = has_colour info buf (rx (content con) + u, ry (content con) + v) d"
proof -
  obtain t where t: "cursor_bar info con c buf = Some t" "length t = n"
    "\<And>p. p \<in> box (rx (content con) + 8 * col con) (ry (content con) + 16 * row con) 1 16 \<Longrightarrow> p \<in> canvas info n \<Longrightarrow> has_colour info t p c"
    "\<And>p. p \<notin> box (rx (content con) + 8 * col con) (ry (content con) + 16 * row con) 1 16 \<Longrightarrow> view info t p = view info buf p"
    by (rule cursor_bar_step [OF assms]) blast
  show ?thesis
  proof (rule that [OF t(1,2)])
    show "has_colour info t (rx (content con) + u, ry (content con) + v) c"
      if "u < rwidth (content con)" "v < rheight (content con)" "u = 8 * col con \<and> v div 16 = row con" for u v
      by (rule t(3)) (use that bar_box content_canvas [OF con_inv_facts(1) [OF assms(1)]] in auto)
    show "has_colour info t (rx (content con) + u, ry (content con) + v) d = has_colour info buf (rx (content con) + u, ry (content con) + v) d"
      if "\<not> (u = 8 * col con \<and> v div 16 = row con)" for u v d
      by (rule has_colour_view, rule t(4)) (use that bar_box in auto)
  qed
qed

lemma show_shows:
  assumes "shows_text font info n vis t (con, buf)"
  shows "\<exists>con' buf'. draw_cursor info (con, buf) = Some (con', buf') \<and> shows_text font info n True t (con', buf') \<and>
    cols con' = cols con \<and> rows con' = rows con \<and> content con' = content con"
proof (cases vis)
  case True
  then show ?thesis using assms by (intro exI [of _ con] exI [of _ buf]) (auto simp: shows_text_def draw_cursor_def)
next
  case False
  have inv: "con_inv info n con" "0 < rows con" "length buf = n" "row con = trow t" "col con = tcol t" "\<not> cursor_visible con"
    using assms False by (auto simp: shows_text_def)
  obtain s where s: "cursor_bar info con white buf = Some s" "length s = n"
    "\<And>u v. u < rwidth (content con) \<Longrightarrow> v < rheight (content con) \<Longrightarrow> u = 8 * col con \<and> v div 16 = row con \<Longrightarrow>
      has_colour info s (rx (content con) + u, ry (content con) + v) white"
    "\<And>u v d. \<not> (u = 8 * col con \<and> v div 16 = row con) \<Longrightarrow>
      has_colour info s (rx (content con) + u, ry (content con) + v) d = has_colour info buf (rx (content con) + u, ry (content con) + v) d"
    by (rule bar_shows [OF inv(1-3)]) blast
  have old: "has_colour info buf (rx (content con) + u, ry (content con) + v)
      (if lit_point font (cols con) (rows con) (grid t) u v then white else black)"
    if "u < rwidth (content con)" "v < rheight (content con)" for u v
    using assms False that by (simp add: shows_text_def)
  have "has_colour info s (rx (content con) + u, ry (content con) + v)
      (if u = 8 * tcol t \<and> v div 16 = trow t \<or> lit_point font (cols con) (rows con) (grid t) u v then white else black)"
    if uv: "u < rwidth (content con)" "v < rheight (content con)" for u v
  proof (cases "u = 8 * tcol t \<and> v div 16 = trow t")
    case True
    then show ?thesis using s(3) [OF uv] inv(4,5) by simp
  next
    case False
    then have e: "(u = 8 * tcol t \<and> v div 16 = trow t \<or> lit_point font (cols con) (rows con) (grid t) u v) =
      lit_point font (cols con) (rows con) (grid t) u v" by blast
    have "has_colour info s (rx (content con) + u, ry (content con) + v) d =
      has_colour info buf (rx (content con) + u, ry (content con) + v) d" for d
      by (rule s(4)) (use False inv(4,5) in simp)
    then show ?thesis unfolding e using old [OF uv] by blast
  qed
  then have "shows_text font info n True t (con\<lparr>cursor_visible := True\<rparr>, s)"
    using assms s(2) by (simp add: shows_text_def)
  then show ?thesis using s(1) inv(6) by (intro exI [of _ "con\<lparr>cursor_visible := True\<rparr>"] exI [of _ s]) (simp add: draw_cursor_def)
qed

lemma hide_shows:
  assumes "shows_text font info n vis t (con, buf)"
  shows "\<exists>con' buf'. erase_cursor info (con, buf) = Some (con', buf') \<and> shows_text font info n False t (con', buf') \<and>
    cols con' = cols con \<and> rows con' = rows con \<and> content con' = content con"
proof (cases vis)
  case False
  then show ?thesis using assms by (intro exI [of _ con] exI [of _ buf]) (auto simp: shows_text_def erase_cursor_def)
next
  case True
  have inv: "con_inv info n con" "0 < rows con" "length buf = n" "row con = trow t" "col con = tcol t" "cursor_visible con"
    "blank_ahead t"
    using assms True by (auto simp: shows_text_def)
  obtain s where s: "cursor_bar info con black buf = Some s" "length s = n"
    "\<And>u v. u < rwidth (content con) \<Longrightarrow> v < rheight (content con) \<Longrightarrow> u = 8 * col con \<and> v div 16 = row con \<Longrightarrow>
      has_colour info s (rx (content con) + u, ry (content con) + v) black"
    "\<And>u v d. \<not> (u = 8 * col con \<and> v div 16 = row con) \<Longrightarrow>
      has_colour info s (rx (content con) + u, ry (content con) + v) d = has_colour info buf (rx (content con) + u, ry (content con) + v) d"
    by (rule bar_shows [OF inv(1-3)]) blast
  have unlit: "\<not> lit_point font (cols con) (rows con) (grid t) u v" if "u = 8 * tcol t" "v div 16 = trow t" for u v
    using that inv(7) by (auto simp: lit_point_def blank_ahead_def)
  have old: "has_colour info buf (rx (content con) + u, ry (content con) + v)
      (if u = 8 * tcol t \<and> v div 16 = trow t \<or> lit_point font (cols con) (rows con) (grid t) u v then white else black)"
    if "u < rwidth (content con)" "v < rheight (content con)" for u v
    using assms True that by (simp add: shows_text_def)
  have "has_colour info s (rx (content con) + u, ry (content con) + v)
      (if lit_point font (cols con) (rows con) (grid t) u v then white else black)"
    if uv: "u < rwidth (content con)" "v < rheight (content con)" for u v
  proof (cases "u = 8 * tcol t \<and> v div 16 = trow t")
    case True
    then show ?thesis using s(3) [OF uv] inv(4,5) unlit by simp
  next
    case False
    then have e: "(u = 8 * tcol t \<and> v div 16 = trow t \<or> lit_point font (cols con) (rows con) (grid t) u v) =
      lit_point font (cols con) (rows con) (grid t) u v" by blast
    have "has_colour info s (rx (content con) + u, ry (content con) + v) d =
      has_colour info buf (rx (content con) + u, ry (content con) + v) d" for d
      by (rule s(4)) (use False inv(4,5) in simp)
    then show ?thesis using old [OF uv] unfolding e by blast
  qed
  then have "shows_text font info n False t (con\<lparr>cursor_visible := False\<rparr>, s)"
    using assms s(2) by (simp add: shows_text_def)
  then show ?thesis using s(1) inv(6) by (intro exI [of _ "con\<lparr>cursor_visible := False\<rparr>"] exI [of _ s]) (simp add: erase_cursor_def)
qed

section \<open>Text of a window\<close>

definition win_text :: "font \<Rightarrow> nat \<Rightarrow> nat \<Rightarrow> bool \<Rightarrow> terminal \<Rightarrow> wm_window \<Rightarrow> bool" where
  "win_text font n_cols n_rows vis t win \<longleftrightarrow> (\<exists>con. win_console win = Some con \<and> cols con = n_cols \<and> rows con = n_rows \<and>
     content con = win_content win \<and> shows_text font (buf_info win) (win_size win) vis t (con, win_buf win))"

definition wm_text :: "font \<Rightarrow> usize \<Rightarrow> nat \<Rightarrow> nat \<Rightarrow> bool \<Rightarrow> terminal \<Rightarrow> wm \<Rightarrow> bool" where
  "wm_text font wid n_cols n_rows vis t wm \<longleftrightarrow>
     (\<exists>win \<in> set (windows wm). win_id win = wid \<and> win_text font n_cols n_rows vis t win)"

lemma repaint_text:
  assumes "repainted info win win'" and "win_text font n_cols n_rows vis t win"
  shows "win_text font n_cols n_rows vis t win'"
proof -
  obtain con where con: "win_console win = Some con" "cols con = n_cols" "rows con = n_rows" "content con = win_content win"
    "shows_text font (buf_info win) (win_size win) vis t (con, win_buf win)"
    using assms(2) by (auto simp: win_text_def)
  obtain buf d where w: "win' = win\<lparr>win_buf := buf, dirty := d\<rparr>" and kept: "content_kept win win'" and ok: "win_ok info win'"
    using assms(1) by (auto simp: repainted_def)
  have same: "win_content win' = win_content win" "win_size win' = win_size win" "buf_info win' = buf_info win" "win_buf win' = buf"
    by (simp_all add: w win_content_def win_size_def)
  have "has_colour (buf_info win) buf (rx (content con) + u, ry (content con) + v) c =
      has_colour (buf_info win) (win_buf win) (rx (content con) + u, ry (content con) + v) c"
    if "u < rwidth (content con)" "v < rheight (content con)" for u v c
  proof -
    have uv: "6 \<le> 6 + u" "6 + u + 6 < win_width win" "30 \<le> 30 + v" "30 + v + 6 < win_height win"
      using that con(4) by (auto simp: win_content_def)
    have "view (buf_info win) (win_buf win') (6 + u, 30 + v) = view (buf_info win) (win_buf win) (6 + u, 30 + v)"
      using kept uv unfolding content_kept_def by blast
    then show ?thesis using con(4) same(4) by (intro has_colour_view) (simp add: win_content_def)
  qed
  moreover have "length buf = win_size win" using ok by (simp add: win_ok_def same)
  ultimately have "shows_text font (buf_info win) (win_size win) vis t (con, buf)"
    using con(5) by (simp add: shows_text_def)
  then show ?thesis using con(1-4) same by (auto simp: win_text_def w)
qed

definition wins_kept :: "fb_info \<Rightarrow> wm \<Rightarrow> wm \<Rightarrow> bool" where
  "wins_kept info wm wm' \<longleftrightarrow> (\<forall>v \<in> set (windows wm). \<exists>v' \<in> set (windows wm'). repainted info v v')"

lemma wins_kept_text: "wins_kept info wm wm' \<Longrightarrow> wm_text font wid n_cols n_rows vis t wm \<Longrightarrow> wm_text font wid n_cols n_rows vis t wm'"
  unfolding wins_kept_def wm_text_def using repaint_text repainted_same by metis

lemma wins_kept_refl: "wm_inv info wm \<Longrightarrow> wins_kept info wm wm"
  using repainted_refl wm_inv_facts(6) unfolding wins_kept_def by blast

lemma wins_kept_trans: "wins_kept info a b \<Longrightarrow> wins_kept info b c \<Longrightarrow> wins_kept info a c"
  unfolding wins_kept_def using repainted_trans by metis

lemma focus_kept:
  assumes "wm_inv info wm" and "font_ok font" and "wid \<in> win_id ` set (windows wm)" and "focus_window font wid wm = Some wm'"
  shows "wins_kept info wm wm'"
proof (cases "focused wm = Some wid")
  case True
  then show ?thesis using assms(1,4) wins_kept_refl by (simp add: focus_window_def)
next
  case False
  obtain g where "focus_window font wid wm = Some (wm\<lparr>windows := map g (to_front wid (windows wm)), focused := Some wid,
      needs_composite := True\<rparr>)" "\<And>win. win \<in> set (windows wm) \<Longrightarrow> repainted info win (g win)"
    using focus_window_spec [OF assms(1-3) False] by blast
  then show ?thesis using assms(4) by (auto simp: wins_kept_def)
qed

lemma left_click_kept:
  assumes "wm_inv info wm" and "font_ok font" and "left_click font wm = Some wm'"
  shows "wins_kept info wm wm'"
proof -
  have taskbar: "wins_kept info wm v" if "handle_taskbar_click font mx wm = Some v" for mx v
  proof -
    obtain r where r: "label_at mx (windows wm) 54 = Some r" "\<forall>i. r = Some i \<longrightarrow> i \<in> win_id ` set (windows wm)"
      using label_at_total [of "windows wm" 54 mx] wm_inv_facts(6,7) [OF assms(1)] by (auto intro: win_ok_title)
    then show ?thesis using that focus_kept [OF assms(1,2)] wins_kept_refl [OF assms(1)]
      by (auto simp: handle_taskbar_click_def FONT_sizes split: option.splits)
  qed
  have "wins_kept info wm v" if "window_at mx my (rev (windows wm)) = Some r" "(case r of Some i \<Rightarrow> focus_window font i wm | None \<Rightarrow> Some wm) = Some v"
    for mx my r v
  proof (cases "top_window (windows wm) (mx, my)")
    case None
    then show ?thesis using that window_at_top [OF assms(1), of mx my] wins_kept_refl [OF assms(1)] by simp
  next
    case (Some w)
    then have "win_id w \<in> win_id ` set (windows wm)" using top_window_member by blast
    moreover have "r = Some (win_id w)" using that(1) Some window_at_top [OF assms(1), of mx my] by simp
    ultimately show ?thesis using that(2) focus_kept [OF assms(1,2), of "win_id w" v] by simp
  qed
  then show ?thesis
    using assms(3) taskbar by (auto simp: left_click_def Let_def bind_eq_Some_conv wins_kept_def split: if_splits)
qed

lemma handle_mouse_kept:
  assumes "wm_inv info wm" and "font_ok font" and "move_ok e" and "handle_mouse font e info (wm, fb) = Some (wm', fb')"
  shows "wins_kept info wm wm'"
proof -
  obtain cur wm2 where a: "apply_delta (dx e) (dy e) (wm_cursor wm) = Some cur"
    "(if mouse_event.left e then left_click font (wm\<lparr>wm_cursor := cur\<rparr>) else Some (wm\<lparr>wm_cursor := cur\<rparr>)) = Some wm2"
    "windows wm' = windows wm2"
  proof -
    have "\<exists>fb1 cur wm2. apply_delta (dx e) (dy e) (wm_cursor wm) = Some cur \<and>
      (if mouse_event.left e then left_click font (wm\<lparr>wm_cursor := cur\<rparr>) else Some (wm\<lparr>wm_cursor := cur\<rparr>)) = Some wm2 \<and>
      (if \<not> needs_composite wm2 then do { cur \<leftarrow> save_background info fb1 (wm_cursor wm2); fb \<leftarrow> cursor_draw info cur fb1;
         Some (wm2\<lparr>wm_cursor := cur\<lparr>visible := True\<rparr>\<rparr>, fb) } else Some (wm2, fb1)) = Some (wm', fb')"
      using assms(4) unfolding handle_mouse_def prod.case Let_def bind_eq_Some_conv by blast
    then obtain fb1 cur wm2 where w: "apply_delta (dx e) (dy e) (wm_cursor wm) = Some cur"
      "(if mouse_event.left e then left_click font (wm\<lparr>wm_cursor := cur\<rparr>) else Some (wm\<lparr>wm_cursor := cur\<rparr>)) = Some wm2"
      "(if \<not> needs_composite wm2 then do { cur \<leftarrow> save_background info fb1 (wm_cursor wm2); fb \<leftarrow> cursor_draw info cur fb1;
         Some (wm2\<lparr>wm_cursor := cur\<lparr>visible := True\<rparr>\<rparr>, fb) } else Some (wm2, fb1)) = Some (wm', fb')" by blast
    from w(3) have "windows wm' = windows wm2" by (auto simp: bind_eq_Some_conv split: if_splits)
    then show ?thesis using that w(1,2) by blast
  qed
  have "cursor_inv info cur"
    using a(1) apply_delta_spec [OF wm_inv_facts(4) [OF assms(1)]] assms(3) by (auto simp: move_ok_def)
  then have inv: "wm_inv info (wm\<lparr>wm_cursor := cur\<rparr>)" by (rule wm_inv_cursor [OF assms(1)])
  have "wins_kept info (wm\<lparr>wm_cursor := cur\<rparr>) wm2"
    using a(2) left_click_kept [OF inv assms(2)] wins_kept_refl [OF inv] by (auto split: if_splits)
  then show ?thesis by (simp add: wins_kept_def a(3))
qed

lemma composite_kept:
  assumes "wm_inv info wm" and "composite font info (wm, fb) = Some (wm', fb')"
  shows "wins_kept info wm wm'"
proof -
  have w: "windows wm' = map (\<lambda>win. win\<lparr>dirty := False\<rparr>) (windows wm)"
    using assms(2) by (auto simp: composite_def Let_def bind_eq_Some_conv)
  show ?thesis using repainted_dirty [OF wm_inv_facts(6) [OF assms(1)]] unfolding wins_kept_def w by auto
qed

section \<open>The operations on a window's text\<close>

definition shows_op :: "font \<Rightarrow> (fb_info \<Rightarrow> console \<times> fb_buffer \<Rightarrow> (console \<times> fb_buffer) option) \<Rightarrow> nat \<Rightarrow> nat \<Rightarrow>
    bool \<Rightarrow> terminal \<Rightarrow> bool \<Rightarrow> terminal \<Rightarrow> bool" where
  "shows_op font f n_cols n_rows vis t vis' t' \<longleftrightarrow> (\<forall>info n con buf. shows_text font info n vis t (con, buf) \<and> cols con = n_cols \<and> rows con = n_rows \<longrightarrow>
     (\<exists>con' buf'. f info (con, buf) = Some (con', buf') \<and> shows_text font info n vis' t' (con', buf') \<and>
        cols con' = cols con \<and> rows con' = rows con \<and> content con' = content con))"

lemma on_console_text:
  assumes "shows_op font f n_cols n_rows vis t vis' t'" and "win_text font n_cols n_rows vis t win"
  obtains win' where "on_console f win = Some win'" and "win_text font n_cols n_rows vis' t' win'" and "win_id win' = win_id win"
proof -
  obtain con where con: "win_console win = Some con" "cols con = n_cols" "rows con = n_rows" "content con = win_content win"
    "shows_text font (buf_info win) (win_size win) vis t (con, win_buf win)"
    using assms(2) by (auto simp: win_text_def)
  obtain con' buf' where f: "f (buf_info win) (con, win_buf win) = Some (con', buf')"
    "shows_text font (buf_info win) (win_size win) vis' t' (con', buf')" "cols con' = cols con" "rows con' = rows con"
    "content con' = content con"
    using assms(1) con(2,3,5) unfolding shows_op_def by blast
  show ?thesis
  proof (rule that [of "win\<lparr>win_console := Some con', win_buf := buf', dirty := True\<rparr>"])
    show "on_console f win = Some (win\<lparr>win_console := Some con', win_buf := buf', dirty := True\<rparr>)"
      using con(1) f(1) by (simp add: on_console_def)
    show "win_text font n_cols n_rows vis' t' (win\<lparr>win_console := Some con', win_buf := buf', dirty := True\<rparr>)"
      using con f by (simp add: win_text_def win_content_def win_size_def)
  qed simp
qed

lemma console_op_text:
  assumes "wm_inv info wm" and "console_safe f" and "shows_op font f n_cols n_rows vis t vis' t'"
    and "wm_text font wid n_cols n_rows vis t wm"
  shows "\<exists>wm'. console_op f wid wm = Some wm' \<and> wm_inv info wm' \<and> wm_text font wid n_cols n_rows vis' t' wm'"
proof -
  have total: "\<exists>win'. on_console f win = Some win' \<and> win_ok info win' \<and> win_id win' = win_id win" if "win_ok info win" for win
    using on_console_total [OF assms(2) that] by blast
  note op = window_mut_inv [OF assms(1) total]
  obtain win where win: "win \<in> set (windows wm)" "win_id win = wid" "win_text font n_cols n_rows vis t win"
    using assms(4) by (auto simp: wm_text_def)
  obtain win' where w: "on_console f win = Some win'" "win_text font n_cols n_rows vis' t' win'" "win_id win' = win_id win"
    by (rule on_console_text [OF assms(3) win(3)])
  have "win' \<in> set (upd_win wid (\<lambda>w. the (on_console f w)) (windows wm))"
    using win w(1) by (auto simp: upd_win_def intro!: image_eqI [of _ _ win])
  then have "wm_text font wid n_cols n_rows vis' t' (wm\<lparr>windows := upd_win wid (\<lambda>w. the (on_console f w)) (windows wm), needs_composite := True\<rparr>)"
    using w(2,3) win(2) by (auto simp: wm_text_def)
  then show ?thesis using op by (simp add: console_op_def)
qed

text \<open>An update of another window.\<close>

lemma upd_other_text:
  assumes "wm_text font wid n_cols n_rows vis t wm" and "wid' \<noteq> wid"
  shows "wm_text font wid n_cols n_rows vis t (wm\<lparr>windows := upd_win wid' g (windows wm)\<rparr>)"
proof -
  obtain win where win: "win \<in> set (windows wm)" "win_id win = wid" "win_text font n_cols n_rows vis t win"
    using assms(1) by (auto simp: wm_text_def)
  then have "win \<in> set (upd_win wid' g (windows wm))" using assms(2) by (auto simp: upd_win_def intro!: image_eqI [of _ _ win])
  then show ?thesis using win by (auto simp: wm_text_def)
qed

lemma wm_text_unaffected [simp]:
  "wm_text font wid n_cols n_rows vis t (wm\<lparr>needs_composite := b\<rparr>) = wm_text font wid n_cols n_rows vis t wm"
  by (simp add: wm_text_def)

lemma write_shows_op:
  "font_ok font \<Longrightarrow> 13 \<notin> set s \<Longrightarrow> shows_op font (\<lambda>info. write_str font info s) n_cols n_rows False t False (term_write_str n_cols n_rows s t)"
  unfolding shows_op_def using write_shows by blast

lemma clear_shows_op: "shows_op font console_clear n_cols n_rows False t False (term_clear t)"
  unfolding shows_op_def using clear_shows by blast

lemma show_shows_op: "shows_op font draw_cursor n_cols n_rows vis t True t"
  unfolding shows_op_def using show_shows by blast

lemma hide_shows_op: "shows_op font erase_cursor n_cols n_rows vis t False t"
  unfolding shows_op_def using hide_shows by blast

end
