(* ===== verification/Device.thy ===== *)
theory Device
  imports WinText
begin

text \<open>
  The interface between the tasks and the window manager: the locale \<open>text_device\<close>, the facts its clients
  use, and its interpretation on the functions of \<^verbatim>\<open>kernel/src/wm.rs\<close> for a window with a console. Then the
  property for all windows at once: each shows the terminal that its own requests make.
\<close>

section \<open>The interface\<close>

text \<open>\<open>text vis t d\<close>: in the state \<open>d\<close> the device shows the terminal \<open>t\<close>, with the text cursor if \<open>vis\<close>. A task
  hides the cursor before it writes, and writes no carriage return.\<close>

locale text_device =
  fixes put_text :: "unichar list \<Rightarrow> 'd \<Rightarrow> 'd option"
    and wipe :: "'d \<Rightarrow> 'd option"
    and show_bar :: "'d \<Rightarrow> 'd option"
    and hide_bar :: "'d \<Rightarrow> 'd option"
    and touch :: "'d \<Rightarrow> 'd option"
    and shown_text :: "bool \<Rightarrow> terminal \<Rightarrow> 'd \<Rightarrow> bool"
    and n_cols :: nat and n_rows :: nat
  assumes write_text: "shown_text False t d \<Longrightarrow> 13 \<notin> set s \<Longrightarrow>
      \<exists>d'. put_text s d = Some d' \<and> shown_text False (term_write_str n_cols n_rows s t) d'"
    and wipe_text: "shown_text False t d \<Longrightarrow> \<exists>d'. wipe d = Some d' \<and> shown_text False (term_clear t) d'"
    and show_text: "shown_text vis t d \<Longrightarrow> \<exists>d'. show_bar d = Some d' \<and> shown_text True t d'"
    and hide_text: "shown_text vis t d \<Longrightarrow> \<exists>d'. hide_bar d = Some d' \<and> shown_text False t d'"
    and touch_text: "shown_text vis t d \<Longrightarrow> \<exists>d'. touch d = Some d' \<and> shown_text vis t d'"
begin

lemma term_write_append: "term_write_str c r (s @ s') t = term_write_str c r s' (term_write_str c r s t)"
  by (simp add: term_write_str_def)

text \<open>A sequence of writes is the write of the concatenation.\<close>

lemma writes_text:
  assumes "shown_text False t d" and "13 \<notin> set (concat ss)"
  shows "\<exists>d'. foldM put_text ss d = Some d' \<and> shown_text False (term_write_str n_cols n_rows (concat ss) t) d'"
  using assms
proof (induction ss arbitrary: d t)
  case Nil
  then show ?case by (simp add: term_write_str_def)
next
  case (Cons s ss)
  have cr: "13 \<notin> set s" "13 \<notin> set (concat ss)" using Cons.prems(2) by auto
  obtain d1 where d1: "put_text s d = Some d1" "shown_text False (term_write_str n_cols n_rows s t) d1"
    using write_text [OF Cons.prems(1) cr(1)] by blast
  from Cons.IH [OF d1(2) cr(2)] show ?case using d1(1) by (simp add: term_write_append)
qed

text \<open>A program that works with the text cursor hidden, bracketed by hiding and showing it.\<close>

definition hidden_run :: "('d \<Rightarrow> 'd option) \<Rightarrow> (terminal \<Rightarrow> terminal) \<Rightarrow> bool" where
  "hidden_run f g \<longleftrightarrow> (\<forall>t d. shown_text False t d \<longrightarrow> (\<exists>d'. f d = Some d' \<and> shown_text False (g t) d'))"

lemma hidden_writes: "13 \<notin> set (concat ss) \<Longrightarrow> hidden_run (foldM put_text ss) (term_write_str n_cols n_rows (concat ss))"
  unfolding hidden_run_def using writes_text by blast

lemma hidden_write: "13 \<notin> set s \<Longrightarrow> hidden_run (put_text s) (term_write_str n_cols n_rows s)"
  unfolding hidden_run_def using write_text by blast

lemma hidden_wipe: "hidden_run wipe term_clear"
  unfolding hidden_run_def using wipe_text by blast

lemma hidden_touch: "hidden_run touch (\<lambda>t. t)"
  unfolding hidden_run_def using touch_text by blast

lemma hidden_skip: "hidden_run Some (\<lambda>t. t)"
  by (simp add: hidden_run_def)

lemma hidden_seq: "hidden_run f g \<Longrightarrow> hidden_run f' g' \<Longrightarrow> hidden_run (\<lambda>d. f d \<bind> f') (\<lambda>t. g' (g t))"
  unfolding hidden_run_def by (metis Option.bind.bind_lunit)

lemma hidden_runE:
  assumes "hidden_run f g" and "shown_text False t d"
  obtains d' where "f d = Some d'" and "shown_text False (g t) d'"
  using assms unfolding hidden_run_def by blast

end

section \<open>A window as a device\<close>

definition device_text :: "font \<Rightarrow> fb_info \<Rightarrow> usize \<Rightarrow> nat \<Rightarrow> nat \<Rightarrow> bool \<Rightarrow> terminal \<Rightarrow> desktop \<Rightarrow> bool" where
  "device_text font info wid n_cols n_rows vis t d \<longleftrightarrow> font_ok font \<and> desk_inv info (2 ^ 32) d \<and>
     (\<exists>wm. WM d = Some wm \<and> wm_text font wid n_cols n_rows vis t wm)"

lemma upd_wm_text:
  assumes "device_text font info wid n_cols n_rows vis t d"
    and "\<And>wm. wm_inv info wm \<Longrightarrow> wm_text font wid n_cols n_rows vis t wm \<Longrightarrow>
      \<exists>wm'. f wm = Some wm' \<and> wm_inv info wm' \<and> wm_text font wid n_cols n_rows vis' t' wm'"
    and "\<And>wm wm'. f wm = Some wm' \<Longrightarrow> next_id wm' = next_id wm"
  shows "\<exists>d'. upd_wm f d = Some d' \<and> device_text font info wid n_cols n_rows vis' t' d'"
proof -
  obtain wm buf where d: "WM d = Some wm" "FB_STATE d = Some (info, buf)" "length buf = frame_size info" "wm_inv info wm"
    "next_id wm \<le> 2 ^ 32" "wm_text font wid n_cols n_rows vis t wm" "font_ok font"
    using assms(1) by (auto simp: device_text_def desk_inv_def)
  obtain wm' where wm': "f wm = Some wm'" "wm_inv info wm'" "wm_text font wid n_cols n_rows vis' t' wm'"
    using assms(2) [OF d(4,6)] by blast
  have "upd_wm f d = Some (d\<lparr>WM := Some wm'\<rparr>)" by (rule upd_wm_eq [of d wm f, OF d(1) wm'(1)])
  then show ?thesis using d assms(3) [OF wm'(1)] wm' by (auto simp: device_text_def desk_inv_def)
qed

lemma console_op_device:
  assumes "console_safe f" and "shows_op font f n_cols n_rows vis t vis' t'"
    and "device_text font info wid n_cols n_rows vis t d"
  shows "\<exists>d'. upd_wm (console_op f wid) d = Some d' \<and> device_text font info wid n_cols n_rows vis' t' d'"
  by (rule upd_wm_text [OF assms(3)]) (auto intro: console_op_text [OF _ assms(1,2)] dest: console_op_next_id)

lemma mark_dirty_text:
  assumes "wm_inv info wm" and "wm_text font wid n_cols n_rows vis t wm"
  shows "\<exists>wm'. mark_dirty wid' wm = Some wm' \<and> wm_inv info wm' \<and> wm_text font wid n_cols n_rows vis t wm'"
proof -
  let ?g = "\<lambda>win. win\<lparr>dirty := True\<rparr>"
  have m: "window_mut wid' (\<lambda>win. Some (win\<lparr>dirty := True\<rparr>)) wm = Some (wm\<lparr>windows := upd_win wid' ?g (windows wm)\<rparr>)"
    "wm_inv info (wm\<lparr>windows := upd_win wid' ?g (windows wm)\<rparr>)"
    using window_mut_inv [OF assms(1), of "\<lambda>win. Some (win\<lparr>dirty := True\<rparr>)" wid'] by simp_all
  have "wins_kept info wm (wm\<lparr>windows := upd_win wid' ?g (windows wm)\<rparr>)"
    unfolding wins_kept_def
  proof
    fix v assume v: "v \<in> set (windows wm)"
    have "repainted info v (if win_id v = wid' then ?g v else v)"
      using repainted_dirty repainted_refl wm_inv_facts(6) [OF assms(1) v] by simp
    then show "\<exists>v' \<in> set (windows (wm\<lparr>windows := upd_win wid' ?g (windows wm)\<rparr>)). repainted info v v'"
      by (rule bexI) (use v in \<open>simp add: upd_win_def\<close>)
  qed
  from wins_kept_text [OF this assms(2)] show ?thesis using m by (simp add: mark_dirty_def)
qed

lemma mark_dirty_next_id: "mark_dirty wid wm = Some wm' \<Longrightarrow> next_id wm' = next_id wm"
  by (auto simp: mark_dirty_def bind_eq_Some_conv dest: window_mut_next_id)

interpretation dev: text_device "console_write font wid" "wm_console_clear wid" "console_show_cursor wid" "console_hide_cursor wid"
  "wm_mark_dirty wid" "device_text font info wid n_cols n_rows" n_cols n_rows for font info wid n_cols n_rows
proof unfold_locales
  fix t d s vis
  show "\<exists>d'. console_write font wid s d = Some d' \<and> device_text font info wid n_cols n_rows False (term_write_str n_cols n_rows s t) d'"
    if d: "device_text font info wid n_cols n_rows False t d" and s: "13 \<notin> set s"
  proof -
    have "font_ok font" using d by (simp add: device_text_def)
    then show ?thesis unfolding console_write_def
      by (intro console_op_device [OF write_str_safe write_shows_op d] s)
  qed
  show "\<exists>d'. wm_console_clear wid d = Some d' \<and> device_text font info wid n_cols n_rows False (term_clear t) d'"
    if "device_text font info wid n_cols n_rows False t d"
    unfolding wm_console_clear_def by (rule console_op_device [OF console_clear_safe clear_shows_op that])
  show "\<exists>d'. console_show_cursor wid d = Some d' \<and> device_text font info wid n_cols n_rows True t d'"
    if "device_text font info wid n_cols n_rows vis t d"
    unfolding console_show_cursor_def by (rule console_op_device [OF draw_cursor_safe show_shows_op that])
  show "\<exists>d'. console_hide_cursor wid d = Some d' \<and> device_text font info wid n_cols n_rows False t d'"
    if "device_text font info wid n_cols n_rows vis t d"
    unfolding console_hide_cursor_def by (rule console_op_device [OF erase_cursor_safe hide_shows_op that])
  show "\<exists>d'. wm_mark_dirty wid d = Some d' \<and> device_text font info wid n_cols n_rows vis t d'"
    if "device_text font info wid n_cols n_rows vis t d"
    unfolding wm_mark_dirty_def by (rule upd_wm_text [OF that]) (auto intro: mark_dirty_text dest: mark_dirty_next_id)
qed

section \<open>All windows at once\<close>

text \<open>What a request does to the text of window \<open>wid\<close>; \<^term>\<open>None\<close> where a task breaks the discipline of
  the device (it writes or clears with its cursor on, writes a carriage return, or makes the console anew).\<close>

fun text_step :: "usize \<Rightarrow> nat \<Rightarrow> nat \<Rightarrow> request \<Rightarrow> bool \<times> terminal \<Rightarrow> (bool \<times> terminal) option" where
  "text_step wid n_cols n_rows (Write i s) (vis, t) = (if i \<noteq> wid then Some (vis, t)
     else if vis \<or> 13 \<in> set s then None else Some (False, term_write_str n_cols n_rows s t))"
| "text_step wid n_cols n_rows (Clear i) (vis, t) = (if i \<noteq> wid then Some (vis, t)
     else if vis then None else Some (False, term_clear t))"
| "text_step wid n_cols n_rows (Show_cursor i) (vis, t) = Some (i = wid \<or> vis, t)"
| "text_step wid n_cols n_rows (Hide_cursor i) (vis, t) = Some (i \<noteq> wid \<and> vis, t)"
| "text_step wid n_cols n_rows (Init_console i) (vis, t) = Some (if i = wid then (False, term_blank) else (vis, t))"
| "text_step wid n_cols n_rows r (vis, t) = Some (vis, t)"

definition has_text :: "font \<Rightarrow> usize \<Rightarrow> nat \<Rightarrow> nat \<Rightarrow> bool \<Rightarrow> terminal \<Rightarrow> desktop \<Rightarrow> bool" where
  "has_text font wid n_cols n_rows vis t d \<longleftrightarrow> (\<exists>wm. WM d = Some wm \<and> wm_text font wid n_cols n_rows vis t wm)"

lemma window_mut_other_text:
  assumes "window_mut wid' f wm = Some wm'" and "wm_inv info wm" and "wid' \<noteq> wid" and "wm_text font wid n_cols n_rows vis t wm"
  shows "wm_text font wid n_cols n_rows vis t wm'"
proof -
  note keep = find_mut_keeps [where P = "\<lambda>w. win_id w = wid'"]
  obtain win where win: "win \<in> set (windows wm)" "win_id win = wid" "win_text font n_cols n_rows vis t win"
    using assms(4) by (auto simp: wm_text_def)
  have "win \<in> set (windows wm')"
    using assms(1,3) keep [OF _ win(1)] win(2) by (auto simp: window_mut_def bind_eq_Some_conv)
  then show ?thesis using win by (auto simp: wm_text_def)
qed

lemma other_text:
  assumes "upd_wm f d = Some d'" and "desk_inv info k d" and "has_text font wid n_cols n_rows vis t d"
    and "\<And>wm wm'. wm_inv info wm \<Longrightarrow> f wm = Some wm' \<Longrightarrow> wm_text font wid n_cols n_rows vis t wm \<Longrightarrow> wm_text font wid n_cols n_rows vis t wm'"
  shows "has_text font wid n_cols n_rows vis t d'"
  using upd_wm_Some [OF assms(1)] assms(2-4) by (fastforce simp: has_text_def desk_inv_def)

lemma console_op_other:
  assumes "upd_wm (console_op f wid') d = Some d'" and "desk_inv info k d" and "has_text font wid n_cols n_rows vis t d"
    and "wid' \<noteq> wid"
  shows "has_text font wid n_cols n_rows vis t d'"
  by (rule other_text [OF assms(1-3)])
    (use assms(4) window_mut_other_text in \<open>auto simp: console_op_def bind_eq_Some_conv\<close>)

text \<open>A mouse event and a composition keep every window but its frame.\<close>

lemma screen_request_kept:
  assumes "desk_inv info k d" and "font_ok font" and "WM d = Some wm" and "serve font r d = Some d'"
    and "r = Composite \<or> (\<exists>e. r = Mouse_event e \<and> move_ok e)"
  shows "\<exists>wm'. WM d' = Some wm' \<and> wins_kept info wm wm'"
proof -
  obtain buf where d: "FB_STATE d = Some (info, buf)" "length buf = frame_size info" "wm_inv info wm"
    using assms(1,3) by (auto simp: desk_inv_def)
  from assms(5) show ?thesis
  proof (elim disjE exE conjE)
    assume "r = Composite"
    then show ?thesis using assms(3,4) d(1) composite_kept [OF d(3)] by (auto simp: wm_composite_def bind_eq_Some_conv)
  next
    fix e assume r: "r = Mouse_event e" "move_ok e"
    obtain wm1 buf1 where m: "handle_mouse font e info (wm, buf) = Some (wm1, buf1)" "wm_inv info wm1"
      by (rule handle_mouse_inv [OF d(3) assms(2) r(2) d(2)])
    note kept = handle_mouse_kept [OF d(3) assms(2) r(2) m(1)]
    show ?thesis
      using assms(3,4) r(1) d(1) m(1) kept wins_kept_trans [OF kept composite_kept [OF m(2)]]
      by (auto simp: wm_handle_mouse_def bind_eq_Some_conv split: if_splits)
  qed
qed

text \<open>A console that is initialised, for the first time or again, is a blank terminal.\<close>

lemma init_console_text:
  assumes "wm_inv info wm" and "win \<in> set (windows wm)" and "init_console (win_id win) wm = Some wm'"
  shows "wm_text font (win_id win) ((win_width win - 12) div 8) ((win_height win - 36) div 16) False term_blank wm'"
proof -
  let ?f = "\<lambda>win. do { r \<leftarrow> content_rect win; (con, buf) \<leftarrow> console_new (buf_info win) r (win_buf win);
     Some (win\<lparr>win_buf := buf, win_console := Some con\<rparr>) }"
  have total: "\<exists>win'. ?f win = Some win' \<and> win_ok info win' \<and> win_id win' = win_id win" if win: "win_ok info win" for win
    by (rule init_console_win [OF wm_inv_facts(1) [OF assms(1)] win]) auto
  have wm': "windows wm' = upd_win (win_id win) (\<lambda>w. the (?f w)) (windows wm)"
    using window_mut_inv(1) [OF assms(1) total, of "win_id win"] assms(3) by (auto simp: init_console_def)
  note ok = wm_inv_facts(6) [OF assms(1,2)]
  obtain con buf where c: "content_rect win = Some (win_content win)"
    "console_new (buf_info win) (win_content win) (win_buf win) = Some (con, buf)"
    "con_refines font (buf_info win) (win_size win) True (con, buf) term_blank" "content con = win_content win"
    "\<not> cursor_visible con" by (rule init_console_win [OF wm_inv_facts(1) [OF assms(1)] ok])
  have "cols con = (win_width win - 12) div 8" "rows con = (win_height win - 36) div 16" "0 < rows con"
    using c(3,4) ok by (auto simp: con_refines_def con_inv_def win_content_def win_ok_def)
  then have "win_text font ((win_width win - 12) div 8) ((win_height win - 36) div 16) False term_blank
      (win\<lparr>win_buf := buf, win_console := Some con\<rparr>)"
    using c(3-5) blank_ahead_clear(2) by (simp add: win_text_def shows_text_hidden win_content_def win_size_def)
  moreover have "win\<lparr>win_buf := buf, win_console := Some con\<rparr> \<in> set (windows wm')"
    using assms(2) c(1,2) unfolding wm' upd_win_def by (auto intro!: image_eqI [of _ _ win])
  ultimately show ?thesis unfolding wm_text_def by (metis wm_window.select_convs(1) wm_window.surjective wm_window.update_convs)
qed

lemma init_console_again:
  assumes "wm_inv info wm" and "wm_text font wid n_cols n_rows vis t wm" and "init_console wid wm = Some wm'"
  shows "wm_text font wid n_cols n_rows False term_blank wm'"
proof -
  obtain win con where win: "win \<in> set (windows wm)" "win_id win = wid" "cols con = n_cols" "rows con = n_rows"
    "content con = win_content win" "con_inv (buf_info win) (win_size win) con"
    using assms(2) by (auto simp: wm_text_def win_text_def shows_text_def)
  have "n_cols = (win_width win - 12) div 8" "n_rows = (win_height win - 36) div 16"
    using win(3-6) wm_inv_facts(6) [OF assms(1) win(1)] by (auto simp: con_inv_def win_content_def win_ok_def)
  then show ?thesis using init_console_text [OF assms(1) win(1), of wm'] assms(3) win(2) by simp
qed

text \<open>A request of a console.\<close>

fun to_console :: "request \<Rightarrow> bool" where
  "to_console (Write i s) = True"
| "to_console (Show_cursor i) = True"
| "to_console (Hide_cursor i) = True"
| "to_console (Clear i) = True"
| "to_console _ = False"

lemma console_request_text:
  assumes "desk_inv info k d" and "font_ok font" and "k < 2 ^ 32" and "to_console r" and "has_text font wid n_cols n_rows vis t d"
    and "text_step wid n_cols n_rows r (vis, t) = Some (vis', t')" and "serve font r d = Some d'"
  shows "has_text font wid n_cols n_rows vis' t' d'"
proof -
  have dev: "device_text font info wid n_cols n_rows vis t d"
    using assms(1-3,5) desk_inv_mono [OF assms(1), of "2 ^ 32"] by (auto simp: device_text_def has_text_def)
  have done_by_dev: "has_text font wid n_cols n_rows v s d'"
    if "\<exists>e. serve font r d = Some e \<and> device_text font info wid n_cols n_rows v s e" for v s
    using that assms(7) by (auto simp: device_text_def has_text_def)
  note others = console_op_other [OF _ assms(1,5)]
  show ?thesis
  proof (cases r)
    case (Write i s)
    show ?thesis
    proof (cases "i = wid")
      case True
      then have s: "vis = False" "13 \<notin> set s" "vis' = False" "t' = term_write_str n_cols n_rows s t"
        using assms(6) Write by (auto split: if_splits)
      show ?thesis using dev.write_text [OF dev [unfolded s(1)] s(2)] Write True unfolding s(3,4) by (intro done_by_dev) simp
    next
      case False
      then show ?thesis using others assms(7) assms(6) Write by (auto simp: console_write_def)
    qed
  next
    case (Show_cursor i)
    show ?thesis
    proof (cases "i = wid")
      case True
      then show ?thesis using dev.show_text [OF dev] Show_cursor assms(6) by (intro done_by_dev) auto
    next
      case False
      then show ?thesis using others assms(7) assms(6) Show_cursor by (auto simp: console_show_cursor_def)
    qed
  next
    case (Hide_cursor i)
    show ?thesis
    proof (cases "i = wid")
      case True
      then show ?thesis using dev.hide_text [OF dev] Hide_cursor assms(6) by (intro done_by_dev) auto
    next
      case False
      then show ?thesis using others assms(7) assms(6) Hide_cursor by (auto simp: console_hide_cursor_def)
    qed
  next
    case (Clear i)
    show ?thesis
    proof (cases "i = wid")
      case True
      then have s: "vis = False" "vis' = False" "t' = term_clear t" using assms(6) Clear by (auto split: if_splits)
      show ?thesis using dev.wipe_text [OF dev [unfolded s(1)]] Clear True unfolding s(2,3) by (intro done_by_dev) simp
    next
      case False
      then show ?thesis using others assms(7) assms(6) Clear by (auto simp: wm_console_clear_def)
    qed
  qed (use assms(4) in simp_all)
qed

lemma serve_text:
  assumes "desk_inv info k d" and "font_ok font" and "k < 2 ^ 32" and "request_ok r" and "has_text font wid n_cols n_rows vis t d"
    and "text_step wid n_cols n_rows r (vis, t) = Some (vis', t')"
  shows "\<exists>d'. serve font r d = Some d' \<and> desk_inv info (Suc k) d' \<and> has_text font wid n_cols n_rows vis' t' d'"
proof -
  obtain d' where d': "serve font r d = Some d'" "desk_inv info (Suc k) d'" using serve_inv [OF assms(1,2,4,3)] by blast
  obtain wm buf where d: "WM d = Some wm" "FB_STATE d = Some (info, buf)" "length buf = frame_size info" "wm_inv info wm"
    using assms(1) by (auto simp: desk_inv_def)
  have has: "wm_text font wid n_cols n_rows vis t wm" using assms(5) d(1) by (simp add: has_text_def)
  note done_by_req = console_request_text [OF assms(1-3) _ assms(5,6) d'(1)]
  have "has_text font wid n_cols n_rows vis' t' d'"
  proof (cases r)
    case (Create x y w h name owner)
    then obtain i wm' where c: "create_window font x y w h name owner wm = Some (i, wm')" "d' = d\<lparr>WM := Some wm'\<rparr>"
      using d'(1) d(1) by (auto simp: wm_create_window_def with_wm_def bind_eq_Some_conv)
    then have "\<exists>win. windows wm' = windows wm @ [win]" by (auto simp: create_window_def Let_def bind_eq_Some_conv)
    then show ?thesis using has c(2) assms(6) Create by (auto simp: has_text_def wm_text_def)
  next
    case (Init_console i)
    then have up: "upd_wm (init_console i) d = Some d'" using d'(1) by (simp add: wm_init_console_def)
    show ?thesis
    proof (cases "i = wid")
      case True
      then have "vis' = False" "t' = term_blank" using assms(6) Init_console by auto
      then show ?thesis using upd_wm_Some [OF up] d(1) True init_console_again [OF d(4) has] by (auto simp: has_text_def)
    next
      case False
      then have "vis' = vis" "t' = t" using assms(6) Init_console by auto
      then show ?thesis
        using other_text [OF up assms(1,5)] window_mut_other_text False by (auto simp: init_console_def)
    qed
  next
    case (Write i s)
    then show ?thesis using done_by_req by simp
  next
    case (Show_cursor i)
    then show ?thesis using done_by_req by simp
  next
    case (Hide_cursor i)
    then show ?thesis using done_by_req by simp
  next
    case (Clear i)
    then show ?thesis using done_by_req by simp
  next
    case (Mark_dirty i)
    then have "upd_wm (mark_dirty i) d = Some d'" "vis' = vis" "t' = t" using d'(1) assms(6) by (auto simp: wm_mark_dirty_def)
    have "wm_text font wid n_cols n_rows vis t v'"
      if "wm_inv info v" "mark_dirty i v = Some v'" "wm_text font wid n_cols n_rows vis t v" for v v'
      using mark_dirty_text [OF that(1,3), of i] that(2) by auto
    then show ?thesis unfolding \<open>vis' = vis\<close> \<open>t' = t\<close>
      by (rule other_text [OF \<open>upd_wm (mark_dirty i) d = Some d'\<close> assms(1,5)])
  next
    case (Mouse_event e)
    then have "\<exists>wm'. WM d' = Some wm' \<and> wins_kept info wm wm'"
      using screen_request_kept [OF assms(1,2) d(1) d'(1)] assms(4) by simp
    then show ?thesis using wins_kept_text has assms(6) Mouse_event by (auto simp: has_text_def)
  next
    case Composite
    then have "\<exists>wm'. WM d' = Some wm' \<and> wins_kept info wm wm'"
      using screen_request_kept [OF assms(1,2) d(1) d'(1)] by simp
    then show ?thesis using wins_kept_text has assms(6) Composite by (auto simp: has_text_def)
  qed
  then show ?thesis using d' by blast
qed

lemma has_text_pixels:
  assumes "desk_inv info k d" and "keeps_colour info" and "has_text font wid n_cols n_rows vis t d"
  shows "\<exists>wm win. WM d = Some wm \<and> win \<in> set (windows wm) \<and> win_id win = wid \<and>
    (\<forall>u < win_width win - 12. \<forall>v < win_height win - 36. read_pixel (buf_info win) (win_buf win) (6 + u) (30 + v) = Some (
       if vis \<and> u = 8 * tcol t \<and> v div 16 = trow t \<or> lit_point font n_cols n_rows (grid t) u v then white else black))"
proof -
  obtain wm win con where w: "WM d = Some wm" "win \<in> set (windows wm)" "win_id win = wid" "win_console win = Some con"
    "cols con = n_cols" "rows con = n_rows" "content con = win_content win"
    "shows_text font (buf_info win) (win_size win) vis t (con, win_buf win)"
    using assms(3) by (auto simp: has_text_def wm_text_def win_text_def)
  have inv: "wm_inv info wm" using assms(1) w(1) by (auto simp: desk_inv_def)
  note ok = wm_inv_facts(6) [OF inv w(2)]
  have info: "info_ok (buf_info win)" "content_ok (buf_info win) (win_size win) (win_content win)"
    using win_ok_facts [OF wm_inv_facts(1) [OF inv] ok] by auto
  have keeps: "keeps_colour (buf_info win)" using ok assms(2) by (simp add: win_ok_def)
  have len: "length (win_buf win) = win_size win" using ok by (simp add: win_ok_def)
  have "read_pixel (buf_info win) (win_buf win) (6 + u) (30 + v) = Some (
       if vis \<and> u = 8 * tcol t \<and> v div 16 = trow t \<or> lit_point font n_cols n_rows (grid t) u v then white else black)"
    if "u < win_width win - 12" "v < win_height win - 36" for u v
  proof -
    have "has_colour (buf_info win) (win_buf win) (6 + u, 30 + v)
       (if vis \<and> u = 8 * tcol t \<and> v div 16 = trow t \<or> lit_point font n_cols n_rows (grid t) u v then white else black)"
      using w(5-8) that unfolding shows_text_def by (auto simp: win_content_def)
    moreover have "(6 + u, 30 + v) \<in> canvas (buf_info win) (length (win_buf win))"
      unfolding len by (rule content_canvas [OF info(2)]) (use that in \<open>auto simp: win_content_def\<close>)
    ultimately show ?thesis using read_has_colour [OF info(1) disjI1 [OF keeps]] shown_id [OF keeps] by simp
  qed
  then show ?thesis using w(1-3) by blast
qed

section \<open>Property\<close>

lemma serve_all_text:
  assumes "desk_inv info k d" and "font_ok font" and "k + length rs \<le> 2 ^ 32" and "\<forall>r \<in> set rs. request_ok r"
    and "has_text font wid n_cols n_rows vis t d" and "foldM (text_step wid n_cols n_rows) rs (vis, t) = Some (vis', t')"
  shows "\<exists>d'. foldM (serve font) rs d = Some d' \<and> desk_inv info (k + length rs) d' \<and> has_text font wid n_cols n_rows vis' t' d'"
  using assms(1,3-6)
proof (induction rs arbitrary: k d vis t)
  case (Cons r rs)
  obtain vis1 t1 where s: "text_step wid n_cols n_rows r (vis, t) = Some (vis1, t1)"
    "foldM (text_step wid n_cols n_rows) rs (vis1, t1) = Some (vis', t')"
    using Cons.prems(5) by (auto split: option.splits)
  obtain d1 where d1: "serve font r d = Some d1" "desk_inv info (Suc k) d1" "has_text font wid n_cols n_rows vis1 t1 d1"
    using serve_text [OF Cons.prems(1) assms(2) _ _ Cons.prems(4) s(1)] Cons.prems(2,3) by auto
  from Cons.IH [OF d1(2) _ _ d1(3) s(2)] Cons.prems(2,3) show ?case using d1(1) by auto
qed simp

text \<open>C15: every window is a terminal of its own. Serve any sequence of requests - new windows, clicks, compositions, writes to other
  windows, the initialising of consoles - in which this window's own task keeps to two rules: it writes and clears only while its cursor is hidden,
  and it writes no carriage return (\<open>text_step\<close> is \<^term>\<open>None\<close> on the others: the code would draw over the bar of the cursor and over the line's own characters, and leave
  them there). Then the content of the window shows, pixel by pixel, the terminal that its own writes, clears and initialisings make, and the
  bar of its cursor where it is on. Windows and moves are of a size that fits (\<open>request_ok\<close>), in a format that keeps colours.\<close>

theorem windows_are_terminals:
  assumes "desk_inv info k d" and "font_ok font" and "keeps_colour info" and "k + length rs \<le> 2 ^ 32"
    and "\<forall>r \<in> set rs. request_ok r" and "has_text font wid n_cols n_rows vis t d"
    and "foldM (text_step wid n_cols n_rows) rs (vis, t) = Some (vis', t')"
  shows "\<exists>d' wm win. foldM (serve font) rs d = Some d' \<and> has_text font wid n_cols n_rows vis' t' d' \<and> WM d' = Some wm \<and>
    win \<in> set (windows wm) \<and> win_id win = wid \<and>
    (\<forall>u < win_width win - 12. \<forall>v < win_height win - 36. read_pixel (buf_info win) (win_buf win) (6 + u) (30 + v) = Some (
       if vis' \<and> u = 8 * tcol t' \<and> v div 16 = trow t' \<or> lit_point font n_cols n_rows (grid t') u v then white else black))"
proof -
  obtain d' where d': "foldM (serve font) rs d = Some d'" "desk_inv info (k + length rs) d'"
    "has_text font wid n_cols n_rows vis' t' d'"
    using serve_all_text [OF assms(1,2,4-7)] by blast
  from has_text_pixels [OF d'(2) assms(3) d'(3)] show ?thesis using d'(1,3) by blast
qed

text \<open>A desktop with one console.\<close>

lemma boot_console:
  assumes "screen_ok info" and "FB_STATE d = Some (info, buf)" and "length buf = frame_size info" and "font_ok font"
    and "geometry_ok x y w h"
  obtains d' where "wm_init d \<bind> foldM (serve font) [Create x y w h name owner, Init_console 0] = Some d'"
    and "desk_inv info 2 d'" and "has_text font 0 ((w - 12) div 8) ((h - 36) div 16) False term_blank d'"
proof -
  obtain d0 wm where d0: "wm_init d = Some d0" "desk_inv info 0 d0" "d0 = d\<lparr>WM := Some wm\<rparr>" "wm_inv info wm"
    "windows wm = []" "next_id wm = 0" by (rule wm_init_inv [OF assms(1-3)])
  have nxt: "next_id wm < 2 ^ 32" by (simp add: d0(6))
  obtain win where win: "create_window font x y w h name owner wm = Some (next_id wm, wm\<lparr>windows := windows wm @ [win],
      focused := (if focused wm = None then Some (next_id wm) else focused wm), next_id := next_id wm + 1, needs_composite := True\<rparr>)"
    "wm_inv info (wm\<lparr>windows := windows wm @ [win],
      focused := (if focused wm = None then Some (next_id wm) else focused wm), next_id := next_id wm + 1, needs_composite := True\<rparr>)"
    "win_id win = next_id wm" "win_width win = w" "win_height win = h"
    by (rule create_window_spec [OF d0(4) assms(4,5) nxt, of name owner])
  define wm1 where "wm1 = wm\<lparr>windows := windows wm @ [win],
      focused := (if focused wm = None then Some (next_id wm) else focused wm), next_id := next_id wm + 1, needs_composite := True\<rparr>"
  have w1: "win \<in> set (windows wm1)" "win_id win = 0" using win(3) d0(6) by (auto simp: wm1_def)
  obtain wm2 where wm2: "init_console 0 wm1 = Some wm2" using init_console_inv [OF win(2), folded wm1_def] by blast
  have t: "wm_text font 0 ((w - 12) div 8) ((h - 36) div 16) False term_blank wm2"
    using init_console_text [OF win(2) [folded wm1_def] w1(1)] wm2 w1(2) win(4,5) by simp
  have ok: "\<forall>r \<in> set [Create x y w h name owner, Init_console 0]. request_ok r" using assms(5) by simp
  have len: "0 + length [Create x y w h name owner, Init_console 0] \<le> 2 ^ 32" by simp
  obtain d' where d': "foldM (serve font) [Create x y w h name owner, Init_console 0] d0 = Some d'"
    "desk_inv info (0 + length [Create x y w h name owner, Init_console 0]) d'"
    using serve_all_inv [OF d0(2) assms(4) ok len] by blast
  have "WM d' = Some wm2"
    using d'(1) win(1) [folded wm1_def] wm2
    by (auto simp: d0(3) wm_create_window_def with_wm_def wm_init_console_def upd_wm_def)
  then have "has_text font 0 ((w - 12) div 8) ((h - 36) div 16) False term_blank d'" using t by (simp add: has_text_def)
  moreover have "desk_inv info 2 d'" using d'(2) by (simp add: numeral_2_eq_2)
  ultimately show ?thesis using d0(1) d'(1) by (intro that [of d']) simp_all
qed

lemma sample_console:
  obtains d where "desk_inv sample_info 2 d" and "has_text block_font 0 63 24 False term_blank d"
proof (rule boot_console [OF sample_desktop_ok block_font_ok, of 380 80 520 420 "lit ''Shell''" 1])
  show "geometry_ok 380 80 520 420" by (simp add: geometry_ok_def)
  show "\<And>d'. desk_inv sample_info 2 d' \<Longrightarrow>
    has_text block_font 0 ((520 - 12) div 8) ((420 - 36) div 16) False term_blank d' \<Longrightarrow> thesis" using that by simp
qed

theorem windows_are_terminals_witness:
  "\<exists>d d' wm win. foldM (serve block_font) [Write 0 (lit ''ab''), Create 20 40 340 520 [] 2, Write 1 (lit ''zz''), Show_cursor 0] d = Some d' \<and>
    WM d' = Some wm \<and> win \<in> set (windows wm) \<and> win_id win = 0 \<and>
    (\<forall>u < win_width win - 12. \<forall>v < win_height win - 36. read_pixel (buf_info win) (win_buf win) (6 + u) (30 + v) = Some (
       if u = 16 \<and> v div 16 = 0 \<or> lit_point block_font 63 24 (grid (term_write_str 63 24 (lit ''ab'') term_blank)) u v
       then white else black))"
proof -
  let ?rs = "[Write 0 (lit ''ab''), Create 20 40 340 520 [] 2, Write 1 (lit ''zz''), Show_cursor 0]"
  let ?t = "term_write_str 63 24 (lit ''ab'') term_blank"
  have step: "foldM (text_step 0 63 24) ?rs (False, term_blank) = Some (True, ?t)" by (simp add: lit_def)
  have ok: "\<forall>r \<in> set ?rs. request_ok r" by (simp add: geometry_ok_def)
  have len: "2 + length ?rs \<le> 2 ^ 32" by simp
  have t: "tcol ?t = 2" "trow ?t = 0"
    by (simp_all add: lit_def term_write_str_def term_write_def term_print_def term_blank_def)
  obtain d where d: "desk_inv sample_info 2 d" "has_text block_font 0 63 24 False term_blank d" by (rule sample_console)
  have bar: "(True \<and> u = 8 * 2 \<and> v div 16 = 0 \<or> P) = (u = 16 \<and> v div 16 = 0 \<or> P)" for u v :: nat and P
    by simp
  from windows_are_terminals [OF d(1) block_font_ok sample_info_ok(2) len ok d(2) step] show ?thesis
    unfolding t bar by blast
qed

end
