(* ===== verification/Memmap.thy ===== *)
theory Memmap
  imports Device Format
begin

text \<open>
  The memory map panel: the kinds of regions of \<^verbatim>\<open>kernel/src/framebuffer.rs\<close> and the task of
  \<^verbatim>\<open>kernel/src/memmap.rs\<close>, which draws the stored regions once into its window. \<open>MEM_REGIONS\<close> is the
  pair of an array of 32 entries and the number of them in use.
\<close>

section \<open>Regions\<close>

definition MAX_REGIONS :: usize where "MAX_REGIONS = 32"

datatype mem_region_kind = Usable | Reserved | AcpiReclaimable | AcpiNvs | BadMemory | Bootloader | Heap | FrameBuffer

fun label :: "mem_region_kind \<Rightarrow> unichar list" where
  "label Usable = lit ''Usable''"
| "label Reserved = lit ''Reserved''"
| "label AcpiReclaimable = lit ''ACPI Reclaim''"
| "label AcpiNvs = lit ''ACPI NVS''"
| "label BadMemory = lit ''Bad Memory''"
| "label Bootloader = lit ''Bootloader''"
| "label Heap = lit ''Heap''"
| "label FrameBuffer = lit ''FrameBuffer''"

fun color :: "mem_region_kind \<Rightarrow> rgb" where
  "color Usable = (0x50, 0xC8, 0x78)"
| "color Reserved = (0xE0, 0x6C, 0x5C)"
| "color AcpiReclaimable = (0xE0, 0xA0, 0x50)"
| "color AcpiNvs = (0xD0, 0x80, 0x40)"
| "color BadMemory = (0xC0, 0x30, 0x30)"
| "color Bootloader = (0x5C, 0x9C, 0xE0)"
| "color Heap = (0xE0, 0xD0, 0x50)"
| "color FrameBuffer = (0xB0, 0x70, 0xD0)"

definition bios_e820_to_kind :: "u32 \<Rightarrow> mem_region_kind" where
  "bios_e820_to_kind tag =
     (if tag = 1 then Usable else if tag = 2 then Reserved else if tag = 3 then AcpiReclaimable
      else if tag = 4 then AcpiNvs else if tag = 5 then BadMemory else Reserved)"

record mem_region_info =
  region_start :: u64
  region_end :: u64
  region_kind :: mem_region_kind

text \<open>The initial entry, and \<open>dst[..n].copy_from_slice(&src[..n])\<close>.\<close>

definition no_region :: mem_region_info where
  "no_region = \<lparr>region_start = 0, region_end = 0, region_kind = Usable\<rparr>"

definition copy_prefix :: "usize \<Rightarrow> 'a list \<Rightarrow> 'a list \<Rightarrow> 'a list option" where
  "copy_prefix n dst src = (if n \<le> length dst \<and> n \<le> length src then Some (take n src @ drop n dst) else None)"

type_synonym mem_regions = "mem_region_info list \<times> usize"

definition MEM_REGIONS :: mem_regions where
  "MEM_REGIONS = (replicate MAX_REGIONS no_region, 0)"

definition set_memory_regions :: "mem_region_info list \<Rightarrow> mem_regions \<Rightarrow> mem_regions option" where
  "set_memory_regions regions guard = do {
     let count = min (length regions) MAX_REGIONS;
     arr \<leftarrow> copy_prefix count (fst guard) regions;
     Some (arr, count)
   }"

section \<open>Drawing\<close>

definition legend_kinds :: "mem_region_kind list" where
  "legend_kinds = [Usable, Reserved, AcpiReclaimable, AcpiNvs, Bootloader, Heap, FrameBuffer]"

definition legend_height :: usize where
  "legend_height = (length legend_kinds + 1) div 2 * (FONT_HEIGHT + 4) + 8"

definition row_height :: usize where
  "row_height = FONT_HEIGHT * 2 + 8"

text \<open>One region of the list; \<open>cy\<close> is the line it starts on, the result the line after it.\<close>

definition region_row :: "font \<Rightarrow> fb_info \<Rightarrow> rect \<Rightarrow> mem_region_info list \<Rightarrow> usize \<Rightarrow> usize \<times> fb_buffer \<Rightarrow>
    (usize \<times> fb_buffer) option" where
  "region_row font info area regions i = (\<lambda>(cy, buf). do {
     region \<leftarrow> get_at regions i;
     let c = color (region_kind region);
     sz \<leftarrow> u64_sub (region_end region) (region_start region);
     buf \<leftarrow> fill_rect info (rx area) cy (rwidth area) 3 c buf;
     cy \<leftarrow> uadd cy 4;
     x \<leftarrow> uadd (rx area) 2;
     buf \<leftarrow> draw_text font info x cy (label (region_kind region)) c buf;
     (size_buf, size_len) \<leftarrow> format_size (replicate 24 0) sz;
     size_str \<leftarrow> str_of [] size_buf size_len;
     right \<leftarrow> uadd (rx area) (rwidth area);
     w \<leftarrow> umul size_len FONT_WIDTH;
     w \<leftarrow> uadd w 2;
     let size_x = saturating_sub right w;
     buf \<leftarrow> draw_text font info size_x cy size_str (0xCC, 0xCC, 0xCC) buf;
     cy \<leftarrow> uadd cy FONT_HEIGHT;
     (addr_buf, addr_len) \<leftarrow> format_addr_range (replicate 40 0) (region_start region) (region_end region);
     addr_str \<leftarrow> str_of [] addr_buf addr_len;
     x \<leftarrow> uadd (rx area) 2;
     buf \<leftarrow> draw_text font info x cy addr_str (0x88, 0x8C, 0x96) buf;
     cy \<leftarrow> uadd cy FONT_HEIGHT;
     cy \<leftarrow> uadd cy 1;
     buf \<leftarrow> fill_rect info (rx area) cy (rwidth area) 1 (0x1A, 0x1E, 0x28) buf;
     cy \<leftarrow> uadd cy 3;
     Some (cy, buf)
   })"

definition legend_entry :: "font \<Rightarrow> fb_info \<Rightarrow> rect \<Rightarrow> usize \<Rightarrow> usize \<Rightarrow> usize \<times> mem_region_kind \<Rightarrow> fb_buffer \<Rightarrow>
    fb_buffer option" where
  "legend_entry font info area legend_y col_width = (\<lambda>(i, kind) buf. do {
     let c = i mod 2;
     let r = i div 2;
     off \<leftarrow> umul c col_width;
     lx \<leftarrow> uadd (rx area) off;
     ly \<leftarrow> uadd legend_y 6;
     off \<leftarrow> umul r (FONT_HEIGHT + 4);
     ly \<leftarrow> uadd ly off;
     y \<leftarrow> uadd ly 2;
     buf \<leftarrow> fill_rect info lx y 12 12 (color kind) buf;
     x \<leftarrow> uadd lx 16;
     draw_text font info x ly (label kind) (0xAA, 0xAA, 0xAA) buf
   })"

definition draw_memmap_window :: "font \<Rightarrow> mem_regions \<Rightarrow> wm_window \<Rightarrow> wm_window option" where
  "draw_memmap_window font guard win = do {
     area \<leftarrow> content_rect win;
     let info = buf_info win;
     let count = snd guard;
     if count = 0 then Some win
     else do {
       regions \<leftarrow> copy_prefix count (replicate MAX_REGIONS no_region) (fst guard);
       let cy = ry area;
       buf \<leftarrow> draw_text font info (rx area) cy (lit ''Physical Memory'') (0xA0, 0xA8, 0xB4) (win_buf win);
       cy \<leftarrow> uadd cy (FONT_HEIGHT + 4);
       buf \<leftarrow> fill_rect info (rx area) cy (rwidth area) 1 (0x33, 0x38, 0x44) buf;
       cy \<leftarrow> uadd cy 4;
       d \<leftarrow> usub cy (ry area);
       used \<leftarrow> uadd legend_height d;
       let list_area = saturating_sub (rheight area) used;
       let max_visible = list_area div row_height;
       let visible = min count max_visible;
       (cy, buf) \<leftarrow> foldM (region_row font info area regions) [0..<visible] (cy, buf);
       bottom \<leftarrow> uadd (ry area) (rheight area);
       legend_y \<leftarrow> usub bottom legend_height;
       buf \<leftarrow> fill_rect info (rx area) legend_y (rwidth area) 1 (0x33, 0x38, 0x44) buf;
       let col_width = rwidth area div 2;
       buf \<leftarrow> foldM (legend_entry font info area legend_y col_width) (enumerate 0 legend_kinds) buf;
       Some (win\<lparr>win_buf := buf, dirty := True\<rparr>)
     }
   }"

definition draw_memmap :: "font \<Rightarrow> mem_regions \<Rightarrow> usize \<Rightarrow> desktop \<Rightarrow> desktop option" where
  "draw_memmap font guard wid = upd_wm (window_mut wid (draw_memmap_window font guard))"

text \<open>The task: the drawing, then an endless loop that only yields.\<close>

definition memmap_start :: "font \<Rightarrow> mem_regions \<Rightarrow> usize \<Rightarrow> desktop \<Rightarrow> desktop option" where
  "memmap_start font guard wid d = do {
     d \<leftarrow> draw_memmap font guard wid d;
     wm_mark_dirty wid d
   }"

section \<open>Bands\<close>

definition within :: "(nat \<times> nat) set \<Rightarrow> (nat \<times> nat, 'c) picture \<Rightarrow> bool" where
  "within B pic \<longleftrightarrow> (\<forall>(P, c) \<in> set pic. P \<subseteq> B)"

lemma within_simps [simp]:
  "within B []" "within B ((P, c) # pic) \<longleftrightarrow> P \<subseteq> B \<and> within B pic" "within B (p @ p') \<longleftrightarrow> within B p \<and> within B p'"
  by (auto simp: within_def)

lemma within_concat: "within B (concat ps) \<longleftrightarrow> (\<forall>p \<in> set ps. within B p)"
  by (induction ps) auto

lemma within_mono: "within B pic \<Longrightarrow> B \<subseteq> C \<Longrightarrow> within C pic"
  unfolding within_def by blast

lemma within_outside: "within B pic \<Longrightarrow> q \<notin> B \<Longrightarrow> colour_at pic q = None"
  by (induction pic) (auto simp: within_def)

lemma text_within: "text_points font x y str \<subseteq> box x y (8 * length str) 16"
proof
  fix p assume "p \<in> text_points font x y str"
  then obtain i where i: "i < length str" "x + 8 * i \<le> fst p" "y \<le> snd p" "fst p - (x + 8 * i) < 8" "snd p - y < 16"
    by (auto simp: text_points_def char_points_def ink_def)
  moreover have "8 * i + 8 \<le> 8 * length str" using i(1) by simp
  ultimately show "p \<in> box x y (8 * length str) 16" by (cases p) auto
qed

lemma box_mono: "x' \<le> x \<Longrightarrow> x + w \<le> x' + w' \<Longrightarrow> y' \<le> y \<Longrightarrow> y + h \<le> y' + h' \<Longrightarrow> box x y w h \<subseteq> box x' y' w' h'"
  by (auto simp: box_def)

lemma text_within_box:
  "x' \<le> x \<Longrightarrow> x + 8 * length str \<le> x' + w' \<Longrightarrow> y' \<le> y \<Longrightarrow> y + 16 \<le> y' + h' \<Longrightarrow> text_points font x y str \<subseteq> box x' y' w' h'"
  using text_within box_mono by (meson order_trans)

section \<open>The picture of the panel\<close>

definition size_str :: "mem_region_info \<Rightarrow> unichar list" where
  "size_str r = map unat (size_text (unat (region_end r - region_start r)))"

definition addr_str :: "mem_region_info \<Rightarrow> unichar list" where
  "addr_str r = map unat (hex_text (region_start r) @ [45] @ hex_text (region_end r))"

definition row_pic :: "font \<Rightarrow> rect \<Rightarrow> mem_region_info \<Rightarrow> nat \<Rightarrow> (nat \<times> nat, rgb) picture" where
  "row_pic font r g cy =
     [(box (rx r) cy (rwidth r) 3, color (region_kind g)),
      (text_points font (rx r + 2) (cy + 4) (label (region_kind g)), color (region_kind g)),
      (text_points font (rx r + rwidth r - (length (size_str g) * 8 + 2)) (cy + 4) (size_str g), (0xCC, 0xCC, 0xCC)),
      (text_points font (rx r + 2) (cy + 20) (addr_str g), (0x88, 0x8C, 0x96)),
      (box (rx r) (cy + 37) (rwidth r) 1, (0x1A, 0x1E, 0x28))]"

definition header_pic :: "font \<Rightarrow> rect \<Rightarrow> (nat \<times> nat, rgb) picture" where
  "header_pic font r =
     [(text_points font (rx r) (ry r) (lit ''Physical Memory''), (0xA0, 0xA8, 0xB4)),
      (box (rx r) (ry r + 20) (rwidth r) 1, (0x33, 0x38, 0x44))]"

definition entry_pic :: "font \<Rightarrow> rect \<Rightarrow> nat \<Rightarrow> nat \<times> mem_region_kind \<Rightarrow> (nat \<times> nat, rgb) picture" where
  "entry_pic font r y = (\<lambda>(i, kind). let lx = rx r + i mod 2 * (rwidth r div 2); ly = y + 6 + i div 2 * 20
     in [(box lx (ly + 2) 12 12, color kind), (text_points font (lx + 16) ly (label kind), (0xAA, 0xAA, 0xAA))])"

definition legend_pic :: "font \<Rightarrow> rect \<Rightarrow> (nat \<times> nat, rgb) picture" where
  "legend_pic font r = (let y = ry r + rheight r - 88
     in (box (rx r) y (rwidth r) 1, (0x33, 0x38, 0x44)) # concat (map (entry_pic font r y) (enumerate 0 legend_kinds)))"

section \<open>The drawing is the picture\<close>

lemma size_text_ascii: "b \<in> set (size_text n) \<Longrightarrow> unat b < 0x80"
  by (fastforce simp: size_text_def suffix_bytes_def dest: dec_text_ascii split: if_splits)

lemma hex_text_ascii: "b \<in> set (hex_text n) \<Longrightarrow> unat b < 0x80"
proof -
  have "unat (hex_digit d) < 0x80" if "unat d < 16" for d
  proof (cases "d < 10")
    case True
    then have "unat (48 + d) = 48 + unat d" using that by (simp add: unat_word_ariths)
    then show ?thesis using True that by (simp add: hex_digit_def)
  next
    case False
    have "97 + d - 10 = 87 + d" by (simp add: algebra_simps)
    moreover have "unat (87 + d) = 87 + unat d" using that by (simp add: unat_word_ariths)
    ultimately show ?thesis using False that by (simp add: hex_digit_def)
  qed
  then show "b \<in> set (hex_text n) \<Longrightarrow> unat b < 0x80" by (auto simp: hex_text_def dest: hex_nibbles_less)
qed

lemma size_shown:
  obtains buf n where "format_size (replicate 24 0) (region_end g - region_start g) = Some (buf, n)"
    and "str_of [] buf n = Some (size_str g)" and "n = length (size_str g)" and "n \<le> 24"
proof -
  let ?t = "size_text (unat (region_end g - region_start g))"
  obtain buf n where f: "format_size (replicate 24 0) (region_end g - region_start g) = Some (buf, n)" "length buf = 24"
    "n = length ?t" "take n buf = ?t"
    using format_size_spec [of "replicate 24 0" "region_end g - region_start g"] by auto
  have le: "n \<le> 24" using arg_cong [OF f(4), of length] f(2,3) by simp
  moreover have "str_of [] buf n = Some (map unat ?t)"
    using str_of_ascii [of n buf] le f(2,4) size_text_ascii by simp
  ultimately show ?thesis using that f by (simp add: size_str_def)
qed

lemma addr_shown:
  obtains buf n where "format_addr_range (replicate 40 0) (region_start g) (region_end g) = Some (buf, n)"
    and "str_of [] buf n = Some (addr_str g)"
proof -
  let ?t = "hex_text (region_start g) @ [45] @ hex_text (region_end g)"
  obtain buf n where f: "format_addr_range (replicate 40 0) (region_start g) (region_end g) = Some (buf, n)" "length buf = 40"
    "n = length ?t" "take n buf = ?t"
    using format_addr_range_spec [of "replicate 40 0" "region_start g" "region_end g"] by auto
  have "n \<le> 40" using arg_cong [OF f(4), of length] f(2,3) by simp
  moreover have "\<forall>b \<in> set ?t. unat b < 0x80" using hex_text_ascii by auto
  ultimately have "str_of [] buf n = Some (addr_str g)" using str_of_ascii [of n buf] f(2,4) by (simp add: addr_str_def)
  with f(1) show ?thesis by (rule that)
qed

lemma length_addr_str: "length (addr_str g) \<le> 37"
  using length_hex_text [of "region_start g"] length_hex_text [of "region_end g"] by (simp add: addr_str_def)

lemma length_label: "length (label kind) \<le> 12"
  by (cases kind) (simp_all add: lit_def)

text \<open>A row never panics but for a region that ends before it starts.\<close>

lemma region_row_backwards:
  assumes "region_end (regs ! i) < region_start (regs ! i)"
  shows "region_row font info r regs i s = None"
  using assms by (cases s) (simp add: region_row_def get_at_def u64_sub_def not_le [symmetric])

definition area_ok :: "rect \<Rightarrow> bool" where
  "area_ok r \<longleftrightarrow> rx r \<le> 2 ^ 16 \<and> ry r \<le> 2 ^ 16 \<and> rwidth r \<le> 2 ^ 16 \<and> rheight r \<le> 2 ^ 16"

lemma region_row_paints:
  assumes "font_ok font" and "area_ok r" and "i < length regs" and "region_start (regs ! i) \<le> region_end (regs ! i)"
    and "cy \<le> 2 ^ 17" and "info_ok info" and "length buf = n"
  shows "\<exists>buf'. region_row font info r regs i (cy, buf) = Some (cy + 40, buf') \<and> fb.paints info n (row_pic font r (regs ! i) cy) buf buf'"
proof -
  let ?g = "regs ! i"
  obtain b1 n1 where f1: "format_size (replicate 24 0) (region_end ?g - region_start ?g) = Some (b1, n1)"
    "str_of [] b1 n1 = Some (size_str ?g)" "n1 = length (size_str ?g)" "n1 \<le> 24" by (rule size_shown)
  obtain b2 n2 where f2: "format_addr_range (replicate 40 0) (region_start ?g) (region_end ?g) = Some (b2, n2)"
    "str_of [] b2 n2 = Some (addr_str ?g)" by (rule addr_shown)
  define row where "row = (\<lambda>buf. fill_rect info (rx r) cy (rwidth r) 3 (color (region_kind ?g)) buf \<bind>
     (\<lambda>buf. draw_text font info (rx r + 2) (cy + 4) (label (region_kind ?g)) (color (region_kind ?g)) buf \<bind>
     (\<lambda>buf. draw_text font info (rx r + rwidth r - (length (size_str ?g) * 8 + 2)) (cy + 4) (size_str ?g) (0xCC, 0xCC, 0xCC) buf \<bind>
     (\<lambda>buf. draw_text font info (rx r + 2) (cy + 20) (addr_str ?g) (0x88, 0x8C, 0x96) buf \<bind>
      fill_rect info (rx r) (cy + 37) (rwidth r) 1 (0x1A, 0x1E, 0x28)))))"
  have area: "rx r \<le> 2 ^ 16" "rwidth r \<le> 2 ^ 16" using assms(2) by (auto simp: area_ok_def)
  have ar: "uadd cy 4 = Some (cy + 4)" "uadd (rx r) 2 = Some (rx r + 2)" "uadd (rx r) (rwidth r) = Some (rx r + rwidth r)"
    "umul n1 8 = Some (n1 * 8)" "uadd (n1 * 8) 2 = Some (n1 * 8 + 2)" "uadd (cy + 4) 16 = Some (cy + 20)"
    "uadd (cy + 20) 16 = Some (cy + 36)" "uadd (cy + 36) 1 = Some (cy + 37)" "uadd (cy + 37) 3 = Some (cy + 40)"
    using area assms(5) f1(4) by (simp_all add: uadd_def umul_def)
  have "u64_sub (region_end ?g) (region_start ?g) = Some (region_end ?g - region_start ?g)"
    using assms(4) by (simp add: u64_sub_def)
  then have eq: "region_row font info r regs i (cy, buf) = map_option (Pair (cy + 40)) (row buf)"
    using assms(3) ar f1(1,2) f2 unfolding row_def
    by (simp add: region_row_def get_at_def FONT_sizes Let_def saturating_sub_def f1(3) [symmetric] split: option.split bind_split)
  have len: "length (label (region_kind ?g)) \<le> 12" "length (size_str ?g) \<le> 24" "length (addr_str ?g) \<le> 37"
    using length_label length_addr_str f1(3,4) by auto
  have "fb.draws info n row ([(box (rx r) cy (rwidth r) 3, color (region_kind ?g))] @
     ([(text_points font (rx r + 2) (cy + 4) (label (region_kind ?g)), color (region_kind ?g))] @
     ([(text_points font (rx r + rwidth r - (length (size_str ?g) * 8 + 2)) (cy + 4) (size_str ?g), (0xCC, 0xCC, 0xCC))] @
     ([(text_points font (rx r + 2) (cy + 20) (addr_str ?g), (0x88, 0x8C, 0x96))] @
      [(box (rx r) (cy + 37) (rwidth r) 1, (0x1A, 0x1E, 0x28))]))))"
    unfolding row_def by (intro fb.draws_seq fill_rect_draws draw_text_draws [OF assms(1)]) (use area len assms(5) in auto)
  then have "fb.draws info n row (row_pic font r ?g cy)" by (simp add: row_pic_def)
  then obtain buf' where "row buf = Some buf'" "fb.paints info n (row_pic font r ?g cy) buf buf'"
    by (rule fb.drawsE) (use assms(6,7) in auto)
  then show ?thesis using eq by simp
qed

definition rows_pic :: "font \<Rightarrow> rect \<Rightarrow> mem_region_info list \<Rightarrow> nat \<Rightarrow> (nat \<times> nat, rgb) picture" where
  "rows_pic font r regs k = concat (map (\<lambda>i. row_pic font r (regs ! i) (ry r + 24 + 40 * i)) [0..<k])"

lemma region_rows_paint:
  assumes "font_ok font" and "area_ok r" and "k \<le> length regs" and "\<forall>i < k. region_start (regs ! i) \<le> region_end (regs ! i)"
    and "k \<le> 32" and "info_ok info" and "length buf = n"
  shows "\<exists>buf'. foldM (region_row font info r regs) [0..<k] (ry r + 24, buf) = Some (ry r + 24 + 40 * k, buf') \<and>
    fb.paints info n (rows_pic font r regs k) buf buf'"
proof -
  have start: "fb.paints info n [] buf buf"
    by (rule fb.drawsE [OF fb.draws_nothing [of info n]]) (use assms(6,7) in auto)
  let ?I = "\<lambda>i s. fst s = ry r + 24 + 40 * i \<and> fb.paints info n (rows_pic font r regs i) buf (snd s)"
  have "\<exists>t. foldM (region_row font info r regs) [0..<k] (ry r + 24, buf) = Some t \<and> ?I k t"
  proof (rule foldM_upt)
    show "?I 0 (ry r + 24, buf)" using start by (simp add: rows_pic_def)
    show "\<exists>t. region_row font info r regs i s = Some t \<and> ?I (Suc i) t" if i: "i < k" "?I i s" for i s
    proof -
      obtain b where s: "s = (ry r + 24 + 40 * i, b)" "fb.paints info n (rows_pic font r regs i) buf b"
        using i(2) by (cases s) simp
      have lb: "length b = n" using fb.paints_ok [OF s(2)] by simp
      have cy: "ry r + 24 + 40 * i \<le> 2 ^ 17" using assms(2,5) i(1) by (simp add: area_ok_def)
      have il: "i < length regs" "region_start (regs ! i) \<le> region_end (regs ! i)" using assms(3,4) i(1) by auto
      obtain b' where b': "region_row font info r regs i (ry r + 24 + 40 * i, b) = Some (ry r + 24 + 40 * i + 40, b')"
        "fb.paints info n (row_pic font r (regs ! i) (ry r + 24 + 40 * i)) b b'"
        using region_row_paints [OF assms(1,2) il cy assms(6) lb] by blast
      have "fb.paints info n (rows_pic font r regs (Suc i)) buf b'"
        using fb.paints_trans [OF s(2) b'(2)] by (simp add: rows_pic_def)
      then show ?thesis using b'(1) s(1) by simp
    qed
  qed
  then show ?thesis by auto
qed

lemma legend_entry_draws:
  assumes "font_ok font" and "area_ok r" and "y \<le> 2 ^ 17" and "i < 7"
  shows "fb.draws info n (legend_entry font info r y (rwidth r div 2) (i, kind)) (entry_pic font r y (i, kind))"
proof -
  let ?lx = "rx r + i mod 2 * (rwidth r div 2)" and ?ly = "y + 6 + i div 2 * 20"
  have area: "rx r \<le> 2 ^ 16" "rwidth r div 2 \<le> 2 ^ 16" using assms(2) by (auto simp: area_ok_def)
  have m: "i mod 2 * (rwidth r div 2) \<le> 1 * 2 ^ 16" using area(2) by (intro mult_le_mono) auto
  have d: "i div 2 * 20 \<le> 60" using assms(4) by simp
  have ar: "umul (i mod 2) (rwidth r div 2) = Some (i mod 2 * (rwidth r div 2))" "uadd (rx r) (i mod 2 * (rwidth r div 2)) = Some ?lx"
    "uadd y 6 = Some (y + 6)" "umul (i div 2) 20 = Some (i div 2 * 20)" "uadd (y + 6) (i div 2 * 20) = Some ?ly"
    "uadd ?ly 2 = Some (?ly + 2)" "uadd ?lx 16 = Some (?lx + 16)"
    using area m d assms(3) by (simp_all only: uadd_def umul_def) simp_all
  have "fb.draws info n (\<lambda>buf. fill_rect info ?lx (?ly + 2) 12 12 (color kind) buf \<bind> draw_text font info (?lx + 16) ?ly (label kind) (0xAA, 0xAA, 0xAA))
    ([(box ?lx (?ly + 2) 12 12, color kind)] @ [(text_points font (?lx + 16) ?ly (label kind), (0xAA, 0xAA, 0xAA))])"
    by (intro fb.draws_seq fill_rect_draws draw_text_draws [OF assms(1)]) (use area m d assms(3) length_label [of kind] in auto)
  moreover have "legend_entry font info r y (rwidth r div 2) (i, kind) =
    (\<lambda>buf. fill_rect info ?lx (?ly + 2) 12 12 (color kind) buf \<bind> draw_text font info (?lx + 16) ?ly (label kind) (0xAA, 0xAA, 0xAA))"
    using ar by (simp add: fun_eq_iff legend_entry_def FONT_sizes Let_def)
  ultimately show ?thesis by (simp add: entry_pic_def Let_def)
qed

definition memmap_pic :: "font \<Rightarrow> rect \<Rightarrow> mem_region_info list \<Rightarrow> nat \<Rightarrow> (nat \<times> nat, rgb) picture" where
  "memmap_pic font r regs k = header_pic font r @ rows_pic font r regs k @ legend_pic font r"

lemma legend_draws:
  assumes "font_ok font" and "area_ok r" and "y \<le> 2 ^ 17"
  shows "fb.draws info n (\<lambda>buf. fill_rect info (rx r) y (rwidth r) 1 (0x33, 0x38, 0x44) buf \<bind>
      foldM (legend_entry font info r y (rwidth r div 2)) (enumerate 0 legend_kinds))
    ((box (rx r) y (rwidth r) 1, (0x33, 0x38, 0x44)) # concat (map (entry_pic font r y) (enumerate 0 legend_kinds)))"
proof -
  have len: "length legend_kinds = 7" by (simp add: legend_kinds_def)
  have "fb.draws info n (foldM (legend_entry font info r y (rwidth r div 2)) (enumerate 0 legend_kinds))
    (concat (map (entry_pic font r y) (enumerate 0 legend_kinds)))"
  proof (rule fb.draws_loop)
    fix e assume "e \<in> set (enumerate 0 legend_kinds)"
    then have "fst e < 7" using len by (simp add: in_set_enumerate_eq)
    then show "fb.draws info n (legend_entry font info r y (rwidth r div 2) e) (entry_pic font r y e)"
      using legend_entry_draws [OF assms, of "fst e" info n "snd e"] by simp
  qed
  from fb.draws_seq [OF fill_rect_draws this] show ?thesis by simp
qed

definition visible_rows :: "wm_window \<Rightarrow> usize \<Rightarrow> nat" where
  "visible_rows win count = min count ((win_height win - 148) div 40)"

definition panel_ok :: "wm_window \<Rightarrow> bool" where
  "panel_ok win \<longleftrightarrow> 310 \<le> win_width win \<and> 124 \<le> win_height win"

definition mem_regions_ok :: "mem_regions \<Rightarrow> bool" where
  "mem_regions_ok g \<longleftrightarrow> length (fst g) = 32 \<and> snd g \<le> 32"

lemma window_area:
  assumes "win_ok info win"
  shows "content_rect win = Some (win_content win)" and "area_ok (win_content win)"
    and "rx (win_content win) = 6" and "ry (win_content win) = 30"
    and "rwidth (win_content win) = win_width win - 12" and "rheight (win_content win) = win_height win - 36"
  using assms
  by (auto simp add: content_rect_def DEFAULT_TITLE_BAR_HEIGHT_def WINDOW_PADDING_def uadd_def umul_def saturating_sub_def
      win_content_def area_ok_def win_ok_def)

lemma draw_memmap_window_eq:
  assumes "win_ok info win" and "mem_regions_ok g" and "0 < snd g" and "panel_ok win"
  defines "r \<equiv> win_content win" and "regs \<equiv> take (snd g) (fst g) @ drop (snd g) (replicate 32 no_region)"
  shows "draw_memmap_window font g win =
    (draw_text font (buf_info win) (rx r) (ry r) (lit ''Physical Memory'') (0xA0, 0xA8, 0xB4) (win_buf win) \<bind>
     fill_rect (buf_info win) (rx r) (ry r + 20) (rwidth r) 1 (0x33, 0x38, 0x44)) \<bind>
     (\<lambda>buf. foldM (region_row font (buf_info win) r regs) [0..<visible_rows win (snd g)] (ry r + 24, buf) \<bind>
     (\<lambda>(cy, buf). (fill_rect (buf_info win) (rx r) (ry r + rheight r - 88) (rwidth r) 1 (0x33, 0x38, 0x44) buf \<bind>
        foldM (legend_entry font (buf_info win) r (ry r + rheight r - 88) (rwidth r div 2)) (enumerate 0 legend_kinds)) \<bind>
     (\<lambda>buf. Some (win\<lparr>win_buf := buf, dirty := True\<rparr>))))"
proof -
  note area = window_area [OF assms(1), folded r_def]
  have h: "124 \<le> win_height win" "win_height win \<le> 2 ^ 15" using assms(1,4) by (auto simp: panel_ok_def win_ok_def)
  have sizes: "legend_height = 88" "row_height = 40"
    by (simp_all add: legend_height_def row_height_def legend_kinds_def FONT_sizes)
  have copy: "copy_prefix (snd g) (replicate MAX_REGIONS no_region) (fst g) = Some regs"
    using assms(2) by (simp add: copy_prefix_def mem_regions_ok_def MAX_REGIONS_def regs_def)
  have ar: "uadd (ry r) 20 = Some (ry r + 20)" "uadd (ry r + 20) 4 = Some (ry r + 24)" "usub (ry r + 24) (ry r) = Some 24"
    "uadd 88 24 = Some 112" "uadd (ry r) (rheight r) = Some (ry r + rheight r)"
    "usub (ry r + rheight r) 88 = Some (ry r + rheight r - 88)"
    using area h by (simp_all add: uadd_def usub_def)
  have k: "min (snd g) (saturating_sub (rheight r) 112 div 40) = visible_rows win (snd g)"
    by (simp add: visible_rows_def saturating_sub_def area(6))
  show ?thesis
    using assms(3) by (simp add: draw_memmap_window_def area(1) Let_def copy FONT_sizes sizes ar k split: option.split)
qed

lemma draw_memmap_window_spec:
  assumes "screen_ok info" and "win_ok info win" and "font_ok font" and "mem_regions_ok g" and "0 < snd g" and "panel_ok win"
    and "\<forall>i < visible_rows win (snd g). region_start (fst g ! i) \<le> region_end (fst g ! i)"
  obtains buf where "draw_memmap_window font g win = Some (win\<lparr>win_buf := buf, dirty := True\<rparr>)"
    and "fb.paints (buf_info win) (win_size win) (memmap_pic font (win_content win) (fst g) (visible_rows win (snd g))) (win_buf win) buf"
proof -
  let ?info = "buf_info win" and ?n = "win_size win" and ?r = "win_content win" and ?k = "visible_rows win (snd g)"
  define regs where "regs = take (snd g) (fst g) @ drop (snd g) (replicate 32 no_region)"
  note area = window_area [OF assms(2)]
  have k: "?k \<le> snd g" "?k \<le> 32" "snd g \<le> 32" "length (fst g) = 32" using assms(4) by (auto simp: visible_rows_def mem_regions_ok_def)
  have regs: "regs ! i = fst g ! i" if "i < ?k" for i using that k by (simp add: regs_def nth_append)
  have same: "rows_pic font ?r regs ?k = rows_pic font ?r (fst g) ?k"
    unfolding rows_pic_def by (rule arg_cong [where f = concat], rule map_cong) (use regs in auto)
  have info: "info_ok ?info" by (rule win_ok_facts(1) [OF assms(1,2)])
  have len: "length (win_buf win) = ?n" using assms(2) by (simp add: win_ok_def)
  have "fb.draws ?info ?n (\<lambda>buf. draw_text font ?info (rx ?r) (ry ?r) (lit ''Physical Memory'') (0xA0, 0xA8, 0xB4) buf \<bind>
     fill_rect ?info (rx ?r) (ry ?r + 20) (rwidth ?r) 1 (0x33, 0x38, 0x44))
    ([(text_points font (rx ?r) (ry ?r) (lit ''Physical Memory''), (0xA0, 0xA8, 0xB4))] @
     [(box (rx ?r) (ry ?r + 20) (rwidth ?r) 1, (0x33, 0x38, 0x44))])"
    by (intro fb.draws_seq fill_rect_draws draw_text_draws [OF assms(3)]) (use area in \<open>simp_all add: lit_def\<close>)
  then obtain b1 where b1: "draw_text font ?info (rx ?r) (ry ?r) (lit ''Physical Memory'') (0xA0, 0xA8, 0xB4) (win_buf win) \<bind>
     fill_rect ?info (rx ?r) (ry ?r + 20) (rwidth ?r) 1 (0x33, 0x38, 0x44) = Some b1"
    "fb.paints ?info ?n (header_pic font ?r) (win_buf win) b1"
    by (rule fb.drawsE) (use info len in \<open>simp_all add: header_pic_def\<close>)
  have lb1: "length b1 = ?n" using fb.paints_ok [OF b1(2)] by simp
  have order: "\<forall>i < ?k. region_start (regs ! i) \<le> region_end (regs ! i)" using assms(7) regs by simp
  have kl: "?k \<le> length regs" using k by (simp add: regs_def)
  obtain b2 where b2: "foldM (region_row font ?info ?r regs) [0..<?k] (ry ?r + 24, b1) = Some (ry ?r + 24 + 40 * ?k, b2)"
    "fb.paints ?info ?n (rows_pic font ?r regs ?k) b1 b2"
    using region_rows_paint [OF assms(3) area(2) kl order k(2) info lb1] by blast
  have lb2: "length b2 = ?n" using fb.paints_ok [OF b2(2)] by simp
  have y: "ry ?r + rheight ?r - 88 \<le> 2 ^ 17" using assms(2) by (auto simp add: area win_ok_def)
  obtain b3 where b3: "fill_rect ?info (rx ?r) (ry ?r + rheight ?r - 88) (rwidth ?r) 1 (0x33, 0x38, 0x44) b2 \<bind>
      foldM (legend_entry font ?info ?r (ry ?r + rheight ?r - 88) (rwidth ?r div 2)) (enumerate 0 legend_kinds) = Some b3"
    "fb.paints ?info ?n (legend_pic font ?r) b2 b3"
    unfolding legend_pic_def Let_def
    by (rule fb.drawsE [OF legend_draws [OF assms(3) area(2) y, of ?info ?n], of b2]) (use info lb2 in simp_all)
  have "fb.paints ?info ?n (memmap_pic font ?r (fst g) ?k) (win_buf win) b3"
    unfolding memmap_pic_def same [symmetric] by (rule fb.paints_trans [OF b1(2) fb.paints_trans [OF b2(2) b3(2)]])
  moreover have "draw_memmap_window font g win = Some (win\<lparr>win_buf := b3, dirty := True\<rparr>)"
    unfolding draw_memmap_window_eq [OF assms(2,4,5,6)] regs_def [symmetric] b1(1) bind.bind_lunit b2(1) prod.case b3(1) ..
  ultimately show ?thesis using that by blast
qed

lemma foldM_panics: "x \<in> set xs \<Longrightarrow> (\<And>s. f x s = None) \<Longrightarrow> foldM f xs s = None"
  by (induction xs arbitrary: s) (auto split: option.split)

lemma draw_memmap_window_backwards:
  assumes "win_ok info win" and "mem_regions_ok g" and "panel_ok win"
    and "i < visible_rows win (snd g)" and "region_end (fst g ! i) < region_start (fst g ! i)"
  shows "draw_memmap_window font g win = None"
proof -
  let ?regs = "take (snd g) (fst g) @ drop (snd g) (replicate 32 no_region)"
  have i: "i < snd g" "0 < snd g" "i < length (fst g)" using assms(2,4) by (auto simp: visible_rows_def mem_regions_ok_def)
  then have "?regs ! i = fst g ! i" by (simp add: nth_append)
  then have "region_row font (buf_info win) (win_content win) ?regs i s = None" for s
    using assms(5) by (intro region_row_backwards) simp
  then have "foldM (region_row font (buf_info win) (win_content win) ?regs) [0..<visible_rows win (snd g)] s = None" for s
    using assms(4) by (intro foldM_panics [of i]) auto
  then show ?thesis by (simp add: draw_memmap_window_eq [OF assms(1,2) i(2) assms(3)] split: bind_split)
qed

section \<open>What the panel shows\<close>

lemma row_within:
  assumes "298 \<le> rwidth r"
  shows "within (box (rx r) cy (rwidth r) 40) (row_pic font r g cy)"
proof -
  have len: "length (size_str g) \<le> 24" "length (addr_str g) \<le> 37" "length (label (region_kind g)) \<le> 12"
    using size_shown [of g] length_addr_str [of g] length_label by auto
  show ?thesis unfolding row_pic_def within_simps
    by (intro conjI TrueI box_mono text_within_box) (use len assms in auto)
qed

lemma header_within: "298 \<le> rwidth r \<Longrightarrow> within (box (rx r) (ry r) (rwidth r) 24) (header_pic font r)"
  unfolding header_pic_def within_simps by (intro conjI TrueI box_mono text_within_box) (auto simp: lit_def)

lemma legend_within:
  assumes "298 \<le> rwidth r" and "88 \<le> rheight r"
  shows "within (box (rx r) (ry r + rheight r - 88) (rwidth r) 88) (legend_pic font r)"
proof -
  let ?y = "ry r + rheight r - 88"
  have entry: "within (box (rx r) ?y (rwidth r) 88) (entry_pic font r ?y (i, kind))" if "i < 7" for i kind
  proof -
    have d: "i div 2 \<le> 3" using that by simp
    have "i mod 2 = 0 \<or> i mod 2 = 1" by auto
    then have m: "i mod 2 * (rwidth r div 2) \<le> rwidth r div 2" by auto
    have "box (rx r + i mod 2 * (rwidth r div 2)) (?y + 6 + i div 2 * 20 + 2) 12 12 \<subseteq> box (rx r) ?y (rwidth r) 88"
      by (rule box_mono) (use m d assms in linarith)+
    moreover have "text_points font (rx r + i mod 2 * (rwidth r div 2) + 16) (?y + 6 + i div 2 * 20) (label kind) \<subseteq> box (rx r) ?y (rwidth r) 88"
      by (rule text_within_box) (use m d assms length_label [of kind] in linarith)+
    ultimately show ?thesis by (simp add: entry_pic_def Let_def)
  qed
  have len: "length legend_kinds = 7" by (simp add: legend_kinds_def)
  have "within (box (rx r) ?y (rwidth r) 88) (entry_pic font r ?y e)" if "e \<in> set (enumerate 0 legend_kinds)" for e
    using entry [of "fst e" "snd e"] that by (simp add: in_set_enumerate_eq len)
  moreover have "box (rx r) ?y (rwidth r) 1 \<subseteq> box (rx r) ?y (rwidth r) 88" by (rule box_mono) auto
  ultimately show ?thesis by (simp add: legend_pic_def Let_def within_concat)
qed

lemma rows_within:
  assumes "298 \<le> rwidth r"
  shows "within (box (rx r) (ry r + 24) (rwidth r) (40 * k)) (rows_pic font r regs k)"
proof -
  have "within (box (rx r) (ry r + 24) (rwidth r) (40 * k)) (row_pic font r (regs ! i) (ry r + 24 + 40 * i))" if "i < k" for i
    by (rule within_mono [OF row_within [OF assms] box_mono]) (use that in auto)
  then show ?thesis by (simp add: rows_pic_def within_concat)
qed

lemma memmap_within:
  assumes "298 \<le> rwidth r" and "88 \<le> rheight r" and "k = 0 \<or> 24 + 40 * k \<le> rheight r"
  shows "within (box (rx r) (ry r) (rwidth r) (rheight r)) (memmap_pic font r regs k)"
proof -
  have "within (box (rx r) (ry r) (rwidth r) (rheight r)) (rows_pic font r regs k)"
  proof (cases "k = 0")
    case False
    then show ?thesis by (intro within_mono [OF rows_within [OF assms(1)] box_mono]) (use assms(3) in auto)
  qed (simp add: rows_pic_def)
  moreover have "within (box (rx r) (ry r) (rwidth r) (rheight r)) (header_pic font r)"
    by (rule within_mono [OF header_within [OF assms(1)] box_mono]) (use assms(2) in auto)
  moreover have "within (box (rx r) (ry r) (rwidth r) (rheight r)) (legend_pic font r)"
    by (rule within_mono [OF legend_within [OF assms(1,2)] box_mono]) (use assms(2) in auto)
  ultimately show ?thesis by (simp add: memmap_pic_def)
qed

lemma rows_colour:
  assumes "298 \<le> rwidth r" and "i < k" and "q \<in> box (rx r) (ry r + 24 + 40 * i) (rwidth r) 40"
  shows "colour_at (rows_pic font r regs k) q = colour_at (row_pic font r (regs ! i) (ry r + 24 + 40 * i)) q"
  using assms(2)
proof (induction k)
  case (Suc k)
  have split: "rows_pic font r regs (Suc k) = rows_pic font r regs k @ row_pic font r (regs ! k) (ry r + 24 + 40 * k)"
    by (simp add: rows_pic_def)
  show ?case
  proof (cases "i = k")
    case True
    have "q \<notin> box (rx r) (ry r + 24) (rwidth r) (40 * k)" using assms(3) True by (cases q) auto
    then have "colour_at (rows_pic font r regs k) q = None" by (rule within_outside [OF rows_within [OF assms(1)]])
    then show ?thesis using True by (simp add: split colour_at_append split: option.split)
  next
    case False
    then have "Suc i \<le> k" using Suc.prems by simp
    then have "40 * i + 40 \<le> 40 * k" by simp
    then have "q \<notin> box (rx r) (ry r + 24 + 40 * k) (rwidth r) 40" using assms(3) by (cases q) auto
    then have "colour_at (row_pic font r (regs ! k) (ry r + 24 + 40 * k)) q = None" by (rule within_outside [OF row_within [OF assms(1)]])
    then show ?thesis using Suc.IH \<open>Suc i \<le> k\<close> by (simp add: split colour_at_append)
  qed
qed simp

lemma memmap_row_colour:
  assumes "298 \<le> rwidth r" and "112 + 40 * k \<le> rheight r" and "i < k" and "q \<in> box (rx r) (ry r + 24 + 40 * i) (rwidth r) 40"
  shows "colour_at (memmap_pic font r regs k) q = colour_at (row_pic font r (regs ! i) (ry r + 24 + 40 * i)) q"
proof -
  have "40 * i + 40 \<le> 40 * k" using assms(3) by simp
  then have "q \<notin> box (rx r) (ry r + rheight r - 88) (rwidth r) 88" "q \<notin> box (rx r) (ry r) (rwidth r) 24"
    using assms(2,4) by (cases q, auto)+
  then have "colour_at (legend_pic font r) q = None" "colour_at (header_pic font r) q = None"
    using within_outside [OF legend_within [OF assms(1)]] within_outside [OF header_within [OF assms(1)]] assms(2) by auto
  then show ?thesis by (simp add: memmap_pic_def colour_at_append rows_colour [OF assms(1,3,4)] split: option.split)
qed

lemma row_colours:
  assumes "298 \<le> rwidth r" and "u < rwidth r"
  shows "v < 3 \<Longrightarrow> colour_at (row_pic font r g cy) (rx r + u, cy + v) = Some (color (region_kind g))"
    and "v < 16 \<Longrightarrow> colour_at (row_pic font r g cy) (rx r + u, cy + 20 + v) =
      (if (rx r + u, cy + 20 + v) \<in> text_points font (rx r + 2) (cy + 20) (addr_str g) then Some (0x88, 0x8C, 0x96) else None)"
proof -
  have outside: "(a, b) \<notin> text_points font x y str" if "b < y \<or> y + 16 \<le> b" for a b x y str
    using text_within [of font x y str] that by fastforce
  show "colour_at (row_pic font r g cy) (rx r + u, cy + v) = Some (color (region_kind g))" if "v < 3"
    unfolding row_pic_def using that assms(2) by (simp add: outside)
  show "colour_at (row_pic font r g cy) (rx r + u, cy + 20 + v) =
      (if (rx r + u, cy + 20 + v) \<in> text_points font (rx r + 2) (cy + 20) (addr_str g) then Some (0x88, 0x8C, 0x96) else None)"
    if "v < 16"
    unfolding row_pic_def using that assms(2) by (simp add: outside)
qed

lemma mark_dirty_upd:
  assumes "wm_inv info wm"
  shows "mark_dirty wid wm = Some (wm\<lparr>windows := upd_win wid (\<lambda>win. win\<lparr>dirty := True\<rparr>) (windows wm), needs_composite := True\<rparr>)"
    and "wm_inv info (wm\<lparr>windows := upd_win wid (\<lambda>win. win\<lparr>dirty := True\<rparr>) (windows wm), needs_composite := True\<rparr>)"
proof -
  let ?g = "\<lambda>win. win\<lparr>dirty := True\<rparr>"
  have m: "window_mut wid (\<lambda>win. Some (win\<lparr>dirty := True\<rparr>)) wm = Some (wm\<lparr>windows := upd_win wid ?g (windows wm)\<rparr>)"
    "wm_inv info (wm\<lparr>windows := upd_win wid ?g (windows wm)\<rparr>)"
    using window_mut_total [OF assms, where f = "\<lambda>win. Some (win\<lparr>dirty := True\<rparr>)" and g = ?g and wid = wid] by simp_all
  then show "mark_dirty wid wm = Some (wm\<lparr>windows := upd_win wid ?g (windows wm), needs_composite := True\<rparr>)"
    "wm_inv info (wm\<lparr>windows := upd_win wid ?g (windows wm), needs_composite := True\<rparr>)"
    by (simp_all add: mark_dirty_def)
qed

lemma find_mut_panics:
  "w \<in> set ws \<Longrightarrow> P w \<Longrightarrow> \<forall>v \<in> set ws. P v \<longrightarrow> f v = None \<Longrightarrow> find_mut P f ws = None"
  by (induction ws) auto

lemma same_id:
  assumes "wm_inv info wm" and "win \<in> set (windows wm)" and "v \<in> set (windows wm)" and "win_id v = win_id win"
  shows "v = win"
  using wm_inv_facts(5) [OF assms(1)] assms(2-4) by (simp add: distinct_map inj_on_def)

lemma draw_memmap_desk:
  assumes "desk_inv info k d" and "font_ok font" and "mem_regions_ok g" and "0 < snd g" and "WM d = Some wm"
    and "win \<in> set (windows wm)" and "panel_ok win"
    and "\<forall>i < visible_rows win (snd g). region_start (fst g ! i) \<le> region_end (fst g ! i)"
  obtains d' wm' win' where "memmap_start font g (win_id win) d = Some d'" and "desk_inv info k d'" and "WM d' = Some wm'"
    and "win' \<in> set (windows wm')" and "win_id win' = win_id win" and "needs_composite wm'" and "dirty win'"
    and "buf_info win' = buf_info win" and "length (win_buf win') = win_size win"
    and "fb.paints (buf_info win) (win_size win) (memmap_pic font (win_content win) (fst g) (visible_rows win (snd g))) (win_buf win) (win_buf win')"
proof -
  obtain buf where d: "FB_STATE d = Some (info, buf)" "length buf = frame_size info" "wm_inv info wm" "next_id wm \<le> k"
    using assms(1,5) by (auto simp: desk_inv_def)
  have win: "win_ok info win" by (rule wm_inv_facts(6) [OF d(3) assms(6)])
  obtain b where b: "draw_memmap_window font g win = Some (win\<lparr>win_buf := b, dirty := True\<rparr>)"
    "fb.paints (buf_info win) (win_size win) (memmap_pic font (win_content win) (fst g) (visible_rows win (snd g))) (win_buf win) b"
    by (rule draw_memmap_window_spec [OF wm_inv_facts(1) [OF d(3)] win assms(2-4,7,8)])
  define win' where "win' = win\<lparr>win_buf := b, dirty := True\<rparr>"
  have len: "length b = win_size win" using fb.paints_ok [OF b(2)] by simp
  then have ok: "win_ok info win'" using win by (auto simp add: win'_def win_ok_def win_size_def win_content_def)
  have only: "draw_memmap_window font g v = Some win' \<and> win_ok info win' \<and> win_id win' = win_id win"
    if "v \<in> set (windows wm)" "win_id v = win_id win" for v
    using same_id [OF d(3) assms(6) that] b(1) ok by (simp add: win'_def)
  define wm1 where "wm1 = wm\<lparr>windows := upd_win (win_id win) (\<lambda>_. win') (windows wm)\<rparr>"
  have m1: "window_mut (win_id win) (draw_memmap_window font g) wm = Some wm1" "wm_inv info wm1"
    unfolding wm1_def by (rule window_mut_total [OF d(3)]; use only in blast)+
  define wm2 where "wm2 = wm1\<lparr>windows := upd_win (win_id win) (\<lambda>win. win\<lparr>dirty := True\<rparr>) (windows wm1), needs_composite := True\<rparr>"
  have m2: "mark_dirty (win_id win) wm1 = Some wm2" "wm_inv info wm2"
    unfolding wm2_def by (rule mark_dirty_upd [OF m1(2)])+
  have start: "memmap_start font g (win_id win) d = Some (d\<lparr>WM := Some wm2\<rparr>)"
    using m1(1) m2(1) assms(5) by (simp add: memmap_start_def draw_memmap_def wm_mark_dirty_def upd_wm_eq)
  have desk: "desk_inv info k (d\<lparr>WM := Some wm2\<rparr>)" using d m2(2) by (auto simp: desk_inv_def wm2_def wm1_def)
  have wid': "win_id win' = win_id win" by (simp add: win'_def)
  have "win' \<in> set (windows wm1)"
    using assms(6) by (auto simp: wm1_def upd_win_def intro!: image_eqI [of _ _ win])
  then have mem: "win'\<lparr>dirty := True\<rparr> \<in> set (windows wm2)"
    using wid' by (auto simp: wm2_def upd_win_def intro!: image_eqI [of _ _ win'])
  show ?thesis
    by (rule that [OF start desk _ mem]) (use b(2) len in \<open>simp_all add: win'_def wm2_def\<close>)
qed

lemma draw_memmap_backwards:
  assumes "desk_inv info k d" and "mem_regions_ok g" and "WM d = Some wm"
    and "win \<in> set (windows wm)" and "panel_ok win"
    and "i < visible_rows win (snd g)" and "region_end (fst g ! i) < region_start (fst g ! i)"
  shows "memmap_start font g (win_id win) d = None"
proof -
  have inv: "wm_inv info wm" using assms(1,3) by (auto simp: desk_inv_def)
  have none: "draw_memmap_window font g win = None"
    by (rule draw_memmap_window_backwards [OF wm_inv_facts(6) [OF inv assms(4)] assms(2,5-7)])
  have "find_mut (\<lambda>w. win_id w = win_id win) (draw_memmap_window font g) (windows wm) = None"
    by (rule find_mut_panics [OF assms(4)]) (use none same_id [OF inv assms(4)] in auto)
  then show ?thesis
    using assms(3) by (simp add: memmap_start_def draw_memmap_def upd_wm_def with_wm_def window_mut_def)
qed

lemma view_same_read:
  "info_ok info \<Longrightarrow> length b = length a \<Longrightarrow> view info b (x, y) = view info a (x, y) \<Longrightarrow> read_pixel info b x y = read_pixel info a x y"
  by (simp add: read_pixel_spec)

text \<open>The size of a window, and a new window.\<close>

definition sized :: "wm \<Rightarrow> usize \<Rightarrow> nat \<times> nat \<Rightarrow> bool" where
  "sized wm wid = (\<lambda>(w, h). \<exists>win \<in> set (windows wm). win_id win = wid \<and> win_width win = w \<and> win_height win = h)"

lemma create_sized:
  assumes "desk_inv info k d" and "WM d = Some wm" and "font_ok font" and "geometry_ok x y w h" and "k < 2 ^ 32"
  obtains d' wm' where "wm_create_window font x y w h name owner d = Some (next_id wm, d')" and "desk_inv info (Suc k) d'"
    and "WM d' = Some wm'" and "next_id wm' = next_id wm + 1" and "sized wm' (next_id wm) (w, h)"
    and "\<forall>i s. sized wm i s \<longrightarrow> sized wm' i s" and "length (windows wm') = Suc (length (windows wm))"
proof -
  obtain buf where d: "FB_STATE d = Some (info, buf)" "length buf = frame_size info" "wm_inv info wm" "next_id wm \<le> k"
    using assms(1,2) by (auto simp: desk_inv_def)
  have nxt: "next_id wm < 2 ^ 32" using d(4) assms(5) by simp
  obtain win where win: "create_window font x y w h name owner wm = Some (next_id wm, wm\<lparr>windows := windows wm @ [win],
      focused := (if focused wm = None then Some (next_id wm) else focused wm), next_id := next_id wm + 1, needs_composite := True\<rparr>)"
    "wm_inv info (wm\<lparr>windows := windows wm @ [win],
      focused := (if focused wm = None then Some (next_id wm) else focused wm), next_id := next_id wm + 1, needs_composite := True\<rparr>)"
    "win_id win = next_id wm" "win_width win = w" "win_height win = h"
    by (rule create_window_spec [OF d(3) assms(3,4) nxt, of name owner])
  define wm' where "wm' = wm\<lparr>windows := windows wm @ [win],
      focused := (if focused wm = None then Some (next_id wm) else focused wm), next_id := next_id wm + 1, needs_composite := True\<rparr>"
  show ?thesis
  proof (rule that [of "d\<lparr>WM := Some wm'\<rparr>" wm'])
    show "wm_create_window font x y w h name owner d = Some (next_id wm, d\<lparr>WM := Some wm'\<rparr>)"
      using win(1) [folded wm'_def] assms(2) by (simp add: wm_create_window_def with_wm_def)
    show "desk_inv info (Suc k) (d\<lparr>WM := Some wm'\<rparr>)" using win(2) [folded wm'_def] d by (simp add: desk_inv_def wm'_def)
    show "sized wm' (next_id wm) (w, h)" using win(3-5) by (simp add: sized_def wm'_def)
    show "\<forall>i s. sized wm i s \<longrightarrow> sized wm' i s" by (auto simp: sized_def wm'_def)
  qed (simp_all add: wm'_def)
qed

text \<open>What is read from a window after its picture is painted: the picture within the content, the old pixels
  outside it.\<close>

lemma window_painted_reads:
  assumes "wm_inv info wm" and "win \<in> set (windows wm)" and "keeps_colour info" and "length buf = win_size win"
    and "fb.paints (buf_info win) (win_size win) pic (win_buf win) buf"
  shows "colour_at pic (x, y) = None \<Longrightarrow> read_pixel (buf_info win) buf x y = read_pixel (buf_info win) (win_buf win) x y"
    and "colour_at pic (x, y) = Some c \<Longrightarrow> u < rwidth (win_content win) \<Longrightarrow> v < rheight (win_content win) \<Longrightarrow>
      x = rx (win_content win) + u \<Longrightarrow> y = ry (win_content win) + v \<Longrightarrow> read_pixel (buf_info win) buf x y = Some c"
proof -
  note ok = wm_inv_facts(6) [OF assms(1,2)] and scr = wm_inv_facts(1) [OF assms(1)]
  have info: "info_ok (buf_info win)" by (rule win_ok_facts(1) [OF scr ok])
  have len: "length (win_buf win) = win_size win" using ok by (simp add: win_ok_def)
  have colours: "keeps_colour (buf_info win)" using ok assms(3) by (auto simp: win_ok_def)
  show "read_pixel (buf_info win) buf x y = read_pixel (buf_info win) (win_buf win) x y" if "colour_at pic (x, y) = None"
    by (rule view_same_read [OF info _ view_unpainted [OF assms(5) that]]) (simp add: assms(4) len)
  show "read_pixel (buf_info win) buf x y = Some c"
    if c: "colour_at pic (x, y) = Some c" and uv: "u < rwidth (win_content win)" "v < rheight (win_content win)"
      "x = rx (win_content win) + u" "y = ry (win_content win) + v"
  proof -
    have "(x, y) \<in> canvas (buf_info win) (win_size win)"
      by (rule content_canvas [OF win_ok_facts(2) [OF scr ok]]) (use uv in auto)
    with has_colour_painted [OF assms(5) this c] show ?thesis
      using read_has_colour [OF info, of x y buf c] colours shown_id [OF colours] assms(4) by simp
  qed
qed

text \<open>The panel's picture, read back: the frame of the window, the bar and the address line of a region.\<close>

lemma memmap_reads:
  assumes "wm_inv info wm" and "win \<in> set (windows wm)" and "keeps_colour info" and "panel_ok win" and "length buf = win_size win"
    and "fb.paints (buf_info win) (win_size win) (memmap_pic font (win_content win) regs (visible_rows win n)) (win_buf win) buf"
  shows "(x, y) \<notin> box 6 30 (win_width win - 12) (win_height win - 36) \<Longrightarrow>
      read_pixel (buf_info win) buf x y = read_pixel (buf_info win) (win_buf win) x y"
    and "i < visible_rows win n \<Longrightarrow> u < win_width win - 12 \<Longrightarrow> v < 3 \<Longrightarrow>
      read_pixel (buf_info win) buf (6 + u) (54 + 40 * i + v) = Some (color (region_kind (regs ! i)))"
    and "i < visible_rows win n \<Longrightarrow> u < win_width win - 12 \<Longrightarrow> v < 16 \<Longrightarrow>
      read_pixel (buf_info win) buf (6 + u) (74 + 40 * i + v) =
        (if (6 + u, 74 + 40 * i + v) \<in> text_points font 8 (74 + 40 * i) (addr_str (regs ! i)) then Some (0x88, 0x8C, 0x96)
         else read_pixel (buf_info win) (win_buf win) (6 + u) (74 + 40 * i + v))"
proof -
  let ?k = "visible_rows win n" and ?r = "win_content win"
  note area = window_area [OF wm_inv_facts(6) [OF assms(1,2)]]
  note reads = window_painted_reads [OF assms(1-3,5,6)]
  have dims: "298 \<le> rwidth ?r" "88 \<le> rheight ?r" using assms(4) area by (auto simp: panel_ok_def)
  have room: "?k = 0 \<or> 112 + 40 * ?k \<le> rheight ?r" using area(6) by (auto simp: visible_rows_def)
  then have room': "?k = 0 \<or> 24 + 40 * ?k \<le> rheight ?r" by auto
  show "read_pixel (buf_info win) buf x y = read_pixel (buf_info win) (win_buf win) x y"
    if "(x, y) \<notin> box 6 30 (win_width win - 12) (win_height win - 36)"
    by (rule reads(1), rule within_outside [OF memmap_within [OF dims room']]) (use that area in simp)
  have row: "colour_at (memmap_pic font ?r regs ?k) (6 + u, 54 + 40 * i + v) = colour_at (row_pic font ?r (regs ! i) (54 + 40 * i)) (6 + u, 54 + 40 * i + v)"
    and inside: "u < rwidth ?r" "24 + 40 * i + v < rheight ?r"
    if i: "i < ?k" and u: "u < win_width win - 12" and v: "v < 40" for i u v
  proof -
    have k: "112 + 40 * ?k \<le> rheight ?r" "40 * i + 40 \<le> 40 * ?k" using i room by auto
    show u': "u < rwidth ?r" using u area by simp
    show "24 + 40 * i + v < rheight ?r" using k v by simp
    show "colour_at (memmap_pic font ?r regs ?k) (6 + u, 54 + 40 * i + v) = colour_at (row_pic font ?r (regs ! i) (54 + 40 * i)) (6 + u, 54 + 40 * i + v)"
      using memmap_row_colour [OF dims(1) k(1) i, of "(6 + u, 54 + 40 * i + v)"] u' v area by simp
  qed
  note cols = row_colours [OF dims(1), where g = "regs ! i" and cy = "54 + 40 * i" and font = font, unfolded area(3,4)]
  show "read_pixel (buf_info win) buf (6 + u) (54 + 40 * i + v) = Some (color (region_kind (regs ! i)))"
    if "i < ?k" "u < win_width win - 12" "v < 3"
    by (rule reads(2) [where u = u and v = "24 + 40 * i + v"])
      (use row [of i u v] inside [of i u v] cols(1) [OF inside(1) [of i u v]] that area in simp_all)
  have line: "54 + 40 * i + (20 + v) = 74 + 40 * i + v" "54 + 40 * i + 20 = 74 + 40 * i" for v :: nat by simp_all
  show "read_pixel (buf_info win) buf (6 + u) (74 + 40 * i + v) =
        (if (6 + u, 74 + 40 * i + v) \<in> text_points font 8 (74 + 40 * i) (addr_str (regs ! i)) then Some (0x88, 0x8C, 0x96)
         else read_pixel (buf_info win) (win_buf win) (6 + u) (74 + 40 * i + v))"
    if "i < ?k" "u < win_width win - 12" "v < 16"
  proof -
    have "20 + v < 40" using that(3) by simp
    note ins = inside [OF that(1,2) this]
    have colour: "colour_at (memmap_pic font ?r regs ?k) (6 + u, 74 + 40 * i + v) =
      (if (6 + u, 74 + 40 * i + v) \<in> text_points font 8 (74 + 40 * i) (addr_str (regs ! i)) then Some (0x88, 0x8C, 0x96) else None)"
      using row [OF that(1,2) \<open>20 + v < 40\<close>] cols(2) [OF ins(1) that(3)] unfolding line by simp
    show ?thesis
    proof (cases "(6 + u, 74 + 40 * i + v) \<in> text_points font 8 (74 + 40 * i) (addr_str (regs ! i))")
      case True
      then have shown: "colour_at (memmap_pic font ?r regs ?k) (6 + u, 74 + 40 * i + v) = Some (0x88, 0x8C, 0x96)" using colour by simp
      have "44 + 40 * i + v < rheight ?r" using ins(2) by simp
      from reads(2) [OF shown ins(1) this] show ?thesis using True area(3,4) by simp
    qed (use colour in \<open>simp add: reads(1)\<close>)
  qed
qed

text \<open>C24: the memory map panel shows the regions. If one of the regions that fit in the window ends before it
  starts, the task panics; otherwise it draws its window without a panic, asks for a composition and
  leaves everything outside the content as it was; each region that fits has its bar, in the colour of
  its kind, at its place in the list, and its address range in hexadecimal two lines of text below.\<close>

theorem memmap_shows_regions:
  assumes "desk_inv info k d" and "font_ok font" and "keeps_colour info" and "mem_regions_ok g" and "0 < snd g"
    and "WM d = Some wm" and "win \<in> set (windows wm)" and "panel_ok win"
  shows "if \<exists>i < visible_rows win (snd g). region_end (fst g ! i) < region_start (fst g ! i)
    then memmap_start font g (win_id win) d = None
    else \<exists>d' wm' win'. memmap_start font g (win_id win) d = Some d' \<and> desk_inv info k d' \<and> WM d' = Some wm' \<and>
      win' \<in> set (windows wm') \<and> win_id win' = win_id win \<and> needs_composite wm' \<and>
      (\<forall>x y. (x, y) \<notin> box 6 30 (win_width win - 12) (win_height win - 36) \<longrightarrow>
        read_pixel (buf_info win') (win_buf win') x y = read_pixel (buf_info win) (win_buf win) x y) \<and>
      (\<forall>i < visible_rows win (snd g). \<forall>u < win_width win - 12.
        (\<forall>v < 3. read_pixel (buf_info win') (win_buf win') (6 + u) (54 + 40 * i + v) = Some (color (region_kind (fst g ! i)))) \<and>
        (\<forall>v < 16. read_pixel (buf_info win') (win_buf win') (6 + u) (74 + 40 * i + v) =
          (if (6 + u, 74 + 40 * i + v) \<in> text_points font 8 (74 + 40 * i) (addr_str (fst g ! i)) then Some (0x88, 0x8C, 0x96)
           else read_pixel (buf_info win) (win_buf win) (6 + u) (74 + 40 * i + v))))"
proof (cases "\<exists>i < visible_rows win (snd g). region_end (fst g ! i) < region_start (fst g ! i)")
  case True
  then show ?thesis using draw_memmap_backwards [OF assms(1,4,6-8)] by auto
next
  case False
  let ?k = "visible_rows win (snd g)" and ?info = "buf_info win" and ?n = "win_size win" and ?r = "win_content win"
  have ord: "\<forall>i < ?k. region_start (fst g ! i) \<le> region_end (fst g ! i)" using False not_le_imp_less by blast
  obtain d' wm' win' where s: "memmap_start font g (win_id win) d = Some d'" "desk_inv info k d'" "WM d' = Some wm'"
    "win' \<in> set (windows wm')" "win_id win' = win_id win" "needs_composite wm'" "buf_info win' = ?info" "length (win_buf win') = ?n"
    "fb.paints ?info ?n (memmap_pic font ?r (fst g) ?k) (win_buf win) (win_buf win')"
    by (rule draw_memmap_desk [OF assms(1,2,4-8) ord])
  have inv: "wm_inv info wm" using assms(1,6) by (auto simp: desk_inv_def)
  note reads = memmap_reads [OF inv assms(7,3,8) s(8,9)]
  have rows: "\<forall>i < ?k. \<forall>u < win_width win - 12.
      (\<forall>v < 3. read_pixel ?info (win_buf win') (6 + u) (54 + 40 * i + v) = Some (color (region_kind (fst g ! i)))) \<and>
      (\<forall>v < 16. read_pixel ?info (win_buf win') (6 + u) (74 + 40 * i + v) =
        (if (6 + u, 74 + 40 * i + v) \<in> text_points font 8 (74 + 40 * i) (addr_str (fst g ! i)) then Some (0x88, 0x8C, 0x96)
         else read_pixel ?info (win_buf win) (6 + u) (74 + 40 * i + v)))"
    by (intro allI impI conjI reads(2,3))
  show ?thesis unfolding if_not_P [OF False] using s(1-6) reads(1) rows unfolding s(7) [symmetric] by blast
qed

definition sample_table :: "u64 \<Rightarrow> u64 \<Rightarrow> mem_regions" where
  "sample_table a b = (\<lparr>region_start = a, region_end = b, region_kind = Usable\<rparr> # replicate 31 no_region, 1)"

lemma sample_table_ok:
  "mem_regions_ok (sample_table a b)" "0 < snd (sample_table a b)"
  "fst (sample_table a b) ! 0 = \<lparr>region_start = a, region_end = b, region_kind = Usable\<rparr>" "snd (sample_table a b) = 1"
  by (simp_all add: sample_table_def mem_regions_ok_def)

theorem memmap_shows_regions_witness:
  "\<exists>d d' wm' win'. memmap_start block_font (sample_table 0x9000 0x1000) 0 d = None \<and>
    memmap_start block_font (sample_table 0x1000 0x9000) 0 d = Some d' \<and> WM d' = Some wm' \<and> win' \<in> set (windows wm') \<and>
    (\<forall>u < 328. read_pixel (buf_info win') (win_buf win') (6 + u) 54 = Some (0x50, 0xC8, 0x78))"
proof -
  obtain d0 wm0 where d0: "wm_init sample_desktop = Some d0" "desk_inv sample_info 0 d0" "d0 = sample_desktop\<lparr>WM := Some wm0\<rparr>"
    "next_id wm0 = 0" by (rule wm_init_inv [OF sample_desktop_ok])
  have w0: "WM d0 = Some wm0" by (simp add: d0(3))
  have geo: "geometry_ok 20 40 340 520" "0 < (2 :: nat) ^ 32" by (simp_all add: geometry_ok_def)
  obtain d wm where d: "desk_inv sample_info (Suc 0) d" "WM d = Some wm" "sized wm (next_id wm0) (340, 520)"
    by (rule create_sized [OF d0(2) w0 block_font_ok geo])
  obtain win where win: "win \<in> set (windows wm)" "win_id win = 0" "win_width win = 340" "win_height win = 520"
    using d(3) d0(4) by (auto simp: sized_def)
  have panel: "panel_ok win" "visible_rows win 1 = 1" using win by (simp_all add: panel_ok_def visible_rows_def)
  note shown = memmap_shows_regions [OF d(1) block_font_ok sample_info_ok(2) sample_table_ok(1,2) d(2) win(1) panel(1),
    unfolded sample_table_ok(4) panel(2) win(2,3)]
  have backw: "\<exists>i < 1. region_end (fst (sample_table 0x9000 0x1000) ! i) < region_start (fst (sample_table 0x9000 0x1000) ! i)"
    by (intro exI [of _ 0]) (simp only: sample_table_ok(3), simp)
  have fwd: "\<not> (\<exists>i < 1. region_end (fst (sample_table 0x1000 0x9000) ! i) < region_start (fst (sample_table 0x1000 0x9000) ! i))"
    by (auto simp: less_one sample_table_ok(3))
  obtain d' wm' win' where s: "memmap_start block_font (sample_table 0x1000 0x9000) 0 d = Some d'" "WM d' = Some wm'"
    "win' \<in> set (windows wm')" "\<forall>i < 1. \<forall>u < 340 - 12. (\<forall>v < 3. read_pixel (buf_info win') (win_buf win') (6 + u) (54 + 40 * i + v) =
      Some (color (region_kind (fst (sample_table 0x1000 0x9000) ! i))))"
    using shown [of "0x1000" "0x9000", unfolded if_not_P [OF fwd]] by (elim exE conjE) (rule that, assumption+, blast)
  have "\<forall>u < 328. read_pixel (buf_info win') (win_buf win') (6 + u) 54 = Some (0x50, 0xC8, 0x78)"
    using s(4) [rule_format, of 0 _ 0] by (simp add: sample_table_ok(3))
  then show ?thesis using s(1-3) shown [of "0x9000" "0x1000", unfolded if_P [OF backw]] by blast
qed

end
