(* ===== verification/Switch.thy ===== *)
theory Switch
  imports Prelude
begin

text \<open>
  The machine level of \<^verbatim>\<open>kernel/src/task.rs\<close>: the assembly routine \<^verbatim>\<open>switch_context\<close>, instruction by
  instruction, on the callee-saved registers and a memory of 8-byte cells, and the frame that
  \<open>spawn\<close> writes to a fresh stack. An access that is not 8-byte aligned is outside the model
  (\<^term>\<open>None\<close>); the theorems show that none occurs.
\<close>

section \<open>The processor\<close>

type_synonym memory = "u64 \<Rightarrow> u64"

record cpu =
  rsp :: u64
  rbp :: u64
  rbx :: u64
  r12 :: u64
  r13 :: u64
  r14 :: u64
  r15 :: u64
  rip :: u64
  mem :: memory

definition aligned :: "u64 \<Rightarrow> bool" where
  "aligned a \<longleftrightarrow> unat a mod 8 = 0"

definition cpu_push :: "u64 \<Rightarrow> cpu \<Rightarrow> cpu option" where
  "cpu_push v m = (let a = rsp m - 8
     in if aligned a then Some (m\<lparr>rsp := a, mem := (mem m)(a := v)\<rparr>) else None)"

definition cpu_pop :: "cpu \<Rightarrow> (u64 \<times> cpu) option" where
  "cpu_pop m = (if aligned (rsp m) then Some (mem m (rsp m), m\<lparr>rsp := rsp m + 8\<rparr>) else None)"

text \<open>\<open>call\<close> pushes the return address, \<open>ret\<close> pops it.\<close>

definition cpu_call :: "u64 \<Rightarrow> cpu \<Rightarrow> cpu option" where
  "cpu_call return_address = cpu_push return_address"

definition cpu_ret :: "cpu \<Rightarrow> cpu option" where
  "cpu_ret m = do { (a, m) \<leftarrow> cpu_pop m; Some (m\<lparr>rip := a\<rparr>) }"

text \<open>\<open>switch_context(old, new)\<close>: \<open>new_rsp\<close> is the word \<^verbatim>\<open>[rsi]\<close>, the first result the word stored to
  \<^verbatim>\<open>[rdi]\<close>.\<close>

definition push_regs :: "cpu \<Rightarrow> cpu option" where
  "push_regs m = do {
     m \<leftarrow> cpu_push (rbp m) m;
     m \<leftarrow> cpu_push (rbx m) m;
     m \<leftarrow> cpu_push (r12 m) m;
     m \<leftarrow> cpu_push (r13 m) m;
     m \<leftarrow> cpu_push (r14 m) m;
     cpu_push (r15 m) m
   }"

definition pop_regs :: "cpu \<Rightarrow> cpu option" where
  "pop_regs m = do {
     (v, m) \<leftarrow> cpu_pop m; let m = m\<lparr>r15 := v\<rparr>;
     (v, m) \<leftarrow> cpu_pop m; let m = m\<lparr>r14 := v\<rparr>;
     (v, m) \<leftarrow> cpu_pop m; let m = m\<lparr>r13 := v\<rparr>;
     (v, m) \<leftarrow> cpu_pop m; let m = m\<lparr>r12 := v\<rparr>;
     (v, m) \<leftarrow> cpu_pop m; let m = m\<lparr>rbx := v\<rparr>;
     (v, m) \<leftarrow> cpu_pop m; Some (m\<lparr>rbp := v\<rparr>)
   }"

definition switch_context :: "u64 \<Rightarrow> cpu \<Rightarrow> (u64 \<times> cpu) option" where
  "switch_context new_rsp m = do {
     m \<leftarrow> push_regs m;
     let old_rsp = rsp m;
     m \<leftarrow> pop_regs (m\<lparr>rsp := new_rsp\<rparr>);
     m \<leftarrow> cpu_ret m;
     Some (old_rsp, m)
   }"

section \<open>The first frame of a task\<close>

definition TASK_STACK_SIZE :: u64 where
  "TASK_STACK_SIZE = 64 * 1024"

text \<open>\<open>sp.sub(1)\<close> followed by \<open>*sp = v\<close>.\<close>

definition put_word :: "u64 \<Rightarrow> u64 \<times> memory \<Rightarrow> (u64 \<times> memory) option" where
  "put_word v = (\<lambda>(sp, mm). let sp = sp - 8 in if aligned sp then Some (sp, mm(sp := v)) else None)"

text \<open>The part of \<open>spawn\<close> that fills the stack; \<open>base\<close> is the address of the allocated stack.\<close>

definition initial_frame :: "u64 \<Rightarrow> u64 \<Rightarrow> memory \<Rightarrow> (u64 \<times> memory) option" where
  "initial_frame entry base mm = do {
     stack_top \<leftarrow> u64_add base TASK_STACK_SIZE;
     let stack_top = stack_top AND NOT 0xF;
     s \<leftarrow> put_word entry (stack_top, mm);
     s \<leftarrow> put_word 0 s;
     s \<leftarrow> put_word 0 s;
     s \<leftarrow> put_word 0 s;
     s \<leftarrow> put_word 0 s;
     s \<leftarrow> put_word 0 s;
     put_word 0 s
   }"

section \<open>Frames\<close>

text \<open>The seven words \<open>switch_context\<close> leaves on a stack, from the saved stack pointer upwards.\<close>

definition frame_words :: "u64 \<Rightarrow> memory \<Rightarrow> u64 list" where
  "frame_words s mm = map (\<lambda>i. mm (s + 8 * of_nat i)) [0..<7]"

definition frame_cells :: "u64 \<Rightarrow> u64 set" where
  "frame_cells s = {s, s + 8, s + 16, s + 24, s + 32, s + 40, s + 48}"

text \<open>The values a frame restores: the registers from \<open>r15\<close> to \<open>rbp\<close>, then the return address.\<close>

definition saved_words :: "cpu \<Rightarrow> u64 \<Rightarrow> u64 list" where
  "saved_words m return_address = [r15 m, r14 m, r13 m, r12 m, rbx m, rbp m, return_address]"

lemma upt_7: "[0..<7] = [0, 1, 2, 3, 4, 5, 6 :: nat]"
  by (simp add: upt_rec)

lemma frame_words_alt:
  "frame_words s mm = [mm s, mm (s + 8), mm (s + 16), mm (s + 24), mm (s + 32), mm (s + 40), mm (s + 48)]"
  by (simp add: frame_words_def upt_7)

lemma frame_words_cong: "(\<And>a. a \<in> frame_cells s \<Longrightarrow> mm a = mm' a) \<Longrightarrow> frame_words s mm = frame_words s mm'"
  by (simp add: frame_words_alt frame_cells_def)

lemma aligned_add: "aligned b \<Longrightarrow> aligned (a + b) \<longleftrightarrow> aligned a"
proof -
  assume "aligned b"
  then have b: "unat b mod 8 = 0" by (simp add: aligned_def)
  have "unat (a + b) mod 8 = (unat a + unat b) mod 8"
    by (simp add: unat_word_ariths mod_mod_cancel)
  also have "\<dots> = unat a mod 8" using b by (simp add: mod_add_eq [symmetric, of "unat a" "unat b"])
  finally show ?thesis by (simp add: aligned_def)
qed

lemma aligned_words [simp]:
  assumes "k \<in> {8, 16, 24, 32, 40, 48, 56}"
  shows "aligned (a + k) = aligned a" "aligned (k + a) = aligned a" "aligned (a - k) = aligned a"
proof -
  have k: "aligned k" using assms by (auto simp: aligned_def)
  then show "aligned (a + k) = aligned a" "aligned (k + a) = aligned a"
    using aligned_add [OF k, of a] by (simp_all add: add.commute)
  show "aligned (a - k) = aligned a" using aligned_add [OF k, of "a - k"] by simp
qed

section \<open>Switching out and in\<close>

lemma push_in_range:
  "rsp m = b + 8 \<Longrightarrow> aligned b \<Longrightarrow> cpu_push v m = Some (m\<lparr>rsp := b, mem := (mem m)(b := v)\<rparr>)"
  by (simp add: cpu_push_def)

definition pushed :: "cpu \<Rightarrow> u64 \<Rightarrow> memory \<Rightarrow> memory" where
  "pushed m b mm = mm(b + 40 := rbp m, b + 32 := rbx m, b + 24 := r12 m, b + 16 := r13 m, b + 8 := r14 m, b := r15 m)"

lemma push_regs_closed:
  assumes "rsp m = b + 48" and "aligned b"
  shows "push_regs m = Some (m\<lparr>rsp := b, mem := pushed m b (mem m)\<rparr>)"
proof -
  define m1 where "m1 = m\<lparr>rsp := b + 40, mem := (mem m)(b + 40 := rbp m)\<rparr>"
  define m2 where "m2 = m\<lparr>rsp := b + 32, mem := (mem m1)(b + 32 := rbx m)\<rparr>"
  define m3 where "m3 = m\<lparr>rsp := b + 24, mem := (mem m2)(b + 24 := r12 m)\<rparr>"
  define m4 where "m4 = m\<lparr>rsp := b + 16, mem := (mem m3)(b + 16 := r13 m)\<rparr>"
  define m5 where "m5 = m\<lparr>rsp := b + 8, mem := (mem m4)(b + 8 := r14 m)\<rparr>"
  note defs = m1_def m2_def m3_def m4_def m5_def
  have "cpu_push (rbp m) m = Some m1" using push_in_range [of m "b + 40"] assms by (simp add: defs)
  moreover have "cpu_push (rbx m1) m1 = Some m2" using push_in_range [of m1 "b + 32"] assms by (simp add: defs)
  moreover have "cpu_push (r12 m2) m2 = Some m3" using push_in_range [of m2 "b + 24"] assms by (simp add: defs)
  moreover have "cpu_push (r13 m3) m3 = Some m4" using push_in_range [of m3 "b + 16"] assms by (simp add: defs)
  moreover have "cpu_push (r14 m4) m4 = Some m5" using push_in_range [of m4 "b + 8"] assms by (simp add: defs)
  moreover have "cpu_push (r15 m5) m5 = Some (m\<lparr>rsp := b, mem := pushed m b (mem m)\<rparr>)"
    using push_in_range [of m5 "b"] assms by (simp add: defs pushed_def)
  ultimately show ?thesis by (simp only: push_regs_def bind.bind_lunit)
qed

lemma pop_in_range:
  "rsp m = n \<Longrightarrow> aligned n \<Longrightarrow> cpu_pop m = Some (mem m n, m\<lparr>rsp := n + 8\<rparr>)"
  by (simp add: cpu_pop_def)

lemma pop_regs_closed:
  assumes "rsp m = n" and "aligned n"
  shows "pop_regs m = Some (m\<lparr>rsp := n + 48, r15 := mem m n, r14 := mem m (n + 8), r13 := mem m (n + 16),
    r12 := mem m (n + 24), rbx := mem m (n + 32), rbp := mem m (n + 40)\<rparr>)"
  using assms by (cases m) (simp add: pop_regs_def cpu_pop_def add.commute)

lemma switch_closed:
  fixes ret :: u64
  assumes "aligned (rsp m)" and "aligned n"
  defines "b \<equiv> rsp m - 56"
  defines "pm \<equiv> pushed m b ((mem m)(b + 48 := ret))"
  shows "cpu_call ret m \<bind> switch_context n = Some (b,
    m\<lparr>rsp := n + 56, r15 := pm n, r14 := pm (n + 8), r13 := pm (n + 16), r12 := pm (n + 24), rbx := pm (n + 32),
      rbp := pm (n + 40), rip := pm (n + 48), mem := pm\<rparr>)"
proof -
  have b: "rsp m = b + 48 + 8" "aligned b" using assms(1) by (simp_all add: b_def)
  define m1 where "m1 = m\<lparr>rsp := b + 48, mem := (mem m)(b + 48 := ret)\<rparr>"
  have "cpu_call ret m = Some m1"
    unfolding cpu_call_def m1_def by (rule push_in_range) (use b in simp_all)
  moreover have "push_regs m1 = Some (m\<lparr>rsp := b, mem := pm\<rparr>)"
    using push_regs_closed [of m1 b] b(2) by (simp add: m1_def pm_def pushed_def)
  moreover have "pop_regs (m\<lparr>mem := pm, rsp := n\<rparr>) = Some (m\<lparr>rsp := n + 48, r15 := pm n, r14 := pm (n + 8),
      r13 := pm (n + 16), r12 := pm (n + 24), rbx := pm (n + 32), rbp := pm (n + 40), mem := pm\<rparr>)"
    using pop_regs_closed [of "m\<lparr>mem := pm, rsp := n\<rparr>" n] assms(2) by simp
  ultimately show ?thesis using assms(2) by (simp add: switch_context_def cpu_ret_def cpu_pop_def Let_def)
qed

lemma frame_pushed: "frame_words b (pushed m b ((mem m)(b + 48 := ret))) = saved_words m ret"
  by (simp add: frame_words_alt saved_words_def pushed_def)

lemma pushed_other: "a \<notin> frame_cells b \<Longrightarrow> pushed m b ((mem m)(b + 48 := ret)) a = mem m a"
  by (auto simp: frame_cells_def pushed_def)

lemma switch_spec:
  assumes "aligned (rsp m)" and "aligned n"
  obtains m' where "cpu_call ret m \<bind> switch_context n = Some (rsp m - 56, m')"
    and "frame_words (rsp m - 56) (mem m') = saved_words m ret"
    and "\<And>a. a \<notin> frame_cells (rsp m - 56) \<Longrightarrow> mem m' a = mem m a"
    and "saved_words m' (rip m') = frame_words n (mem m')" and "rsp m' = n + 56"
proof -
  define b where "b = rsp m - 56"
  define pm where "pm = pushed m b ((mem m)(b + 48 := ret))"
  show ?thesis
  proof (rule that [OF switch_closed [OF assms, of ret, folded b_def, folded pm_def, unfolded b_def]])
  qed (simp_all add: saved_words_def frame_words_alt b_def [symmetric] pm_def frame_pushed pushed_other
      frame_pushed [unfolded saved_words_def frame_words_alt])
qed

section \<open>The first frame\<close>

lemma stack_top_bounds:
  fixes base :: u64
  assumes "unat base + 65536 < 2 ^ 64"
  defines "top_addr \<equiv> (base + 65536) AND NOT 0xF"
  shows "unat top_addr = (unat base + 65536) div 16 * 16"
    and "unat base + 65520 < unat top_addr" and "unat top_addr \<le> unat base + 65536" and "unat top_addr mod 16 = 0"
proof -
  have u: "unat (base + 65536) = unat base + 65536" using assms(1) by (simp add: unat_word_ariths)
  have "(0xF :: u64) = mask 4" by (simp add: mask_eq_exp_minus_1)
  then show eq: "unat top_addr = (unat base + 65536) div 16 * 16"
    unfolding top_addr_def by (simp only: unat_and_not_mask u) simp
  show "unat base + 65520 < unat top_addr" "unat top_addr \<le> unat base + 65536" "unat top_addr mod 16 = 0"
    unfolding eq using div_mult_mod_eq [of "unat base + 65536" 16] mod_less_divisor [of 16 "unat base + 65536"] by simp_all
qed

lemma unat_sub_small: "unat (b :: u64) \<le> unat (a :: u64) \<Longrightarrow> unat (a - b) = unat a - unat b"
  by (simp add: unat_sub word_le_nat_alt)

lemma put_word_in_range: "aligned sp \<Longrightarrow> put_word v (sp, mm) = Some (sp - 8, mm(sp - 8 := v))"
  by (simp add: put_word_def Let_def)

lemma initial_frame_spec:
  assumes "unat base + 65536 < 2 ^ 64"
  obtains s mm' where "initial_frame entry base mm = Some (s, mm')"
    and "frame_words s mm' = [0, 0, 0, 0, 0, 0, entry]"
    and "\<And>a. a \<notin> frame_cells s \<Longrightarrow> mm' a = mm a"
    and "s = ((base + 65536) AND NOT 0xF) - 56" and "aligned s"
proof -
  define b where "b = ((base + 65536) AND NOT 0xF) - (56 :: u64)"
  have top_b: "(base + 65536) AND NOT 0xF = b + 56" by (simp add: b_def)
  have "unat (b + 56) mod 16 = 0" using stack_top_bounds(4) [OF assms] top_b by simp
  then have "aligned (b + 56)" unfolding aligned_def by presburger
  then have al: "aligned b" by simp
  define mm' where "mm' = mm(b + 48 := entry, b + 40 := 0, b + 32 := 0, b + 24 := 0, b + 16 := 0, b + 8 := 0, b := 0)"
  have "u64_add base TASK_STACK_SIZE = Some (base + 65536)"
    using assms by (simp add: u64_add_def TASK_STACK_SIZE_def)
  then have "initial_frame entry base mm = put_word entry (b + 56, mm) \<bind> put_word 0 \<bind> put_word 0 \<bind>
      put_word 0 \<bind> put_word 0 \<bind> put_word 0 \<bind> put_word 0"
    by (simp only: initial_frame_def Let_def bind.bind_lunit top_b bind_assoc)
  then have "initial_frame entry base mm = Some (b, mm')"
    using al by (simp add: put_word_in_range mm'_def add.commute)
  then show ?thesis
    by (rule that [OF _ _ _ b_def al]) (auto simp: frame_words_alt mm'_def frame_cells_def)
qed

lemma frame_cells_in_stack:
  assumes "unat base + 65536 < 2 ^ 64" and "a \<in> frame_cells (((base + 65536) AND NOT 0xF) - 56)"
  shows "unat base \<le> unat a \<and> unat a + 8 \<le> unat base + 65536"
proof -
  define t where "t = ((base + 65536) AND NOT (0xF :: u64))"
  note t = stack_top_bounds [OF assms(1), folded t_def]
  have "a \<in> {t - 56, t - 48, t - 40, t - 32, t - 24, t - 16, t - 8}"
    using assms(2) unfolding t_def [symmetric] by (simp add: frame_cells_def)
  then obtain k where k: "k \<in> {56, 48, 40, 32, 24, 16, 8}" "a = t - k" by blast
  have "8 \<le> unat k" "unat k \<le> 56" using k(1) by auto
  moreover from this have "unat a = unat t - unat k" unfolding k(2) using t(2) by (intro unat_sub_small) linarith
  ultimately show ?thesis using t(2,3) by linarith
qed

section \<open>Properties\<close>

text \<open>C27: \<open>switch_context\<close> is a coroutine switch. When a task calls it with a return address, the call
  never faults on aligned stacks; and when, after any execution that leaves the seven saved words
  alone, some other task switches back to the saved stack pointer, the first task continues at
  its return address with its stack pointer and all callee-saved registers as they were.\<close>

theorem switch_roundtrip:
  assumes "aligned (rsp m)" and "aligned n" and "cpu_call ret m \<bind> switch_context n = Some (s, m1)"
    and "aligned (rsp m2)" and "frame_words s (mem m2) = frame_words s (mem m1)"
    and "frame_cells (rsp m2 - 56) \<inter> frame_cells s = {}"
  shows "\<exists>s' m3. cpu_call ret' m2 \<bind> switch_context s = Some (s', m3) \<and> rip m3 = ret \<and> rsp m3 = rsp m \<and>
    rbp m3 = rbp m \<and> rbx m3 = rbx m \<and> r12 m3 = r12 m \<and> r13 m3 = r13 m \<and> r14 m3 = r14 m \<and> r15 m3 = r15 m"
proof -
  from switch_spec [OF assms(1,2), of ret] obtain m1' where
    m1: "cpu_call ret m \<bind> switch_context n = Some (rsp m - 56, m1')"
      "frame_words (rsp m - 56) (mem m1') = saved_words m ret" by blast
  have s: "s = rsp m - 56" "m1 = m1'" using m1(1) assms(3) by simp_all
  have "aligned s" using assms(1) by (simp add: s)
  from switch_spec [OF assms(4) this, of ret'] obtain m3 where
    m3: "cpu_call ret' m2 \<bind> switch_context s = Some (rsp m2 - 56, m3)"
      "\<And>a. a \<notin> frame_cells (rsp m2 - 56) \<Longrightarrow> mem m3 a = mem m2 a"
      "saved_words m3 (rip m3) = frame_words s (mem m3)" "rsp m3 = s + 56" by blast
  have "frame_words s (mem m3) = frame_words s (mem m2)"
    using m3(2) assms(6) by (intro frame_words_cong) blast
  also have "\<dots> = saved_words m ret" using assms(5) m1(2) s by simp
  finally have "saved_words m3 (rip m3) = saved_words m ret" using m3(3) by simp
  then show ?thesis
    using m3(1,4) s by (intro exI [of _ "rsp m2 - 56"] exI [of _ m3]) (simp add: saved_words_def)
qed

definition sample_cpu :: cpu where
  "sample_cpu = \<lparr>rsp = 4096, rbp = 1, rbx = 2, r12 = 3, r13 = 4, r14 = 5, r15 = 6, rip = 7, mem = \<lambda>_. 0\<rparr>"

theorem switch_roundtrip_witness:
  "\<exists>s m1. cpu_call 99 sample_cpu \<bind> switch_context 8192 = Some (s, m1) \<and>
    (\<exists>s' m3. cpu_call 11 m1 \<bind> switch_context s = Some (s', m3) \<and> rip m3 = 99 \<and> rsp m3 = 4096 \<and> rbx m3 = 2)"
proof -
  have al: "aligned (rsp sample_cpu)" "aligned 8192" by (simp_all add: sample_cpu_def aligned_def)
  from switch_spec [OF al, of 99] obtain m1 where
    m1: "cpu_call 99 sample_cpu \<bind> switch_context 8192 = Some (rsp sample_cpu - 56, m1)" "rsp m1 = 8248" by auto
  have "aligned (rsp m1)" by (simp add: m1(2) aligned_def)
  moreover have "frame_cells (rsp m1 - 56) \<inter> frame_cells (rsp sample_cpu - 56) = {}"
    by (simp add: m1(2) sample_cpu_def frame_cells_def)
  ultimately have "\<exists>s' m3. cpu_call 11 m1 \<bind> switch_context (rsp sample_cpu - 56) = Some (s', m3) \<and> rip m3 = 99 \<and>
    rsp m3 = 4096 \<and> rbx m3 = 2"
    using switch_roundtrip [OF al m1(1) _ refl, of 11] by (auto simp: sample_cpu_def)
  then show ?thesis using m1(1) by blast
qed

text \<open>C28: a spawned task starts at its entry point. \<open>spawn\<close> writes only inside the stack it allocated;
  the first switch to the task, from any task whose stack is elsewhere, jumps to the entry with all
  callee-saved registers zero and the stack pointer at the aligned top of the stack, a multiple
  of 16.\<close>

theorem spawned_task_starts:
  assumes "unat base + 65536 < 2 ^ 64"
    and "aligned (rsp m)" and "\<forall>a \<in> frame_cells (rsp m - 56). unat a < unat base \<or> unat base + 65536 \<le> unat a"
  shows "\<exists>s mm'. initial_frame entry base (mem m) = Some (s, mm') \<and>
    (\<forall>a. mm' a \<noteq> mem m a \<longrightarrow> unat base \<le> unat a \<and> unat a + 8 \<le> unat base + 65536) \<and>
    (\<exists>s' m'. cpu_call ret (m\<lparr>mem := mm'\<rparr>) \<bind> switch_context s = Some (s', m') \<and> rip m' = entry \<and>
      rbp m' = 0 \<and> rbx m' = 0 \<and> r12 m' = 0 \<and> r13 m' = 0 \<and> r14 m' = 0 \<and> r15 m' = 0 \<and>
      unat (rsp m') = (unat base + 65536) div 16 * 16)"
proof -
  from initial_frame_spec [OF assms(1), of entry "mem m"] obtain s mm' where
    f: "initial_frame entry base (mem m) = Some (s, mm')" "frame_words s mm' = [0, 0, 0, 0, 0, 0, entry]"
      "\<And>a. a \<notin> frame_cells s \<Longrightarrow> mm' a = mem m a" "s = ((base + 65536) AND NOT 0xF) - 56" "aligned s" by blast
  note in_stack = frame_cells_in_stack [OF assms(1), folded f(4)]
  have "aligned (rsp (m\<lparr>mem := mm'\<rparr>))" using assms(2) by simp
  from switch_spec [OF this f(5), of ret] obtain m' where
    m': "cpu_call ret (m\<lparr>mem := mm'\<rparr>) \<bind> switch_context s = Some (rsp m - 56, m')"
      "\<And>a. a \<notin> frame_cells (rsp m - 56) \<Longrightarrow> mem m' a = mm' a"
      "saved_words m' (rip m') = frame_words s (mem m')" "rsp m' = s + 56" by auto
  have "frame_words s (mem m') = frame_words s mm'"
  proof (rule frame_words_cong, rule m'(2))
    fix a assume "a \<in> frame_cells s"
    then show "a \<notin> frame_cells (rsp m - 56)" using in_stack [of a] assms(3) by force
  qed
  then have "saved_words m' (rip m') = [0, 0, 0, 0, 0, 0, entry]" using m'(3) f(2) by simp
  then have regs: "rip m' = entry" "rbp m' = 0" "rbx m' = 0" "r12 m' = 0" "r13 m' = 0" "r14 m' = 0" "r15 m' = 0"
    by (simp_all add: saved_words_def)
  have "unat (rsp m') = (unat base + 65536) div 16 * 16"
    using m'(4) f(4) stack_top_bounds(1) [OF assms(1)] by simp
  with m'(1) regs have runs: "\<exists>s' m'. cpu_call ret (m\<lparr>mem := mm'\<rparr>) \<bind> switch_context s = Some (s', m') \<and>
      rip m' = entry \<and> rbp m' = 0 \<and> rbx m' = 0 \<and> r12 m' = 0 \<and> r13 m' = 0 \<and> r14 m' = 0 \<and> r15 m' = 0 \<and>
      unat (rsp m') = (unat base + 65536) div 16 * 16"
    by blast
  have "\<forall>a. mm' a \<noteq> mem m a \<longrightarrow> unat base \<le> unat a \<and> unat a + 8 \<le> unat base + 65536"
    using f(3) in_stack by blast
  with f(1) runs show ?thesis by blast
qed

theorem spawned_task_starts_witness:
  "\<exists>s mm'. initial_frame 77 65536 (mem sample_cpu) = Some (s, mm') \<and>
    (\<exists>s' m'. cpu_call 5 (sample_cpu\<lparr>mem := mm'\<rparr>) \<bind> switch_context s = Some (s', m') \<and> rip m' = 77)"
proof -
  have "aligned (rsp sample_cpu)" "\<forall>a \<in> frame_cells (rsp sample_cpu - 56). unat a < unat (65536 :: u64) \<or>
    unat (65536 :: u64) + 65536 \<le> unat a"
    by (simp_all add: sample_cpu_def aligned_def frame_cells_def)
  then show ?thesis using spawned_task_starts [of 65536 sample_cpu 77 5] by auto
qed

end
