(* ===== verification/Scheduler.thy ===== *)
theory Scheduler
  imports Switch
begin

text \<open>
  The cooperative scheduler of \<^verbatim>\<open>kernel/src/task.rs\<close> on top of the machine of theory \<open>Switch\<close>.
  A task's stack is the address the allocator gave it; \<open>saved_if\<close> holds, for every suspended
  task, the interrupt flag that the \<^verbatim>\<open>without_interrupts\<close> around its call of \<^verbatim>\<open>switch_context\<close>
  found and will restore (\<^term>\<open>None\<close> before the task has run: its entry point is reached by \<^verbatim>\<open>ret\<close>, with
  the flag as it is). \<open>sys_step\<close> is the execution of the kernel's tasks: the current task computes on
  its own stack, or it yields.
\<close>

section \<open>State\<close>

datatype task_state = Ready | Running | Sleeping

record task =
  task_id :: usize
  context_rsp :: u64
  stack_base :: u64
  tstate :: task_state
  window_id :: "usize option"

record scheduler =
  tasks :: "task list"
  current :: usize
  next_task_id :: usize

record system =
  sched :: "scheduler option"
  sched_running :: bool
  cpu_state :: cpu
  iflag :: bool
  saved_if :: "bool option list"

section \<open>Operations\<close>

definition task_init :: "system \<Rightarrow> system" where
  "task_init s = s\<lparr>sched := Some \<lparr>tasks = [], current = 0, next_task_id = 0\<rparr>, saved_if := []\<rparr>"

text \<open>\<open>base\<close>: the address of \<^verbatim>\<open>vec![0u8; TASK_STACK_SIZE]\<close>.\<close>

definition spawn :: "u64 \<Rightarrow> usize option \<Rightarrow> u64 \<Rightarrow> system \<Rightarrow> (usize \<times> system) option" where
  "spawn entry win base s = do {
     sc \<leftarrow> sched s;
     let tid = next_task_id sc;
     nid \<leftarrow> uadd (next_task_id sc) 1;
     (sp, mm) \<leftarrow> initial_frame entry base (mem (cpu_state s));
     let task = \<lparr>task_id = tid, context_rsp = sp, stack_base = base, tstate = Ready, window_id = win\<rparr>;
     Some (tid, s\<lparr>sched := Some (sc\<lparr>tasks := tasks sc @ [task], next_task_id := nid\<rparr>),
       cpu_state := (cpu_state s)\<lparr>mem := mm\<rparr>, saved_if := saved_if s @ [None]\<rparr>)
   }"

definition current_window_id :: "system \<Rightarrow> usize option" where
  "current_window_id s = (case sched s of
      None \<Rightarrow> None
    | Some sc \<Rightarrow> if current sc < length (tasks sc) then window_id (tasks sc ! current sc) else None)"

fun next_ready :: "nat \<Rightarrow> task list \<Rightarrow> usize \<Rightarrow> (bool \<times> usize) option" where
  "next_ready 0 ts next = Some (False, next)"
| "next_ready (Suc k) ts next = do {
     t \<leftarrow> get_at ts next;
     if tstate t = Ready \<or> tstate t = Running then Some (True, next)
     else do { n \<leftarrow> uadd next 1; next_ready k ts (n mod length ts) }
   }"

text \<open>The choice of the next task: the new scheduler, and the old and new index when there is a switch.\<close>

definition yield_pick :: "scheduler \<Rightarrow> (scheduler \<times> (usize \<times> usize) option) option" where
  "yield_pick sc = do {
     let count = length (tasks sc);
     if count \<le> 1 then Some (sc, None)
     else do {
       let old_idx = current sc;
       n \<leftarrow> uadd old_idx 1;
       (found, next_idx) \<leftarrow> next_ready count (tasks sc) (n mod count);
       if \<not> found \<or> next_idx = old_idx then Some (sc, None)
       else do {
         t \<leftarrow> get_at (tasks sc) old_idx;
         ts \<leftarrow> set_at (tasks sc) old_idx (t\<lparr>tstate := Ready\<rparr>);
         t \<leftarrow> get_at ts next_idx;
         ts \<leftarrow> set_at ts next_idx (t\<lparr>tstate := Running\<rparr>);
         Some (sc\<lparr>tasks := ts, current := next_idx\<rparr>, Some (old_idx, next_idx))
       }
     }
   }"

definition set_context :: "usize \<Rightarrow> u64 \<Rightarrow> scheduler \<Rightarrow> scheduler" where
  "set_context i sp sc = sc\<lparr>tasks := (tasks sc)[i := (tasks sc ! i)\<lparr>context_rsp := sp\<rparr>]\<rparr>"

text \<open>\<open>return_address\<close>: where the call of \<^verbatim>\<open>switch_context\<close> in the yielding task continues.\<close>

definition yield_now :: "u64 \<Rightarrow> system \<Rightarrow> system option" where
  "yield_now return_address s =
     (if \<not> sched_running s then Some s
      else (case sched s of
          None \<Rightarrow> Some s
        | Some sc \<Rightarrow> do {
            let was_enabled = iflag s;
            (sc, switch) \<leftarrow> yield_pick sc;
            case switch of
              None \<Rightarrow> Some (s\<lparr>sched := Some sc\<rparr>)
            | Some (old_idx, new_idx) \<Rightarrow> do {
                m \<leftarrow> cpu_call return_address (cpu_state s);
                (sp, m) \<leftarrow> switch_context (context_rsp (tasks sc ! new_idx)) m;
                let flags = (saved_if s)[old_idx := Some was_enabled];
                Some (s\<lparr>sched := Some (set_context old_idx sp sc), cpu_state := m,
                  iflag := (saved_if s ! new_idx = Some True), saved_if := flags\<rparr>)
              }
          }))"

text \<open>The start of \<open>run\<close>: the caller becomes task 0.\<close>

definition run_start :: "system \<Rightarrow> system option" where
  "run_start s = do {
     sc \<leftarrow> sched s;
     let tid = next_task_id sc;
     nid \<leftarrow> uadd (next_task_id sc) 1;
     let idle = \<lparr>task_id = tid, context_rsp = 0, stack_base = 0, tstate = Running, window_id = None\<rparr>;
     Some (s\<lparr>sched := Some (sc\<lparr>tasks := idle # tasks sc, current := 0, next_task_id := nid\<rparr>),
       saved_if := None # saved_if s, sched_running := True\<rparr>)
   }"

section \<open>Round robin\<close>

text \<open>No operation puts a task to sleep.\<close>

definition sched_ok :: "scheduler \<Rightarrow> bool" where
  "sched_ok sc \<longleftrightarrow> current sc < length (tasks sc) \<and> length (tasks sc) < 2 ^ 64 \<and>
     (\<forall>i < length (tasks sc). tstate (tasks sc ! i) = (if i = current sc then Running else Ready))"

lemma yield_pick_round_robin:
  assumes "sched_ok sc" and "1 < length (tasks sc)"
  defines "new \<equiv> (current sc + 1) mod length (tasks sc)"
  shows "yield_pick sc = Some (sc\<lparr>tasks := (tasks sc)[current sc := (tasks sc ! current sc)\<lparr>tstate := Ready\<rparr>,
      new := (tasks sc ! new)\<lparr>tstate := Running\<rparr>], current := new\<rparr>, Some (current sc, new))"
    and "new < length (tasks sc)" and "new \<noteq> current sc"
proof -
  let ?n = "length (tasks sc)"
  show new: "new < ?n" unfolding new_def using assms(2) by (intro mod_less_divisor) auto
  show ne: "new \<noteq> current sc"
  proof (cases "current sc + 1 = ?n")
    case False
    then have "current sc + 1 < ?n" using assms(1) by (simp add: sched_ok_def)
    then show ?thesis by (simp add: new_def)
  qed (use assms(2) in \<open>simp add: new_def\<close>)
  have "tstate (tasks sc ! new) = Ready" using assms(1) new ne by (simp add: sched_ok_def)
  moreover obtain k where k: "?n = Suc k" using assms(2) by (cases ?n) auto
  ultimately have ready: "next_ready ?n (tasks sc) new = Some (True, new)"
    using new by (simp add: in_range)
  have "uadd (current sc) 1 = Some (current sc + 1)" using assms(1) by (simp add: sched_ok_def in_range)
  then show "yield_pick sc = Some (sc\<lparr>tasks := (tasks sc)[current sc := (tasks sc ! current sc)\<lparr>tstate := Ready\<rparr>,
      new := (tasks sc ! new)\<lparr>tstate := Running\<rparr>], current := new\<rparr>, Some (current sc, new))"
    using assms(1,2) ready new ne new_def by (auto simp: yield_pick_def sched_ok_def in_range Let_def)
qed

section \<open>The running kernel\<close>

text \<open>\<open>frame_at s k\<close>: the frame of task \<open>k\<close>, saved if the task is suspended and about to be saved if it
  is the current one.\<close>

definition frame_at :: "system \<Rightarrow> scheduler \<Rightarrow> nat \<Rightarrow> u64" where
  "frame_at s sc k = (if k = current sc then rsp (cpu_state s) - 56 else context_rsp (tasks sc ! k))"

definition frames_ok :: "system \<Rightarrow> scheduler \<Rightarrow> bool" where
  "frames_ok s sc \<longleftrightarrow>
     (\<forall>k < length (tasks sc). aligned (frame_at s sc k)) \<and>
     (\<forall>k < length (tasks sc). \<forall>l < length (tasks sc). k \<noteq> l \<longrightarrow>
        frame_cells (frame_at s sc k) \<inter> frame_cells (frame_at s sc l) = {})"

text \<open>What each suspended task is to find in its registers when it runs again.\<close>

definition resumes :: "system \<Rightarrow> scheduler \<Rightarrow> (nat \<Rightarrow> u64 list) \<Rightarrow> bool" where
  "resumes s sc expect \<longleftrightarrow> (\<forall>k < length (tasks sc). k \<noteq> current sc \<longrightarrow>
     frame_words (context_rsp (tasks sc ! k)) (mem (cpu_state s)) = expect k)"

text \<open>Interrupts are on in the idle task alone: it is suspended with its flag on, every other task
  with its flag off or before its start.\<close>

definition flags_ok :: "system \<Rightarrow> scheduler \<Rightarrow> bool" where
  "flags_ok s sc \<longleftrightarrow> length (saved_if s) = length (tasks sc) \<and> (iflag s \<longleftrightarrow> current sc = 0) \<and>
     (\<forall>k < length (tasks sc). k \<noteq> current sc \<longrightarrow> (saved_if s ! k = Some True \<longleftrightarrow> k = 0))"

definition sys_ok :: "system \<Rightarrow> scheduler \<Rightarrow> (nat \<Rightarrow> u64 list) \<Rightarrow> bool" where
  "sys_ok s sc expect \<longleftrightarrow> sched s = Some sc \<and> sched_running s \<and> sched_ok sc \<and> frames_ok s sc \<and>
     resumes s sc expect \<and> flags_ok s sc"

text \<open>One step of the kernel, with the number of switches so far and the register values each suspended
  task is to get back. In \<open>compute\<close> the current task runs any code that keeps its stack pointer
  aligned, leaves the saved frames of the other tasks alone and stays off them with its own
  frame; in \<open>yield\<close> it calls \<open>yield_now\<close>.\<close>

inductive sys_step :: "nat \<times> (nat \<Rightarrow> u64 list) \<times> system \<Rightarrow> nat \<times> (nat \<Rightarrow> u64 list) \<times> system \<Rightarrow> bool" where
  compute: "sched s = Some sc \<Longrightarrow> aligned (rsp m) \<Longrightarrow>
    (\<And>k. k < length (tasks sc) \<Longrightarrow> k \<noteq> current sc \<Longrightarrow>
      frame_cells (rsp m - 56) \<inter> frame_cells (context_rsp (tasks sc ! k)) = {} \<and>
      frame_words (context_rsp (tasks sc ! k)) (mem m) = frame_words (context_rsp (tasks sc ! k)) (mem (cpu_state s))) \<Longrightarrow>
    sys_step (n, expect, s) (n, expect, s\<lparr>cpu_state := m\<rparr>)"
| yield: "sched s = Some sc \<Longrightarrow> yield_now ret s = Some s' \<Longrightarrow>
    sys_step (n, expect, s) (Suc n, expect(current sc := saved_words (cpu_state s) ret), s')"

inductive_cases sys_stepE: "sys_step x y"

text \<open>A push on the stack of the current task leaves the frames of the others.\<close>

lemma other_frames_kept:
  assumes "frames_ok s sc" and "resumes s sc expect" and "current sc < length (tasks sc)" and "k < length (tasks sc)" and "k \<noteq> current sc"
    and "\<And>a. a \<notin> frame_cells (rsp (cpu_state s) - 56) \<Longrightarrow> mem m' a = mem (cpu_state s) a"
  shows "frame_words (context_rsp (tasks sc ! k)) (mem m') = expect k"
proof -
  have "frame_cells (frame_at s sc k) \<inter> frame_cells (frame_at s sc (current sc)) = {}"
    using assms(1,3-5) unfolding frames_ok_def by blast
  then have "frame_cells (context_rsp (tasks sc ! k)) \<inter> frame_cells (rsp (cpu_state s) - 56) = {}"
    using assms(5) by (simp add: frame_at_def)
  then have "frame_words (context_rsp (tasks sc ! k)) (mem m') = frame_words (context_rsp (tasks sc ! k)) (mem (cpu_state s))"
    using assms(6) by (intro frame_words_cong) blast
  then show ?thesis using assms(2,4,5) by (simp add: resumes_def)
qed

lemma yield_now_switches:
  assumes "sys_ok s sc expect" and "1 < length (tasks sc)"
  defines "new \<equiv> (current sc + 1) mod length (tasks sc)"
  obtains s' sc' where "yield_now ret s = Some s'" and "sys_ok s' sc' (expect(current sc := saved_words (cpu_state s) ret))"
    and "length (tasks sc') = length (tasks sc)" and "current sc' = new"
    and "saved_words (cpu_state s') (rip (cpu_state s')) = expect new"
    and "rsp (cpu_state s') = context_rsp (tasks sc ! new) + 56"
    and "window_id (tasks sc' ! new) = window_id (tasks sc ! new)"
proof -
  let ?n = "length (tasks sc)" and ?old = "current sc" and ?m = "cpu_state s"
  have ok: "sched s = Some sc" "sched_running s" "sched_ok sc" "frames_ok s sc" "resumes s sc expect" "flags_ok s sc"
    using assms(1) by (auto simp: sys_ok_def)
  note rr = yield_pick_round_robin [OF ok(3) assms(2), folded new_def]
  have old: "?old < ?n" using ok(3) by (simp add: sched_ok_def)
  let ?ts = "(tasks sc)[?old := (tasks sc ! ?old)\<lparr>tstate := Ready\<rparr>, new := (tasks sc ! new)\<lparr>tstate := Running\<rparr>]"
  let ?sc1 = "sc\<lparr>tasks := ?ts, current := new\<rparr>"
  have ctx: "context_rsp (?ts ! k) = context_rsp (tasks sc ! k)" if "k < ?n" for k
    using that old rr(2) by (simp add: nth_list_update)
  have "aligned (frame_at s sc ?old)" "aligned (frame_at s sc new)"
    using ok(4) old rr(2) by (auto simp: frames_ok_def)
  then have "aligned (rsp ?m - 56)" "aligned (context_rsp (tasks sc ! new))"
    using rr(3) by (simp_all add: frame_at_def)
  then have al: "aligned (rsp ?m)" "aligned (context_rsp (tasks sc ! new))" by simp_all
  from switch_spec [OF al, of ret] obtain m' where
    m': "cpu_call ret ?m \<bind> switch_context (context_rsp (tasks sc ! new)) = Some (rsp ?m - 56, m')"
      "frame_words (rsp ?m - 56) (mem m') = saved_words ?m ret"
      "\<And>a. a \<notin> frame_cells (rsp ?m - 56) \<Longrightarrow> mem m' a = mem ?m a"
      "saved_words m' (rip m') = frame_words (context_rsp (tasks sc ! new)) (mem m')"
      "rsp m' = context_rsp (tasks sc ! new) + 56" by blast
  have keep: "frame_words (context_rsp (tasks sc ! k)) (mem m') = expect k" if "k < ?n" "k \<noteq> ?old" for k
    using other_frames_kept [OF ok(4,5) old that m'(3)] .
  define sc' where "sc' = set_context ?old (rsp ?m - 56) ?sc1"
  define s' where "s' = s\<lparr>sched := Some sc', cpu_state := m', iflag := (saved_if s ! new = Some True),
    saved_if := (saved_if s)[?old := Some (iflag s)]\<rparr>"
  have y: "yield_now ret s = Some s'"
  proof -
    obtain m1 where m1: "cpu_call ret ?m = Some m1"
      "switch_context (context_rsp (tasks sc ! new)) m1 = Some (rsp ?m - 56, m')"
      using m'(1) by (auto simp: bind_eq_Some_conv)
    show ?thesis
      using ok(1,2) rr(1) ctx [OF rr(2)] m1
      by (simp add: yield_now_def s'_def sc'_def Let_def)
  qed
  have len: "length (tasks sc') = ?n" and cur: "current sc' = new" by (simp_all add: sc'_def set_context_def)
  have ctx': "context_rsp (tasks sc' ! k) = (if k = ?old then rsp ?m - 56 else context_rsp (tasks sc ! k))" if "k < ?n" for k
    using that old ctx by (simp add: sc'_def set_context_def nth_list_update)
  have st': "tstate (tasks sc' ! k) = (if k = new then Running else if k = ?old then Ready else tstate (tasks sc ! k))" if "k < ?n" for k
    using that old rr(2,3) by (simp add: sc'_def set_context_def nth_list_update)
  have frame: "frame_at s' sc' k = frame_at s sc k" if "k < ?n" for k
    using ctx' [OF that] rr(3) m'(5) by (auto simp: frame_at_def cur s'_def split: if_splits)
  have "sched_ok sc'" using ok(3) rr(2) st' by (auto simp: sched_ok_def len cur)
  moreover have "frames_ok s' sc'" using ok(4) by (simp add: frames_ok_def len frame)
  moreover have "resumes s' sc' (expect(?old := saved_words ?m ret))"
    using keep m'(2) ctx' by (simp add: resumes_def len cur s'_def)
  moreover have "flags_ok s' sc'"
    using ok(6) old rr(2,3) by (auto simp: flags_ok_def len cur s'_def nth_list_update)
  ultimately have "sys_ok s' sc' (expect(?old := saved_words ?m ret))"
    using ok(2) by (simp add: sys_ok_def s'_def)
  moreover have "saved_words (cpu_state s') (rip (cpu_state s')) = expect new"
    using m'(4) keep [OF rr(2,3)] by (simp add: s'_def)
  moreover have "rsp (cpu_state s') = context_rsp (tasks sc ! new) + 56" using m'(5) by (simp add: s'_def)
  moreover have "window_id (tasks sc' ! new) = window_id (tasks sc ! new)"
    using rr(2,3) old by (simp add: sc'_def set_context_def nth_list_update)
  ultimately show ?thesis using that [OF y _ len cur] by blast
qed

lemma sys_step_ok:
  assumes "sys_step (n, expect, s) (n', expect', s')" and "sys_ok s sc expect" and "1 < length (tasks sc)"
    and "current sc = n mod length (tasks sc)"
  shows "\<exists>sc'. sys_ok s' sc' expect' \<and> length (tasks sc') = length (tasks sc) \<and> current sc' = n' mod length (tasks sc)"
  using assms(1)
proof (cases rule: sys_step.cases)
  case (compute sc1 m)
  then have "sc1 = sc" using assms(2) by (simp add: sys_ok_def)
  note compute = compute [unfolded this]
  have "frame_at (s\<lparr>cpu_state := m\<rparr>) sc k = (if k = current sc then rsp m - 56 else frame_at s sc k)" for k
    by (simp add: frame_at_def)
  moreover have old: "aligned (frame_at s sc k)"
      "l < length (tasks sc) \<Longrightarrow> k \<noteq> l \<Longrightarrow> frame_cells (frame_at s sc k) \<inter> frame_cells (frame_at s sc l) = {}"
    if "k < length (tasks sc)" for k l using assms(2) that by (auto simp: sys_ok_def frames_ok_def)
  moreover have new: "aligned (rsp m - 56)"
      "k < length (tasks sc) \<Longrightarrow> k \<noteq> current sc \<Longrightarrow> frame_cells (rsp m - 56) \<inter> frame_cells (frame_at s sc k) = {}" for k
    using compute(5) compute(6) [of k] by (simp_all add: frame_at_def)
  moreover have "frame_cells (frame_at s sc k) \<inter> frame_cells (rsp m - 56) = {}"
    if "k < length (tasks sc)" "k \<noteq> current sc" for k using new(2) [OF that] by (simp add: Int_commute)
  ultimately have "frames_ok (s\<lparr>cpu_state := m\<rparr>) sc" by (simp add: frames_ok_def)
  moreover have "resumes (s\<lparr>cpu_state := m\<rparr>) sc expect"
    using assms(2) compute(6) unfolding sys_ok_def resumes_def by simp
  ultimately have "sys_ok (s\<lparr>cpu_state := m\<rparr>) sc expect"
    using assms(2) by (simp add: sys_ok_def flags_ok_def)
  then show ?thesis using compute(1,2,3) assms(4) by auto
next
  case (yield sc1 ret)
  then have "sc1 = sc" using assms(2) by (simp add: sys_ok_def)
  note yield = yield [unfolded this]
  from yield_now_switches [OF assms(2,3), of ret] obtain s2 sc' where
    "yield_now ret s = Some s2" "sys_ok s2 sc' (expect(current sc := saved_words (cpu_state s) ret))"
    "length (tasks sc') = length (tasks sc)" "current sc' = (current sc + 1) mod length (tasks sc)" by blast
  then show ?thesis using yield assms(4) by (intro exI [of _ sc']) (simp add: mod_Suc_eq)
qed

section \<open>From the boot to the scheduler\<close>

text \<open>\<open>boot specs\<close>: \<open>init\<close>, one \<open>spawn\<close> per entry point, window and stack, then the start of \<open>run\<close>.\<close>

type_synonym spec = "u64 \<times> usize option \<times> u64"

definition spawn_one :: "spec \<Rightarrow> system \<Rightarrow> system option" where
  "spawn_one = (\<lambda>(entry, win, base) s. do { (tid, s) \<leftarrow> spawn entry win base s; Some s })"

definition boot :: "spec list \<Rightarrow> system \<Rightarrow> system option" where
  "boot specs s = foldM spawn_one specs (task_init s) \<bind> run_start"

definition in_stack :: "u64 \<Rightarrow> u64 \<Rightarrow> bool" where
  "in_stack base a \<longleftrightarrow> unat base \<le> unat a \<and> unat a + 8 \<le> unat base + 65536"

definition stacks_ok :: "spec list \<Rightarrow> bool" where
  "stacks_ok specs \<longleftrightarrow> length specs + 1 < 2 ^ 64 \<and>
     (\<forall>(entry, win, base) \<in> set specs. unat base + 65536 < 2 ^ 64) \<and>
     sorted_wrt (\<lambda>(e, w, a) (e', w', b). unat a + 65536 \<le> unat b \<or> unat b + 65536 \<le> unat a) specs"

definition spec_frame :: "spec \<Rightarrow> u64" where
  "spec_frame = (\<lambda>(entry, win, base). ((base + 65536) AND NOT 0xF) - 56)"

definition first_words :: "spec \<Rightarrow> u64 list" where
  "first_words = (\<lambda>(entry, win, base). [0, 0, 0, 0, 0, 0, entry])"

definition spec_task :: "spec \<Rightarrow> task \<Rightarrow> bool" where
  "spec_task sp t \<longleftrightarrow> context_rsp t = spec_frame sp \<and> tstate t = Ready \<and> window_id t = fst (snd sp) \<and> stack_base t = snd (snd sp)"

definition spawned :: "system \<Rightarrow> spec list \<Rightarrow> system \<Rightarrow> bool" where
  "spawned s0 specs s \<longleftrightarrow> (\<exists>sc. sched s = Some sc \<and> current sc = 0 \<and> next_task_id sc = length specs \<and>
     list_all2 spec_task specs (tasks sc) \<and> saved_if s = replicate (length specs) None \<and> iflag s = iflag s0 \<and>
     rsp (cpu_state s) = rsp (cpu_state s0) \<and>
     (\<forall>sp \<in> set specs. frame_words (spec_frame sp) (mem (cpu_state s)) = first_words sp))"

lemma spec_frame_cells:
  "unat base + 65536 < 2 ^ 64 \<Longrightarrow> a \<in> frame_cells (spec_frame (e, w, base)) \<Longrightarrow> in_stack base a"
  using frame_cells_in_stack [of base a] by (simp add: spec_frame_def in_stack_def)

lemma spawn_all:
  assumes "stacks_ok specs"
  shows "\<exists>s. foldM spawn_one specs (task_init s0) = Some s \<and> spawned s0 specs s"
  using assms
proof (induction specs rule: rev_induct)
  case Nil
  then show ?case by (simp add: spawned_def task_init_def)
next
  case (snoc sp specs)
  obtain entry win base where sp: "sp = (entry, win, base)" by (cases sp)
  have "stacks_ok specs" using snoc.prems by (auto simp: stacks_ok_def sorted_wrt_append)
  from snoc.IH [OF this] obtain s where s: "foldM spawn_one specs (task_init s0) = Some s" "spawned s0 specs s" by blast
  from s(2) obtain sc where sc: "sched s = Some sc" "current sc = 0" "next_task_id sc = length specs"
    "list_all2 spec_task specs (tasks sc)" "saved_if s = replicate (length specs) None" "iflag s = iflag s0"
    "rsp (cpu_state s) = rsp (cpu_state s0)"
    "\<And>q. q \<in> set specs \<Longrightarrow> frame_words (spec_frame q) (mem (cpu_state s)) = first_words q"
    unfolding spawned_def by blast
  have base: "unat base + 65536 < 2 ^ 64" using snoc.prems by (auto simp: stacks_ok_def sp)
  have spf: "spec_frame sp = ((base + 65536) AND NOT 0xF) - 56" by (simp only: spec_frame_def sp prod.case)
  from initial_frame_spec [OF base, of entry "mem (cpu_state s)"] obtain fr mm where
    fr: "initial_frame entry base (mem (cpu_state s)) = Some (fr, mm)" "frame_words fr mm = [0, 0, 0, 0, 0, 0, entry]"
      "\<And>a. a \<notin> frame_cells fr \<Longrightarrow> mm a = mem (cpu_state s) a" "fr = spec_frame sp"
    unfolding spf by blast
  define t where "t = \<lparr>task_id = length specs, context_rsp = fr, stack_base = base, tstate = Ready, window_id = win\<rparr>"
  define s' where "s' = s\<lparr>sched := Some (sc\<lparr>tasks := tasks sc @ [t], next_task_id := length specs + 1\<rparr>),
    cpu_state := (cpu_state s)\<lparr>mem := mm\<rparr>, saved_if := saved_if s @ [None]\<rparr>"
  have "length specs + 1 < 2 ^ 64" using snoc.prems by (simp add: stacks_ok_def)
  then have "spawn_one sp s = Some s'"
    using sc(1,3) fr(1) by (simp add: spawn_one_def sp spawn_def in_range Let_def s'_def t_def)
  moreover have "frame_words (spec_frame q) mm = first_words q" if "q \<in> set (specs @ [sp])" for q
  proof (cases "q \<in> set specs")
    case True
    obtain e w b where q: "q = (e, w, b)" by (cases q)
    have b: "unat b + 65536 < 2 ^ 64" "unat b + 65536 \<le> unat base \<or> unat base + 65536 \<le> unat b"
      using snoc.prems True by (auto simp: stacks_ok_def sorted_wrt_append sp q)
    have "frame_words (spec_frame q) mm = frame_words (spec_frame q) (mem (cpu_state s))"
    proof (rule frame_words_cong, rule fr(3), rule notI)
      fix a assume "a \<in> frame_cells (spec_frame q)" "a \<in> frame_cells fr"
      then have "in_stack b a" "in_stack base a"
        using spec_frame_cells [OF b(1)] spec_frame_cells [OF base] by (simp_all add: q fr(4) sp)
      then show False using b(2) by (auto simp: in_stack_def)
    qed
    then show ?thesis using sc(8) True by simp
  next
    case False
    then show ?thesis using that fr(2,4) by (simp add: first_words_def sp)
  qed
  moreover have "list_all2 spec_task (specs @ [sp]) (tasks sc @ [t])"
    using sc(4) by (intro list_all2_appendI) (simp_all add: spec_task_def t_def fr(4) sp)
  ultimately have "spawned s0 (specs @ [sp]) s'"
    using sc(2,5,6,7) unfolding spawned_def s'_def by (simp add: replicate_append_same)
  then show ?case
    using s(1) \<open>spawn_one sp s = Some s'\<close> by (intro exI [of _ s']) (simp add: foldM_append)
qed

text \<open>A single call of \<open>spawn\<close>, on a stack that fits below the end of the address space.\<close>

lemma spawn_one_succeeds:
  assumes "sched s = Some sc" and "next_task_id sc = length (tasks sc)" and "length (tasks sc) + 1 < 2 ^ 64" and "unat base + 65536 < 2 ^ 64"
  obtains s' sc' where "spawn_one (entry, win, base) s = Some s'" and "sched s' = Some sc'"
    and "next_task_id sc' = length (tasks sc')" and "length (tasks sc') = Suc (length (tasks sc))"
proof -
  obtain fr mm where "initial_frame entry base (mem (cpu_state s)) = Some (fr, mm)"
    by (rule initial_frame_spec [OF assms(4), of entry "mem (cpu_state s)"])
  then show ?thesis
    using that assms(1-3) by (simp add: spawn_one_def spawn_def in_range Let_def)
qed

definition first_resume :: "spec list \<Rightarrow> nat \<Rightarrow> u64 list" where
  "first_resume specs k = (if k = 0 then [] else first_words (specs ! (k - 1)))"

lemma spec_frame_at:
  assumes "stacks_ok specs" and "i < length specs"
  shows "aligned (spec_frame (specs ! i))" and "a \<in> frame_cells (spec_frame (specs ! i)) \<Longrightarrow> in_stack (snd (snd (specs ! i))) a"
proof -
  obtain e w b where q: "specs ! i = (e, w, b)" by (cases "specs ! i")
  have b: "unat b + 65536 < 2 ^ 64" using assms q nth_mem [OF assms(2)] by (auto simp: stacks_ok_def)
  show "aligned (spec_frame (specs ! i))"
    using initial_frame_spec [OF b] by (simp add: spec_frame_def q) metis
  show "in_stack (snd (snd (specs ! i))) a" if "a \<in> frame_cells (spec_frame (specs ! i))"
    using spec_frame_cells [OF b] that by (simp add: q)
qed

lemma stacks_apart:
  assumes "stacks_ok specs" and "i < length specs" and "j < length specs" and "i \<noteq> j" and "in_stack (snd (snd (specs ! i))) a"
  shows "\<not> in_stack (snd (snd (specs ! j))) a"
proof -
  let ?P = "\<lambda>(e, w, a) (e', w', b). unat a + 65536 \<le> unat b \<or> unat b + 65536 \<le> (unat (a :: u64) :: nat)"
  have "sorted_wrt ?P specs" using assms(1) by (simp add: stacks_ok_def)
  then have "?P (specs ! i) (specs ! j) \<or> ?P (specs ! j) (specs ! i)"
    using assms(2-4) sorted_wrt_nth_less [of ?P specs i j] sorted_wrt_nth_less [of ?P specs j i]
    by (cases i j rule: linorder_cases) simp_all
  then show ?thesis using assms(5) by (cases "specs ! i"; cases "specs ! j") (auto simp: in_stack_def)
qed

lemma boot_ok:
  assumes "stacks_ok specs" and "aligned (rsp (cpu_state s0))" and "iflag s0"
    and "\<forall>(e, w, base) \<in> set specs. \<forall>a \<in> frame_cells (rsp (cpu_state s0) - 56). \<not> in_stack base a"
  shows "\<exists>s sc. boot specs s0 = Some s \<and> sys_ok s sc (first_resume specs) \<and> length (tasks sc) = Suc (length specs) \<and>
    current sc = 0"
proof -
  from spawn_all [OF assms(1)] obtain s where s: "foldM spawn_one specs (task_init s0) = Some s" "spawned s0 specs s" by blast
  from s(2) obtain sc where sc: "sched s = Some sc" "current sc = 0" "next_task_id sc = length specs"
    "list_all2 spec_task specs (tasks sc)" "saved_if s = replicate (length specs) None" "iflag s = iflag s0"
    "rsp (cpu_state s) = rsp (cpu_state s0)"
    "\<And>q. q \<in> set specs \<Longrightarrow> frame_words (spec_frame q) (mem (cpu_state s)) = first_words q"
    unfolding spawned_def by blast
  define idle where "idle = \<lparr>task_id = length specs, context_rsp = 0, stack_base = 0, tstate = Running, window_id = None\<rparr>"
  define sc' where "sc' = sc\<lparr>tasks := idle # tasks sc, current := 0, next_task_id := length specs + 1\<rparr>"
  define s' where "s' = s\<lparr>sched := Some sc', saved_if := None # saved_if s, sched_running := True\<rparr>"
  have small: "length specs + 1 < 2 ^ 64" using assms(1) by (simp add: stacks_ok_def)
  then have boot: "boot specs s0 = Some s'"
    using s(1) sc(1,3) by (simp add: boot_def run_start_def in_range Let_def s'_def sc'_def idle_def)
  have len: "length (tasks sc) = length specs" using sc(4) by (simp add: list_all2_lengthD)
  have task: "spec_task (specs ! i) (tasks sc ! i)" if "i < length specs" for i
    using sc(4) that by (simp add: list_all2_nthD)
  have frame: "frame_at s' sc' k = (if k = 0 then rsp (cpu_state s0) - 56 else spec_frame (specs ! (k - 1)))"
    if "k < Suc (length specs)" for k
    using that sc(7) task [of "k - 1"] by (cases k) (auto simp: frame_at_def s'_def sc'_def spec_task_def)
  note spec = spec_frame_at [OF assms(1)] and apart = stacks_apart [OF assms(1)]
  have disj0: "frame_cells (rsp (cpu_state s0) - 56) \<inter> frame_cells (spec_frame (specs ! i)) = {}" if "i < length specs" for i
    using spec(2) [OF that] assms(4) nth_mem [OF that] by (cases "specs ! i") fastforce
  have disj: "frame_cells (spec_frame (specs ! i)) \<inter> frame_cells (spec_frame (specs ! j)) = {}"
    if "i < length specs" "j < length specs" "i \<noteq> j" for i j
    using spec(2) [OF that(1)] spec(2) [OF that(2)] apart [OF that] by blast
  have len': "length (tasks sc') = Suc (length specs)" "current sc' = 0" by (simp_all add: sc'_def len)
  have "frames_ok s' sc'"
    unfolding frames_ok_def len'
  proof (intro conjI allI impI)
    show "aligned (frame_at s' sc' k)" if "k < Suc (length specs)" for k
      using that frame [OF that] assms(2) spec(1) [of "k - 1"] by auto
    show "frame_cells (frame_at s' sc' k) \<inter> frame_cells (frame_at s' sc' l) = {}"
      if "k < Suc (length specs)" "l < Suc (length specs)" "k \<noteq> l" for k l
      using that frame disj0 [of "k - 1"] disj0 [of "l - 1"] disj [of "k - 1" "l - 1"]
      by (cases k; cases l) (auto simp: Int_commute)
  qed
  moreover have "resumes s' sc' (first_resume specs)"
    unfolding resumes_def len'
  proof (intro allI impI)
    fix k assume k: "k < Suc (length specs)" "k \<noteq> 0"
    then obtain i where i: "k = Suc i" "i < length specs" by (cases k) auto
    then show "frame_words (context_rsp (tasks sc' ! k)) (mem (cpu_state s')) = first_resume specs k"
      using task [OF i(2)] sc(8) [OF nth_mem [OF i(2)]] by (simp add: s'_def sc'_def spec_task_def first_resume_def)
  qed
  moreover have "sched_ok sc'"
    unfolding sched_ok_def len'
  proof (intro conjI allI impI)
    show "tstate (tasks sc' ! k) = (if k = 0 then Running else Ready)" if "k < Suc (length specs)" for k
      using that task [of "k - 1"] by (cases k) (auto simp: sc'_def idle_def spec_task_def)
  qed (use small in auto)
  moreover have "flags_ok s' sc'"
    using assms(3) sc(5,6) by (auto simp: flags_ok_def len' s'_def nth_Cons split: nat.split)
  ultimately have "sys_ok s' sc' (first_resume specs)" by (simp add: sys_ok_def s'_def)
  then show ?thesis using boot len' by blast
qed

lemma steps_ok:
  assumes "sys_step\<^sup>*\<^sup>* (0, expect0, s0) c" and "sys_ok s0 sc0 expect0" and "1 < length (tasks sc0)" and "current sc0 = 0"
  shows "\<exists>sc. sys_ok (snd (snd c)) sc (fst (snd c)) \<and> length (tasks sc) = length (tasks sc0) \<and>
    current sc = fst c mod length (tasks sc0)"
  using assms(1)
proof (induction rule: rtranclp_induct)
  case base
  then show ?case using assms(2-4) by auto
next
  case (step c d)
  then obtain sc where "sys_ok (snd (snd c)) sc (fst (snd c))" "length (tasks sc) = length (tasks sc0)"
    "current sc = fst c mod length (tasks sc0)" by blast
  then show ?case
    using sys_step_ok [of "fst c" "fst (snd c)" "snd (snd c)" "fst d" "fst (snd d)" "snd (snd d)" sc] step.hyps(2) assms(3) by auto
qed

section \<open>Properties\<close>

text \<open>C10: the tasks of the kernel run in turn and do not disturb each other. From a boot that spawns
  tasks on disjoint stacks, and whatever the tasks compute on their own stacks between their
  yields, in every reachable state: the running task is the one round robin gives, after \<open>n\<close> switches
  number \<open>n mod (tasks + 1)\<close>; a yield never panics or faults; it passes control to the next task, which
  continues with the registers, return address and stack pointer of its own last yield (at its entry
  point, the first time).\<close>

theorem tasks_round_robin:
  assumes "stacks_ok specs" and "specs \<noteq> []" and "aligned (rsp (cpu_state s0))" and "iflag s0"
    and "\<forall>(e, w, base) \<in> set specs. \<forall>a \<in> frame_cells (rsp (cpu_state s0) - 56). \<not> in_stack base a"
    and "boot specs s0 = Some s1" and "sys_step\<^sup>*\<^sup>* (0, first_resume specs, s1) (n, expect, s)"
  shows "\<exists>sc s' sc'. sched s = Some sc \<and> length (tasks sc) = length specs + 1 \<and> current sc = n mod (length specs + 1) \<and>
    yield_now ret s = Some s' \<and> sched s' = Some sc' \<and> current sc' = Suc n mod (length specs + 1) \<and>
    saved_words (cpu_state s') (rip (cpu_state s')) = expect (current sc') \<and>
    rsp (cpu_state s') = context_rsp (tasks sc ! current sc') + 56"
proof -
  obtain sc0 where sc0: "sys_ok s1 sc0 (first_resume specs)" "length (tasks sc0) = Suc (length specs)" "current sc0 = 0"
    using boot_ok [OF assms(1,3,4,5)] assms(6) by auto
  have many: "1 < length (tasks sc0)" using sc0(2) assms(2) by (cases specs) auto
  from steps_ok [OF assms(7) sc0(1) many sc0(3)] obtain sc where
    sc: "sys_ok s sc expect" "length (tasks sc) = length specs + 1" "current sc = n mod (length specs + 1)"
    using sc0(2) by auto
  have "1 < length (tasks sc)" using sc(2) assms(2) by (cases specs) auto
  from yield_now_switches [OF sc(1) this, of ret] obtain s' sc' where
    "yield_now ret s = Some s'" "sys_ok s' sc' (expect(current sc := saved_words (cpu_state s) ret))"
    "current sc' = (current sc + 1) mod (length specs + 1)"
    "saved_words (cpu_state s') (rip (cpu_state s')) = expect ((current sc + 1) mod (length specs + 1))"
    "rsp (cpu_state s') = context_rsp (tasks sc ! ((current sc + 1) mod (length specs + 1))) + 56"
    unfolding sc(2) by blast
  then show ?thesis
    using sc by (intro exI [of _ sc] exI [of _ s'] exI [of _ sc']) (auto simp: sys_ok_def mod_Suc_eq)
qed

definition sample_system :: system where
  "sample_system = \<lparr>sched = None, sched_running = False, cpu_state = sample_cpu, iflag = True, saved_if = []\<rparr>"

definition sample_specs :: "spec list" where
  "sample_specs = [(1000, Some 0, 65536), (2000, Some 1, 131072)]"

lemma sample_boot:
  "stacks_ok sample_specs" "sample_specs \<noteq> []" "aligned (rsp (cpu_state sample_system))" "iflag sample_system"
  "\<forall>(e, w, base) \<in> set sample_specs. \<forall>a \<in> frame_cells (rsp (cpu_state sample_system) - 56). \<not> in_stack base a"
  by (simp_all add: stacks_ok_def sample_specs_def sample_system_def sample_cpu_def aligned_def frame_cells_def in_stack_def)

theorem tasks_round_robin_witness:
  "\<exists>s1 s' sc'. boot sample_specs sample_system = Some s1 \<and> yield_now 42 s1 = Some s' \<and> sched s' = Some sc' \<and>
    current sc' = 1 \<and> rip (cpu_state s') = 1000"
proof -
  obtain s1 sc1 where s1: "boot sample_specs sample_system = Some s1" using boot_ok [OF sample_boot(1,3,4,5)] by blast
  from tasks_round_robin [OF sample_boot s1 rtranclp.rtrancl_refl, of 42] obtain s' sc' where
    "yield_now 42 s1 = Some s'" "sched s' = Some sc'" "current sc' = Suc 0 mod (length sample_specs + 1)"
    "saved_words (cpu_state s') (rip (cpu_state s')) = first_resume sample_specs (current sc')" by blast
  then show ?thesis using s1
    by (intro exI [of _ s1] exI [of _ s'] exI [of _ sc'])
      (simp add: sample_specs_def first_resume_def first_words_def saved_words_def)
qed

text \<open>C26: interrupts are enabled in the idle task alone: in every state reachable from the boot the
  processor's interrupt flag is set exactly when task 0, the loop of \<open>run\<close>, is the current one. So
  its \<^verbatim>\<open>hlt\<close> is always woken by the next interrupt, and no other task is ever interrupted.\<close>

theorem interrupts_only_in_idle:
  assumes "stacks_ok specs" and "specs \<noteq> []" and "aligned (rsp (cpu_state s0))" and "iflag s0"
    and "\<forall>(e, w, base) \<in> set specs. \<forall>a \<in> frame_cells (rsp (cpu_state s0) - 56). \<not> in_stack base a"
    and "boot specs s0 = Some s1" and "sys_step\<^sup>*\<^sup>* (0, first_resume specs, s1) (n, expect, s)"
  shows "iflag s \<longleftrightarrow> n mod (length specs + 1) = 0"
proof -
  obtain sc0 where sc0: "sys_ok s1 sc0 (first_resume specs)" "length (tasks sc0) = Suc (length specs)" "current sc0 = 0"
    using boot_ok [OF assms(1,3,4,5)] assms(6) by auto
  have many: "1 < length (tasks sc0)" using sc0(2) assms(2) by (cases specs) auto
  from steps_ok [OF assms(7) sc0(1) many sc0(3)] show ?thesis
    using sc0(2) by (auto simp: sys_ok_def flags_ok_def)
qed

theorem interrupts_only_in_idle_witness:
  "\<exists>s1 s2 expect. boot sample_specs sample_system = Some s1 \<and>
    sys_step\<^sup>*\<^sup>* (0, first_resume sample_specs, s1) (1, expect, s2) \<and> \<not> iflag s2"
proof -
  obtain s1 sc1 where s1: "boot sample_specs sample_system = Some s1" "sys_ok s1 sc1 (first_resume sample_specs)"
    "length (tasks sc1) = Suc (length sample_specs)" using boot_ok [OF sample_boot(1,3,4,5)] by blast
  have "1 < length (tasks sc1)" using s1(3) by (simp add: sample_specs_def)
  from yield_now_switches [OF s1(2) this, of 42] obtain s2 where y: "yield_now 42 s1 = Some s2" by blast
  have "sched s1 = Some sc1" using s1(2) by (simp add: sys_ok_def)
  from sys_step.yield [OF this y, of 0 "first_resume sample_specs"]
  have step: "sys_step\<^sup>*\<^sup>* (0, first_resume sample_specs, s1)
    (1, (first_resume sample_specs)(current sc1 := saved_words (cpu_state s1) 42), s2)" by auto
  from interrupts_only_in_idle [OF sample_boot s1(1) step] have "\<not> iflag s2" by (simp add: sample_specs_def)
  with s1(1) step show ?thesis by blast
qed

end
