(* ===== verification/BootHeap.thy ===== *)
theory BootHeap
  imports Heap Memmap Scheduler
begin

text \<open>
  What \<^verbatim>\<open>kernel_main\<close> takes from the heap: the two screen buffers of the window manager, the buffer of each window, the
  stack of each task, and the storage of the two growing lists, \<^verbatim>\<open>WindowManager::windows\<close> and
  \<^verbatim>\<open>Scheduler::tasks\<close>. The contents of these are in the other theories as lists; here each function has the allocations
  it makes. Nothing is freed at the boot, and nothing is allocated after it: raising a window removes it from the list and
  pushes it back.
\<close>

section \<open>The allocations of each function\<close>

text \<open>The heap with the storage of the two lists. The sizes of \<^verbatim>\<open>WmWindow\<close> and \<^verbatim>\<open>Task\<close>, which the compiler
  chooses, are the arguments \<open>sz\<close>.\<close>

record 'h heap =
  allocator :: 'h
  windows_vec :: raw_vec
  tasks_vec :: raw_vec

definition alloc_bytes :: "'h heap_crate \<Rightarrow> usize \<Rightarrow> 'h heap \<Rightarrow> (u64 \<times> 'h heap) option" where
  "alloc_bytes hc n hp = do { (p, h) \<leftarrow> zeroed_vec hc n (allocator hp); Some (p, hp\<lparr>allocator := h\<rparr>) }"

definition push_window :: "'h heap_crate \<Rightarrow> usize \<Rightarrow> usize \<Rightarrow> 'h heap \<Rightarrow> 'h heap option" where
  "push_window hc sz len hp = do {
     (v, h) \<leftarrow> reserve_one hc sz len (windows_vec hp, allocator hp);
     Some (hp\<lparr>allocator := h, windows_vec := v\<rparr>)
   }"

definition push_task :: "'h heap_crate \<Rightarrow> usize \<Rightarrow> usize \<Rightarrow> 'h heap \<Rightarrow> 'h heap option" where
  "push_task hc sz len hp = do {
     (v, h) \<leftarrow> reserve_one hc sz len (tasks_vec hp, allocator hp);
     Some (hp\<lparr>allocator := h, tasks_vec := v\<rparr>)
   }"

definition wm_new_heap :: "'h heap_crate \<Rightarrow> fb_info \<Rightarrow> 'h heap \<Rightarrow> 'h heap option" where
  "wm_new_heap hc info hp = do {
     area \<leftarrow> umul (width info) (height info);
     buf_size \<leftarrow> umul area (bytes_per_pixel info);
     (bg_cache, hp) \<leftarrow> alloc_bytes hc buf_size hp;
     (back_buf, hp) \<leftarrow> alloc_bytes hc buf_size hp;
     Some (hp\<lparr>windows_vec := vec_new\<rparr>)
   }"

definition wm_init_heap :: "'h heap_crate \<Rightarrow> desktop \<Rightarrow> 'h heap \<Rightarrow> 'h heap option" where
  "wm_init_heap hc d hp = (case framebuffer_info d of Some info \<Rightarrow> wm_new_heap hc info hp | None \<Rightarrow> Some hp)"

definition create_window_heap :: "'h heap_crate \<Rightarrow> usize \<Rightarrow> usize \<Rightarrow> usize \<Rightarrow> desktop \<Rightarrow> 'h heap \<Rightarrow> 'h heap option" where
  "create_window_heap hc sz w h d hp = (case WM d of
      None \<Rightarrow> Some hp
    | Some wm \<Rightarrow> do {
        area \<leftarrow> umul w h;
        buf_size \<leftarrow> umul area (bytes_per_pixel (screen_info wm));
        (buf, hp) \<leftarrow> alloc_bytes hc buf_size hp;
        push_window hc sz (length (windows wm)) hp
      })"

definition spawn_heap :: "'h heap_crate \<Rightarrow> usize \<Rightarrow> system \<Rightarrow> 'h heap \<Rightarrow> (u64 \<times> 'h heap) option" where
  "spawn_heap hc sz s hp = do {
     sc \<leftarrow> sched s;
     (base, hp) \<leftarrow> alloc_bytes hc (unat TASK_STACK_SIZE) hp;
     hp \<leftarrow> push_task hc sz (length (tasks sc)) hp;
     Some (base, hp)
   }"

definition run_heap :: "'h heap_crate \<Rightarrow> usize \<Rightarrow> system \<Rightarrow> 'h heap \<Rightarrow> 'h heap option" where
  "run_heap hc sz s hp = do { sc \<leftarrow> sched s; push_task hc sz (length (tasks sc)) hp }"

section \<open>How the heap grows\<close>

definition grown :: "('h \<Rightarrow> nat \<times> nat) \<Rightarrow> ('h \<Rightarrow> block list) \<Rightarrow> nat \<Rightarrow> 'h \<Rightarrow> 'h \<Rightarrow> bool" where
  "grown arena live k h h' \<longleftrightarrow> heap_inv arena live h' \<and> (\<exists>bs. live h' = bs @ live h \<and> sum_list (map snd bs) = k)"

lemma grown_refl: "heap_inv arena live h \<Longrightarrow> grown arena live 0 h h"
  by (simp add: grown_def)

lemma grown_trans: "grown arena live k h h1 \<Longrightarrow> grown arena live l h1 h2 \<Longrightarrow> grown arena live (k + l) h h2"
  by (fastforce simp: grown_def)

lemma grown_inv: "grown arena live k h h' \<Longrightarrow> heap_inv arena live h'"
  by (simp add: grown_def)

text \<open>The storage of a list of at most four elements.\<close>

definition vec_for :: "raw_vec \<Rightarrow> nat \<Rightarrow> bool" where
  "vec_for v len \<longleftrightarrow> (if len = 0 then v = vec_new else vec_cap v = 4)"

definition push_bytes :: "usize \<Rightarrow> usize \<Rightarrow> usize" where
  "push_bytes sz len = (if len = 0 then 4 * sz else 0)"

definition element_ok :: "usize \<Rightarrow> bool" where
  "element_ok sz \<longleftrightarrow> 1 < sz \<and> sz \<le> 1024"

lemma alloc_bytes_grows:
  assumes "heap_contract hc arena live hole" and "heap_inv arena live (allocator hp)" and "alloc_bytes hc n hp = Some (p, hp')"
  shows "grown arena live n (allocator hp) (allocator hp')" and "windows_vec hp' = windows_vec hp" and "tasks_vec hp' = tasks_vec hp"
    and "0 < n \<Longrightarrow> live (allocator hp') = (unat p, n) # live (allocator hp)"
proof -
  obtain h where h: "zeroed_vec hc n (allocator hp) = Some (p, h)" "hp' = hp\<lparr>allocator := h\<rparr>"
    using assms(3) by (auto simp: alloc_bytes_def bind_eq_Some_conv)
  note z = zeroed_vec_adds [OF assms(1,2) h(1)]
  show "windows_vec hp' = windows_vec hp" "tasks_vec hp' = tasks_vec hp" by (simp_all add: h(2))
  show "0 < n \<Longrightarrow> live (allocator hp') = (unat p, n) # live (allocator hp)" using z(3) h(2) by simp
  show "grown arena live n (allocator hp) (allocator hp')"
  proof (cases "n = 0")
    case True
    then show ?thesis using h z(1) by (simp add: zeroed_vec_def grown_def)
  next
    case False
    then show ?thesis using z(1,3) h(2) by (simp add: grown_def)
  qed
qed

lemma reserve_grows:
  assumes "heap_contract hc arena live hole" and "heap_inv arena live h" and "vec_for v len" and "len < 4" and "element_ok sz"
    and "reserve_one hc sz len (v, h) = Some (v', h')"
  shows "grown arena live (push_bytes sz len) h h'" and "vec_for v' (Suc len)"
proof -
  have "grown arena live (push_bytes sz len) h h' \<and> vec_for v' (Suc len)"
  proof (cases "len = 0")
    case True
    then have v: "v = vec_new" using assms(3) by (simp add: vec_for_def)
    have sz: "1 < sz" "sz \<le> 1024" using assms(5) by (auto simp: element_ok_def)
    obtain p where p: "heap_alloc hc (4 * sz) 8 h = Some (p, h')" "v' = \<lparr>vec_ptr = p, vec_cap = 4\<rparr>"
      using assms(6) unfolding True v reserve_first [OF sz] by auto
    have "0 < 4 * sz" using sz by simp
    note a = heap_alloc_inv [OF assms(1,2) this p(1)]
    show ?thesis using a p(2) True by (simp add: grown_def push_bytes_def vec_for_def)
  next
    case False
    then have "vec_cap v = 4" using assms(3) by (simp add: vec_for_def)
    then have "reserve_one hc sz len (v, h) = Some (v, h)" using assms(4) by (intro reserve_within) simp
    then show ?thesis using assms(2,6) False \<open>vec_cap v = 4\<close> by (simp add: grown_def push_bytes_def vec_for_def)
  qed
  then show "grown arena live (push_bytes sz len) h h'" and "vec_for v' (Suc len)" by simp_all
qed

lemma push_window_grows:
  assumes "heap_contract hc arena live hole" and "heap_inv arena live (allocator hp)" and "vec_for (windows_vec hp) len" and "len < 4"
    and "element_ok sz" and "push_window hc sz len hp = Some hp'"
  shows "grown arena live (push_bytes sz len) (allocator hp) (allocator hp')" and "vec_for (windows_vec hp') (Suc len)"
    and "tasks_vec hp' = tasks_vec hp"
  using assms(6) reserve_grows [OF assms(1-5)] by (auto simp: push_window_def bind_eq_Some_conv)

lemma push_task_grows:
  assumes "heap_contract hc arena live hole" and "heap_inv arena live (allocator hp)" and "vec_for (tasks_vec hp) len" and "len < 4"
    and "element_ok sz" and "push_task hc sz len hp = Some hp'"
  shows "grown arena live (push_bytes sz len) (allocator hp) (allocator hp')" and "vec_for (tasks_vec hp') (Suc len)"
  using assms(6) reserve_grows [OF assms(1-5)] by (auto simp: push_task_def bind_eq_Some_conv)

lemma wm_new_grows:
  assumes "heap_contract hc arena live hole" and "heap_inv arena live (allocator hp)" and "wm_new_heap hc info hp = Some hp'"
  shows "grown arena live (2 * (width info * height info * bytes_per_pixel info)) (allocator hp) (allocator hp')"
    and "vec_for (windows_vec hp') 0"
proof -
  obtain p q hp1 hp2 where a: "alloc_bytes hc (width info * height info * bytes_per_pixel info) hp = Some (p, hp1)"
    "alloc_bytes hc (width info * height info * bytes_per_pixel info) hp1 = Some (q, hp2)" "hp' = hp2\<lparr>windows_vec := vec_new\<rparr>"
    using assms(3) by (auto simp: wm_new_heap_def bind_eq_Some_conv umul_Some_iff)
  note g1 = alloc_bytes_grows(1) [OF assms(1,2) a(1)]
  note g2 = alloc_bytes_grows(1) [OF assms(1) grown_inv [OF g1] a(2)]
  show "grown arena live (2 * (width info * height info * bytes_per_pixel info)) (allocator hp) (allocator hp')"
    using grown_trans [OF g1 g2] a(3) by (simp add: mult_2)
  show "vec_for (windows_vec hp') 0" by (simp add: a(3) vec_for_def)
qed

lemma create_window_grows:
  assumes "heap_contract hc arena live hole" and "heap_inv arena live (allocator hp)" and "vec_for (windows_vec hp) (length (windows wm))"
    and "length (windows wm) < 4" and "element_ok sz" and "WM d = Some wm" and "create_window_heap hc sz w h d hp = Some hp'"
  shows "grown arena live (w * h * bytes_per_pixel (screen_info wm) + push_bytes sz (length (windows wm))) (allocator hp) (allocator hp')"
    and "vec_for (windows_vec hp') (Suc (length (windows wm)))"
proof -
  obtain p hp1 where a: "alloc_bytes hc (w * h * bytes_per_pixel (screen_info wm)) hp = Some (p, hp1)"
    "push_window hc sz (length (windows wm)) hp1 = Some hp'"
    using assms(6,7) by (auto simp: create_window_heap_def bind_eq_Some_conv umul_Some_iff)
  note g1 = alloc_bytes_grows(1,2) [OF assms(1,2) a(1)]
  note g2 = push_window_grows [OF assms(1) grown_inv [OF g1(1)] assms(3) [folded g1(2)] assms(4,5) a(2)]
  show "grown arena live (w * h * bytes_per_pixel (screen_info wm) + push_bytes sz (length (windows wm))) (allocator hp) (allocator hp')"
    by (rule grown_trans [OF g1(1) g2(1)])
  show "vec_for (windows_vec hp') (Suc (length (windows wm)))" by (rule g2(2))
qed

lemma spawn_grows:
  assumes "heap_contract hc arena live hole" and "heap_inv arena live (allocator hp)" and "vec_for (tasks_vec hp) (length (tasks sc))"
    and "length (tasks sc) < 4" and "element_ok sz" and "sched s = Some sc" and "spawn_heap hc sz s hp = Some (base, hp')"
  shows "grown arena live (65536 + push_bytes sz (length (tasks sc))) (allocator hp) (allocator hp')"
    and "vec_for (tasks_vec hp') (Suc (length (tasks sc)))"
    and "\<exists>bs. live (allocator hp') = bs @ (unat base, 65536) # live (allocator hp)"
proof -
  have size: "unat TASK_STACK_SIZE = 65536" by (simp add: TASK_STACK_SIZE_def)
  obtain hp1 where a: "alloc_bytes hc 65536 hp = Some (base, hp1)" "push_task hc sz (length (tasks sc)) hp1 = Some hp'"
    using assms(6,7) by (auto simp: spawn_heap_def size bind_eq_Some_conv)
  note g1 = alloc_bytes_grows [OF assms(1,2) a(1)]
  note g2 = push_task_grows [OF assms(1) grown_inv [OF g1(1)] assms(3) [folded g1(3)] assms(4,5) a(2)]
  show "grown arena live (65536 + push_bytes sz (length (tasks sc))) (allocator hp) (allocator hp')"
    by (rule grown_trans [OF g1(1) g2(1)])
  show "vec_for (tasks_vec hp') (Suc (length (tasks sc)))" by (rule g2(2))
  show "\<exists>bs. live (allocator hp') = bs @ (unat base, 65536) # live (allocator hp)" using g1(4) g2(1) by (auto simp: grown_def)
qed

section \<open>Where the allocations succeed\<close>

definition push_space :: "usize \<Rightarrow> usize \<Rightarrow> usize" where
  "push_space sz len = (if len = 0 then padded (4 * sz) else 0)"

lemma alloc_bytes_hole:
  assumes "heap_contract hc arena live hole" and "hole (allocator hp) r" and "0 < n" and "padded n + 16 \<le> r" and "r < 2 ^ 63"
  obtains p hp' where "alloc_bytes hc n hp = Some (p, hp')" and "hole (allocator hp') (r - padded n)"
    and "windows_vec hp' = windows_vec hp" and "tasks_vec hp' = tasks_vec hp"
proof -
  obtain p h where "zeroed_vec hc n (allocator hp) = Some (p, h)" "hole h (r - padded n)"
    by (rule zeroed_vec_hole [OF assms(1,2,4,3,5)])
  then show ?thesis using that [of p "hp\<lparr>allocator := h\<rparr>"] by (simp add: alloc_bytes_def)
qed

lemma reserve_hole:
  assumes "heap_contract hc arena live hole" and "hole h r" and "vec_for v len" and "len < 4" and "element_ok sz"
    and "push_space sz len + 16 \<le> r"
  obtains v' h' where "reserve_one hc sz len (v, h) = Some (v', h')" and "hole h' (r - push_space sz len)"
proof (cases "len = 0")
  case True
  then have v: "v = vec_new" using assms(3) by (simp add: vec_for_def)
  have sz: "1 < sz" "sz \<le> 1024" using assms(5) by (auto simp: element_ok_def)
  have "0 < 4 * sz" "padded (4 * sz) + 16 \<le> r" using sz assms(6) True by (simp_all add: push_space_def)
  then obtain p h' where "heap_alloc hc (4 * sz) 8 h = Some (p, h')" "hole h' (r - padded (4 * sz))"
    using heap_alloc_hole [OF assms(1) _ _ assms(2), of "4 * sz" 8] by blast
  then show ?thesis using that [of "\<lparr>vec_ptr = p, vec_cap = 4\<rparr>" h'] True v by (simp add: reserve_first [OF sz] push_space_def)
next
  case False
  then have "reserve_one hc sz len (v, h) = Some (v, h)" using assms(3,4) by (intro reserve_within) (simp add: vec_for_def)
  then show ?thesis using that [of v h] False assms(2) by (simp add: push_space_def)
qed

text \<open>The size of a buffer that fits is computed without overflow.\<close>

lemma buffer_size_fits:
  assumes "n = w * h * c" and "0 < n" and "padded n \<le> r" and "r < 2 ^ 63"
  shows "w * h < 2 ^ 64" and "w * h * c < 2 ^ 64"
proof -
  have "n \<le> padded n" by (rule le_padded)
  then have n: "n < 2 ^ 64" using assms(3,4) by simp
  have "w * h \<le> n" using assms(1,2) by (cases c) simp_all
  then show "w * h < 2 ^ 64" using n by (rule le_less_trans)
  show "w * h * c < 2 ^ 64" using n unfolding assms(1) .
qed

lemma wm_new_hole:
  assumes "heap_contract hc arena live hole" and "hole (allocator hp) r" and "n = width info * height info * bytes_per_pixel info"
    and "0 < n" and "2 * padded n + 16 \<le> r" and "r < 2 ^ 63"
  obtains hp' where "wm_new_heap hc info hp = Some hp'" and "hole (allocator hp') (r - 2 * padded n)" and "vec_for (windows_vec hp') 0"
proof -
  obtain p hp1 where a1: "alloc_bytes hc n hp = Some (p, hp1)" "hole (allocator hp1) (r - padded n)"
    by (rule alloc_bytes_hole [OF assms(1,2,4)]) (use assms(5,6) in auto)
  obtain q hp2 where a2: "alloc_bytes hc n hp1 = Some (q, hp2)" "hole (allocator hp2) (r - padded n - padded n)"
    by (rule alloc_bytes_hole [OF assms(1) a1(2) assms(4)]) (use assms(5,6) in auto)
  have fits: "width info * height info < 2 ^ 64" "width info * height info * bytes_per_pixel info < 2 ^ 64"
    by (rule buffer_size_fits [OF assms(3,4) _ assms(6)]; use assms(5) in simp)+
  have "wm_new_heap hc info hp = Some (hp2\<lparr>windows_vec := vec_new\<rparr>)"
    using a1(1) a2(1) unfolding wm_new_heap_def umul_in_range [OF fits(1)] bind.bind_lunit umul_in_range [OF fits(2)] assms(3) by simp
  then show ?thesis using that [of "hp2\<lparr>windows_vec := vec_new\<rparr>"] a2(2) by (simp add: vec_for_def mult_2)
qed

lemma create_window_hole:
  assumes "heap_contract hc arena live hole" and "hole (allocator hp) r" and "vec_for (windows_vec hp) (length (windows wm))"
    and "length (windows wm) < 4" and "element_ok sz" and "WM d = Some wm" and "n = w * h * bytes_per_pixel (screen_info wm)"
    and "0 < n" and "padded n + push_space sz (length (windows wm)) + 16 \<le> r" and "r < 2 ^ 63"
  obtains hp' where "create_window_heap hc sz w h d hp = Some hp'"
    and "hole (allocator hp') (r - (padded n + push_space sz (length (windows wm))))"
proof -
  let ?len = "length (windows wm)"
  obtain p hp1 where a: "alloc_bytes hc n hp = Some (p, hp1)" "hole (allocator hp1) (r - padded n)" "windows_vec hp1 = windows_vec hp"
    by (rule alloc_bytes_hole [OF assms(1,2,8)]) (use assms(9,10) in auto)
  obtain v h1 where v: "reserve_one hc sz ?len (windows_vec hp1, allocator hp1) = Some (v, h1)" "hole h1 (r - padded n - push_space sz ?len)"
    by (rule reserve_hole [OF assms(1) a(2) assms(3) [folded a(3)] assms(4,5)]) (use assms(9) in auto)
  have fits: "w * h < 2 ^ 64" "w * h * bytes_per_pixel (screen_info wm) < 2 ^ 64"
    by (rule buffer_size_fits [OF assms(7,8) _ assms(10)]; use assms(9) in simp)+
  have "create_window_heap hc sz w h d hp = Some (hp1\<lparr>allocator := h1, windows_vec := v\<rparr>)"
    using a(1) v(1) unfolding create_window_heap_def assms(6) option.case umul_in_range [OF fits(1)] bind.bind_lunit
      umul_in_range [OF fits(2)] assms(7) by (simp add: push_window_def)
  then show ?thesis using that [of "hp1\<lparr>allocator := h1, windows_vec := v\<rparr>"] v(2) by (simp add: diff_diff_left)
qed

lemma push_task_hole:
  assumes "heap_contract hc arena live hole" and "hole (allocator hp) r" and "vec_for (tasks_vec hp) len" and "len < 4" and "element_ok sz"
    and "push_space sz len + 16 \<le> r"
  obtains hp' where "push_task hc sz len hp = Some hp'" and "hole (allocator hp') (r - push_space sz len)"
proof -
  obtain v h where "reserve_one hc sz len (tasks_vec hp, allocator hp) = Some (v, h)" "hole h (r - push_space sz len)"
    by (rule reserve_hole [OF assms])
  then show ?thesis using that [of "hp\<lparr>allocator := h, tasks_vec := v\<rparr>"] by (simp add: push_task_def)
qed

lemma spawn_hole:
  assumes "heap_contract hc arena live hole" and "hole (allocator hp) r" and "vec_for (tasks_vec hp) (length (tasks sc))"
    and "length (tasks sc) < 4" and "element_ok sz" and "sched s = Some sc"
    and "65536 + push_space sz (length (tasks sc)) + 16 \<le> r" and "r < 2 ^ 63"
  obtains base hp' where "spawn_heap hc sz s hp = Some (base, hp')"
    and "hole (allocator hp') (r - (65536 + push_space sz (length (tasks sc))))"
proof -
  let ?len = "length (tasks sc)"
  have size: "unat TASK_STACK_SIZE = 65536" by (simp add: TASK_STACK_SIZE_def)
  have pad: "padded 65536 = 65536" by (simp add: padded_def)
  obtain base hp1 where a: "alloc_bytes hc 65536 hp = Some (base, hp1)" "hole (allocator hp1) (r - 65536)" "tasks_vec hp1 = tasks_vec hp"
    by (rule alloc_bytes_hole [OF assms(1,2), of 65536, unfolded pad]) (use assms(7,8) in auto)
  obtain hp' where t: "push_task hc sz ?len hp1 = Some hp'" "hole (allocator hp') (r - 65536 - push_space sz ?len)"
    by (rule push_task_hole [OF assms(1) a(2) assms(3) [folded a(3)] assms(4,5)]) (use assms(7) in auto)
  have "spawn_heap hc sz s hp = Some (base, hp')" using a(1) t(1) assms(6) by (simp add: spawn_heap_def size)
  then show ?thesis using that t(2) by (simp add: diff_diff_left)
qed

section \<open>The stacks of the tasks\<close>

text \<open>\<^verbatim>\<open>spawn\<close> with the stack it takes from the heap. \<open>tasks_ready\<close>: the scheduler has as many tasks as there are stacks;
  the stacks are blocks of the heap, apart from each other, and \<open>r\<close> bytes are free.\<close>

definition spawn_task :: "'h heap_crate \<Rightarrow> usize \<Rightarrow> u64 \<Rightarrow> usize option \<Rightarrow> system \<times> 'h heap \<Rightarrow> (system \<times> 'h heap) option" where
  "spawn_task hc sz entry win = (\<lambda>(s, hp). do {
     (base, hp) \<leftarrow> spawn_heap hc sz s hp;
     (_, s) \<leftarrow> spawn entry win base s;
     Some (s, hp)
   })"

definition stack_block :: "u64 \<Rightarrow> block" where
  "stack_block base = (unat base, 65536)"

definition tasks_ready ::
  "('h \<Rightarrow> nat \<times> nat) \<Rightarrow> ('h \<Rightarrow> block list) \<Rightarrow> ('h \<Rightarrow> nat \<Rightarrow> bool) \<Rightarrow> nat \<Rightarrow> u64 list \<Rightarrow> system \<times> 'h heap \<Rightarrow> bool" where
  "tasks_ready arena live hole r bases = (\<lambda>(s, hp).
     (\<exists>sc. sched s = Some sc \<and> next_task_id sc = length (tasks sc) \<and> length (tasks sc) = length bases) \<and>
     vec_for (tasks_vec hp) (length bases) \<and> heap_inv arena live (allocator hp) \<and> hole (allocator hp) r \<and>
     set (map stack_block bases) \<subseteq> set (live (allocator hp)) \<and> sorted_wrt apart (map stack_block bases))"

lemma apart_sym: "apart b c \<longleftrightarrow> apart c b"
  by (auto simp: apart_def)

lemma heap_block_below:
  assumes "heap_inv arena live h" and "stack_block base \<in> set (live h)"
  shows "unat HEAP_START \<le> unat base" and "unat base + 65536 \<le> unat HEAP_START + unat HEAP_SIZE" and "unat base + 65536 < 2 ^ 64"
proof -
  show b: "unat HEAP_START \<le> unat base" "unat base + 65536 \<le> unat HEAP_START + unat HEAP_SIZE"
    using assms by (auto simp: heap_inv_def stack_block_def)
  have "unat HEAP_START + unat HEAP_SIZE < 2 ^ 64" by (simp add: HEAP_START_def HEAP_SIZE_def)
  then show "unat base + 65536 < 2 ^ 64" using b(2) by (rule le_less_trans [rotated])
qed

lemma spawn_task_ready:
  assumes "heap_contract hc arena live hole" and "tasks_ready arena live hole r bases (s, hp)" and "length bases < 4" and "element_ok sz"
    and "65536 + push_space sz (length bases) + 16 \<le> r" and "r < 2 ^ 63"
  obtains base s' hp' where "spawn_task hc sz entry win (s, hp) = Some (s', hp')" and "spawn_one (entry, win, base) s = Some s'"
    and "tasks_ready arena live hole (r - (65536 + push_space sz (length bases))) (bases @ [base]) (s', hp')"
proof -
  obtain sc where sc: "sched s = Some sc" "next_task_id sc = length (tasks sc)" "length (tasks sc) = length bases"
    and ready: "vec_for (tasks_vec hp) (length bases)" "heap_inv arena live (allocator hp)" "hole (allocator hp) r"
      "set (map stack_block bases) \<subseteq> set (live (allocator hp))" "sorted_wrt apart (map stack_block bases)"
    using assms(2) unfolding tasks_ready_def by auto
  obtain base hp' where h: "spawn_heap hc sz s hp = Some (base, hp')" "hole (allocator hp') (r - (65536 + push_space sz (length bases)))"
    using spawn_hole [OF assms(1) ready(3) ready(1) [folded sc(3)] assms(3) [folded sc(3)] assms(4) sc(1) assms(5) [folded sc(3)] assms(6)]
    unfolding sc(3) by blast
  note g = spawn_grows [OF assms(1) ready(2) ready(1) [folded sc(3)] assms(3) [folded sc(3)] assms(4) sc(1) h(1)]
  obtain bs where bs: "live (allocator hp') = bs @ stack_block base # live (allocator hp)" using g(3) by (auto simp: stack_block_def)
  have inv: "heap_inv arena live (allocator hp')" by (rule grown_inv [OF g(1)])
  have base: "unat base + 65536 < 2 ^ 64" by (rule heap_block_below(3) [OF inv]) (simp add: bs)
  have "length (tasks sc) + 1 < 2 ^ 64" using sc(3) assms(3) by simp
  from spawn_one_succeeds [OF sc(1,2) this base] obtain s' sc' where s': "spawn_one (entry, win, base) s = Some s'" "sched s' = Some sc'"
    "next_task_id sc' = length (tasks sc')" "length (tasks sc') = Suc (length (tasks sc))" .
  have "\<forall>b \<in> set (live (allocator hp)). apart (stack_block base) b"
    using inv unfolding heap_inv_def bs sorted_wrt_append by simp
  then have "sorted_wrt apart (map stack_block (bases @ [base]))"
    using ready(4,5) by (auto simp: sorted_wrt_append apart_sym)
  moreover have "set (map stack_block (bases @ [base])) \<subseteq> set (live (allocator hp'))" using ready(4) bs by auto
  ultimately have "tasks_ready arena live hole (r - (65536 + push_space sz (length bases))) (bases @ [base]) (s', hp')"
    using s'(2-4) sc(3) g(2) inv h(2) by (simp add: tasks_ready_def)
  moreover have "spawn_task hc sz entry win (s, hp) = Some (s', hp')"
    using h(1) s'(1) by (auto simp: spawn_task_def spawn_one_def bind_eq_Some_conv)
  ultimately show ?thesis using that s'(1) by blast
qed

text \<open>Stacks that are blocks of the heap satisfy what the scheduler relies on.\<close>

lemma stacks_from_heap:
  assumes "heap_inv arena live h" and "set (map stack_block bases) \<subseteq> set (live h)" and "sorted_wrt apart (map stack_block bases)"
    and "map (\<lambda>(e, w, b). b) specs = bases" and "length bases < 2 ^ 32"
  shows "stacks_ok specs"
proof -
  have below: "unat b + 65536 < 2 ^ 64" if "(e, w, b) \<in> set specs" for e w b
  proof (rule heap_block_below(3) [OF assms(1)])
    have "b \<in> set bases" using that assms(4) by force
    then show "stack_block b \<in> set (live h)" using assms(2) by auto
  qed
  have "sorted_wrt (\<lambda>(e, w, a) (e', w', b). apart (stack_block a) (stack_block b)) specs"
    using assms(3) unfolding assms(4) [symmetric] sorted_wrt_map by (simp add: case_prod_unfold)
  then have "sorted_wrt (\<lambda>(e, w, a) (e', w', b). unat a + 65536 \<le> unat b \<or> unat b + 65536 \<le> unat a) specs"
    by (simp add: apart_def stack_block_def case_prod_unfold)
  moreover have "length specs + 1 < 2 ^ 64" using arg_cong [OF assms(4), of length] assms(5) by simp
  ultimately show ?thesis using below by (auto simp: stacks_ok_def)
qed

end
