(* ===== verification/MouseInit.thy ===== *)
theory MouseInit
  imports Prelude
begin

text \<open>
  The initialisation of the PS/2 mouse in \<^verbatim>\<open>kernel/src/mouse.rs\<close>: polling the controller's status
  port and sending it commands. The hardware is a parameter \<open>env\<close>: the value the next read of
  a port returns, given everything that was read and written before. The state is that
  history. The polling loops are bounded by \<open>TIMEOUT\<close>, which is their recursion's fuel in
  the source too: running out of it is the source's silent return.
\<close>

section \<open>Port input and output\<close>

datatype io = In u16 u8 | Out u16 u8

type_synonym controller = "io list \<Rightarrow> u16 \<Rightarrow> u8"

definition port_read :: "controller \<Rightarrow> u16 \<Rightarrow> io list \<Rightarrow> u8 \<times> io list" where
  "port_read env port h = (env h port, h @ [In port (env h port)])"

definition port_write :: "u16 \<Rightarrow> u8 \<Rightarrow> io list \<Rightarrow> io list" where
  "port_write port v h = h @ [Out port v]"

definition STATUS_PORT :: u16 where "STATUS_PORT = 0x64"

definition DATA_PORT :: u16 where "DATA_PORT = 0x60"

definition TIMEOUT :: nat where "TIMEOUT = 100000"

fun wait_for_write_loop :: "nat \<Rightarrow> controller \<Rightarrow> io list \<Rightarrow> io list" where
  "wait_for_write_loop 0 env h = h"
| "wait_for_write_loop (Suc n) env h =
     (let (status, h') = port_read env STATUS_PORT h
      in if status AND 0x02 = 0 then h' else wait_for_write_loop n env h')"

fun wait_for_read_loop :: "nat \<Rightarrow> controller \<Rightarrow> io list \<Rightarrow> io list" where
  "wait_for_read_loop 0 env h = h"
| "wait_for_read_loop (Suc n) env h =
     (let (status, h') = port_read env STATUS_PORT h
      in if status AND 0x01 \<noteq> 0 then h' else wait_for_read_loop n env h')"

fun flush_loop :: "nat \<Rightarrow> controller \<Rightarrow> io list \<Rightarrow> io list" where
  "flush_loop 0 env h = h"
| "flush_loop (Suc n) env h =
     (let (status, h') = port_read env STATUS_PORT h
      in if status AND 0x01 = 0 then h' else flush_loop n env (snd (port_read env DATA_PORT h')))"

definition wait_for_write :: "controller \<Rightarrow> io list \<Rightarrow> io list" where
  "wait_for_write env h = wait_for_write_loop TIMEOUT env h"

definition wait_for_read :: "controller \<Rightarrow> io list \<Rightarrow> io list" where
  "wait_for_read env h = wait_for_read_loop TIMEOUT env h"

definition write_command :: "controller \<Rightarrow> u8 \<Rightarrow> io list \<Rightarrow> io list" where
  "write_command env cmd h = port_write STATUS_PORT cmd (wait_for_write env h)"

definition write_data :: "controller \<Rightarrow> u8 \<Rightarrow> io list \<Rightarrow> io list" where
  "write_data env d h = port_write DATA_PORT d (wait_for_write env h)"

definition read_data :: "controller \<Rightarrow> io list \<Rightarrow> u8 \<times> io list" where
  "read_data env h = port_read env DATA_PORT (wait_for_read env h)"

definition flush_output_buffer :: "controller \<Rightarrow> io list \<Rightarrow> io list" where
  "flush_output_buffer env h = flush_loop TIMEOUT env h"

definition write_mouse :: "controller \<Rightarrow> u8 \<Rightarrow> io list \<Rightarrow> io list" where
  "write_mouse env byte h = write_data env byte (write_command env 0xD4 h)"

definition mouse_init :: "controller \<Rightarrow> io list \<Rightarrow> io list" where
  "mouse_init env h =
     (let h = write_command env 0xAD h;
          h = write_command env 0xA7 h;
          h = flush_output_buffer env h;
          h = write_command env 0xA8 h;
          h = write_command env 0x20 h;
          (config, h) = read_data env h;
          new_config = config OR 0x02;
          h = write_command env 0x60 h;
          h = write_data env new_config h;
          h = write_mouse env 0xF6 h;
          (_, h) = read_data env h;
          h = write_mouse env 0xF4 h;
          (_, h) = read_data env h
      in write_command env 0xAE h)"

section \<open>What each routine adds to the history\<close>

text \<open>The writes of a history, in order.\<close>

fun outs :: "io list \<Rightarrow> (u16 \<times> u8) list" where
  "outs [] = []"
| "outs (In p v # h) = outs h"
| "outs (Out p v # h) = (p, v) # outs h"

lemma outs_append [simp]: "outs (xs @ ys) = outs xs @ outs ys"
  by (induction xs rule: outs.induct) auto

text \<open>\<open>extends n ws h h'\<close>: \<open>h'\<close> adds to \<open>h\<close> at most \<open>n\<close> port accesses, whose writes are \<open>ws\<close>.\<close>

definition extends :: "nat \<Rightarrow> (u16 \<times> u8) list \<Rightarrow> io list \<Rightarrow> io list \<Rightarrow> bool" where
  "extends n ws h h' \<longleftrightarrow> (\<exists>d. h' = h @ d \<and> length d \<le> n \<and> outs d = ws)"

lemma extends_refl: "extends n [] h h"
  by (simp add: extends_def)

lemma extends_trans:
  assumes "extends n ws h h'" and "extends k vs h' h''"
  shows "extends (n + k) (ws @ vs) h h''"
  using assms by (fastforce simp: extends_def)

lemma extends_read: "extends 1 [] h (snd (port_read env p h))"
  by (simp add: extends_def port_read_def)

lemma extends_write: "extends 1 [(p, v)] h (port_write p v h)"
  by (simp add: extends_def port_write_def)

lemma extends_wait_for_write_loop: "extends n [] h (wait_for_write_loop n env h)"
proof (induction n arbitrary: h)
  case (Suc n)
  show ?case
    using extends_trans [OF extends_read [of h env STATUS_PORT] Suc]
      extends_trans [OF extends_read [of h env STATUS_PORT] extends_refl]
    by (auto simp: Let_def port_read_def)
qed (simp add: extends_refl)

lemma extends_wait_for_read_loop: "extends n [] h (wait_for_read_loop n env h)"
proof (induction n arbitrary: h)
  case (Suc n)
  show ?case
    using extends_trans [OF extends_read [of h env STATUS_PORT] Suc]
      extends_trans [OF extends_read [of h env STATUS_PORT] extends_refl]
    by (auto simp: Let_def port_read_def)
qed (simp add: extends_refl)

lemma extends_flush_loop: "extends (2 * n) [] h (flush_loop n env h)"
proof (induction n arbitrary: h)
  case (Suc n)
  show ?case
    using extends_trans [OF extends_trans [OF extends_read [of h env STATUS_PORT] extends_read [of _ env DATA_PORT]] Suc]
      extends_trans [OF extends_read [of h env STATUS_PORT] extends_refl]
    by (auto simp: Let_def port_read_def)
qed (simp add: extends_refl)

lemma extends_write_command: "extends (TIMEOUT + 1) [(STATUS_PORT, c)] h (write_command env c h)"
  unfolding write_command_def wait_for_write_def
  using extends_trans [OF extends_wait_for_write_loop extends_write] by simp

lemma extends_write_data: "extends (TIMEOUT + 1) [(DATA_PORT, d)] h (write_data env d h)"
  unfolding write_data_def wait_for_write_def
  using extends_trans [OF extends_wait_for_write_loop extends_write] by simp

lemma extends_read_data: "extends (TIMEOUT + 1) [] h (snd (read_data env h))"
  unfolding read_data_def wait_for_read_def
  using extends_trans [OF extends_wait_for_read_loop extends_read] by simp

lemma extends_flush: "extends (2 * TIMEOUT) [] h (flush_output_buffer env h)"
  unfolding flush_output_buffer_def by (rule extends_flush_loop)

lemma extends_write_mouse:
  "extends (2 * (TIMEOUT + 1)) [(STATUS_PORT, 0xD4), (DATA_PORT, b)] h (write_mouse env b h)"
  unfolding write_mouse_def
  using extends_trans [OF extends_write_command extends_write_data] by (simp add: mult_2)

lemmas extends_steps = extends_write_command extends_write_data extends_read_data extends_flush
  extends_write_mouse

section \<open>Property\<close>

text \<open>C39: initialising the mouse always ends, whatever the controller answers (a missing mouse only
  costs time: at most 1600014 port accesses), and sends exactly the eleven bytes of the
  PS/2 enabling sequence, in order; the configuration byte written back is the one read
  right after the request for it, with the mouse interrupt bit set.\<close>

theorem mouse_init_sequence:
  "\<exists>config d1 d2. mouse_init env h = h @ d1 @ In DATA_PORT config # d2 \<and>
     outs d1 = [(STATUS_PORT, 0xAD), (STATUS_PORT, 0xA7), (STATUS_PORT, 0xA8), (STATUS_PORT, 0x20)] \<and>
     outs d2 = [(STATUS_PORT, 0x60), (DATA_PORT, config OR 0x02), (STATUS_PORT, 0xD4), (DATA_PORT, 0xF6),
       (STATUS_PORT, 0xD4), (DATA_PORT, 0xF4), (STATUS_PORT, 0xAE)] \<and>
     length d1 + length d2 + 1 \<le> 16 * TIMEOUT + 14"
proof -
  define h1 where "h1 = write_command env 0xA7 (write_command env 0xAD h)"
  define h2 where "h2 = write_command env 0x20 (write_command env 0xA8 (flush_output_buffer env h1))"
  define h3 where "h3 = wait_for_read env h2"
  define config where "config = env h3 DATA_PORT"
  define h4 where "h4 = h3 @ [In DATA_PORT config]"
  define h5 where "h5 = write_data env (config OR 0x02) (write_command env 0x60 h4)"
  define h6 where "h6 = snd (read_data env (write_mouse env 0xF6 h5))"
  define h7 where "h7 = snd (read_data env (write_mouse env 0xF4 h6))"
  have e: "mouse_init env h = write_command env 0xAE h7"
    unfolding mouse_init_def h7_def h6_def h5_def h4_def h3_def config_def h2_def h1_def
    by (simp add: Let_def case_prod_beta read_data_def port_read_def)
  have x1: "extends (2 * TIMEOUT + 2) [(STATUS_PORT, 0xAD), (STATUS_PORT, 0xA7)] h h1"
    unfolding h1_def
    using extends_trans [OF extends_write_command [of "0xAD" h env] extends_write_command [of "0xA7" _ env]]
    by (simp add: mult_2)
  have x2: "extends (4 * TIMEOUT + 2) [(STATUS_PORT, 0xA8), (STATUS_PORT, 0x20)] h1 h2"
    unfolding h2_def
    using extends_trans [OF extends_trans [OF extends_flush [of h1 env]
        extends_write_command [of "0xA8" _ env]] extends_write_command [of "0x20" _ env]]
    by simp
  have x3: "extends TIMEOUT [] h2 h3"
    unfolding h3_def wait_for_read_def by (rule extends_wait_for_read_loop)
  have x5: "extends (2 * TIMEOUT + 2) [(STATUS_PORT, 0x60), (DATA_PORT, config OR 0x02)] h4 h5"
    unfolding h5_def
    using extends_trans [OF extends_write_command [of "0x60" h4 env] extends_write_data [of "config OR 0x02" _ env]]
    by (simp add: mult_2)
  have ack: "extends (3 * TIMEOUT + 3) [(STATUS_PORT, 0xD4), (DATA_PORT, b)] g
      (snd (read_data env (write_mouse env b g)))" for b g
    using extends_trans [OF extends_write_mouse [of b g env] extends_read_data [of _ env]]
    by (simp add: numeral_3_eq_3)
  obtain d1 where d1: "h3 = h @ d1" "length d1 \<le> 7 * TIMEOUT + 4"
    "outs d1 = [(STATUS_PORT, 0xAD), (STATUS_PORT, 0xA7), (STATUS_PORT, 0xA8), (STATUS_PORT, 0x20)]"
    using extends_trans [OF extends_trans [OF x1 x2] x3] by (auto simp: extends_def)
  obtain d2 where d2: "mouse_init env h = h4 @ d2" "length d2 \<le> 9 * TIMEOUT + 9"
    "outs d2 = [(STATUS_PORT, 0x60), (DATA_PORT, config OR 0x02), (STATUS_PORT, 0xD4), (DATA_PORT, 0xF6),
       (STATUS_PORT, 0xD4), (DATA_PORT, 0xF4), (STATUS_PORT, 0xAE)]"
    using extends_trans [OF extends_trans [OF extends_trans [OF x5 ack [of "0xF6" h5, folded h6_def]]
          ack [of "0xF4" h6, folded h7_def]] extends_write_command [of "0xAE" h7 env, folded e]]
    by (auto simp: extends_def)
  show ?thesis
    using d1 d2 by (intro exI [of _ config] exI [of _ d1] exI [of _ d2]) (simp add: h4_def)
qed

end
