(* ===== verification/Kernel.thy ===== *)
theory Kernel
  imports BootHeap MouseInit Diagnostics
begin

text \<open>
  The boot of the kernel, \<^verbatim>\<open>kernel_main\<close> in \<^verbatim>\<open>kernel/src/main.rs\<close>, composed of the operations of the
  components: the screen, the mouse controller, the heap, the window manager with its three windows, the
  list of memory regions and the tasks. What the boot loader and the crates give is in two records:
  \<open>boot_info\<close> (the fields of \<^verbatim>\<open>BootInfo\<close> that the kernel reads) and \<open>platform\<close> (the font, the mouse
  controller, \<^verbatim>\<open>PhysFrame::from_start_address\<close>, the active page table at a physical offset and the mapper on
  it, the crates of the heap, the serial port and the segment table, the sizes the compiler gives \<^verbatim>\<open>WmWindow\<close> and \<^verbatim>\<open>Task\<close>,
  and where the linker puts the stack of the double fault handler and the entry points of the tasks).
\<close>

section \<open>The frame buffer\<close>

text \<open>\<^verbatim>\<open>init\<close> and \<^verbatim>\<open>info\<close> of \<^verbatim>\<open>kernel/src/framebuffer.rs\<close>\<close>

definition framebuffer_init :: "fb_buffer \<Rightarrow> fb_info \<Rightarrow> desktop \<Rightarrow> desktop option" where
  "framebuffer_init buf info d = do {
     buf \<leftarrow> draw_background info buf;
     Some (d\<lparr>FB_STATE := Some (info, buf)\<rparr>)
   }"

section \<open>The memory regions\<close>

fun boot_kind :: "region_kind \<Rightarrow> mem_region_kind" where
  "boot_kind region_kind.Usable = mem_region_kind.Usable"
| "boot_kind region_kind.Bootloader = mem_region_kind.Bootloader"
| "boot_kind (UnknownBios tag) = bios_e820_to_kind tag"
| "boot_kind (UnknownUefi _) = Reserved"
| "boot_kind OtherKind = Reserved"

definition boot_region :: "region \<Rightarrow> mem_region_info" where
  "boot_region r = \<lparr>region_start = rstart r, region_end = rend r, region_kind = boot_kind (rkind r)\<rparr>"

fun collect_loop :: "region list \<Rightarrow> mem_region_info list \<times> usize \<Rightarrow> (mem_region_info list \<times> usize) option" where
  "collect_loop [] st = Some st"
| "collect_loop (r # rs) (arr, count) =
     (if 30 \<le> count then Some (arr, count)
      else do {
        arr \<leftarrow> set_at arr count (boot_region r);
        count \<leftarrow> uadd count 1;
        collect_loop rs (arr, count)
      })"

definition collect_regions :: "region list \<Rightarrow> mem_region_info list option" where
  "collect_regions memory_regions = do {
     (arr, count) \<leftarrow> collect_loop memory_regions (replicate 32 no_region, 0);
     (arr, count) \<leftarrow> (if count < 32 then do {
         heap_end \<leftarrow> u64_add HEAP_START HEAP_SIZE;
         arr \<leftarrow> set_at arr count \<lparr>region_start = HEAP_START, region_end = heap_end, region_kind = Heap\<rparr>;
         count \<leftarrow> uadd count 1;
         Some (arr, count)
       } else Some (arr, count));
     if count \<le> length arr then Some (take count arr) else None
   }"

section \<open>The boot\<close>

record ('m, 'p, 'f, 'u, 'g, 'd, 'h) platform =
  glyphs :: font
  uart_crate :: "'u uart"
  seg_crate :: "('g, 'd) gdt_crate"
  ist_stack :: u64
  loader_segments :: "'g segments"
  ps2 :: controller
  frame_at_addr :: "u64 \<Rightarrow> 'f option"
  virt_addr :: "u64 \<Rightarrow> u64 option"
  cr3 :: u64
  offset_page_table :: "u64 \<Rightarrow> u64 \<Rightarrow> 'm"
  map_page :: "('m, 'p, 'f, frame_iter) map_to"
  page_of :: "u64 \<Rightarrow> 'p"
  page_range :: "'p \<Rightarrow> 'p \<Rightarrow> 'p list"
  global_allocator :: "'h heap_crate"
  window_bytes :: usize
  task_bytes :: usize
  shell_entry :: u64
  memmap_entry :: u64
  counter_entry :: u64

record boot_info =
  framebuffer :: "(fb_info \<times> fb_buffer) option"
  physical_memory_offset :: "u64 option"
  memory_regions :: "region list"

record ('m, 'u, 'g, 'h) kernel =
  kdiag :: "'u diag"
  ksegs :: "'g segments"
  kidt :: "u8 \<Rightarrow> gate option"
  kpics :: "u8 \<times> u8"
  kdesk :: desktop
  kports :: "io list"
  kpages :: 'm
  kframes :: frame_iter
  kheap :: "'h heap"
  kregions :: mem_regions
  ksystem :: system

definition create_windows :: "font \<Rightarrow> 'h heap_crate \<Rightarrow> usize \<Rightarrow> desktop \<times> 'h heap \<Rightarrow> (usize \<times> usize \<times> usize \<times> desktop \<times> 'h heap) option" where
  "create_windows font hc sz = (\<lambda>(d, hp). do {
     hp \<leftarrow> create_window_heap hc sz 520 420 d hp;
     (shell_win, d) \<leftarrow> wm_create_window font 380 80 520 420 (lit ''Shell'') 1 d;
     hp \<leftarrow> create_window_heap hc sz 340 520 d hp;
     (memmap_win, d) \<leftarrow> wm_create_window font 20 40 340 520 (lit ''Memory Map'') 2 d;
     hp \<leftarrow> create_window_heap hc sz 240 200 d hp;
     (counter_win, d) \<leftarrow> wm_create_window font 560 40 240 200 (lit ''Counter'') 3 d;
     Some (shell_win, memmap_win, counter_win, d, hp)
   })"

definition show_windows :: "font \<Rightarrow> usize \<Rightarrow> usize \<Rightarrow> desktop \<Rightarrow> desktop option" where
  "show_windows font shell_win counter_win d = do {
     d \<leftarrow> wm_init_console shell_win d;
     d \<leftarrow> wm_init_console counter_win d;
     wm_composite font d
   }"

definition start_tasks :: "('m, 'p, 'f, 'u, 'g, 'd, 'h) platform \<Rightarrow> usize \<times> usize \<times> usize \<Rightarrow> system \<times> 'h heap \<Rightarrow> (system \<times> 'h heap) option" where
  "start_tasks plat = (\<lambda>(shell_win, memmap_win, counter_win) (s, hp). do {
     let s = task_init s;
     let hp = hp\<lparr>tasks_vec := vec_new\<rparr>;
     (s, hp) \<leftarrow> spawn_task (global_allocator plat) (task_bytes plat) (shell_entry plat) (Some shell_win) (s, hp);
     (s, hp) \<leftarrow> spawn_task (global_allocator plat) (task_bytes plat) (memmap_entry plat) (Some memmap_win) (s, hp);
     (s, hp) \<leftarrow> spawn_task (global_allocator plat) (task_bytes plat) (counter_entry plat) (Some counter_win) (s, hp);
     hp \<leftarrow> run_heap (global_allocator plat) (task_bytes plat) s hp;
     s \<leftarrow> run_start s;
     Some (s, hp)
   })"

definition kernel_main :: "('m, 'p, 'f, 'u, 'g, 'd, 'h) platform \<Rightarrow> boot_info \<Rightarrow> system \<Rightarrow> ('m, 'u, 'g, 'h) kernel option" where
  "kernel_main plat bi s = do {
     diag \<leftarrow> returned (serial_init (uart_crate plat) \<lparr>SERIAL = None, serial_lock = False, port_writes = []\<rparr>);
     d \<leftarrow> (case framebuffer bi of
         Some (info, buf) \<Rightarrow> framebuffer_init buf info \<lparr>WM = None, FB_STATE = None\<rparr>
       | None \<Rightarrow> Some \<lparr>WM = None, FB_STATE = None\<rparr>);
     segs \<leftarrow> gdt_init (seg_crate plat) (ist_stack plat) (loader_segments plat);
     let idt = IDT;
     let pics = PICS;
     let ports = mouse_init (ps2 plat) [];
     let s = s\<lparr>iflag := True\<rparr>;
     phys_offset \<leftarrow> physical_memory_offset bi;
     phys_offset \<leftarrow> virt_addr plat phys_offset;
     mapper \<leftarrow> init_page_table (virt_add (seg_crate plat)) (offset_page_table plat) (cr3 plat) phys_offset;
     frame_allocator \<leftarrow> boot_allocator_new (memory_regions bi);
     (mapper, frame_allocator, heap_range) \<leftarrow> allocator_init (allocate_frame (frame_at_addr plat)) (map_page plat) (page_of plat)
       (page_range plat) mapper frame_allocator;
     let hp = \<lparr>allocator = heap_init (global_allocator plat) (fst heap_range) (snd heap_range), windows_vec = vec_new, tasks_vec = vec_new\<rparr>;
     hp \<leftarrow> wm_init_heap (global_allocator plat) d hp;
     d \<leftarrow> wm_init d;
     regions \<leftarrow> collect_regions (memory_regions bi);
     mem \<leftarrow> set_memory_regions regions MEM_REGIONS;
     (shell_win, memmap_win, counter_win, d, hp) \<leftarrow> create_windows (glyphs plat) (global_allocator plat) (window_bytes plat) (d, hp);
     d \<leftarrow> show_windows (glyphs plat) shell_win counter_win d;
     (s, hp) \<leftarrow> start_tasks plat (shell_win, memmap_win, counter_win) (s, hp);
     Some \<lparr>kdiag = diag, ksegs = segs, kidt = idt, kpics = pics, kdesk = d, kports = ports, kpages = mapper, kframes = frame_allocator, kheap = hp, kregions = mem, ksystem = s\<rparr>
   }"

section \<open>The list of regions\<close>

definition heap_region :: mem_region_info where
  "heap_region = \<lparr>region_start = HEAP_START, region_end = HEAP_START + HEAP_SIZE, region_kind = Heap\<rparr>"

lemma collect_loop_spec:
  assumes "length arr = 32" and "count \<le> 30"
  shows "\<exists>arr'. collect_loop rs (arr, count) = Some (arr', min 30 (count + length rs)) \<and> length arr' = 32 \<and>
    take (min 30 (count + length rs)) arr' = take count arr @ map boot_region (take (30 - count) rs)"
  using assms
proof (induction rs arbitrary: arr count)
  case Nil
  then show ?case by (simp add: min_def)
next
  case (Cons r rs)
  show ?case
  proof (cases "count = 30")
    case True
    then show ?thesis using Cons.prems by (intro exI [of _ arr]) simp
  next
    case False
    then have c: "count < 30" using Cons.prems(2) by simp
    have step: "collect_loop (r # rs) (arr, count) = collect_loop rs (arr[count := boot_region r], count + 1)"
      using c Cons.prems(1) by (simp add: set_at_def uadd_def)
    have "30 - count = Suc (30 - (count + 1))" using c by simp
    moreover have "take (count + 1) (arr[count := boot_region r]) = take count arr @ [boot_region r]"
      using c Cons.prems(1) by (simp add: take_Suc_conv_app_nth)
    ultimately show ?thesis
      using Cons.IH [of "arr[count := boot_region r]" "count + 1"] c Cons.prems(1) unfolding step by auto
  qed
qed

lemma collect_regions_spec:
  "collect_regions rs = Some (map boot_region (take 30 rs) @ [heap_region])"
proof -
  let ?n = "min 30 (length rs)"
  obtain arr where arr: "collect_loop rs (replicate 32 no_region, 0) = Some (arr, ?n)" "length arr = 32"
    "take ?n arr = map boot_region (take 30 rs)"
    using collect_loop_spec [of "replicate 32 no_region" 0 rs] by auto
  have heap: "u64_add HEAP_START HEAP_SIZE = Some (HEAP_START + HEAP_SIZE)"
    by (simp add: u64_add_def HEAP_START_def HEAP_SIZE_def)
  have "take (?n + 1) (arr[?n := heap_region]) = take ?n arr @ [heap_region]"
    using arr(2) by (simp add: take_Suc_conv_app_nth min_def)
  moreover have "?n < 32" by (simp add: min_def)
  ultimately show ?thesis
    using arr heap by (simp add: collect_regions_def set_at_def uadd_def heap_region_def)
qed

lemma set_regions_spec:
  assumes "length rs \<le> 32"
  shows "set_memory_regions rs MEM_REGIONS = Some (rs @ replicate (32 - length rs) no_region, length rs)"
  using assms by (simp add: set_memory_regions_def copy_prefix_def MEM_REGIONS_def MAX_REGIONS_def Let_def)


section \<open>The desktop after the boot\<close>

lemma framebuffer_init_spec:
  assumes "screen_ok info" and "length buf = frame_size info"
  obtains buf' where "framebuffer_init buf info d = Some (d\<lparr>FB_STATE := Some (info, buf')\<rparr>)" and "length buf' = frame_size info"
proof -
  have info: "info_ok info" "height info \<le> 2 ^ 24" "width info \<le> 2 ^ 24" using assms(1) by (auto simp: screen_ok_def)
  obtain buf' where b: "draw_background info buf = Some buf'" "fb.paints info (frame_size info) (background_pic info) buf buf'"
    by (rule fb.drawsE [OF draw_background_draws [OF info, of "frame_size info"]]) (use info(1) assms(2) in auto)
  have "length buf' = frame_size info" using fb.paints_ok [OF b(2)] by simp
  then show ?thesis using that b(1) by (simp add: framebuffer_init_def)
qed

lemma init_console_sized:
  assumes "desk_inv info k d" and "WM d = Some wm" and "sized wm wid (w, h)"
  obtains d' wm' where "wm_init_console wid d = Some d'" and "desk_inv info k d'" and "WM d' = Some wm'"
    and "has_text font wid ((w - 12) div 8) ((h - 36) div 16) False term_blank d'"
    and "\<forall>i s. i \<noteq> wid \<longrightarrow> sized wm i s \<longrightarrow> sized wm' i s"
proof -
  obtain buf where d: "FB_STATE d = Some (info, buf)" "length buf = frame_size info" "wm_inv info wm" "next_id wm \<le> k"
    using assms(1,2) by (auto simp: desk_inv_def)
  obtain win where win: "win \<in> set (windows wm)" "win_id win = wid" "win_width win = w" "win_height win = h"
    using assms(3) by (auto simp: sized_def)
  obtain wm' where wm': "init_console wid wm = Some wm'" "wm_inv info wm'" using init_console_inv [OF d(3)] by blast
  have same: "next_id wm' = next_id wm" using wm'(1) by (auto simp: init_console_def dest: window_mut_next_id)
  have t: "wm_text font wid ((w - 12) div 8) ((h - 36) div 16) False term_blank wm'"
    using init_console_text [OF d(3) win(1)] wm'(1) win(2-4) by simp
  show ?thesis
  proof (rule that [of "d\<lparr>WM := Some wm'\<rparr>" wm'])
    show "wm_init_console wid d = Some (d\<lparr>WM := Some wm'\<rparr>)" 
      unfolding wm_init_console_def by (rule upd_wm_eq [of d wm "init_console wid", OF assms(2) wm'(1)])
    show "desk_inv info k (d\<lparr>WM := Some wm'\<rparr>)" using d wm'(2) same by (simp add: desk_inv_def)
    show "has_text font wid ((w - 12) div 8) ((h - 36) div 16) False term_blank (d\<lparr>WM := Some wm'\<rparr>)" using t by (simp add: has_text_def)
    have keep: "sized wm' i s" if other: "i \<noteq> wid" "sized wm i s" for i s
    proof -
      obtain f where f: "find_mut (\<lambda>w. win_id w = wid) f (windows wm) = Some (windows wm')"
        using wm'(1) by (auto simp: init_console_def window_mut_def bind_eq_Some_conv)
      show ?thesis using other find_mut_keeps [OF f] by (force simp: sized_def)
    qed
    then show "\<forall>i s. i \<noteq> wid \<longrightarrow> sized wm i s \<longrightarrow> sized wm' i s" by blast
  qed simp
qed


lemma composite_sized:
  assumes "wm_inv info wm" and "composite font info (wm, fb) = Some (wm', fb')" and "sized wm i s"
  shows "sized wm' i s"
  using composite_kept [OF assms(1,2)] assms(3) repainted_same unfolding wins_kept_def sized_def by (cases s) fastforce

text \<open>One window, with its buffer on the heap.\<close>

definition windows_ready ::
  "('h \<Rightarrow> nat \<times> nat) \<Rightarrow> ('h \<Rightarrow> block list) \<Rightarrow> ('h \<Rightarrow> nat \<Rightarrow> bool) \<Rightarrow> nat \<Rightarrow> wm \<Rightarrow> 'h heap \<Rightarrow> bool" where
  "windows_ready arena live hole r wm hp \<longleftrightarrow> vec_for (windows_vec hp) (length (windows wm)) \<and> heap_inv arena live (allocator hp) \<and> hole (allocator hp) r"

lemma create_on_heap:
  assumes "desk_inv info k d" and "WM d = Some wm" and "font_ok font" and "geometry_ok x y w h" and "k < 2 ^ 32"
    and "heap_contract hc arena live hole" and "windows_ready arena live hole r wm hp" and "length (windows wm) < 4" and "element_ok sz"
    and "0 < w * h" and "padded (w * h * bytes_per_pixel info) + push_space sz (length (windows wm)) + 16 \<le> r" and "r < 2 ^ 63"
  obtains hp' d' wm' where "create_window_heap hc sz w h d hp = Some hp'"
    and "wm_create_window font x y w h name owner d = Some (next_id wm, d')" and "desk_inv info (Suc k) d'"
    and "WM d' = Some wm'" and "next_id wm' = next_id wm + 1" and "sized wm' (next_id wm) (w, h)"
    and "\<forall>i s. sized wm i s \<longrightarrow> sized wm' i s" and "length (windows wm') = Suc (length (windows wm))"
    and "windows_ready arena live hole (r - (padded (w * h * bytes_per_pixel info) + push_space sz (length (windows wm)))) wm' hp'"
proof -
  have wm: "wm_inv info wm" using assms(1,2) by (auto simp: desk_inv_def)
  have info: "screen_info wm = info" "0 < bytes_per_pixel info" using wm_inv_facts(2,8) [OF wm] by (auto simp: info_ok_def)
  have ready: "vec_for (windows_vec hp) (length (windows wm))" "heap_inv arena live (allocator hp)" "hole (allocator hp) r"
    using assms(7) by (simp_all add: windows_ready_def)
  have "w * h * bytes_per_pixel info = w * h * bytes_per_pixel (screen_info wm)" "0 < w * h * bytes_per_pixel info"
    using info assms(10) by simp_all
  then obtain hp' where hp': "create_window_heap hc sz w h d hp = Some hp'"
    "hole (allocator hp') (r - (padded (w * h * bytes_per_pixel info) + push_space sz (length (windows wm))))"
    using create_window_hole [OF assms(6) ready(3,1) assms(8,9,2) _ _ assms(11,12)] by blast
  note g = create_window_grows [OF assms(6) ready(2,1) assms(8,9,2) hp'(1)]
  obtain d' wm' where d': "wm_create_window font x y w h name owner d = Some (next_id wm, d')" "desk_inv info (Suc k) d'"
    "WM d' = Some wm'" "next_id wm' = next_id wm + 1" "sized wm' (next_id wm) (w, h)"
    "\<forall>i s. sized wm i s \<longrightarrow> sized wm' i s" "length (windows wm') = Suc (length (windows wm))"
    by (rule create_sized [OF assms(1-5), of name owner])
  have "windows_ready arena live hole (r - (padded (w * h * bytes_per_pixel info) + push_space sz (length (windows wm)))) wm' hp'"
    using g(2) grown_inv [OF g(1)] hp'(2) d'(7) by (simp add: windows_ready_def)
  then show ?thesis by (rule that [OF hp'(1) d'])
qed

definition windows_space :: "usize \<Rightarrow> fb_info \<Rightarrow> nat" where
  "windows_space sz info = padded (218400 * bytes_per_pixel info) + padded (4 * sz) + padded (176800 * bytes_per_pixel info) +
     padded (48000 * bytes_per_pixel info)"

lemma create_windows_spec:
  assumes "desk_inv info 0 d" and "WM d = Some wm" and "windows wm = []" and "font_ok font"
    and "heap_contract hc arena live hole" and "windows_ready arena live hole r wm hp" and "element_ok sz"
    and "windows_space sz info + 16 \<le> r" and "r < 2 ^ 63"
  obtains d' wm' hp' where "create_windows font hc sz (d, hp) = Some (0, 1, 2, d', hp')" and "desk_inv info 3 d'" and "WM d' = Some wm'"
    and "sized wm' 0 (520, 420)" and "sized wm' 1 (340, 520)" and "sized wm' 2 (240, 200)"
    and "windows_ready arena live hole (r - windows_space sz info) wm' hp'"
proof -
  let ?b = "bytes_per_pixel info"
  have i0: "next_id wm = 0" using assms(1,2) by (auto simp: desk_inv_def)
  have geo: "geometry_ok 380 80 520 420" "geometry_ok 20 40 340 520" "geometry_ok 560 40 240 200" by (simp_all add: geometry_ok_def)
  have lt: "0 < (2 :: nat) ^ 32" "Suc 0 < 2 ^ 32" "Suc (Suc 0) < 2 ^ 32" by simp_all
  have area: "520 * 420 = (218400 :: nat)" "340 * 520 = (176800 :: nat)" "240 * 200 = (48000 :: nat)" by simp_all
  have r: "padded (218400 * ?b) + padded (4 * sz) + 16 \<le> r" "padded (176800 * ?b) + 16 \<le> r - (padded (218400 * ?b) + padded (4 * sz))"
    "padded (48000 * ?b) + 16 \<le> r - (padded (218400 * ?b) + padded (4 * sz)) - padded (176800 * ?b)"
    using assms(8) by (simp_all add: windows_space_def)
  define r1 r2 where "r1 = r - (padded (218400 * ?b) + padded (4 * sz))" and "r2 = r1 - padded (176800 * ?b)"
  have p0: "push_space sz (length (windows wm)) = padded (4 * sz)" "length (windows wm) < 4" by (simp_all add: assms(3) push_space_def)
  obtain hp1 d1 wm1 where c1: "create_window_heap hc sz 520 420 d hp = Some hp1"
    "wm_create_window font 380 80 520 420 (lit ''Shell'') 1 d = Some (next_id wm, d1)" "desk_inv info (Suc 0) d1"
    "WM d1 = Some wm1" "next_id wm1 = next_id wm + 1" "sized wm1 (next_id wm) (520, 420)" "\<forall>i s. sized wm i s \<longrightarrow> sized wm1 i s"
    "length (windows wm1) = Suc (length (windows wm))" "windows_ready arena live hole r1 wm1 hp1"
    by (rule create_on_heap [OF assms(1,2,4) geo(1) lt(1) assms(5,6) p0(2) assms(7) _ _ assms(9), where name = "lit ''Shell''" and owner = 1,
          unfolded area p0(1), folded r1_def]) (use r(1) in simp_all)
  have p1: "push_space sz (length (windows wm1)) = 0" "length (windows wm1) < 4" "r1 < 2 ^ 63"
    using assms(3,9) c1(8) by (simp_all add: push_space_def r1_def)
  obtain hp2 d2 wm2 where c2: "create_window_heap hc sz 340 520 d1 hp1 = Some hp2"
    "wm_create_window font 20 40 340 520 (lit ''Memory Map'') 2 d1 = Some (next_id wm1, d2)"
    "desk_inv info (Suc (Suc 0)) d2" "WM d2 = Some wm2" "next_id wm2 = next_id wm1 + 1" "sized wm2 (next_id wm1) (340, 520)"
    "\<forall>i s. sized wm1 i s \<longrightarrow> sized wm2 i s" "length (windows wm2) = Suc (length (windows wm1))" "windows_ready arena live hole r2 wm2 hp2"
    by (rule create_on_heap [OF c1(3,4) assms(4) geo(2) lt(2) assms(5) c1(9) p1(2) assms(7) _ _ p1(3), where name = "lit ''Memory Map''" and owner = 2,
          unfolded area p1(1) add_0_right, folded r2_def]) (use r(2) in \<open>simp_all add: r1_def\<close>)
  have p2: "push_space sz (length (windows wm2)) = 0" "length (windows wm2) < 4" "r2 < 2 ^ 63"
    using p1 c2(8) assms(3) c1(8) by (simp_all add: push_space_def r2_def)
  obtain hp3 d3 wm3 where c3: "create_window_heap hc sz 240 200 d2 hp2 = Some hp3"
    "wm_create_window font 560 40 240 200 (lit ''Counter'') 3 d2 = Some (next_id wm2, d3)" "desk_inv info (Suc (Suc (Suc 0))) d3"
    "WM d3 = Some wm3" "next_id wm3 = next_id wm2 + 1" "sized wm3 (next_id wm2) (240, 200)" "\<forall>i s. sized wm2 i s \<longrightarrow> sized wm3 i s"
    "length (windows wm3) = Suc (length (windows wm2))" "windows_ready arena live hole (r2 - padded (48000 * ?b)) wm3 hp3"
    by (rule create_on_heap [OF c2(3,4) assms(4) geo(3) lt(3) assms(5) c2(9) p2(2) assms(7) _ _ p2(3), where name = "lit ''Counter''" and owner = 3,
          unfolded area p2(1) add_0_right]) (use r(3) in \<open>simp_all add: r1_def r2_def\<close>)
  have ids: "next_id wm1 = 1" "next_id wm2 = 2" using c1(5) c2(5) i0 by simp_all
  show ?thesis
  proof (rule that)
    show "create_windows font hc sz (d, hp) = Some (0, 1, 2, d3, hp3)"
      using c1(1,2) c2(1,2) c3(1,2) i0 ids by (simp add: create_windows_def)
    show "desk_inv info 3 d3" using c3(3) by (simp add: numeral_3_eq_3)
    show "windows_ready arena live hole (r - windows_space sz info) wm3 hp3"
      using c3(9) by (simp add: windows_space_def r1_def r2_def diff_diff_left add.assoc)
    show "sized wm3 0 (520, 420)" "sized wm3 1 (340, 520)" "sized wm3 2 (240, 200)" using c1(6) c2(6,7) c3(6,7) i0 ids by auto
  qed (rule c3(4))
qed

lemma show_windows_spec:
  assumes "desk_inv info 3 d" and "WM d = Some wm" and "font_ok font" and "keeps_colour info"
    and "sized wm 0 (520, 420)" and "sized wm 1 (340, 520)" and "sized wm 2 (240, 200)"
  obtains d' wm' fb where "show_windows font 0 2 d = Some d'" and "desk_inv info 6 d'"
    and "WM d' = Some wm'" and "FB_STATE d' = Some (info, fb)" and "\<not> needs_composite wm'"
    and "cursor_over info (frame_size info) (scene font info wm') (wm_cursor wm') fb"
    and "has_text font 0 63 24 False term_blank d'" and "has_text font 2 28 10 False term_blank d'" and "sized wm' 1 (340, 520)"
proof -
  have k3: "(3 :: nat) < 2 ^ 32" by simp
  obtain d4 wm4 where c4: "wm_init_console 0 d = Some d4" "desk_inv info 3 d4" "WM d4 = Some wm4"
    "has_text font 0 ((520 - 12) div 8) ((420 - 36) div 16) False term_blank d4" "\<forall>i s. i \<noteq> 0 \<longrightarrow> sized wm i s \<longrightarrow> sized wm4 i s"
    by (rule init_console_sized [OF assms(1,2,5)])
  have s4: "sized wm4 1 (340, 520)" "sized wm4 2 (240, 200)" using c4(5) assms(6,7) by simp_all
  obtain d5 wm5 where c5: "wm_init_console 2 d4 = Some d5" "desk_inv info 3 d5" "WM d5 = Some wm5"
    "has_text font 2 ((240 - 12) div 8) ((200 - 36) div 16) False term_blank d5" "\<forall>i s. i \<noteq> 2 \<longrightarrow> sized wm4 i s \<longrightarrow> sized wm5 i s"
    by (rule init_console_sized [OF c4(2,3) s4(2)])
  have s5: "sized wm5 1 (340, 520)" using c5(5) s4(1) by simp
  have "has_text font 0 ((520 - 12) div 8) ((420 - 36) div 16) False term_blank d5"
    using serve_text [OF c4(2) assms(3) k3 _ c4(4), of "Init_console 2"] c5(1) by auto
  then have t5: "has_text font 0 63 24 False term_blank d5" "has_text font 2 28 10 False term_blank d5" using c5(4) by simp_all
  obtain d6 where d6: "serve font Composite d5 = Some d6" "desk_inv info (Suc 3) d6"
    using serve_inv [OF c5(2) assms(3) _ k3, of Composite] by auto
  have t6: "has_text font 0 63 24 False term_blank d6" "has_text font 2 28 10 False term_blank d6"
    using serve_text [OF c5(2) assms(3) k3 _ t5(1), of Composite] serve_text [OF c5(2) assms(3) k3 _ t5(2), of Composite] d6(1) by auto
  obtain buf where b5: "FB_STATE d5 = Some (info, buf)" "length buf = frame_size info" "wm_inv info wm5"
    using c5(2,3) by (auto simp: desk_inv_def)
  obtain wm6 fb where c6: "composite font info (wm5, buf) = Some (wm6, fb)"
    "cursor_over info (frame_size info) (scene font info wm5) (wm_cursor wm6) fb" "scene font info wm6 = scene font info wm5"
    "\<not> needs_composite wm6"
    by (rule composite_scene [OF b5(3) assms(3,4) b5(2)])
  have e6: "d6 = d5\<lparr>WM := Some wm6, FB_STATE := Some (info, fb)\<rparr>"
    using d6(1) c5(3) b5(1) c6(1) by (simp add: wm_composite_def)
  have "show_windows font 0 2 d = Some d6" using c4(1) c5(1) d6(1) by (simp add: show_windows_def)
  moreover have "desk_inv info 6 d6" by (rule desk_inv_mono [OF d6(2)]) simp
  ultimately show ?thesis
    using that [of d6 wm6 fb] e6 c6(2-4) t6 composite_sized [OF b5(3) c6(1) s5] by simp
qed

section \<open>The tasks after the boot\<close>

text \<open>The tasks spawned, with their windows and their stacks.\<close>

definition specs_at :: "('m, 'p, 'f, 'u, 'g, 'd, 'h) platform \<Rightarrow> u64 list \<Rightarrow> spec list" where
  "specs_at plat bases = map2 (\<lambda>(entry, win) base. (entry, win, base))
     [(shell_entry plat, Some 0), (memmap_entry plat, Some 1), (counter_entry plat, Some 2)] bases"

definition task_specs :: "('m, 'p, 'f, 'u, 'g, 'd, 'h) platform \<Rightarrow> ('m, 'u, 'g, 'h) kernel \<Rightarrow> spec list" where
  "task_specs plat k = specs_at plat (case sched (ksystem k) of None \<Rightarrow> [] | Some sc \<Rightarrow> map stack_base (tl (tasks sc)))"

lemma run_start_tasks:
  assumes "run_start s = Some s'" and "sched s = Some sc"
  shows "\<exists>sc'. sched s' = Some sc' \<and> map window_id (tasks sc') = None # map window_id (tasks sc) \<and>
    map stack_base (tl (tasks sc')) = map stack_base (tasks sc)"
  using assms by (auto simp: run_start_def Let_def bind_eq_Some_conv)

lemma boot_tasks:
  assumes "stacks_ok specs" and "boot specs s0 = Some s"
  shows "\<exists>sc. sched s = Some sc \<and> map window_id (tasks sc) = None # map (\<lambda>sp. fst (snd sp)) specs \<and>
    map stack_base (tl (tasks sc)) = map (\<lambda>sp. snd (snd sp)) specs"
proof -
  obtain s1 where s1: "foldM spawn_one specs (task_init s0) = Some s1" "spawned s0 specs s1" using spawn_all [OF assms(1)] by blast
  obtain sc where sc: "sched s1 = Some sc" "list_all2 spec_task specs (tasks sc)" using s1(2) by (auto simp: spawned_def)
  have "map (\<lambda>sp. fst (snd sp)) specs = map window_id (tasks sc) \<and> map (\<lambda>sp. snd (snd sp)) specs = map stack_base (tasks sc)"
    using sc(2) by (induction rule: list_all2_induct) (auto simp: spec_task_def)
  moreover have "run_start s1 = Some s" using assms(2) s1(1) by (simp add: boot_def)
  ultimately show ?thesis using run_start_tasks [OF _ sc(1)] by auto
qed

definition tasks_space :: "usize \<Rightarrow> nat" where
  "tasks_space sz = padded (4 * sz) + 196608"

definition off_heap :: "u64 \<Rightarrow> bool" where
  "off_heap a \<longleftrightarrow> unat a + 8 \<le> unat HEAP_START \<or> unat HEAP_START + unat HEAP_SIZE \<le> unat a"

lemma start_tasks_spec:
  assumes "heap_contract (global_allocator plat) arena live hole" and "heap_inv arena live (allocator hp)" and "hole (allocator hp) r"
    and "element_ok (task_bytes plat)" and "tasks_space (task_bytes plat) + 16 \<le> r" and "r < 2 ^ 63"
  obtains bases s' hp' where "start_tasks plat (0, 1, 2) (s, hp) = Some (s', hp')" and "boot (specs_at plat bases) s = Some s'"
    and "length bases = 3" and "stacks_ok (specs_at plat bases)" and "\<forall>b \<in> set bases. \<forall>a. in_stack b a \<longrightarrow> \<not> off_heap a"
    and "heap_inv arena live (allocator hp')" and "stack_block ` set bases \<subseteq> set (live (allocator hp'))"
proof -
  let ?sz = "task_bytes plat" and ?hc = "global_allocator plat"
  have "tasks_ready arena live hole r [] (task_init s, hp\<lparr>tasks_vec := vec_new\<rparr>)"
    using assms(2,3) by (simp add: tasks_ready_def task_init_def vec_for_def)
  then obtain b1 s1 hp1 where t1: "spawn_task ?hc ?sz (shell_entry plat) (Some 0) (task_init s, hp\<lparr>tasks_vec := vec_new\<rparr>) = Some (s1, hp1)"
    "spawn_one (shell_entry plat, Some 0, b1) (task_init s) = Some s1"
    "tasks_ready arena live hole (r - (65536 + padded (4 * ?sz))) [b1] (s1, hp1)"
    by (rule spawn_task_ready [OF assms(1) _ _ assms(4) _ assms(6), where entry = "shell_entry plat" and win = "Some 0"])
      (use assms(5) in \<open>auto simp: push_space_def tasks_space_def\<close>)
  obtain b2 s2 hp2 where t2: "spawn_task ?hc ?sz (memmap_entry plat) (Some 1) (s1, hp1) = Some (s2, hp2)"
    "spawn_one (memmap_entry plat, Some 1, b2) s1 = Some s2"
    "tasks_ready arena live hole (r - (65536 + padded (4 * ?sz)) - 65536) [b1, b2] (s2, hp2)"
    by (rule spawn_task_ready [OF assms(1) t1(3) _ assms(4), where entry = "memmap_entry plat" and win = "Some 1"])
      (use assms(5,6) in \<open>auto simp: push_space_def tasks_space_def\<close>)
  obtain b3 s3 hp3 where t3: "spawn_task ?hc ?sz (counter_entry plat) (Some 2) (s2, hp2) = Some (s3, hp3)"
    "spawn_one (counter_entry plat, Some 2, b3) s2 = Some s3"
    "tasks_ready arena live hole (r - (65536 + padded (4 * ?sz)) - 65536 - 65536) [b1, b2, b3] (s3, hp3)"
    by (rule spawn_task_ready [OF assms(1) t2(3) _ assms(4), where entry = "counter_entry plat" and win = "Some 2"])
      (use assms(5,6) in \<open>auto simp: push_space_def tasks_space_def\<close>)
  obtain sc where sc: "sched s3 = Some sc" "length (tasks sc) = 3" and v3: "vec_for (tasks_vec hp3) 3"
    and inv3: "heap_inv arena live (allocator hp3)" "hole (allocator hp3) (r - (65536 + padded (4 * ?sz)) - 65536 - 65536)"
    and blocks: "set (map stack_block [b1, b2, b3]) \<subseteq> set (live (allocator hp3))" "sorted_wrt apart (map stack_block [b1, b2, b3])"
    using t3(3) by (auto simp: tasks_ready_def numeral_3_eq_3)
  have stacks: "stacks_ok (specs_at plat [b1, b2, b3])"
    by (rule stacks_from_heap [OF inv3(1) blocks]) (simp_all add: specs_at_def)
  obtain hp4 where r4: "push_task ?hc ?sz 3 hp3 = Some hp4"
    by (rule push_task_hole [OF assms(1) inv3(2) v3 _ assms(4)]) (use assms(5) in \<open>auto simp: push_space_def tasks_space_def\<close>)
  note g4 = push_task_grows(1) [OF assms(1) inv3(1) v3 _ assms(4) r4]
  have live4: "heap_inv arena live (allocator hp4)" "stack_block ` set [b1, b2, b3] \<subseteq> set (live (allocator hp4))"
    using grown_inv [OF g4] g4 blocks(1) by (auto simp: grown_def)
  have fold: "foldM spawn_one (specs_at plat [b1, b2, b3]) (task_init s) = Some s3" using t1(2) t2(2) t3(2) by (simp add: specs_at_def)
  then obtain s' where s': "run_start s3 = Some s'" "boot (specs_at plat [b1, b2, b3]) s = Some s'"
    using spawn_all [OF stacks, of s] by (auto simp: spawned_def boot_def run_start_def specs_at_def in_range)
  have "start_tasks plat (0, 1, 2) (s, hp) = Some (s', hp4)"
    using t1(1) t2(1) t3(1) sc r4 s'(1) by (simp add: start_tasks_def run_heap_def Let_def)
  moreover have "\<not> off_heap a" if "b \<in> set [b1, b2, b3]" "in_stack b a" for a b
  proof -
    have "stack_block b \<in> set (live (allocator hp3))" using that(1) blocks(1) by auto
    from heap_block_below(1,2) [OF inv3(1) this] that(2) show ?thesis by (auto simp: in_stack_def off_heap_def)
  qed
  ultimately show ?thesis using that [OF _ s'(2) _ stacks _ live4] by auto
qed

section \<open>The desktop and its heap\<close>

definition desktop_space :: "usize \<Rightarrow> fb_info \<Rightarrow> nat" where
  "desktop_space sz info = 2 * padded (width info * height info * bytes_per_pixel info) + windows_space sz info"

definition heap_at_boot :: "'h heap_crate \<Rightarrow> 'h heap" where
  "heap_at_boot hc = \<lparr>allocator = heap_init hc HEAP_START HEAP_SIZE, windows_vec = vec_new, tasks_vec = vec_new\<rparr>"

lemma boot_desktop:
  assumes "screen_ok info" and "keeps_colour info" and "font_ok font" and "length buf = frame_size info"
    and "heap_contract hc arena live hole" and "element_ok sz" and "desktop_space sz info + 16 \<le> unat HEAP_SIZE"
  obtains hp0 d0 d1 hp d wm fb where "wm_init_heap hc \<lparr>WM = None, FB_STATE = Some (info, buf)\<rparr> (heap_at_boot hc) = Some hp0"
    and "wm_init \<lparr>WM = None, FB_STATE = Some (info, buf)\<rparr> = Some d0"
    and "create_windows font hc sz (d0, hp0) = Some (0, 1, 2, d1, hp)" and "show_windows font 0 2 d1 = Some d"
    and "heap_inv arena live (allocator hp)" and "hole (allocator hp) (unat HEAP_SIZE - desktop_space sz info)"
    and "desk_inv info 6 d" and "WM d = Some wm" and "FB_STATE d = Some (info, fb)" and "\<not> needs_composite wm"
    and "cursor_over info (frame_size info) (scene font info wm) (wm_cursor wm) fb"
    and "has_text font 0 63 24 False term_blank d" and "has_text font 2 28 10 False term_blank d" and "sized wm 1 (340, 520)"
proof -
  let ?n = "width info * height info * bytes_per_pixel info" and ?d = "\<lparr>WM = None, FB_STATE = Some (info, buf)\<rparr>"
  have small: "unat HEAP_SIZE < 2 ^ 63" by (simp add: HEAP_SIZE_def)
  have "0 < ?n" using assms(1) by (auto simp: screen_ok_def info_ok_def)
  note start = heap_init_inv [OF assms(5), folded heap_at_boot_def]
  have alloc: "allocator (heap_at_boot hc) = heap_init hc HEAP_START HEAP_SIZE" by (simp add: heap_at_boot_def)
  have "2 * padded ?n + 16 \<le> unat HEAP_SIZE" using assms(7) by (simp add: desktop_space_def)
  then obtain hp0 where hp0: "wm_new_heap hc info (heap_at_boot hc) = Some hp0" "hole (allocator hp0) (unat HEAP_SIZE - 2 * padded ?n)"
    "vec_for (windows_vec hp0) 0"
    using wm_new_hole [OF assms(5) start(3) [folded alloc] refl \<open>0 < ?n\<close> _ small] by blast
  have inv0: "heap_inv arena live (allocator hp0)"
    by (rule grown_inv [OF wm_new_grows(1) [OF assms(5) start(1) [folded alloc] hp0(1)]])
  obtain d0 wm0 where d0: "wm_init ?d = Some d0" "desk_inv info 0 d0" "d0 = ?d\<lparr>WM := Some wm0\<rparr>" "windows wm0 = []"
    by (rule wm_init_inv [OF assms(1) _ assms(4), of ?d]) simp_all
  have w0: "WM d0 = Some wm0" by (simp add: d0(3))
  have "windows_ready arena live hole (unat HEAP_SIZE - 2 * padded ?n) wm0 hp0" using hp0(2,3) inv0 d0(4) by (simp add: windows_ready_def)
  then obtain d1 wm1 hp where c: "create_windows font hc sz (d0, hp0) = Some (0, 1, 2, d1, hp)" "desk_inv info 3 d1" "WM d1 = Some wm1"
    "sized wm1 0 (520, 420)" "sized wm1 1 (340, 520)" "sized wm1 2 (240, 200)"
    "windows_ready arena live hole (unat HEAP_SIZE - 2 * padded ?n - windows_space sz info) wm1 hp"
    by (rule create_windows_spec [OF d0(2) w0 d0(4) assms(3,5) _ assms(6)]) (use assms(7) small in \<open>simp_all add: desktop_space_def\<close>)
  obtain d wm fb where d: "show_windows font 0 2 d1 = Some d" "desk_inv info 6 d" "WM d = Some wm" "FB_STATE d = Some (info, fb)"
    "\<not> needs_composite wm" "cursor_over info (frame_size info) (scene font info wm) (wm_cursor wm) fb"
    "has_text font 0 63 24 False term_blank d" "has_text font 2 28 10 False term_blank d" "sized wm 1 (340, 520)"
    by (rule show_windows_spec [OF c(2,3) assms(3,2) c(4-6)])
  have "wm_init_heap hc ?d (heap_at_boot hc) = Some hp0" using hp0(1) by (simp add: wm_init_heap_def framebuffer_info_def)
  moreover have "heap_inv arena live (allocator hp)" "hole (allocator hp) (unat HEAP_SIZE - desktop_space sz info)"
    using c(7) by (simp_all add: windows_ready_def desktop_space_def diff_diff_left)
  ultimately show ?thesis by (rule that [OF _ d0(1) c(1) d(1) _ _ d(2-9)])
qed

section \<open>Properties\<close>

text \<open>What the boot relies on: the boot loader gives a frame buffer of packed lines and a physical offset with an
  active page table in which no page of the heap is mapped, the memory map has 8192 usable frames, the crates keep their
  contracts, the heap holds what the boot allocates, and the boot stack is aligned and not in the heap.\<close>

definition boot_space :: "('m, 'p, 'f, 'u, 'g, 'd, 'h) platform \<Rightarrow> fb_info \<Rightarrow> nat" where
  "boot_space plat info = desktop_space (window_bytes plat) info + tasks_space (task_bytes plat) + 16"

definition bootable :: "('m, 'p, 'f, 'u, 'g, 'd, 'h) platform \<Rightarrow> boot_info \<Rightarrow> system \<Rightarrow> fb_info \<Rightarrow> ('f \<Rightarrow> nat) \<Rightarrow> ('m \<Rightarrow> 'p \<Rightarrow> ('f \<times> page_flag set) option) \<Rightarrow> bool" where
  "bootable plat bi s info addr_of translate \<longleftrightarrow>
     (\<exists>buf. framebuffer bi = Some (info, buf) \<and> length buf = frame_size info) \<and> screen_ok info \<and> keeps_colour info \<and>
     font_ok (glyphs plat) \<and>
     (\<exists>lookup slots needs. gdt_contract (seg_crate plat) lookup slots needs) \<and> stack_array_ok (ist_stack plat) \<and>
     (\<exists>off l4. physical_memory_offset bi = Some off \<and> virt_addr plat off = Some off \<and> virt_add (seg_crate plat) off (cr3 plat) = Some l4 \<and>
       (\<forall>p \<in> set (page_range plat (page_of plat HEAP_START) (page_of plat (HEAP_START + HEAP_SIZE - 1))).
          translate (offset_page_table plat l4 off) p = None)) \<and>
     regions_ok (memory_regions bi) \<and> 8192 \<le> length (frame_list 0 (memory_regions bi)) \<and>
     frame_ctor (frame_at_addr plat) addr_of \<and>
     mapper_contract (\<lambda>it. frame_ctor (frame_at_addr plat) addr_of \<and> iter_inv it) pending (map_page plat) translate \<and>
     page_range_contract (page_of plat) (page_range plat) \<and>
     (\<exists>arena live hole. heap_contract (global_allocator plat) arena live hole) \<and>
     element_ok (window_bytes plat) \<and> element_ok (task_bytes plat) \<and> boot_space plat info \<le> unat HEAP_SIZE \<and>
     aligned (rsp (cpu_state s)) \<and> (\<forall>a \<in> frame_cells (rsp (cpu_state s) - 56). off_heap a)"

text \<open>The pages of the heap are mapped: each to a frame of its own, present and writable, of the usable memory.\<close>

definition heap_mapped :: "('p \<rightharpoonup> 'f \<times> page_flag set) \<Rightarrow> ('f \<Rightarrow> nat) \<Rightarrow> 'p list \<Rightarrow> nat list \<Rightarrow> bool" where
  "heap_mapped entries addr_of ps usable \<longleftrightarrow> (\<exists>fs. map entries ps = map (\<lambda>f. Some (f, {PRESENT, WRITABLE})) fs \<and>
     distinct (map addr_of fs) \<and> set (map addr_of fs) \<subseteq> set usable)"

lemma map_upds_pages: "distinct ps \<Longrightarrow> length ps = length vs \<Longrightarrow> map (m(ps [\<mapsto>] vs)) ps = map Some vs"
proof (induction ps arbitrary: m vs)
  case (Cons p ps)
  then obtain v vs' where vs: "vs = v # vs'" "length ps = length vs'" by (cases vs) auto
  have "map ((m(p \<mapsto> v))(ps [\<mapsto>] vs')) ps = map Some vs'" using Cons.prems(1) vs(2) by (intro Cons.IH) simp_all
  moreover have "((m(p \<mapsto> v))(ps [\<mapsto>] vs')) p = Some v" using Cons.prems(1) by (subst map_upds_apply_nontin) simp_all
  ultimately show ?case by (simp only: vs(1) map_upds_Cons list.map)
qed simp

text \<open>The memory at the boot: the active page table, the frames and the pages of the heap.\<close>

lemma boot_memory:
  assumes "regions_ok (memory_regions bi)" and "frame_ctor (frame_at_addr plat) addr_of"
    and "mapper_contract (\<lambda>it. frame_ctor (frame_at_addr plat) addr_of \<and> iter_inv it) pending (map_page plat) translate"
    and "page_range_contract (page_of plat) (page_range plat)" and "virt_add (seg_crate plat) off (cr3 plat) = Some l4"
    and "\<forall>p \<in> set (page_range plat (page_of plat HEAP_START) (page_of plat (HEAP_START + HEAP_SIZE - 1))).
      translate (offset_page_table plat l4 off) p = None"
    and "8192 \<le> length (frame_list 0 (memory_regions bi))"
  obtains it m' it' ps where
    "init_page_table (virt_add (seg_crate plat)) (offset_page_table plat) (cr3 plat) off = Some (offset_page_table plat l4 off)"
    and "boot_allocator_new (memory_regions bi) = Some it"
    and "allocator_init (allocate_frame (frame_at_addr plat)) (map_page plat) (page_of plat) (page_range plat) (offset_page_table plat l4 off) it =
      Some (m', it', (HEAP_START, HEAP_SIZE))"
    and "ps = page_range plat (page_of plat HEAP_START) (page_of plat (HEAP_START + HEAP_SIZE - 1))" and "length ps = 2048"
    and "heap_mapped (translate m') addr_of ps (frame_list 0 (memory_regions bi))"
proof -
  let ?ps = "page_range plat (page_of plat HEAP_START) (page_of plat (HEAP_START + HEAP_SIZE - 1))"
  have "HEAP_START \<le> HEAP_START + HEAP_SIZE - 1" by (simp add: HEAP_START_def HEAP_SIZE_def)
  then have ps: "distinct ?ps" using assms(4) by (simp add: page_range_contract_def)
  have "init_page_table (virt_add (seg_crate plat)) (offset_page_table plat) (cr3 plat) off = Some (offset_page_table plat l4 off)"
    by (simp add: init_page_table_def active_level_4_table_def assms(5))
  moreover obtain it m' it' fs where h: "boot_allocator_new (memory_regions bi) = Some it"
    "allocator_init (allocate_frame (frame_at_addr plat)) (map_page plat) (page_of plat) (page_range plat) (offset_page_table plat l4 off) it =
      Some (m', it', (HEAP_START, HEAP_SIZE))"
    "length ?ps = 2048" "length fs = 2048"
    "translate m' = (translate (offset_page_table plat l4 off))(?ps [\<mapsto>] map (\<lambda>f. (f, {PRESENT, WRITABLE})) fs)"
    "sorted_wrt (<) (map addr_of fs)" "set (map addr_of fs) \<subseteq> set (frame_list 0 (memory_regions bi))"
    using heap_init_spec [OF assms(1-4,6,7)] by blast
  moreover have "heap_mapped (translate m') addr_of ?ps (frame_list 0 (memory_regions bi))"
    unfolding heap_mapped_def h(5)
  proof (intro exI [of _ fs] conjI)
    show "map ((translate (offset_page_table plat l4 off))(?ps [\<mapsto>] map (\<lambda>f. (f, {PRESENT, WRITABLE})) fs)) ?ps =
        map (\<lambda>f. Some (f, {PRESENT, WRITABLE})) fs"
      by (subst map_upds_pages [OF ps]) (simp_all add: h(3,4) comp_def)
    show "distinct (map addr_of fs)" using h(6) by (simp only: strict_sorted_iff)
  qed (rule h(7))
  ultimately show ?thesis using that by blast
qed

text \<open>The tasks at the boot, with the windows and stacks they were spawned with.\<close>

lemma boot_tasks_ready:
  assumes "stacks_ok (specs_at plat bases)" and "boot (specs_at plat bases) s = Some s'" and "length bases = 3"
    and "\<forall>b \<in> set bases. \<forall>a. in_stack b a \<longrightarrow> \<not> off_heap a" and "aligned (rsp (cpu_state s))"
    and "\<forall>a \<in> frame_cells (rsp (cpu_state s) - 56). off_heap a" and "iflag s"
  obtains sc where "sys_ok s' sc (first_resume (specs_at plat bases))" and "current sc = 0" and "sched s' = Some sc"
    and "map window_id (tasks sc) = [None, Some 0, Some 1, Some 2]" and "map stack_base (tl (tasks sc)) = bases"
proof -
  have wins: "map (\<lambda>sp. fst (snd sp)) (specs_at plat bases) = [Some 0, Some 1, Some 2]" "map (\<lambda>sp. snd (snd sp)) (specs_at plat bases) = bases"
    using assms(3) by (auto simp: specs_at_def length_Suc_conv numeral_3_eq_3)
  have apart: "\<forall>(e, w, base) \<in> set (specs_at plat bases). \<forall>a \<in> frame_cells (rsp (cpu_state s) - 56). \<not> in_stack base a"
    using assms(4,6) by (auto simp: specs_at_def dest!: set_zip_rightD)
  obtain sc where sc: "sys_ok s' sc (first_resume (specs_at plat bases))" "current sc = 0"
    using boot_ok [OF assms(1) _ _ apart] assms(2,5,7) by auto
  have sched: "sched s' = Some sc" using sc(1) by (simp add: sys_ok_def)
  show ?thesis using that [OF sc sched] boot_tasks [OF assms(1,2)] sched wins by auto
qed

text \<open>The boot, for any reading of the heap that keeps the contract.\<close>

definition heap_pages :: "('m, 'p, 'f, 'u, 'g, 'd, 'h) platform \<Rightarrow> 'p list" where
  "heap_pages plat = page_range plat (page_of plat HEAP_START) (page_of plat (HEAP_START + HEAP_SIZE - 1))"

lemma kernel_main_run_on:
  assumes "bootable plat bi s info addr_of translate" and "heap_contract (global_allocator plat) arena live hole"
  obtains k wm fb sc where "kernel_main plat bi s = Some k" and "desk_inv info 6 (kdesk k)" and "WM (kdesk k) = Some wm"
    and "FB_STATE (kdesk k) = Some (info, fb)" and "\<not> needs_composite wm"
    and "cursor_over info (frame_size info) (scene (glyphs plat) info wm) (wm_cursor wm) fb"
    and "has_text (glyphs plat) 0 63 24 False term_blank (kdesk k)" and "has_text (glyphs plat) 2 28 10 False term_blank (kdesk k)"
    and "sized wm 1 (340, 520)" and "mem_regions_ok (kregions k)"
    and "take (snd (kregions k)) (fst (kregions k)) = map boot_region (take 30 (memory_regions bi)) @ [heap_region]"
    and "stacks_ok (task_specs plat k)" and "sys_ok (ksystem k) sc (first_resume (task_specs plat k))" and "current sc = 0"
    and "map window_id (tasks sc) = [None, Some 0, Some 1, Some 2]"
    and "SERIAL (kdiag k) \<noteq> None" and "gdtr (ksegs k) \<noteq> None" and "kidt k = IDT" and "kpics k = PICS"
    and "heap_mapped (translate (kpages k)) addr_of (heap_pages plat) (frame_list 0 (memory_regions bi))" and "length (heap_pages plat) = 2048"
    and "heap_inv arena live (allocator (kheap k))"
    and "\<forall>(e, win, base) \<in> set (task_specs plat k). stack_block base \<in> set (live (allocator (kheap k)))"
proof -
  let ?font = "glyphs plat" and ?rs = "memory_regions bi" and ?s = "s\<lparr>iflag := True\<rparr>"
  let ?regs = "map boot_region (take 30 ?rs) @ [heap_region]"
  let ?heap = "page_range plat (page_of plat HEAP_START) (page_of plat (HEAP_START + HEAP_SIZE - 1))"
  obtain buf off l4 lookup slots needs where fb: "framebuffer bi = Some (info, buf)" "length buf = frame_size info"
    and scr: "screen_ok info" "keeps_colour info" "font_ok ?font"
    and seg: "gdt_contract (seg_crate plat) lookup slots needs" "stack_array_ok (ist_stack plat)"
    and pt: "physical_memory_offset bi = Some off" "virt_addr plat off = Some off" "virt_add (seg_crate plat) off (cr3 plat) = Some l4"
      "\<forall>p \<in> set ?heap. translate (offset_page_table plat l4 off) p = None"
    and rs: "regions_ok ?rs" "8192 \<le> length (frame_list 0 ?rs)"
    and crates: "frame_ctor (frame_at_addr plat) addr_of"
      "mapper_contract (\<lambda>it. frame_ctor (frame_at_addr plat) addr_of \<and> iter_inv it) pending (map_page plat) translate"
      "page_range_contract (page_of plat) (page_range plat)"
    and alloc: "element_ok (window_bytes plat)" "element_ok (task_bytes plat)" "boot_space plat info \<le> unat HEAP_SIZE"
    and stk: "aligned (rsp (cpu_state s))" "\<forall>a \<in> frame_cells (rsp (cpu_state s) - 56). off_heap a"
    using assms(1) unfolding bootable_def by blast
  let ?pt = "offset_page_table plat l4 off"
  obtain segs g where segs: "gdt_init (seg_crate plat) (ist_stack plat) (loader_segments plat) = Some segs" "gdtr segs = Some g"
    by (rule gdt_init_loads [OF seg, of "loader_segments plat"])
  define diag where "diag = \<lparr>SERIAL = Some (uart_init (uart_crate plat) (uart_new (uart_crate plat) 0x3F8)), serial_lock = False, port_writes = []\<rparr>"
  have ser: "returned (serial_init (uart_crate plat) \<lparr>SERIAL = None, serial_lock = False, port_writes = []\<rparr>) = Some diag"
    by (simp add: serial_init_def diag_def)
  obtain buf1 where b1: "framebuffer_init buf info \<lparr>WM = None, FB_STATE = None\<rparr> = Some \<lparr>WM = None, FB_STATE = Some (info, buf1)\<rparr>"
    "length buf1 = frame_size info"
    by (rule framebuffer_init_spec [OF scr(1) fb(2), of "\<lparr>WM = None, FB_STATE = None\<rparr>"]) simp
  obtain it m' it' ps where ptab: "init_page_table (virt_add (seg_crate plat)) (offset_page_table plat) (cr3 plat) off = Some ?pt"
    and heap: "boot_allocator_new ?rs = Some it"
      "allocator_init (allocate_frame (frame_at_addr plat)) (map_page plat) (page_of plat) (page_range plat) ?pt it = Some (m', it', (HEAP_START, HEAP_SIZE))"
    and pages: "ps = ?heap" "length ps = 2048" "heap_mapped (translate m') addr_of ps (frame_list 0 ?rs)"
    by (rule boot_memory [OF rs(1) crates pt(3,4) rs(2)])
  have space: "desktop_space (window_bytes plat) info + 16 \<le> unat HEAP_SIZE"
    "tasks_space (task_bytes plat) + 16 \<le> unat HEAP_SIZE - desktop_space (window_bytes plat) info"
    "unat HEAP_SIZE - desktop_space (window_bytes plat) info < 2 ^ 63"
    using alloc(3) by (simp_all add: boot_space_def) (simp add: HEAP_SIZE_def)
  obtain hp0 d0 d1 hp d wm fb where d: "wm_init_heap (global_allocator plat) \<lparr>WM = None, FB_STATE = Some (info, buf1)\<rparr> (heap_at_boot (global_allocator plat)) = Some hp0"
    "wm_init \<lparr>WM = None, FB_STATE = Some (info, buf1)\<rparr> = Some d0"
    "create_windows ?font (global_allocator plat) (window_bytes plat) (d0, hp0) = Some (0, 1, 2, d1, hp)" "show_windows ?font 0 2 d1 = Some d"
    and hp: "heap_inv arena live (allocator hp)" "hole (allocator hp) (unat HEAP_SIZE - desktop_space (window_bytes plat) info)"
    and desk: "desk_inv info 6 d" "WM d = Some wm" "FB_STATE d = Some (info, fb)" "\<not> needs_composite wm"
    "cursor_over info (frame_size info) (scene ?font info wm) (wm_cursor wm) fb"
    "has_text ?font 0 63 24 False term_blank d" "has_text ?font 2 28 10 False term_blank d" "sized wm 1 (340, 520)"
    by (rule boot_desktop [OF scr b1(2) assms(2) alloc(1) space(1)])
  obtain bases sy hp' where t: "start_tasks plat (0, 1, 2) (?s, hp) = Some (sy, hp')" "boot (specs_at plat bases) ?s = Some sy"
    "length bases = 3" "stacks_ok (specs_at plat bases)" "\<forall>b \<in> set bases. \<forall>a. in_stack b a \<longrightarrow> \<not> off_heap a"
    and live: "heap_inv arena live (allocator hp')" "stack_block ` set bases \<subseteq> set (live (allocator hp'))"
    by (rule start_tasks_spec [OF assms(2) hp alloc(2) space(2,3)])
  have mem: "set_memory_regions ?regs MEM_REGIONS = Some (?regs @ replicate (32 - length ?regs) no_region, length ?regs)"
    by (rule set_regions_spec) simp
  define k where "k = \<lparr>kdiag = diag, ksegs = segs, kidt = IDT, kpics = PICS, kdesk = d, kports = mouse_init (ps2 plat) [], kpages = m', kframes = it', kheap = hp',
    kregions = (?regs @ replicate (32 - length ?regs) no_region, length ?regs), ksystem = sy\<rparr>"
  have main: "kernel_main plat bi s = Some k"
    unfolding kernel_main_def ser segs(1) fb(1) pt(1,2) ptab option.case prod.case b1(1) bind.bind_lunit Let_def heap fst_conv snd_conv
      heap_at_boot_def [symmetric] d collect_regions_spec mem t(1) k_def ..
  obtain sc where sc: "sys_ok sy sc (first_resume (specs_at plat bases))" "current sc = 0" and sched: "sched sy = Some sc"
    and tasks: "map window_id (tasks sc) = [None, Some 0, Some 1, Some 2]" "map stack_base (tl (tasks sc)) = bases"
    by (rule boot_tasks_ready [OF t(4,2,3,5)]) (use stk in simp_all)
  have specs: "task_specs plat k = specs_at plat bases" by (simp add: task_specs_def k_def sched tasks(2))
  have blocks: "\<forall>(e, win, base) \<in> set (specs_at plat bases). stack_block base \<in> set (live (allocator (kheap k)))"
    using live(2) by (auto simp: specs_at_def k_def dest!: set_zip_rightD)
  show ?thesis
    by (rule that [OF main, of wm fb sc, unfolded specs])
      (use desk sc t(4) tasks(1) segs(2) pages live(1) blocks in \<open>simp_all add: k_def mem_regions_ok_def diag_def heap_pages_def\<close>)
qed

lemma bootable_heap: "bootable plat bi s info addr_of translate \<Longrightarrow> \<exists>arena live hole. heap_contract (global_allocator plat) arena live hole"
  by (simp add: bootable_def)

lemma kernel_main_run:
  assumes "bootable plat bi s info addr_of translate"
  obtains k wm fb sc where "kernel_main plat bi s = Some k" and "desk_inv info 6 (kdesk k)" and "WM (kdesk k) = Some wm"
    and "FB_STATE (kdesk k) = Some (info, fb)" and "\<not> needs_composite wm"
    and "cursor_over info (frame_size info) (scene (glyphs plat) info wm) (wm_cursor wm) fb"
    and "has_text (glyphs plat) 0 63 24 False term_blank (kdesk k)" and "has_text (glyphs plat) 2 28 10 False term_blank (kdesk k)"
    and "sized wm 1 (340, 520)" and "mem_regions_ok (kregions k)"
    and "take (snd (kregions k)) (fst (kregions k)) = map boot_region (take 30 (memory_regions bi)) @ [heap_region]"
    and "stacks_ok (task_specs plat k)" and "sys_ok (ksystem k) sc (first_resume (task_specs plat k))" and "current sc = 0"
    and "map window_id (tasks sc) = [None, Some 0, Some 1, Some 2]"
    and "SERIAL (kdiag k) \<noteq> None" and "gdtr (ksegs k) \<noteq> None" and "kidt k = IDT" and "kpics k = PICS"
    and "heap_mapped (translate (kpages k)) addr_of (heap_pages plat) (frame_list 0 (memory_regions bi))" and "length (heap_pages plat) = 2048"
    and "\<forall>arena live hole. heap_contract (global_allocator plat) arena live hole \<longrightarrow> heap_inv arena live (allocator (kheap k)) \<and>
      (\<forall>(e, win, base) \<in> set (task_specs plat k). stack_block base \<in> set (live (allocator (kheap k))))"
proof -
  obtain arena0 live0 hole0 where c0: "heap_contract (global_allocator plat) arena0 live0 hole0" using bootable_heap [OF assms] by blast
  show ?thesis
  proof (rule kernel_main_run_on [OF assms c0])
    fix k wm fb sc
    assume r: "kernel_main plat bi s = Some k"
    have blocks: "heap_inv arena live (allocator (kheap k)) \<and>
      (\<forall>(e, win, base) \<in> set (task_specs plat k). stack_block base \<in> set (live (allocator (kheap k))))"
      if c: "heap_contract (global_allocator plat) arena live hole" for arena live hole
    proof -
      obtain k' where k': "kernel_main plat bi s = Some k'" "heap_inv arena live (allocator (kheap k'))"
        "\<forall>(e, win, base) \<in> set (task_specs plat k'). stack_block base \<in> set (live (allocator (kheap k')))"
        by (rule kernel_main_run_on [OF assms c])
      have "k' = k" using r k'(1) by simp
      then show ?thesis using k'(2,3) by simp
    qed
    assume a: "desk_inv info 6 (kdesk k)"
      "WM (kdesk k) = Some wm"
      "FB_STATE (kdesk k) = Some (info, fb)"
      "\<not> needs_composite wm"
      "cursor_over info (frame_size info) (scene (glyphs plat) info wm) (wm_cursor wm) fb"
      "has_text (glyphs plat) 0 63 24 False term_blank (kdesk k)"
      "has_text (glyphs plat) 2 28 10 False term_blank (kdesk k)"
      "sized wm 1 (340, 520)"
      "mem_regions_ok (kregions k)"
      "take (snd (kregions k)) (fst (kregions k)) = map boot_region (take 30 (memory_regions bi)) @ [heap_region]"
      "stacks_ok (task_specs plat k)"
      "sys_ok (ksystem k) sc (first_resume (task_specs plat k))"
      "current sc = 0"
      "map window_id (tasks sc) = [None, Some 0, Some 1, Some 2]"
      "SERIAL (kdiag k) \<noteq> None"
      "gdtr (ksegs k) \<noteq> None"
      "kidt k = IDT"
      "kpics k = PICS"
      "heap_mapped (translate (kpages k)) addr_of (heap_pages plat) (frame_list 0 (memory_regions bi))"
      "length (heap_pages plat) = 2048"
    show thesis by (rule that [OF r a]) (use blocks in blast)
  qed
qed

lemma kernel_main_boots:
  assumes "bootable plat bi s info addr_of translate"
  shows "\<exists>k. kernel_main plat bi s = Some k \<and> has_text (glyphs plat) 0 63 24 False term_blank (kdesk k)"
proof -
  obtain k where "kernel_main plat bi s = Some k" "has_text (glyphs plat) 0 63 24 False term_blank (kdesk k)"
    by (rule kernel_main_run [OF assms])
  then show ?thesis by blast
qed

text \<open>C5: the kernel boots. On a machine the boot relies on, \<^verbatim>\<open>kernel_main\<close> reaches its idle loop without a panic:
  every pixel of the screen shows the three windows and no composition is due; the shell and the counter have
  blank terminals of 63 by 24 and 28 by 10 characters; the window of the panel is large enough and its list
  holds the first 30 regions of the boot loader and the heap, in order; the 2048 pages of the heap are mapped in
  the page table the boot leaves, present and writable, to frames of the usable memory, all different; the idle
  task runs, with the three tasks ready at their entry points, each with its own window and its own stack of 64 KiB; in
  every reading of the allocator that keeps the contract these stacks are blocks the heap has handed out, in its
  range, and blocks of the heap do not overlap; the serial port, the
  segment table, the interrupt table and the offsets of the interrupt controllers are set.\<close>

theorem kernel_boots:
  assumes "bootable plat bi s info addr_of translate"
  shows "\<exists>k wm fb sc. kernel_main plat bi s = Some k \<and>
    device_text (glyphs plat) info 0 63 24 False term_blank (kdesk k) \<and>
    device_text (glyphs plat) info 2 28 10 False term_blank (kdesk k) \<and>
    WM (kdesk k) = Some wm \<and> (\<exists>win \<in> set (windows wm). win_id win = 1 \<and> panel_ok win) \<and>
    mem_regions_ok (kregions k) \<and>
    take (snd (kregions k)) (fst (kregions k)) = map boot_region (take 30 (memory_regions bi)) @ [heap_region] \<and>
    FB_STATE (kdesk k) = Some (info, fb) \<and> \<not> needs_composite wm \<and>
    (\<forall>x < width info. \<forall>y < height info. read_pixel info fb x y = Some (
      case colour_at (cursor_pic (wm_cursor wm)) (x, y) of None \<Rightarrow> scene (glyphs plat) info wm (x, y) | Some c \<Rightarrow> c)) \<and>
    stacks_ok (task_specs plat k) \<and> sys_ok (ksystem k) sc (first_resume (task_specs plat k)) \<and> current sc = 0 \<and>
    map window_id (tasks sc) = [None, Some 0, Some 1, Some 2] \<and>
    length (heap_pages plat) = 2048 \<and>
    (\<exists>fs. map (translate (kpages k)) (heap_pages plat) = map (\<lambda>f. Some (f, {PRESENT, WRITABLE})) fs \<and>
      distinct (map addr_of fs) \<and> set (map addr_of fs) \<subseteq> set (frame_list 0 (memory_regions bi))) \<and>
    (\<forall>arena live hole. heap_contract (global_allocator plat) arena live hole \<longrightarrow>
      arena (allocator (kheap k)) = (unat HEAP_START, unat HEAP_START + unat HEAP_SIZE) \<and>
      (\<forall>b \<in> set (live (allocator (kheap k))). unat HEAP_START \<le> fst b \<and> fst b + snd b \<le> unat HEAP_START + unat HEAP_SIZE) \<and>
      sorted_wrt apart (live (allocator (kheap k))) \<and>
      (\<forall>(entry, win, base) \<in> set (task_specs plat k). (unat base, 65536) \<in> set (live (allocator (kheap k))))) \<and>
    SERIAL (kdiag k) \<noteq> None \<and> gdtr (ksegs k) \<noteq> None \<and> kidt k = IDT \<and> kpics k = PICS"
proof -
  obtain k wm fb sc where r: "kernel_main plat bi s = Some k" "desk_inv info 6 (kdesk k)" "WM (kdesk k) = Some wm"
    "FB_STATE (kdesk k) = Some (info, fb)" "\<not> needs_composite wm"
    "cursor_over info (frame_size info) (scene (glyphs plat) info wm) (wm_cursor wm) fb"
    "has_text (glyphs plat) 0 63 24 False term_blank (kdesk k)" "has_text (glyphs plat) 2 28 10 False term_blank (kdesk k)"
    "sized wm 1 (340, 520)" "mem_regions_ok (kregions k)"
    "take (snd (kregions k)) (fst (kregions k)) = map boot_region (take 30 (memory_regions bi)) @ [heap_region]"
    "stacks_ok (task_specs plat k)" "sys_ok (ksystem k) sc (first_resume (task_specs plat k))" "current sc = 0"
    "map window_id (tasks sc) = [None, Some 0, Some 1, Some 2]"
    "SERIAL (kdiag k) \<noteq> None" "gdtr (ksegs k) \<noteq> None" "kidt k = IDT" "kpics k = PICS"
    "heap_mapped (translate (kpages k)) addr_of (heap_pages plat) (frame_list 0 (memory_regions bi))" "length (heap_pages plat) = 2048"
    "\<forall>arena live hole. heap_contract (global_allocator plat) arena live hole \<longrightarrow> heap_inv arena live (allocator (kheap k)) \<and>
      (\<forall>(e, win, base) \<in> set (task_specs plat k). stack_block base \<in> set (live (allocator (kheap k))))"
    by (rule kernel_main_run [OF assms])
  have pages: "\<exists>fs. map (translate (kpages k)) (heap_pages plat) = map (\<lambda>f. Some (f, {PRESENT, WRITABLE})) fs \<and>
      distinct (map addr_of fs) \<and> set (map addr_of fs) \<subseteq> set (frame_list 0 (memory_regions bi))"
    using r(20) by (simp only: heap_mapped_def)
  have blocks: "\<forall>arena live hole. heap_contract (global_allocator plat) arena live hole \<longrightarrow>
      arena (allocator (kheap k)) = (unat HEAP_START, unat HEAP_START + unat HEAP_SIZE) \<and>
      (\<forall>b \<in> set (live (allocator (kheap k))). unat HEAP_START \<le> fst b \<and> fst b + snd b \<le> unat HEAP_START + unat HEAP_SIZE) \<and>
      sorted_wrt apart (live (allocator (kheap k))) \<and>
      (\<forall>(entry, win, base) \<in> set (task_specs plat k). (unat base, 65536) \<in> set (live (allocator (kheap k))))"
    using r(22) unfolding heap_inv_def stack_block_def by simp
  have "screen_ok info" and font: "font_ok (glyphs plat)" using assms by (auto simp: bootable_def)
  have dev: "device_text (glyphs plat) info 0 63 24 False term_blank (kdesk k)"
    "device_text (glyphs plat) info 2 28 10 False term_blank (kdesk k)"
    using r(7,8) font desk_inv_mono [OF r(2), of "2 ^ 32"] by (auto simp: device_text_def has_text_def)
  have panel: "\<exists>win \<in> set (windows wm). win_id win = 1 \<and> panel_ok win" using r(9) by (auto simp: sized_def panel_ok_def)
  have "(x, y) \<in> canvas info (frame_size info)" if "x < width info" "y < height info" for x y
    using that \<open>screen_ok info\<close> by (intro frame_canvas) (auto simp: frame_size_def screen_ok_def)
  then have pix: "\<forall>x < width info. \<forall>y < height info. read_pixel info fb x y = Some (
      case colour_at (cursor_pic (wm_cursor wm)) (x, y) of None \<Rightarrow> scene (glyphs plat) info wm (x, y) | Some c \<Rightarrow> c)"
    using r(6) by (simp add: cursor_over_def)
  show ?thesis
    by (rule exI [of _ k], rule exI [of _ wm], rule exI [of _ fb], rule exI [of _ sc], intro conjI r(1-19,21) dev panel pix pages blocks)
qed

definition sample_boot_info :: boot_info where
  "sample_boot_info = \<lparr>framebuffer = Some (sample_info, replicate (frame_size sample_info) 0), physical_memory_offset = Some 0x10000000000,
     memory_regions = [\<lparr>rstart = 0, rend = 0x2000000, rkind = region_kind.Usable\<rparr>]\<rparr>"

definition sample_platform :: "(nat \<rightharpoonup> u64 \<times> page_flag set, nat, u64, unichar list, sample_descriptor list, sample_descriptor, bump) platform" where
  "sample_platform = \<lparr>glyphs = block_font,
     uart_crate = \<lparr>uart_new = (\<lambda>p. []), uart_init = (\<lambda>p. p), uart_write = (\<lambda>p t. Some (p @ t))\<rparr>, seg_crate = sample_gdt,
     ist_stack = 0x200000, loader_segments = \<lparr>gdtr = None, seg_cs = 0, seg_ss = 0, task_register = 0\<rparr>, ps2 = (\<lambda>h p. 0), frame_at_addr = (\<lambda>a. if unat a < 2 ^ 52 then Some a else None),
     virt_addr = Some, cr3 = 0x1000, offset_page_table = (\<lambda>l4 off. Map.empty), map_page = (\<lambda>m p f fl a. Some (m(p \<mapsto> (f, fl)), a)), page_of = (\<lambda>a. unat a div 4096),
     page_range = (\<lambda>p q. [p..<Suc q]), global_allocator = bump_heap, window_bytes = 256, task_bytes = 64,
     shell_entry = 1000, memmap_entry = 2000, counter_entry = 3000\<rparr>"

lemma sample_page_range: "page_range_contract (\<lambda>a. unat a div 4096) (\<lambda>p q. [p..<Suc q])"
  by (auto simp: page_range_contract_def word_le_nat_alt Suc_diff_le div_le_mono)

lemma sample_mapper:
  "mapper_contract (\<lambda>it. frame_ctor mk unat \<and> iter_inv it) pending (\<lambda>m p f fl a. Some (m(p \<mapsto> (f, fl)), a)) (\<lambda>m. m)"
  unfolding mapper_contract_def by (auto intro!: exI [of _ 0])

lemma sample_regions:
  "regions_ok [\<lparr>rstart = 0, rend = 0x2000000, rkind = region_kind.Usable\<rparr>]"
  "8192 \<le> length (frame_list 0 [\<lparr>rstart = 0, rend = 0x2000000, rkind = region_kind.Usable\<rparr>])"
  by (simp_all add: regions_ok_def region_ok_def has_start_def first_frame_def page_up_def frames_between_def Let_def)

lemma sample_heap:
  "\<exists>arena live hole. heap_contract (global_allocator sample_platform) arena live hole"
  "element_ok (window_bytes sample_platform)" "element_ok (task_bytes sample_platform)" "boot_space sample_platform sample_info \<le> unat HEAP_SIZE"
  "aligned (rsp (cpu_state sample_system))" "\<forall>a \<in> frame_cells (rsp (cpu_state sample_system) - 56). off_heap a"
proof -
  have "global_allocator sample_platform = bump_heap" by (simp add: sample_platform_def)
  then show "\<exists>arena live hole. heap_contract (global_allocator sample_platform) arena live hole" using bump_heap_contract by auto
  show "boot_space sample_platform sample_info \<le> unat HEAP_SIZE"
    by (simp add: boot_space_def desktop_space_def windows_space_def tasks_space_def padded_def sample_platform_def sample_info_def HEAP_SIZE_def)
  show "\<forall>a \<in> frame_cells (rsp (cpu_state sample_system) - 56). off_heap a"
    by (simp add: sample_system_def sample_cpu_def frame_cells_def off_heap_def HEAP_START_def)
qed (simp_all add: sample_platform_def element_ok_def sample_system_def sample_cpu_def aligned_def)

lemma sample_bootable: "bootable sample_platform sample_boot_info sample_system sample_info unat (\<lambda>m. m)"
proof -
  have bi: "framebuffer sample_boot_info = Some (sample_info, replicate (frame_size sample_info) 0)"
    "physical_memory_offset sample_boot_info = Some 0x10000000000"
    "memory_regions sample_boot_info = [\<lparr>rstart = 0, rend = 0x2000000, rkind = region_kind.Usable\<rparr>]"
    by (simp_all add: sample_boot_info_def)
  have pl: "glyphs sample_platform = block_font" "virt_addr sample_platform = Some" "offset_page_table sample_platform = (\<lambda>l4 off. Map.empty)"
    "seg_crate sample_platform = sample_gdt" "ist_stack sample_platform = 0x200000"
    "frame_at_addr sample_platform = (\<lambda>a. if unat a < 2 ^ 52 then Some a else None)"
    "map_page sample_platform = (\<lambda>m p f fl a. Some (m(p \<mapsto> (f, fl)), a))" "page_of sample_platform = (\<lambda>a. unat a div 4096)"
    "page_range sample_platform = (\<lambda>p q. [p..<Suc q])" by (simp_all add: sample_platform_def)
  have crates: "frame_ctor (frame_at_addr sample_platform) unat"
    "mapper_contract (\<lambda>it. frame_ctor (frame_at_addr sample_platform) unat \<and> iter_inv it) pending (map_page sample_platform) (\<lambda>m. m)"
    "page_range_contract (page_of sample_platform) (page_range sample_platform)"
    unfolding pl by (rule sample_frame_ctor sample_mapper sample_page_range)+
  let ?heap = "page_range sample_platform (page_of sample_platform HEAP_START) (page_of sample_platform (HEAP_START + HEAP_SIZE - 1))"
  have mem: "\<exists>off l4. physical_memory_offset sample_boot_info = Some off \<and> virt_addr sample_platform off = Some off \<and>
    virt_add (seg_crate sample_platform) off (cr3 sample_platform) = Some l4 \<and>
    (\<forall>p \<in> set ?heap. offset_page_table sample_platform l4 off p = None)"
    unfolding bi(2) pl(2-4) by (simp add: sample_gdt_def)
  have seg: "\<exists>lookup slots needs. gdt_contract (seg_crate sample_platform) lookup slots needs" "stack_array_ok (ist_stack sample_platform)"
    unfolding pl(4,5) using sample_gdt_contract by (blast, simp add: stack_array_ok_def STACK_SIZE_def)
  show ?thesis
    unfolding bootable_def
    by (intro conjI crates seg mem sample_heap sample_desktop_ok(1) sample_info_ok(2) block_font_ok [folded pl(1)]
        sample_regions [folded bi(3)] exI [of _ "replicate (frame_size sample_info) 0"] bi(1) sample_desktop_ok(3))
qed

theorem kernel_boots_witness:
  "\<exists>k wm. kernel_main sample_platform sample_boot_info sample_system = Some k \<and> WM (kdesk k) = Some wm \<and>
    (\<exists>win \<in> set (windows wm). win_id win = 1 \<and> panel_ok win) \<and> mem_regions_ok (kregions k) \<and>
    take (snd (kregions k)) (fst (kregions k)) =
      [\<lparr>region_start = 0, region_end = 0x2000000, region_kind = mem_region_kind.Usable\<rparr>, heap_region]"
proof -
  obtain k wm where k: "kernel_main sample_platform sample_boot_info sample_system = Some k" "WM (kdesk k) = Some wm"
    "\<exists>win \<in> set (windows wm). win_id win = 1 \<and> panel_ok win" "mem_regions_ok (kregions k)"
    "take (snd (kregions k)) (fst (kregions k)) = map boot_region (take 30 (memory_regions sample_boot_info)) @ [heap_region]"
    using kernel_boots [OF sample_bootable] by blast
  have "map boot_region (take 30 (memory_regions sample_boot_info)) @ [heap_region] =
    [\<lparr>region_start = 0, region_end = 0x2000000, region_kind = mem_region_kind.Usable\<rparr>, heap_region]"
    by (simp add: sample_boot_info_def boot_region_def)
  with k show ?thesis by auto
qed

end
