(* ===== verification/WmHeap.thy ===== *)
theory WmHeap
  imports Kernel
begin

text \<open>
  The window manager on the heap. \<open>wm_new\<close> and \<open>create_window\<close> build their buffers as lists; the allocations they make are
  \<open>wm_new_heap\<close> and \<open>create_window_heap\<close>, and a run of requests makes both. The window manager panics when the heap
  refuses a block, and never otherwise.
\<close>

section \<open>Requests on the heap\<close>

definition serve_heap :: "font \<Rightarrow> 'h heap_crate \<Rightarrow> usize \<Rightarrow> request \<Rightarrow> desktop \<times> 'h heap \<Rightarrow> (desktop \<times> 'h heap) option" where
  "serve_heap font hc sz r = (\<lambda>(d, hp). do {
     hp \<leftarrow> (case r of Create x y w h name owner \<Rightarrow> create_window_heap hc sz w h d hp | _ \<Rightarrow> Some hp);
     d \<leftarrow> serve font r d;
     Some (d, hp)
   })"

definition wm_run :: "font \<Rightarrow> 'h heap_crate \<Rightarrow> usize \<Rightarrow> request list \<Rightarrow> desktop \<times> 'h heap \<Rightarrow> (desktop \<times> 'h heap) option" where
  "wm_run font hc sz rs = (\<lambda>(d, hp). do {
     hp \<leftarrow> wm_init_heap hc d hp;
     d \<leftarrow> wm_init d;
     foldM (serve_heap font hc sz) rs (d, hp)
   })"

text \<open>The heap refuses what the initialisation or a new window asks for: one of the two screen buffers; the buffer of the window, or
  the room for one more element in the list of windows.\<close>

definition screen_refused :: "'h heap_crate \<Rightarrow> usize \<Rightarrow> 'h heap \<Rightarrow> bool" where
  "screen_refused hc n hp \<longleftrightarrow> zeroed_vec hc n (allocator hp) = None \<or>
     (\<exists>p h. zeroed_vec hc n (allocator hp) = Some (p, h) \<and> zeroed_vec hc n h = None)"

definition window_refused :: "'h heap_crate \<Rightarrow> usize \<Rightarrow> usize \<Rightarrow> usize \<Rightarrow> 'h heap \<Rightarrow> bool" where
  "window_refused hc sz n len hp \<longleftrightarrow> zeroed_vec hc n (allocator hp) = None \<or>
     (\<exists>p h. zeroed_vec hc n (allocator hp) = Some (p, h) \<and> reserve_one hc sz len (windows_vec hp, h) = None)"

lemma frame_bytes_fit:
  assumes "a \<le> 2 ^ 15" and "b \<le> 2 ^ 15" and "c \<le> (16 :: nat)"
  shows "a * b < 2 ^ 64" and "a * b * c < 2 ^ 64"
proof -
  have "a * b \<le> 2 ^ 15 * 2 ^ 15" using assms by (intro mult_le_mono) auto
  moreover from this have "a * b * c \<le> 2 ^ 15 * 2 ^ 15 * 16" using assms(3) by (rule mult_le_mono)
  ultimately show "a * b < 2 ^ 64" and "a * b * c < 2 ^ 64" by simp_all
qed

lemma wm_new_heap_refused:
  assumes "screen_ok info" and "wm_new_heap hc info hp = None"
  shows "screen_refused hc (width info * height info * bytes_per_pixel info) hp"
proof -
  have i: "width info \<le> 2 ^ 15" "height info \<le> 2 ^ 15" "bytes_per_pixel info \<le> 16" using assms(1) by (auto simp: screen_ok_def)
  show ?thesis
    using assms(2) unfolding wm_new_heap_def umul_in_range [OF frame_bytes_fit(1) [OF i]] bind.bind_lunit
      umul_in_range [OF frame_bytes_fit(2) [OF i]]
    by (cases "zeroed_vec hc (width info * height info * bytes_per_pixel info) (allocator hp)")
      (auto simp: screen_refused_def alloc_bytes_def bind_eq_None_conv split: prod.splits bind_splits)
qed

lemma create_window_heap_refused:
  assumes "WM d = Some wm" and "bytes_per_pixel (screen_info wm) \<le> 16" and "geometry_ok x y w h" and "create_window_heap hc sz w h d hp = None"
  shows "window_refused hc sz (w * h * bytes_per_pixel (screen_info wm)) (length (windows wm)) hp"
proof -
  have i: "w \<le> 2 ^ 15" "h \<le> 2 ^ 15" "bytes_per_pixel (screen_info wm) \<le> 16" using assms(2,3) by (auto simp: geometry_ok_def)
  show ?thesis
    using assms(4) unfolding create_window_heap_def assms(1) option.case umul_in_range [OF frame_bytes_fit(1) [OF i]] bind.bind_lunit
      umul_in_range [OF frame_bytes_fit(2) [OF i]]
    by (cases "zeroed_vec hc (w * h * bytes_per_pixel (screen_info wm)) (allocator hp)")
      (auto simp: window_refused_def alloc_bytes_def push_window_def split: prod.splits bind_splits)
qed

section \<open>A request that fails\<close>

text \<open>The first request of \<open>rs\<close> that is not served asks for a window that the heap has no room for.\<close>

definition no_room_for :: "font \<Rightarrow> 'h heap_crate \<Rightarrow> usize \<Rightarrow> request list \<Rightarrow> desktop \<times> 'h heap \<Rightarrow> bool" where
  "no_room_for font hc sz rs s \<longleftrightarrow> (\<exists>before x y w h name owner after d hp wm. rs = before @ Create x y w h name owner # after \<and>
     foldM (serve_heap font hc sz) before s = Some (d, hp) \<and> WM d = Some wm \<and>
     window_refused hc sz (w * h * bytes_per_pixel (screen_info wm)) (length (windows wm)) hp)"

lemma no_room_now:
  "WM d = Some wm \<Longrightarrow> window_refused hc sz (w * h * bytes_per_pixel (screen_info wm)) (length (windows wm)) hp \<Longrightarrow>
    no_room_for font hc sz (Create x y w h name owner # rs) (d, hp)"
  unfolding no_room_for_def by (rule exI [of _ "[]"]) auto

lemma no_room_later:
  assumes "serve_heap font hc sz r s = Some s'" and "no_room_for font hc sz rs s'"
  shows "no_room_for font hc sz (r # rs) s"
proof -
  obtain before x y w h name owner after d hp wm where b: "rs = before @ Create x y w h name owner # after"
    "foldM (serve_heap font hc sz) before s' = Some (d, hp)" "WM d = Some wm"
    "window_refused hc sz (w * h * bytes_per_pixel (screen_info wm)) (length (windows wm)) hp"
    using assms(2) unfolding no_room_for_def by blast
  have "foldM (serve_heap font hc sz) (r # before) s = Some (d, hp)" using b(2) assms(1) by simp
  then show ?thesis unfolding no_room_for_def using b(1,3,4) by (metis append_Cons)
qed

lemma serve_heap_step:
  assumes "desk_inv info k d" and "font_ok font" and "request_ok r" and "k < 2 ^ 32"
  shows "case serve_heap font hc sz r (d, hp) of
      Some (d', hp') \<Rightarrow> serve font r d = Some d' \<and> desk_inv info (Suc k) d'
    | None \<Rightarrow> no_room_for font hc sz (r # rs) (d, hp)"
proof -
  obtain d' where d': "serve font r d = Some d'" "desk_inv info (Suc k) d'" using serve_inv [OF assms] by blast
  obtain wm where wm: "WM d = Some wm" "wm_inv info wm" using assms(1) by (auto simp: desk_inv_def)
  have bpp: "bytes_per_pixel (screen_info wm) \<le> 16" using wm_inv_facts(1,8) [OF wm(2)] by (auto simp: screen_ok_def)
  show ?thesis
  proof (cases "creates r")
    case True
    then obtain x y w h name owner where r: "r = Create x y w h name owner" by (cases r) auto
    have geo: "geometry_ok x y w h" using assms(3) by (simp add: r)
    show ?thesis
    proof (cases "create_window_heap hc sz w h d hp")
      case None
      have "no_room_for font hc sz (r # rs) (d, hp)"
        unfolding r by (rule no_room_now [OF wm(1) create_window_heap_refused [OF wm(1) bpp geo None]])
      then show ?thesis using None by (simp add: serve_heap_def r)
    next
      case (Some hp')
      have "serve_heap font hc sz r (d, hp) = Some (d', hp')" using Some d'(1) by (auto simp: serve_heap_def r)
      then show ?thesis using d' by simp
    qed
  next
    case False
    then have "serve_heap font hc sz r (d, hp) = Some (d', hp)" using d'(1) by (cases r) (simp_all add: serve_heap_def)
    then show ?thesis using d' by simp
  qed
qed

lemma serve_heap_all:
  assumes "desk_inv info k d" and "font_ok font" and "\<forall>r \<in> set rs. request_ok r" and "k + length rs \<le> 2 ^ 32"
  shows "case foldM (serve_heap font hc sz) rs (d, hp) of
      Some (d', hp') \<Rightarrow> foldM (serve font) rs d = Some d' \<and> desk_inv info (k + length rs) d'
    | None \<Rightarrow> no_room_for font hc sz rs (d, hp)"
  using assms(1,3,4)
proof (induction rs arbitrary: k d hp)
  case (Cons r rs)
  note step = serve_heap_step [OF Cons.prems(1) assms(2), where r = r and hc = hc and sz = sz and hp = hp and rs = rs]
  show ?case
  proof (cases "serve_heap font hc sz r (d, hp)")
    case None
    then show ?thesis using step Cons.prems(2,3) by simp
  next
    case (Some s)
    obtain d1 hp1 where s: "s = (d1, hp1)" by (cases s)
    have d1: "serve font r d = Some d1" "desk_inv info (Suc k) d1" using step Some s Cons.prems(2,3) by simp_all
    have later: "no_room_for font hc sz rs (d1, hp1) \<Longrightarrow> no_room_for font hc sz (r # rs) (d, hp)"
      using no_room_later [OF Some] s by simp
    show ?thesis using Cons.IH [OF d1(2), of hp1] Cons.prems(2,3) Some s d1(1) later by (auto split: option.splits)
  qed
qed simp

section \<open>Where the heap has room\<close>

text \<open>Only a new window changes the number of windows.\<close>

definition win_count :: "desktop \<Rightarrow> nat" where
  "win_count d = (case WM d of Some wm \<Rightarrow> length (windows wm) | None \<Rightarrow> 0)"

lemma find_mut_length: "find_mut P f xs = Some ys \<Longrightarrow> length ys = length xs"
  by (induction xs arbitrary: ys) (auto split: if_splits)

lemma window_mut_count: "window_mut wid f wm = Some wm' \<Longrightarrow> length (windows wm') = length (windows wm)"
  by (auto simp: window_mut_def bind_eq_Some_conv dest: find_mut_length)

lemma upd_wm_count: "upd_wm f d = Some d' \<Longrightarrow> (\<And>wm wm'. f wm = Some wm' \<Longrightarrow> length (windows wm') = length (windows wm)) \<Longrightarrow> win_count d' = win_count d"
  by (auto simp: upd_wm_def with_wm_def win_count_def bind_eq_Some_conv split: option.splits)

lemma raise_window_count: "raise_window wid wm = Some wm' \<Longrightarrow> length (windows wm') = length (windows wm)"
  by (auto simp: raise_window_def vec_remove_def bind_eq_Some_conv split: option.splits if_splits)

lemma focus_window_count: "focus_window font wid wm = Some wm' \<Longrightarrow> length (windows wm') = length (windows wm)"
  by (auto simp: focus_window_def redraw_chrome_def bind_eq_Some_conv split: if_splits option.splits dest!: window_mut_count raise_window_count)

lemma left_click_count: "left_click font wm = Some wm' \<Longrightarrow> length (windows wm') = length (windows wm)"
  by (auto simp: left_click_def handle_taskbar_click_def Let_def bind_eq_Some_conv split: if_splits option.splits dest!: focus_window_count)

lemma composite_count: "composite font info (wm, fb) = Some (wm', fb') \<Longrightarrow> length (windows wm') = length (windows wm)"
  by (auto simp: composite_def Let_def bind_eq_Some_conv)

lemma handle_mouse_count: "handle_mouse font e info (wm, fb) = Some (wm', fb') \<Longrightarrow> length (windows wm') = length (windows wm)"
  by (auto simp: handle_mouse_def Let_def bind_eq_Some_conv split: if_splits dest!: left_click_count)

lemma wm_composite_count: "wm_composite font d = Some d' \<Longrightarrow> win_count d' = win_count d"
  by (auto simp: wm_composite_def win_count_def bind_eq_Some_conv split: option.splits dest!: composite_count)

lemma wm_handle_mouse_count: "wm_handle_mouse font e d = Some d' \<Longrightarrow> win_count d' = win_count d"
  by (auto simp: wm_handle_mouse_def win_count_def bind_eq_Some_conv split: option.splits if_splits
      dest!: composite_count handle_mouse_count)

lemma serve_count: "serve font r d = Some d' \<Longrightarrow> \<not> creates r \<Longrightarrow> win_count d' = win_count d"
  by (cases r) (auto simp: wm_init_console_def init_console_def console_write_def console_show_cursor_def console_hide_cursor_def
      wm_console_clear_def wm_mark_dirty_def mark_dirty_def console_op_def bind_eq_Some_conv
      dest!: wm_composite_count wm_handle_mouse_count window_mut_count elim!: upd_wm_count)

fun request_space :: "fb_info \<Rightarrow> request \<Rightarrow> nat" where
  "request_space info (Create x y w h name owner) = padded (w * h * bytes_per_pixel info)"
| "request_space info _ = 0"

definition requests_space :: "fb_info \<Rightarrow> request list \<Rightarrow> nat" where
  "requests_space info rs = sum_list (map (request_space info) rs)"

definition count_creates :: "request list \<Rightarrow> nat" where
  "count_creates rs = length (filter creates rs)"

lemma serve_heap_room:
  assumes "desk_inv info k d" and "WM d = Some wm" and "font_ok font" and "\<forall>r \<in> set rs. request_ok r" and "k + length rs \<le> 2 ^ 32"
    and "heap_contract hc arena live hole" and "windows_ready arena live hole r wm hp" and "element_ok sz"
    and "length (windows wm) + count_creates rs \<le> 4" and "requests_space info rs + push_space sz (length (windows wm)) + 16 \<le> r" and "r < 2 ^ 63"
  shows "\<exists>s. foldM (serve_heap font hc sz) rs (d, hp) = Some s"
  using assms(1,2,4,5,7,9-11)
proof (induction rs arbitrary: k d wm r hp)
  case (Cons q rs)
  note step = serve_heap_step [OF Cons.prems(1) assms(3), where r = q and hc = hc and sz = sz and hp = hp and rs = rs]
  show ?case
  proof (cases "creates q")
    case True
    then obtain x y w h name owner where q: "q = Create x y w h name owner" by (cases q) auto
    let ?n = "w * h * bytes_per_pixel info" and ?p = "push_space sz (length (windows wm))"
    have geo: "geometry_ok x y w h" and k: "k < 2 ^ 32" and few: "length (windows wm) < 4" and area: "0 < w * h"
      using Cons.prems(3,4,6) by (simp_all add: q count_creates_def geometry_ok_def)
    have sp: "requests_space info (q # rs) = padded ?n + requests_space info rs" by (simp add: q requests_space_def)
    have fit: "padded ?n + ?p + 16 \<le> r" using Cons.prems(7) sp by simp
    obtain hp' d' wm' where c: "create_window_heap hc sz w h d hp = Some hp'"
      "wm_create_window font x y w h name owner d = Some (next_id wm, d')" "desk_inv info (Suc k) d'" "WM d' = Some wm'"
      "length (windows wm') = Suc (length (windows wm))" "windows_ready arena live hole (r - (padded ?n + ?p)) wm' hp'"
      by (rule create_on_heap [OF Cons.prems(1,2) assms(3) geo k assms(6) Cons.prems(5) few assms(8) area fit Cons.prems(8), where name = name and owner = owner])
    have "serve_heap font hc sz q (d, hp) = Some (d', hp')" using c(1,2) by (simp add: serve_heap_def q)
    moreover have "push_space sz (length (windows wm')) = 0" using c(5) by (simp add: push_space_def)
    moreover have "requests_space info rs + 16 \<le> r - (padded ?n + ?p)" using Cons.prems(7) sp by simp
    ultimately show ?thesis
      using Cons.IH [OF c(3,4) _ _ c(6)] Cons.prems(3,4,6,8) c(5) by (simp add: q count_creates_def)
  next
    case False
    obtain d' where d': "serve font q d = Some d'" "desk_inv info k d'"
      using serve_inv_same [OF Cons.prems(1) assms(3) _ False] Cons.prems(3) by auto
    obtain wm' where wm': "WM d' = Some wm'" using d'(2) by (auto simp: desk_inv_def)
    have len: "length (windows wm') = length (windows wm)"
      using serve_count [OF d'(1) False] Cons.prems(2) wm' by (simp add: win_count_def)
    have ready: "windows_ready arena live hole r wm' hp" using Cons.prems(5) len by (simp add: windows_ready_def)
    have sp: "requests_space info (q # rs) = requests_space info rs" using False by (cases q) (simp_all add: requests_space_def)
    have "serve_heap font hc sz q (d, hp) = Some (d', hp)" using d'(1) False by (cases q) (simp_all add: serve_heap_def)
    then show ?thesis
      using Cons.IH [OF d'(2) wm' _ _ ready] Cons.prems(3,4,6,7,8) False len sp by (simp add: count_creates_def)
  qed
qed simp

section \<open>Property\<close>

text \<open>C8: the window manager panics only where the heap refuses it a block. On a frame buffer of packed lines of at most 32768 pixels,
  at least as high as the task bar, let it initialise and then serve at most \<open>2 ^ 32\<close> requests in any order: windows of 12 by 52 up to
  32768 by 32768 pixels at positions up to 32768, console operations on any identifier, mouse events whose moves fit 16 bits, compositions.
  Either all are served, and the invariant holds at the end: every window owns a buffer of its size, the
  identifiers are distinct, the focus is on an existing window, the pointer is on the screen. Or the heap has refused one of the two
  screen buffers, or the first request not served is a new window for whose buffer, or for whose place in the list of windows, the heap
  has no block. And with room for the buffers of up to four windows every request is served.\<close>

theorem wm_never_panics:
  assumes "screen_ok info" and "FB_STATE d = Some (info, buf)" and "length buf = frame_size info" and "font_ok font"
    and "\<forall>r \<in> set rs. request_ok r" and "length rs \<le> 2 ^ 32"
  shows "(case wm_run font hc sz rs (d, hp) of
      Some (d', hp') \<Rightarrow> desk_inv info (length rs) d'
    | None \<Rightarrow> screen_refused hc (width info * height info * bytes_per_pixel info) hp \<or>
        (\<exists>before x y w h name owner after d1 hp1 wm1. rs = before @ Create x y w h name owner # after \<and>
          wm_run font hc sz before (d, hp) = Some (d1, hp1) \<and> WM d1 = Some wm1 \<and>
          window_refused hc sz (w * h * bytes_per_pixel (screen_info wm1)) (length (windows wm1)) hp1)) \<and>
    (heap_contract hc arena live hole \<and> heap_inv arena live (allocator hp) \<and> hole (allocator hp) r \<and> r < 2 ^ 63 \<and> element_ok sz \<and>
      count_creates rs \<le> 4 \<and>
      2 * padded (width info * height info * bytes_per_pixel info) + padded (4 * sz) + requests_space info rs + 16 \<le> r \<longrightarrow>
      wm_run font hc sz rs (d, hp) \<noteq> None)"
proof -
  let ?n = "width info * height info * bytes_per_pixel info"
  obtain d0 wm0 where d0: "wm_init d = Some d0" "desk_inv info 0 d0" "d0 = d\<lparr>WM := Some wm0\<rparr>" "windows wm0 = []"
    by (rule wm_init_inv [OF assms(1-3)])
  have heap0: "wm_init_heap hc d hp = wm_new_heap hc info hp" by (simp add: wm_init_heap_def framebuffer_info_def assms(2))
  have run: "wm_run font hc sz qs (d, hp) = (case wm_new_heap hc info hp of None \<Rightarrow> None | Some hp0 \<Rightarrow> foldM (serve_heap font hc sz) qs (d0, hp0))" for qs
    using d0(1) heap0 by (simp add: wm_run_def split: option.split)
  have "0 + length rs \<le> 2 ^ 32" using assms(6) by simp
  note all = serve_heap_all [OF d0(2) assms(4,5) this, where hc = hc and sz = sz]
  have first: "case wm_run font hc sz rs (d, hp) of
      Some (d', hp') \<Rightarrow> desk_inv info (length rs) d'
    | None \<Rightarrow> screen_refused hc ?n hp \<or>
        (\<exists>before x y w h name owner after d1 hp1 wm1. rs = before @ Create x y w h name owner # after \<and>
          wm_run font hc sz before (d, hp) = Some (d1, hp1) \<and> WM d1 = Some wm1 \<and>
          window_refused hc sz (w * h * bytes_per_pixel (screen_info wm1)) (length (windows wm1)) hp1)"
  proof (cases "wm_new_heap hc info hp")
    case None
    then show ?thesis using wm_new_heap_refused [OF assms(1)] by (simp add: run)
  next
    case (Some hp0)
    show ?thesis using all [of hp0] unfolding run Some option.case no_room_for_def by (auto split: option.splits)
  qed
  have "wm_run font hc sz rs (d, hp) \<noteq> None"
    if h: "heap_contract hc arena live hole" "heap_inv arena live (allocator hp)" "hole (allocator hp) r" "r < 2 ^ 63" "element_ok sz"
      "count_creates rs \<le> 4" "2 * padded ?n + padded (4 * sz) + requests_space info rs + 16 \<le> r"
  proof -
    have n: "0 < ?n" using assms(1) by (auto simp: screen_ok_def info_ok_def)
    have "2 * padded ?n + 16 \<le> r" using h(7) by simp
    then obtain hp0 where hp0: "wm_new_heap hc info hp = Some hp0" "hole (allocator hp0) (r - 2 * padded ?n)" "vec_for (windows_vec hp0) 0"
      using wm_new_hole [OF h(1,3) refl n _ h(4)] by blast
    have "heap_inv arena live (allocator hp0)" by (rule grown_inv [OF wm_new_grows(1) [OF h(1,2) hp0(1)]])
    then have ready: "windows_ready arena live hole (r - 2 * padded ?n) wm0 hp0" using hp0(2,3) d0(4) by (simp add: windows_ready_def)
    have w0: "WM d0 = Some wm0" by (simp add: d0(3))
    have "\<exists>s. foldM (serve_heap font hc sz) rs (d0, hp0) = Some s"
      by (rule serve_heap_room [OF d0(2) w0 assms(4,5) _ h(1) ready h(5)])
        (use assms(6) h(4,6,7) d0(4) in \<open>simp_all add: push_space_def\<close>)
    then show ?thesis using hp0(1) by (auto simp: run)
  qed
  with first show ?thesis by blast
qed

text \<open>The heap of the sample machine has room for the two screen buffers and two windows.\<close>

theorem wm_never_panics_witness:
  "\<exists>d' hp'. wm_run block_font bump_heap 256 sample_requests (sample_desktop, heap_at_boot bump_heap) = Some (d', hp') \<and> desk_inv sample_info 7 d'"
proof -
  have "length sample_requests \<le> 2 ^ 32" by (simp add: sample_requests_ok(2))
  note ok = wm_never_panics [OF sample_desktop_ok block_font_ok sample_requests_ok(1) this, where hc = bump_heap and sz = 256 and hp = "heap_at_boot bump_heap"]
  note start = heap_init_inv [OF bump_heap_contract, folded heap_at_boot_def]
  have alloc: "allocator (heap_at_boot bump_heap) = heap_init bump_heap HEAP_START HEAP_SIZE" by (simp add: heap_at_boot_def)
  have room: "2 * padded (width sample_info * height sample_info * bytes_per_pixel sample_info) + padded (4 * 256) +
      requests_space sample_info sample_requests + 16 \<le> unat HEAP_SIZE" "count_creates sample_requests \<le> 4" "element_ok 256" "unat HEAP_SIZE < 2 ^ 63"
    by (simp_all add: sample_info_def sample_requests_def requests_space_def count_creates_def padded_def HEAP_SIZE_def element_ok_def)
  have "wm_run block_font bump_heap 256 sample_requests (sample_desktop, heap_at_boot bump_heap) \<noteq> None"
    using ok [THEN conjunct2] bump_heap_contract start(1,3) [folded alloc] room by blast
  then show ?thesis using ok [THEN conjunct1] unfolding sample_requests_ok(2) by auto
qed

end
