(* ===== verification/HeapLimit.thy ===== *)
theory HeapLimit
  imports Kernel
begin

text \<open>
  How much of the heap the boot needs. Whatever the frame buffer, a boot that succeeds has taken from the heap two screens,
  three window buffers, three stacks and the storage of the two lists; a screen for which that is more than the 8 MiB of
  \<^verbatim>\<open>HEAP_SIZE\<close> makes the boot panic.
\<close>

section \<open>What the functions keep\<close>

lemma wm_create_window_grows:
  assumes "wm_create_window font x y w h name owner d = Some (i, d')" and "WM d = Some wm"
  obtains wm' where "WM d' = Some wm'" and "screen_info wm' = screen_info wm" and "length (windows wm') = Suc (length (windows wm))"
  using assms by (auto simp: wm_create_window_def with_wm_def create_window_def bind_eq_Some_conv Let_def)

lemma wm_init_new:
  assumes "wm_init d = Some d'" and "FB_STATE d = Some (info, buf)"
  obtains wm where "WM d' = Some wm" and "screen_info wm = info" and "windows wm = []"
  using assms by (auto simp: wm_init_def framebuffer_info_def wm_new_def bind_eq_Some_conv)

lemma spawn_counts:
  assumes "spawn entry win base s = Some (i, s')" and "sched s = Some sc"
  obtains sc' where "sched s' = Some sc'" and "length (tasks sc') = Suc (length (tasks sc))"
  using assms by (auto simp: spawn_def bind_eq_Some_conv Let_def)

section \<open>The windows\<close>

lemma create_window_uses:
  assumes "heap_contract hc arena live hole" and "heap_inv arena live (allocator hp)" and "vec_for (windows_vec hp) (length (windows wm))"
    and "length (windows wm) < 4" and "element_ok sz" and "WM d = Some wm" and "create_window_heap hc sz w h d hp = Some hp'"
    and "wm_create_window font x y w h name owner d = Some (i, d')"
  obtains wm' where "WM d' = Some wm'" and "screen_info wm' = screen_info wm" and "length (windows wm') = Suc (length (windows wm))"
    and "grown arena live (w * h * bytes_per_pixel (screen_info wm) + push_bytes sz (length (windows wm))) (allocator hp) (allocator hp')"
    and "heap_inv arena live (allocator hp')" and "vec_for (windows_vec hp') (length (windows wm'))"
proof -
  note g = create_window_grows [OF assms(1-7)]
  obtain wm' where wm': "WM d' = Some wm'" "screen_info wm' = screen_info wm" "length (windows wm') = Suc (length (windows wm))"
    by (rule wm_create_window_grows [OF assms(8,6)])
  show ?thesis by (rule that [OF wm' g(1) grown_inv [OF g(1)] g(2) [folded wm'(3)]])
qed

lemma create_windows_uses:
  assumes "heap_contract hc arena live hole" and "heap_inv arena live (allocator hp)" and "vec_for (windows_vec hp) 0" and "element_ok sz"
    and "WM d = Some wm" and "windows wm = []" and "screen_info wm = info" and "create_windows font hc sz (d, hp) = Some (i, j, l, d', hp')"
  shows "grown arena live (443200 * bytes_per_pixel info + 4 * sz) (allocator hp) (allocator hp')"
proof -
  obtain hp1 d1 hp2 d2 where c: "create_window_heap hc sz 520 420 d hp = Some hp1"
    "wm_create_window font 380 80 520 420 (lit ''Shell'') 1 d = Some (i, d1)"
    "create_window_heap hc sz 340 520 d1 hp1 = Some hp2" "wm_create_window font 20 40 340 520 (lit ''Memory Map'') 2 d1 = Some (j, d2)"
    "create_window_heap hc sz 240 200 d2 hp2 = Some hp'" "wm_create_window font 560 40 240 200 (lit ''Counter'') 3 d2 = Some (l, d')"
    using assms(8) by (auto simp: create_windows_def bind_eq_Some_conv)
  have v0: "vec_for (windows_vec hp) (length (windows wm))" "length (windows wm) < 4" using assms(3,6) by simp_all
  obtain wm1 where w1: "WM d1 = Some wm1" "screen_info wm1 = screen_info wm" "length (windows wm1) = Suc (length (windows wm))"
    "grown arena live (520 * 420 * bytes_per_pixel (screen_info wm) + push_bytes sz (length (windows wm))) (allocator hp) (allocator hp1)"
    "heap_inv arena live (allocator hp1)" "vec_for (windows_vec hp1) (length (windows wm1))"
    by (rule create_window_uses [OF assms(1,2) v0 assms(4,5) c(1,2)])
  have l1: "length (windows wm1) < 4" using w1(3) assms(6) by simp
  obtain wm2 where w2: "WM d2 = Some wm2" "screen_info wm2 = screen_info wm1" "length (windows wm2) = Suc (length (windows wm1))"
    "grown arena live (340 * 520 * bytes_per_pixel (screen_info wm1) + push_bytes sz (length (windows wm1))) (allocator hp1) (allocator hp2)"
    "heap_inv arena live (allocator hp2)" "vec_for (windows_vec hp2) (length (windows wm2))"
    by (rule create_window_uses [OF assms(1) w1(5,6) l1 assms(4) w1(1) c(3,4)])
  have l2: "length (windows wm2) < 4" using w1(3) w2(3) assms(6) by simp
  obtain wm3 where w3: "WM d' = Some wm3"
    "grown arena live (240 * 200 * bytes_per_pixel (screen_info wm2) + push_bytes sz (length (windows wm2))) (allocator hp2) (allocator hp')"
    by (rule create_window_uses [OF assms(1) w2(5,6) l2 assms(4) w2(1) c(5,6)])
  from grown_trans [OF grown_trans [OF w1(4) w2(4)] w3(2)] show ?thesis
    using w1(2,3) w2(2,3) assms(6,7) by (simp add: push_bytes_def add.commute add.left_commute)
qed

section \<open>The tasks\<close>

lemma spawn_task_uses:
  assumes "heap_contract hc arena live hole" and "heap_inv arena live (allocator hp)" and "vec_for (tasks_vec hp) (length (tasks sc))"
    and "length (tasks sc) < 4" and "element_ok sz" and "sched s = Some sc" and "spawn_task hc sz entry win (s, hp) = Some (s', hp')"
  obtains sc' where "sched s' = Some sc'" and "length (tasks sc') = Suc (length (tasks sc))"
    and "grown arena live (65536 + push_bytes sz (length (tasks sc))) (allocator hp) (allocator hp')"
    and "heap_inv arena live (allocator hp')" and "vec_for (tasks_vec hp') (length (tasks sc'))"
proof -
  obtain base i where s: "spawn_heap hc sz s hp = Some (base, hp')" "spawn entry win base s = Some (i, s')"
    using assms(7) by (auto simp: spawn_task_def bind_eq_Some_conv)
  note g = spawn_grows [OF assms(1-6) s(1)]
  obtain sc' where sc': "sched s' = Some sc'" "length (tasks sc') = Suc (length (tasks sc))" by (rule spawn_counts [OF s(2) assms(6)])
  show ?thesis by (rule that [OF sc' g(1) grown_inv [OF g(1)] g(2) [folded sc'(2)]])
qed

lemma start_tasks_uses:
  assumes "heap_contract (global_allocator plat) arena live hole" and "heap_inv arena live (allocator hp)" and "element_ok (task_bytes plat)"
    and "start_tasks plat wins (s, hp) = Some (s', hp')"
  shows "grown arena live (196608 + 4 * task_bytes plat) (allocator hp) (allocator hp')"
proof -
  let ?hc = "global_allocator plat" and ?sz = "task_bytes plat" and ?hp = "hp\<lparr>tasks_vec := vec_new\<rparr>"
  obtain i j l where wins: "wins = (i, j, l)" by (cases wins)
  obtain s1 hp1 s2 hp2 s3 hp3 where t: "spawn_task ?hc ?sz (shell_entry plat) (Some i) (task_init s, ?hp) = Some (s1, hp1)"
    "spawn_task ?hc ?sz (memmap_entry plat) (Some j) (s1, hp1) = Some (s2, hp2)"
    "spawn_task ?hc ?sz (counter_entry plat) (Some l) (s2, hp2) = Some (s3, hp3)" "run_heap ?hc ?sz s3 hp3 = Some hp'"
    using assms(4) by (auto simp: start_tasks_def wins Let_def bind_eq_Some_conv)
  obtain sc0 where sc0: "sched (task_init s) = Some sc0" "length (tasks sc0) = 0" by (simp add: task_init_def)
  have h0: "heap_inv arena live (allocator ?hp)" "vec_for (tasks_vec ?hp) (length (tasks sc0))" "length (tasks sc0) < 4"
    using assms(2) sc0(2) by (simp_all add: vec_for_def)
  obtain sc1 where g1: "sched s1 = Some sc1" "length (tasks sc1) = Suc (length (tasks sc0))"
    "grown arena live (65536 + push_bytes ?sz (length (tasks sc0))) (allocator ?hp) (allocator hp1)"
    "heap_inv arena live (allocator hp1)" "vec_for (tasks_vec hp1) (length (tasks sc1))"
    by (rule spawn_task_uses [OF assms(1) h0 assms(3) sc0(1) t(1)])
  have l1: "length (tasks sc1) < 4" using g1(2) sc0(2) by simp
  obtain sc2 where g2: "sched s2 = Some sc2" "length (tasks sc2) = Suc (length (tasks sc1))"
    "grown arena live (65536 + push_bytes ?sz (length (tasks sc1))) (allocator hp1) (allocator hp2)"
    "heap_inv arena live (allocator hp2)" "vec_for (tasks_vec hp2) (length (tasks sc2))"
    by (rule spawn_task_uses [OF assms(1) g1(4,5) l1 assms(3) g1(1) t(2)])
  have l2: "length (tasks sc2) < 4" using g1(2) g2(2) sc0(2) by simp
  obtain sc3 where g3: "sched s3 = Some sc3" "length (tasks sc3) = Suc (length (tasks sc2))"
    "grown arena live (65536 + push_bytes ?sz (length (tasks sc2))) (allocator hp2) (allocator hp3)"
    "heap_inv arena live (allocator hp3)" "vec_for (tasks_vec hp3) (length (tasks sc3))"
    by (rule spawn_task_uses [OF assms(1) g2(4,5) l2 assms(3) g2(1) t(3)])
  have l3: "length (tasks sc3) < 4" using g1(2) g2(2) g3(2) sc0(2) by simp
  have push: "push_task ?hc ?sz (length (tasks sc3)) hp3 = Some hp'" using t(4) g3(1) by (simp add: run_heap_def)
  have g4: "grown arena live (push_bytes ?sz (length (tasks sc3))) (allocator hp3) (allocator hp')"
    by (rule push_task_grows(1) [OF assms(1) g3(4,5) l3 assms(3) push])
  from grown_trans [OF grown_trans [OF grown_trans [OF g1(3) g2(3)] g3(3)] g4] show ?thesis
    using g1(2) g2(2) g3(2) sc0(2) by (simp add: push_bytes_def)
qed

section \<open>The boot\<close>

definition boot_bytes :: "('m, 'p, 'f, 'u, 'g, 'd, 'h) platform \<Rightarrow> fb_info \<Rightarrow> nat" where
  "boot_bytes plat info = 2 * (width info * height info * bytes_per_pixel info) + 443200 * bytes_per_pixel info + 4 * window_bytes plat +
     196608 + 4 * task_bytes plat"

text \<open>What the kernel asks of the boot loader: \<^verbatim>\<open>CONFIG\<close> in \<^verbatim>\<open>kernel/src/main.rs\<close>, on the default configuration of the
  crate \<^verbatim>\<open>bootloader_api\<close> (the fields that the code sets).\<close>

datatype mapping = Dynamic | FixedAddress u64

record loader_config =
  minimum_framebuffer_width :: "u64 option"
  minimum_framebuffer_height :: "u64 option"
  physical_memory :: "mapping option"

definition CONFIG :: "loader_config \<Rightarrow> loader_config" where
  "CONFIG new_default = (let config = new_default;
     config = config\<lparr>minimum_framebuffer_width := Some 1024\<rparr>;
     config = config\<lparr>minimum_framebuffer_height := Some 768\<rparr>;
     config = config\<lparr>physical_memory := Some Dynamic\<rparr> in config)"

text \<open>The heap is large enough for the smallest screen asked for, with up to 4 bytes for a pixel.\<close>

lemma minimum_screen_fits:
  assumes "minimum_framebuffer_width (CONFIG new_default) = Some (of_nat (width info))" and "width info < 2 ^ 64"
    and "minimum_framebuffer_height (CONFIG new_default) = Some (of_nat (height info))" and "height info < 2 ^ 64"
    and "bytes_per_pixel info \<le> 4" and "element_ok (window_bytes plat)" and "element_ok (task_bytes plat)"
  shows "boot_space plat info \<le> unat HEAP_SIZE"
proof -
  have "unat (of_nat (width info) :: u64) = 1024" "unat (of_nat (height info) :: u64) = 768" using assms(1,3) by (auto simp: CONFIG_def)
  then have size: "width info = 1024" "height info = 768"
    using assms(2,4) by (simp_all add: unsigned_of_nat take_bit_nat_eq_self del: of_nat_eq_numeral_iff)
  have p: "padded n \<le> n + 16" for n unfolding padded_def by simp
  note p [of "786432 * bytes_per_pixel info"] p [of "218400 * bytes_per_pixel info"] p [of "176800 * bytes_per_pixel info"]
    p [of "48000 * bytes_per_pixel info"] p [of "4 * window_bytes plat"] p [of "4 * task_bytes plat"]
  then show ?thesis using assms(5-7)
    by (simp add: boot_space_def desktop_space_def windows_space_def tasks_space_def size element_ok_def HEAP_SIZE_def)
qed

lemma allocator_init_range: "allocator_init alloc map_to addr pages m a = Some (m', a', r) \<Longrightarrow> r = (HEAP_START, HEAP_SIZE)"
  by (auto simp: allocator_init_def bind_eq_Some_conv Let_def)

lemma boot_uses:
  assumes "heap_contract (global_allocator plat) arena live hole" and "element_ok (window_bytes plat)" and "element_ok (task_bytes plat)"
    and "framebuffer bi = Some (info, buf)" and "kernel_main plat bi s = Some k"
  shows "heap_inv arena live (allocator (kheap k))" and "in_use live (allocator (kheap k)) = boot_bytes plat info"
proof -
  let ?hc = "global_allocator plat"
  obtain d0 hp0 d1 i j l d2 hp1 s0 s1 where k: "framebuffer_init buf info \<lparr>WM = None, FB_STATE = None\<rparr> = Some d0"
    "wm_init_heap ?hc d0 (heap_at_boot ?hc) = Some hp0" "wm_init d0 = Some d1"
    "create_windows (glyphs plat) ?hc (window_bytes plat) (d1, hp0) = Some (i, j, l, d2, hp1)"
    "start_tasks plat (i, j, l) (s0, hp1) = Some (s1, kheap k)"
    using assms(4,5) by (auto simp: kernel_main_def bind_eq_Some_conv Let_def heap_at_boot_def dest!: allocator_init_range)
  obtain buf0 where fb: "FB_STATE d0 = Some (info, buf0)" using k(1) by (auto simp: framebuffer_init_def bind_eq_Some_conv)
  obtain wm where wm: "WM d1 = Some wm" "screen_info wm = info" "windows wm = []" by (rule wm_init_new [OF k(3) fb])
  note start = heap_init_inv [OF assms(1)]
  have alloc: "allocator (heap_at_boot ?hc) = heap_init ?hc HEAP_START HEAP_SIZE" by (simp add: heap_at_boot_def)
  have "wm_new_heap ?hc info (heap_at_boot ?hc) = Some hp0" using k(2) fb by (simp add: wm_init_heap_def framebuffer_info_def)
  note g0 = wm_new_grows [OF assms(1) start(1) [folded alloc] this]
  note g1 = create_windows_uses [OF assms(1) grown_inv [OF g0(1)] g0(2) assms(2) wm(1,3,2) k(4)]
  note g2 = start_tasks_uses [OF assms(1) grown_inv [OF g1] assms(3) k(5)]
  note g = grown_trans [OF grown_trans [OF g0(1) g1] g2]
  show "heap_inv arena live (allocator (kheap k))" by (rule grown_inv [OF g])
  show "in_use live (allocator (kheap k)) = boot_bytes plat info"
    using g start(2) by (auto simp: grown_def alloc in_use_def boot_bytes_def)
qed

lemma boot_too_large:
  assumes "heap_contract (global_allocator plat) arena live hole" and "element_ok (window_bytes plat)" and "element_ok (task_bytes plat)"
    and "framebuffer bi = Some (info, buf)" and "unat HEAP_SIZE < boot_bytes plat info"
  shows "kernel_main plat bi s = None"
proof (rule ccontr)
  assume "kernel_main plat bi s \<noteq> None"
  then obtain k where "kernel_main plat bi s = Some k" by blast
  note use = boot_uses [OF assms(1-4) this]
  have "in_use live (allocator (kheap k)) \<le> unat HEAP_SIZE" using use(1) by (rule in_use_bound)
  then show False using use(2) assms(5) by simp
qed

text \<open>C7: what the boot takes from the heap. On any machine whose allocator hands out blocks of its range that do not
  overlap, a boot that succeeds has handed out exactly two screens (the back buffer and the cached background), the buffers of
  the three windows, three stacks of 64 KiB and the storage of four windows and four tasks, and this is at most the
  8 MiB of the heap; if it is more, \<^verbatim>\<open>kernel_main\<close> panics.\<close>

theorem boot_heap_use:
  assumes "heap_contract (global_allocator plat) arena live hole" and "element_ok (window_bytes plat)" and "element_ok (task_bytes plat)"
    and "framebuffer bi = Some (info, buf)"
  shows "case kernel_main plat bi s of
      Some k \<Rightarrow> in_use live (allocator (kheap k)) = 2 * (width info * height info * bytes_per_pixel info) +
        (520 * 420 + 340 * 520 + 240 * 200) * bytes_per_pixel info + 4 * window_bytes plat + 3 * 65536 + 4 * task_bytes plat \<and>
        in_use live (allocator (kheap k)) \<le> 8 * 1024 * 1024
    | None \<Rightarrow> True"
proof (cases "kernel_main plat bi s")
  case (Some k)
  note use = boot_uses [OF assms Some]
  have "in_use live (allocator (kheap k)) \<le> 8 * 1024 * 1024" using in_use_bound [OF use(1)] by (simp add: HEAP_SIZE_def)
  then show ?thesis unfolding Some option.case using use(2) by (simp add: boot_bytes_def)
qed simp

theorem boot_heap_use_witness:
  "\<exists>k. kernel_main sample_platform sample_boot_info sample_system = Some k \<and>
    in_use (\<lambda>h. bump_blocks (unat (fst (fst h))) (snd h)) (allocator (kheap k)) = 8262144"
proof -
  obtain k wm where k: "kernel_main sample_platform sample_boot_info sample_system = Some k"
    using kernel_main_boots [OF sample_bootable] by blast
  have plat: "global_allocator sample_platform = bump_heap" "window_bytes sample_platform = 256" "task_bytes sample_platform = 64"
    by (simp_all add: sample_platform_def)
  have ok: "element_ok (window_bytes sample_platform)" "element_ok (task_bytes sample_platform)" by (rule sample_heap)+
  have fb: "framebuffer sample_boot_info = Some (sample_info, replicate (frame_size sample_info) 0)" by (simp add: sample_boot_info_def)
  from boot_heap_use [OF bump_heap_contract [folded plat(1)] ok fb, of sample_system] k show ?thesis
    by (simp add: plat(2,3) sample_info_def)
qed

text \<open>C33: a large screen is fatal. The configuration of the boot loader asks for at least 1024 by 768 pixels; on a frame
  buffer of 4 bytes for a pixel with 802400 pixels or more, as 1280 by 720 has, the boot runs out of heap and panics.\<close>

theorem large_screen_panics:
  assumes "heap_contract (global_allocator plat) arena live hole" and "element_ok (window_bytes plat)" and "element_ok (task_bytes plat)"
    and "framebuffer bi = Some (info, buf)" and "bytes_per_pixel info = 4" and "802400 \<le> width info * height info"
  shows "kernel_main plat bi s = None"
proof (rule boot_too_large [OF assms(1-4)])
  show "unat HEAP_SIZE < boot_bytes plat info" using assms(2,5,6) by (simp add: boot_bytes_def HEAP_SIZE_def element_ok_def)
qed

definition wide_boot_info :: boot_info where
  "wide_boot_info = sample_boot_info\<lparr>framebuffer := Some (sample_info\<lparr>width := 1280, height := 720, stride := 1280\<rparr>, replicate 3686400 0)\<rparr>"

theorem large_screen_panics_witness:
  "kernel_main sample_platform wide_boot_info sample_system = None \<and> kernel_main sample_platform sample_boot_info sample_system \<noteq> None"
proof
  have plat: "global_allocator sample_platform = bump_heap" by (simp add: sample_platform_def)
  have ok: "element_ok (window_bytes sample_platform)" "element_ok (task_bytes sample_platform)" by (rule sample_heap)+
  have fb: "framebuffer wide_boot_info = Some (sample_info\<lparr>width := 1280, height := 720, stride := 1280\<rparr>, replicate 3686400 0)"
    by (simp add: wide_boot_info_def)
  show "kernel_main sample_platform wide_boot_info sample_system = None"
    by (rule large_screen_panics [OF bump_heap_contract [folded plat] ok fb]) (simp_all add: sample_info_def)
  show "kernel_main sample_platform sample_boot_info sample_system \<noteq> None"
    using kernel_main_boots [OF sample_bootable] by blast
qed

end
