(* ===== verification/Idle.thy ===== *)
theory Idle
  imports WmScene
begin

text \<open>
  The loop of the idle task (\<^verbatim>\<open>run\<close> in \<^verbatim>\<open>kernel/src/task.rs\<close>): it drains the mouse queue into the window
  manager, composes if that is due, and yields. One turn is \<open>idle_turn\<close>, up to \<^verbatim>\<open>yield_now\<close>.
\<close>

section \<open>Definitions\<close>

partial_function (option) drain_mouse :: "font \<Rightarrow> mouse \<Rightarrow> desktop \<Rightarrow> (mouse \<times> desktop) option" where
  "drain_mouse font m d =
     (case try_read_event m of
        None \<Rightarrow> None
      | Some (None, m') \<Rightarrow> Some (m', d)
      | Some (Some event, m') \<Rightarrow>
          (case wm_handle_mouse font event d of
             None \<Rightarrow> None
           | Some d' \<Rightarrow> drain_mouse font m' d'))"

definition idle_turn :: "font \<Rightarrow> mouse \<times> desktop \<Rightarrow> (mouse \<times> desktop) option" where
  "idle_turn font = (\<lambda>(m, d). do {
     (m, d) \<leftarrow> drain_mouse font m d;
     (r, d) \<leftarrow> with_wm (\<lambda>wm. Some (needs_composite wm, wm)) d;
     d \<leftarrow> (if (case r of Some b \<Rightarrow> b | None \<Rightarrow> False) then wm_composite font d else Some d);
     Some (m, d)
   })"

section \<open>Draining the queue\<close>

lemma drain_mouse_empty:
  assumes "ring_inv (MOUSE_QUEUE m)" and "ring_list (MOUSE_QUEUE m) = []"
  shows "drain_mouse font m d = Some (m, d)"
  using mouseq.deq_empty [OF assms] by (simp add: drain_mouse.simps [of font m d] try_read_event_def)

lemma drain_mouse_refines:
  assumes "ring_inv (MOUSE_QUEUE m)"
  shows "\<exists>m'. drain_mouse font m d = map_option (Pair m') (foldM (wm_handle_mouse font) (ring_list (MOUSE_QUEUE m)) d) \<and>
    m' = m\<lparr>MOUSE_QUEUE := MOUSE_QUEUE m'\<rparr> \<and> (foldM (wm_handle_mouse font) (ring_list (MOUSE_QUEUE m)) d \<noteq> None \<longrightarrow>
      ring_inv (MOUSE_QUEUE m') \<and> ring_list (MOUSE_QUEUE m') = [])"
  using assms
proof (induction "ring_list (MOUSE_QUEUE m)" arbitrary: m d)
  case Nil
  then show ?case using drain_mouse_empty [OF Nil.prems] by (intro exI [of _ m]) simp
next
  case (Cons e es)
  obtain q where q: "mouse_pop (MOUSE_QUEUE m) = Some (Some e, q)" "ring_inv q" "ring_list q = es"
    using mouseq.deq_front [OF Cons.prems Cons.hyps(2) [symmetric]] by blast
  let ?m = "m\<lparr>MOUSE_QUEUE := q\<rparr>"
  show ?case
  proof (cases "wm_handle_mouse font e d")
    case None
    then show ?thesis using q(1) Cons.hyps(2) [symmetric]
      by (intro exI [of _ m]) (simp add: drain_mouse.simps [of font m d] try_read_event_def)
  next
    case (Some d1)
    have "drain_mouse font m d = drain_mouse font ?m d1"
      using q(1) Some by (simp add: drain_mouse.simps [of font m d] try_read_event_def)
    moreover obtain m' where "drain_mouse font ?m d1 = map_option (Pair m') (foldM (wm_handle_mouse font) es d1)"
      "m' = ?m\<lparr>MOUSE_QUEUE := MOUSE_QUEUE m'\<rparr>"
      "foldM (wm_handle_mouse font) es d1 \<noteq> None \<longrightarrow> ring_inv (MOUSE_QUEUE m') \<and> ring_list (MOUSE_QUEUE m') = []"
      using Cons.hyps(1) [of ?m d1] q(2,3) by auto
    ultimately show ?thesis using Some Cons.hyps(2) [symmetric] by (intro exI [of _ m']) auto
  qed
qed

lemma mouse_events_serve: "foldM (wm_handle_mouse font) es = foldM (serve font) (map Mouse_event es)"
proof -
  have "(\<lambda>e. serve font (Mouse_event e)) = wm_handle_mouse font" by (simp add: fun_eq_iff)
  then show ?thesis by (intro ext) (simp only: foldM_map)
qed

lemma serve_all_up_to_date:
  assumes "foldM (serve font) rs d = Some d'" and "desk_inv info k d" and "font_ok font" and "keeps_colour info"
    and "\<forall>r \<in> set rs. request_ok r \<and> announced r" and "up_to_date font info d" and "k + length rs \<le> 2 ^ 32"
  shows "up_to_date font info d'"
  using assms(1,2,5-7)
proof (induction rs arbitrary: k d)
  case (Cons r rs)
  obtain d1 where d1: "serve font r d = Some d1" "desk_inv info (Suc k) d1"
    using serve_inv [OF Cons.prems(2) assms(3), of r] Cons.prems(3,5) by auto
  have "up_to_date font info d1"
    by (rule serve_up_to_date [OF d1(1) Cons.prems(2) assms(3,4) _ _ Cons.prems(4)]) (use Cons.prems(3) in auto)
  then show ?case using Cons.IH [OF _ d1(2)] Cons.prems d1(1) by auto
qed simp

text \<open>C16: a turn of the idle task ends and refreshes the screen. However many mouse events wait (at most 127), the drain
  loop ends, no panic occurs and the queue is empty afterwards. The desktop is the one that handling every waiting
  event once, in order, and then composing if that is due makes of it: no event is lost. No composition is due any
  more, and every pixel of the screen shows the pointer over the scene of the windows.\<close>

theorem idle_turn_refreshes:
  assumes "mouse_inv m" and "desk_inv info k d" and "font_ok font" and "keeps_colour info" and "up_to_date font info d"
    and "k + 127 \<le> 2 ^ 32"
  shows "\<exists>m' d' d1 wm1 wm fb. idle_turn font (m, d) = Some (m', d') \<and> ring_list (MOUSE_QUEUE m') = [] \<and>
    foldM (wm_handle_mouse font) (ring_list (MOUSE_QUEUE m)) d = Some d1 \<and> WM d1 = Some wm1 \<and>
    Some d' = (if needs_composite wm1 then wm_composite font d1 else Some d1) \<and>
    WM d' = Some wm \<and> FB_STATE d' = Some (info, fb) \<and> \<not> needs_composite wm \<and>
    (\<forall>x < width info. \<forall>y < height info. read_pixel info fb x y = Some (
      case colour_at (cursor_pic (wm_cursor wm)) (x, y) of None \<Rightarrow> scene font info wm (x, y) | Some c \<Rightarrow> c))"
proof -
  let ?es = "ring_list (MOUSE_QUEUE m)"
  have ring: "ring_inv (MOUSE_QUEUE m)" using assms(1) by (simp add: mouse_inv_def)
  have ok: "\<forall>r \<in> set (map Mouse_event ?es). request_ok r \<and> announced r"
    using assms(1) by (auto simp: mouse_inv_def Mouse.event_ok_def move_ok_def i16_range_def)
  have len: "length ?es \<le> 127" using mouseq.within_capacity [OF ring] by (simp add: BUF_SIZE_def)
  obtain d1 where d1: "foldM (wm_handle_mouse font) ?es d = Some d1" "desk_inv info (k + length ?es) d1"
    using serve_all_inv [OF assms(2,3), of "map Mouse_event ?es"] ok len assms(6) by (auto simp: mouse_events_serve)
  have up: "up_to_date font info d1"
    using serve_all_up_to_date [OF _ assms(2-4) ok assms(5)] d1(1) len assms(6) by (simp add: mouse_events_serve)
  obtain m' where m': "drain_mouse font m d = Some (m', d1)" "ring_list (MOUSE_QUEUE m') = []"
    using drain_mouse_refines [OF ring, of font d] d1(1) by auto
  obtain wm1 fb1 where w1: "WM d1 = Some wm1" "FB_STATE d1 = Some (info, fb1)" "length fb1 = frame_size info" "wm_inv info wm1"
    using d1(2) by (auto simp: desk_inv_def)
  have canvas: "(x, y) \<in> canvas info (frame_size info)" if "x < width info" "y < height info" for x y
    using wm_inv_facts(2) [OF w1(4)] that by (intro frame_canvas) (auto simp: frame_size_def)
  show ?thesis
  proof (cases "needs_composite wm1")
    case True
    obtain wm2 fb2 where c: "composite font info (wm1, fb1) = Some (wm2, fb2)"
      "cursor_over info (frame_size info) (scene font info wm1) (wm_cursor wm2) fb2"
      "scene font info wm2 = scene font info wm1" "\<not> needs_composite wm2"
      by (rule composite_scene [OF w1(4) assms(3,4) w1(3)])
    have "idle_turn font (m, d) = Some (m', d1\<lparr>WM := Some wm2, FB_STATE := Some (info, fb2)\<rparr>)"
      using m'(1) w1(1,2) True c(1) by (simp add: idle_turn_def with_wm_def wm_composite_def)
    moreover have "\<forall>x < width info. \<forall>y < height info. read_pixel info fb2 x y = Some (
      case colour_at (cursor_pic (wm_cursor wm2)) (x, y) of None \<Rightarrow> scene font info wm2 (x, y) | Some c \<Rightarrow> c)"
      unfolding c(3) using c(2) canvas by (simp add: cursor_over_def)
    moreover have "wm_composite font d1 = Some (d1\<lparr>WM := Some wm2, FB_STATE := Some (info, fb2)\<rparr>)"
      using w1(1,2) c(1) by (simp add: wm_composite_def)
    ultimately show ?thesis using m'(2) d1(1) c(4) w1(1) True
      by (intro exI [of _ m'] exI [of _ "d1\<lparr>WM := Some wm2, FB_STATE := Some (info, fb2)\<rparr>"] exI [of _ d1] exI [of _ wm1] exI [of _ wm2]
          exI [of _ fb2]) simp
  next
    case False
    have "d1\<lparr>WM := Some wm1\<rparr> = d1" using w1(1) by simp
    then have "idle_turn font (m, d) = Some (m', d1)"
      using m'(1) w1(1) False by (simp add: idle_turn_def with_wm_def)
    moreover have "\<forall>x < width info. \<forall>y < height info. read_pixel info fb1 x y = Some (
      case colour_at (cursor_pic (wm_cursor wm1)) (x, y) of None \<Rightarrow> scene font info wm1 (x, y) | Some c \<Rightarrow> c)"
      using up w1(1,2) False canvas by (auto simp: up_to_date_def cursor_over_def)
    ultimately show ?thesis using m'(2) d1(1) w1(1,2) False
      by (intro exI [of _ m'] exI [of _ d1] exI [of _ d1] exI [of _ wm1] exI [of _ wm1] exI [of _ fb1]) simp
  qed
qed

theorem idle_turn_refreshes_witness:
  "\<exists>d m' d' wm. wm_init sample_desktop = Some d \<and> idle_turn block_font (mouse_static, d) = Some (m', d') \<and> WM d' = Some wm \<and>
    \<not> needs_composite wm"
proof -
  obtain d where d: "wm_init sample_desktop = Some d" "desk_inv sample_info 0 d" "up_to_date block_font sample_info d"
    by (rule wm_init_inv [OF sample_desktop_ok]) (auto simp: up_to_date_def)
  have k: "0 + 127 \<le> (2 :: nat) ^ 32" by simp
  from idle_turn_refreshes [OF mouse_inv_static d(2) block_font_ok sample_info_ok(2) d(3) k] d(1) show ?thesis by blast
qed

end
