(* ===== verification/Shell.thy ===== *)
theory Shell
  imports Device Keyboard Format Allocator
begin

text \<open>
  The shell task of \<^verbatim>\<open>kernel/src/shell.rs\<close>: the line editor, the command parser and the commands. The
  shell draws through the functions of the window manager; \<^verbatim>\<open>cmd_halt\<close> never returns, so a command tells
  whether the task goes on (\<open>Continues\<close>). A decoded key is that of the crate \<^verbatim>\<open>pc-keyboard\<close>.
\<close>

section \<open>Definitions\<close>

definition MAX_LINE :: usize where "MAX_LINE = 256"

definition PROMPT :: "unichar list" where "PROMPT = lit ''r-os> ''"

datatype decoded_key = Unicode unichar | RawKey

datatype control = Continues | Halts

record shell_line =
  line_buf :: "u8 list"
  line_len :: usize

text \<open>\<^verbatim>\<open>char::is_whitespace\<close> (the property White_Space of Unicode), \<^verbatim>\<open>str::trim\<close> and
  \<^verbatim>\<open>char::is_ascii_control\<close>.\<close>

definition is_whitespace :: "unichar \<Rightarrow> bool" where
  "is_whitespace c \<longleftrightarrow> 9 \<le> c \<and> c \<le> 13 \<or> c \<in> {0x20, 0x85, 0xA0, 0x1680, 0x2028, 0x2029, 0x202F, 0x205F, 0x3000} \<or>
     0x2000 \<le> c \<and> c \<le> 0x200A"

definition trim :: "unichar list \<Rightarrow> unichar list" where
  "trim s = rev (dropWhile is_whitespace (rev (dropWhile is_whitespace s)))"

definition is_ascii_control :: "unichar \<Rightarrow> bool" where
  "is_ascii_control c \<longleftrightarrow> c < 0x20 \<or> c = 0x7F"

definition ln :: "string \<Rightarrow> unichar list" where
  "ln s = lit s @ [10]"

definition print_prompt :: "font \<Rightarrow> usize \<Rightarrow> desktop \<Rightarrow> desktop option" where
  "print_prompt font wid d = console_write font wid PROMPT d"

definition cmd_help :: "font \<Rightarrow> usize \<Rightarrow> desktop \<Rightarrow> desktop option" where
  "cmd_help font wid d = do {
     d \<leftarrow> console_write font wid (ln ''Available commands:'') d;
     d \<leftarrow> console_write font wid (ln ''  help  - Show this help'') d;
     d \<leftarrow> console_write font wid (ln ''  echo  - Print arguments'') d;
     d \<leftarrow> console_write font wid (ln ''  clear - Clear screen'') d;
     d \<leftarrow> console_write font wid (ln ''  meminfo - Heap info'') d;
     console_write font wid (ln ''  halt  - Halt CPU'') d
   }"

definition cmd_echo :: "font \<Rightarrow> usize \<Rightarrow> unichar list \<Rightarrow> desktop \<Rightarrow> desktop option" where
  "cmd_echo font wid args d = do {
     d \<leftarrow> console_write font wid args d;
     console_write font wid [10] d
   }"

definition cmd_clear :: "usize \<Rightarrow> desktop \<Rightarrow> desktop option" where
  "cmd_clear wid d = wm_console_clear wid d"

definition cmd_meminfo :: "font \<Rightarrow> usize \<Rightarrow> desktop \<Rightarrow> desktop option" where
  "cmd_meminfo font wid d = do {
     d \<leftarrow> console_write font wid (ln ''Heap: 0x4444_4444_0000'') d;
     let size_kb = HEAP_SIZE div 1024;
     (buf, len) \<leftarrow> format_u64 (replicate 24 0) size_kb;
     d \<leftarrow> console_write font wid (lit ''Size: '') d;
     s \<leftarrow> str_of (lit ''?'') buf len;
     d \<leftarrow> console_write font wid s d;
     console_write font wid (ln '' KiB'') d
   }"

definition split_command :: "unichar list \<Rightarrow> unichar list \<times> unichar list" where
  "split_command cmd = (case position (\<lambda>c. c = 32) cmd of
      Some pos \<Rightarrow> (take pos cmd, trim (drop (pos + 1) cmd))
    | None \<Rightarrow> (cmd, []))"

definition continue_with :: "desktop option \<Rightarrow> (control \<times> desktop) option" where
  "continue_with r = map_option (Pair Continues) r"

definition execute :: "font \<Rightarrow> usize \<Rightarrow> unichar list \<Rightarrow> desktop \<Rightarrow> (control \<times> desktop) option" where
  "execute font wid cmd d =
     (let (command, args) = split_command (trim cmd)
      in if command = lit ''help'' then continue_with (cmd_help font wid d)
         else if command = lit ''echo'' then continue_with (cmd_echo font wid args d)
         else if command = lit ''clear'' then continue_with (cmd_clear wid d)
         else if command = lit ''meminfo'' then continue_with (cmd_meminfo font wid d)
         else if command = lit ''halt'' then Some (Halts, d)
         else continue_with (do {
           d \<leftarrow> console_write font wid (lit ''Unknown command: '' @ [39]) d;
           d \<leftarrow> console_write font wid command d;
           console_write font wid ([39, 10]) d
         }))"

definition handle_char :: "font \<Rightarrow> usize \<Rightarrow> unichar \<Rightarrow> shell_line \<times> desktop \<Rightarrow> (control \<times> shell_line \<times> desktop) option" where
  "handle_char font wid c = (\<lambda>(l, d).
     if c = 10 \<or> c = 13 then do {
       d \<leftarrow> console_write font wid [10] d;
       cmd \<leftarrow> str_of [] (line_buf l) (line_len l);
       (ctl, d) \<leftarrow> (if cmd \<noteq> [] then execute font wid cmd d else Some (Continues, d));
       if ctl = Halts then Some (Halts, l, d)
       else do {
         d \<leftarrow> print_prompt font wid d;
         Some (Continues, l\<lparr>line_len := 0\<rparr>, d)
       }
     } else if c = 8 \<or> c = 0x7F then
       (if 0 < line_len l then do {
          n \<leftarrow> usub (line_len l) 1;
          d \<leftarrow> console_write font wid [8, 32, 8] d;
          Some (Continues, l\<lparr>line_len := n\<rparr>, d)
        } else Some (Continues, l, d))
     else if c < 0x80 \<and> \<not> is_ascii_control c then
       (if line_len l < MAX_LINE then do {
          b \<leftarrow> set_at (line_buf l) (line_len l) (of_nat c);
          n \<leftarrow> uadd (line_len l) 1;
          d \<leftarrow> console_write font wid [c] d;
          Some (Continues, l\<lparr>line_buf := b, line_len := n\<rparr>, d)
        } else Some (Continues, l, d))
     else Some (Continues, l, d))"

text \<open>The task: what it does before its loop, and one turn of the loop up to \<^verbatim>\<open>yield_now\<close>.\<close>

definition shell_start :: "font \<Rightarrow> usize \<Rightarrow> desktop \<Rightarrow> (shell_line \<times> desktop) option" where
  "shell_start font wid d = do {
     d \<leftarrow> console_write font wid (ln ''Welcome to r-os shell.'' @ lit ''Type '' @ [39] @ lit ''help'' @ [39] @ ln '' for commands.'' @ [10]) d;
     d \<leftarrow> print_prompt font wid d;
     d \<leftarrow> console_show_cursor wid d;
     Some (\<lparr>line_buf = replicate MAX_LINE 0, line_len = 0\<rparr>, d)
   }"

definition shell_key :: "font \<Rightarrow> usize \<Rightarrow> decoded_key \<Rightarrow> shell_line \<times> desktop \<Rightarrow> (control \<times> shell_line \<times> desktop) option" where
  "shell_key font wid key = (\<lambda>(l, d). do {
     d \<leftarrow> console_hide_cursor wid d;
     (ctl, l, d) \<leftarrow> (case key of Unicode c \<Rightarrow> handle_char font wid c (l, d) | RawKey \<Rightarrow> Some (Continues, l, d));
     if ctl = Halts then Some (Halts, l, d)
     else do {
       d \<leftarrow> console_show_cursor wid d;
       d \<leftarrow> wm_mark_dirty wid d;
       Some (Continues, l, d)
     }
   })"

definition shell_turn :: "font \<Rightarrow> usize \<Rightarrow> ('k, 'ev, 'er) add_byte \<Rightarrow> ('k, 'ev, decoded_key) process_keyevent \<Rightarrow>
    shell_line \<times> u8 ring \<times> 'k \<times> desktop \<Rightarrow> (control \<times> shell_line \<times> u8 ring \<times> 'k \<times> desktop) option" where
  "shell_turn font wid ab pk = (\<lambda>(l, q, kb, d).
     if wm_is_focused wid d then do {
       (key, q, kb) \<leftarrow> try_read_key ab pk q kb;
       case key of
         Some key \<Rightarrow> do { (ctl, l, d) \<leftarrow> shell_key font wid key (l, d); Some (ctl, l, q, kb, d) }
       | None \<Rightarrow> Some (Continues, l, q, kb, d)
     } else Some (Continues, l, q, kb, d))"

section \<open>What the shell prints\<close>

datatype reply = Print "unichar list" | Wipe | Stop

definition reply :: "unichar list \<Rightarrow> reply" where
  "reply cmd = (let (command, args) = split_command (trim cmd)
     in if command = lit ''help'' then Print (ln ''Available commands:'' @ ln ''  help  - Show this help'' @
            ln ''  echo  - Print arguments'' @ ln ''  clear - Clear screen'' @ ln ''  meminfo - Heap info'' @ ln ''  halt  - Halt CPU'')
        else if command = lit ''echo'' then Print (args @ [10])
        else if command = lit ''clear'' then Wipe
        else if command = lit ''meminfo'' then Print (ln ''Heap: 0x4444_4444_0000'' @ ln ''Size: 8192 KiB'')
        else if command = lit ''halt'' then Stop
        else Print (lit ''Unknown command: '' @ [39] @ command @ [39, 10]))"

definition printable :: "unichar \<Rightarrow> bool" where
  "printable c \<longleftrightarrow> 0x20 \<le> c \<and> c < 0x7F"

text \<open>The line editor on a terminal: the line typed so far and the text of the window.\<close>

definition edit :: "nat \<Rightarrow> nat \<Rightarrow> unichar \<Rightarrow> unichar list \<times> terminal \<Rightarrow> control \<times> unichar list \<times> terminal" where
  "edit n_cols n_rows c = (\<lambda>(line, t). (let out = term_write_str n_cols n_rows
     in if c = 10 \<or> c = 13 then
          (if line = [] then (Continues, [], out PROMPT (out [10] t))
           else (case reply line of
               Print s \<Rightarrow> (Continues, [], out PROMPT (out s (out [10] t)))
             | Wipe \<Rightarrow> (Continues, [], out PROMPT (term_clear (out [10] t)))
             | Stop \<Rightarrow> (Halts, line, out [10] t)))
        else if (c = 8 \<or> c = 0x7F) \<and> line \<noteq> [] then (Continues, butlast line, out [8, 32, 8] t)
        else if printable c \<and> length line < 256 then (Continues, line @ [c], out [c] t)
        else (Continues, line, t)))"

definition line_text :: "shell_line \<Rightarrow> unichar list" where
  "line_text l = map unat (take (line_len l) (line_buf l))"

definition line_inv :: "shell_line \<Rightarrow> bool" where
  "line_inv l \<longleftrightarrow> length (line_buf l) = 256 \<and> line_len l \<le> 256 \<and> (\<forall>c \<in> set (line_text l). printable c)"

section \<open>Characters\<close>

lemma trim_subset: "set (trim s) \<subseteq> set s"
  unfolding trim_def by (auto dest!: set_dropWhileD)

lemma split_command_subset: "set (fst (split_command s)) \<subseteq> set s \<and> set (snd (split_command s)) \<subseteq> set s"
proof (cases "position (\<lambda>c. c = 32) s")
  case (Some pos)
  have "set (trim (drop (pos + 1) s)) \<subseteq> set s"
    using trim_subset [of "drop (pos + 1) s"] set_drop_subset [of "pos + 1" s] by blast
  then show ?thesis using set_take_subset [of pos s] by (simp add: split_command_def Some)
qed (simp add: split_command_def)

lemma line_str: "line_inv l \<Longrightarrow> str_of [] (line_buf l) (line_len l) = Some (line_text l)"
  unfolding line_text_def by (rule str_of_ascii) (auto simp: line_inv_def line_text_def printable_def)

lemma no_cr_lit [simp]: "13 \<notin> set (lit ''Unknown command: '')" "13 \<notin> set PROMPT"
  by (simp_all add: lit_def PROMPT_def)

lemma format_heap_size:
  obtains buf len where "format_u64 (replicate 24 0) (HEAP_SIZE div 1024) = Some (buf, len)"
    and "str_of (lit ''?'') buf len = Some (lit ''8192'')"
proof -
  have val: "unat (HEAP_SIZE div 1024) = 8192" by (simp add: HEAP_SIZE_def)
  have digs: "dec_text 8192 = [56, 49, 57, 50]" by (simp add: dec_text.simps)
  have len24: "20 \<le> length (replicate 24 (0 :: u8))" by simp
  obtain b where b: "format_u64 (replicate 24 0) (HEAP_SIZE div 1024) = Some (b, length (dec_text 8192))"
    "take (length (dec_text 8192)) b = dec_text 8192"
    using format_u64_spec [OF len24, of "HEAP_SIZE div 1024"] unfolding val by blast
  have l4: "length (dec_text 8192) = 4" by (simp add: digs)
  have "4 \<le> length b" using arg_cong [OF b(2), of length] by (simp add: digs)
  then have "str_of (lit ''?'') b (length (dec_text 8192)) = Some (map unat (dec_text 8192))"
    using str_of_ascii [of 4 b] b(2) unfolding l4 by (simp add: digs)
  then show ?thesis using b(1) by (intro that) (simp_all add: digs lit_def)
qed

section \<open>Commands\<close>

lemma hidden_continue:
  assumes "dev.hidden_run font info wid n_cols n_rows f g" and "device_text font info wid n_cols n_rows False t d"
  shows "\<exists>d'. continue_with (f d) = Some (Continues, d') \<and> device_text font info wid n_cols n_rows False (g t) d'"
  using dev.hidden_runE [OF assms] by (metis continue_with_def option.simps(9))

lemma no_cr_ln: "13 \<notin> set (lit s) \<Longrightarrow> 13 \<notin> set (ln s)"
  by (simp add: ln_def)

lemma help_run:
  "dev.hidden_run font info wid n_cols n_rows (cmd_help font wid) (term_write_str n_cols n_rows (ln ''Available commands:'' @
     ln ''  help  - Show this help'' @ ln ''  echo  - Print arguments'' @ ln ''  clear - Clear screen'' @
     ln ''  meminfo - Heap info'' @ ln ''  halt  - Halt CPU''))"
proof -
  let ?ss = "[ln ''Available commands:'', ln ''  help  - Show this help'', ln ''  echo  - Print arguments'',
    ln ''  clear - Clear screen'', ln ''  meminfo - Heap info'', ln ''  halt  - Halt CPU'']"
  have "13 \<notin> set (concat ?ss)" by (simp add: ln_def lit_def)
  moreover have "cmd_help font wid = foldM (console_write font wid) ?ss"
    by (auto simp: fun_eq_iff cmd_help_def split: option.split bind_split)
  ultimately show ?thesis using dev.hidden_writes [of ?ss] by simp
qed

lemma echo_run:
  assumes "13 \<notin> set args"
  shows "dev.hidden_run font info wid n_cols n_rows (cmd_echo font wid args) (term_write_str n_cols n_rows (args @ [10]))"
proof -
  have "cmd_echo font wid args = foldM (console_write font wid) [args, [10]]"
    by (auto simp: fun_eq_iff cmd_echo_def split: option.split bind_split)
  then show ?thesis using dev.hidden_writes [of "[args, [10]]"] assms by simp
qed

lemma unknown_run:
  assumes "13 \<notin> set command"
  shows "dev.hidden_run font info wid n_cols n_rows (\<lambda>d. do { d \<leftarrow> console_write font wid (lit ''Unknown command: '' @ [39]) d;
      d \<leftarrow> console_write font wid command d; console_write font wid [39, 10] d })
    (term_write_str n_cols n_rows (lit ''Unknown command: '' @ [39] @ command @ [39, 10]))"
proof -
  let ?ss = "[lit ''Unknown command: '' @ [39], command, [39, 10]]"
  have "(\<lambda>d. do { d \<leftarrow> console_write font wid (lit ''Unknown command: '' @ [39]) d;
      d \<leftarrow> console_write font wid command d; console_write font wid [39, 10] d }) = foldM (console_write font wid) ?ss"
    by (auto simp: fun_eq_iff split: option.split bind_split)
  then show ?thesis using dev.hidden_writes [of ?ss] assms by simp
qed

lemma meminfo_run:
  "dev.hidden_run font info wid n_cols n_rows (cmd_meminfo font wid)
     (term_write_str n_cols n_rows (ln ''Heap: 0x4444_4444_0000'' @ ln ''Size: 8192 KiB''))"
proof -
  obtain buf len where f: "format_u64 (replicate 24 0) (HEAP_SIZE div 1024) = Some (buf, len)"
    "str_of (lit ''?'') buf len = Some (lit ''8192'')" by (rule format_heap_size)
  let ?ss = "[ln ''Heap: 0x4444_4444_0000'', lit ''Size: '', lit ''8192'', ln '' KiB'']"
  have "13 \<notin> set (concat ?ss)" by (simp add: ln_def lit_def)
  moreover have "cmd_meminfo font wid = foldM (console_write font wid) ?ss"
    using f by (auto simp: fun_eq_iff cmd_meminfo_def Let_def split: option.split bind_split)
  moreover have "concat ?ss = ln ''Heap: 0x4444_4444_0000'' @ ln ''Size: 8192 KiB''" by (simp add: ln_def lit_def)
  ultimately show ?thesis using dev.hidden_writes [of ?ss] by metis
qed

lemma execute_spec:
  assumes "device_text font info wid n_cols n_rows False t d" and "13 \<notin> set cmd"
  shows "\<exists>d'. (case reply cmd of
      Print s \<Rightarrow> execute font wid cmd d = Some (Continues, d') \<and> device_text font info wid n_cols n_rows False (term_write_str n_cols n_rows s t) d'
    | Wipe \<Rightarrow> execute font wid cmd d = Some (Continues, d') \<and> device_text font info wid n_cols n_rows False (term_clear t) d'
    | Stop \<Rightarrow> execute font wid cmd d = Some (Halts, d') \<and> d' = d)"
proof -
  obtain command args where sc: "split_command (trim cmd) = (command, args)" by (cases "split_command (trim cmd)")
  have cr: "13 \<notin> set command" "13 \<notin> set args"
    using split_command_subset [of "trim cmd"] trim_subset [of cmd] assms(2) by (auto simp: sc)
  have distinct: "lit ''help'' \<noteq> lit ''echo''" "lit ''help'' \<noteq> lit ''clear''" "lit ''help'' \<noteq> lit ''meminfo''" "lit ''help'' \<noteq> lit ''halt''"
    "lit ''echo'' \<noteq> lit ''clear''" "lit ''echo'' \<noteq> lit ''meminfo''" "lit ''echo'' \<noteq> lit ''halt''" "lit ''clear'' \<noteq> lit ''meminfo''"
    "lit ''clear'' \<noteq> lit ''halt''" "lit ''meminfo'' \<noteq> lit ''halt''"
    by (simp_all add: lit_def)
  note runs = hidden_continue [OF _ assms(1)]
  have clear: "dev.hidden_run font info wid n_cols n_rows (cmd_clear wid) term_clear"
    using dev.hidden_wipe by (simp add: cmd_clear_def [abs_def])
  consider "command = lit ''help''" | "command = lit ''echo''" | "command = lit ''clear''" | "command = lit ''meminfo''" | "command = lit ''halt''"
    | "command \<notin> {lit ''help'', lit ''echo'', lit ''clear'', lit ''meminfo'', lit ''halt''}" by blast
  then show ?thesis
  proof cases
    case 1
    then show ?thesis using runs [OF help_run] by (simp add: execute_def reply_def sc)
  next
    case 2
    then show ?thesis using runs [OF echo_run [OF cr(2)]] distinct by (simp add: execute_def reply_def sc)
  next
    case 3
    then show ?thesis using runs [OF clear] distinct by (simp add: execute_def reply_def sc)
  next
    case 4
    then show ?thesis using runs [OF meminfo_run] distinct by (simp add: execute_def reply_def sc)
  next
    case 5
    then show ?thesis using distinct by (simp add: execute_def reply_def sc)
  next
    case 6
    then show ?thesis using runs [OF unknown_run [OF cr(1)]] by (simp add: execute_def reply_def sc)
  qed
qed

section \<open>The line editor\<close>

lemma write_step:
  assumes "device_text font info wid n_cols n_rows False t d" and "13 \<notin> set s"
  obtains d' where "console_write font wid s d = Some d'" and "device_text font info wid n_cols n_rows False (term_write_str n_cols n_rows s t) d'"
  using dev.write_text [OF assms] by blast

lemma line_text_snoc:
  assumes "line_inv l" and "line_len l < 256" and "c < 0x80"
  shows "line_text (l\<lparr>line_buf := (line_buf l)[line_len l := of_nat c], line_len := Suc (line_len l)\<rparr>) = line_text l @ [c]"
proof -
  have "unat (of_nat c :: u8) = c" using assms(3) by (simp add: unsigned_of_nat take_bit_nat_eq_self)
  then show ?thesis using assms(1,2) by (simp add: line_text_def line_inv_def take_Suc_conv_app_nth)
qed

lemma line_text_butlast:
  assumes "line_inv l"
  shows "line_text (l\<lparr>line_len := line_len l - 1\<rparr>) = butlast (line_text l)"
  using assms by (simp add: line_text_def line_inv_def butlast_take map_butlast [symmetric])

lemma length_line_text: "line_inv l \<Longrightarrow> length (line_text l) = line_len l"
  by (simp add: line_text_def line_inv_def)

text \<open>Enter runs the line as a command and prints a new prompt.\<close>

lemma enter_refines:
  assumes "c = 10 \<or> c = 13" and "device_text font info wid n_cols n_rows False t d" and "line_inv l"
  shows "\<exists>l' d'. handle_char font wid c (l, d) = Some (fst (edit n_cols n_rows c (line_text l, t)), l', d') \<and> line_inv l' \<and>
    line_text l' = fst (snd (edit n_cols n_rows c (line_text l, t))) \<and>
    device_text font info wid n_cols n_rows False (snd (snd (edit n_cols n_rows c (line_text l, t)))) d'"
proof -
  let ?out = "term_write_str n_cols n_rows"
  obtain d1 where d1: "console_write font wid [10] d = Some d1" "device_text font info wid n_cols n_rows False (?out [10] t) d1"
    by (rule write_step [OF assms(2), of "[10]"]) auto
  have str: "str_of [] (line_buf l) (line_len l) = Some (line_text l)" by (rule line_str [OF assms(3)])
  have inv0: "line_inv (l\<lparr>line_len := 0\<rparr>)" "line_text (l\<lparr>line_len := 0\<rparr>) = []" using assms(3) by (auto simp: line_inv_def line_text_def)
  have prompt: "\<exists>d'. print_prompt font wid e = Some d' \<and> device_text font info wid n_cols n_rows False (?out PROMPT s) d'"
    if "device_text font info wid n_cols n_rows False s e" for s e
    using dev.write_text [OF that, of PROMPT] by (simp add: print_prompt_def)
  show ?thesis
  proof (cases "line_text l = []")
    case True
    then show ?thesis using assms(1) d1(1) str prompt [OF d1(2)] inv0 by (auto simp: handle_char_def edit_def Let_def)
  next
    case False
    have cr: "13 \<notin> set (line_text l)" using assms(3) by (auto simp: line_inv_def printable_def)
    from execute_spec [OF d1(2) cr] show ?thesis
    proof (cases "reply (line_text l)")
      case (Print s)
      then obtain e where "execute font wid (line_text l) d1 = Some (Continues, e)" "device_text font info wid n_cols n_rows False (?out s (?out [10] t)) e"
        using execute_spec [OF d1(2) cr] by auto
      then show ?thesis using assms(1) d1(1) str prompt [of "?out s (?out [10] t)" e] inv0 False Print by (auto simp: handle_char_def edit_def Let_def)
    next
      case Wipe
      then obtain e where "execute font wid (line_text l) d1 = Some (Continues, e)" "device_text font info wid n_cols n_rows False (term_clear (?out [10] t)) e"
        using execute_spec [OF d1(2) cr] by auto
      then show ?thesis using assms(1) d1(1) str prompt [of "term_clear (?out [10] t)" e] inv0 False Wipe by (auto simp: handle_char_def edit_def Let_def)
    next
      case Stop
      then have "execute font wid (line_text l) d1 = Some (Halts, d1)" using execute_spec [OF d1(2) cr] by auto
      then show ?thesis using assms(1) d1 str assms(3) False Stop by (auto simp: handle_char_def edit_def Let_def)
    qed
  qed
qed

lemma handle_char_refines:
  assumes "device_text font info wid n_cols n_rows False t d" and "line_inv l"
  shows "\<exists>l' d'. handle_char font wid c (l, d) = Some (fst (edit n_cols n_rows c (line_text l, t)), l', d') \<and> line_inv l' \<and>
    line_text l' = fst (snd (edit n_cols n_rows c (line_text l, t))) \<and>
    device_text font info wid n_cols n_rows False (snd (snd (edit n_cols n_rows c (line_text l, t)))) d'"
proof -
  let ?out = "term_write_str n_cols n_rows"
  have len: "length (line_text l) = line_len l" by (rule length_line_text [OF assms(2)])
  consider "c = 10 \<or> c = 13" | "c = 8 \<or> c = 0x7F" "line_len l = 0" | "c = 8 \<or> c = 0x7F" "0 < line_len l"
    | "printable c" "line_len l < 256" | "printable c" "\<not> line_len l < 256" | "c \<noteq> 10" "c \<noteq> 13" "c \<noteq> 8" "c \<noteq> 0x7F" "\<not> printable c"
    by blast
  then show ?thesis
  proof cases
    case 1
    then show ?thesis by (rule enter_refines [OF _ assms])
  next
    case 2
    then have "line_text l = []" using len by auto
    then show ?thesis using 2 assms by (auto simp: handle_char_def edit_def Let_def printable_def)
  next
    case 3
    then have ne: "line_text l \<noteq> []" using len by auto
    obtain d1 where d1: "console_write font wid [8, 32, 8] d = Some d1" "device_text font info wid n_cols n_rows False (?out [8, 32, 8] t) d1"
      by (rule write_step [OF assms(1), of "[8, 32, 8]"]) auto
    have "set (line_text (l\<lparr>line_len := line_len l - 1\<rparr>)) \<subseteq> set (line_text l)"
      unfolding line_text_butlast [OF assms(2)] by (auto dest: in_set_butlastD)
    then have "line_inv (l\<lparr>line_len := line_len l - 1\<rparr>)" using assms(2) by (auto simp: line_inv_def)
    then show ?thesis using 3 d1 ne line_text_butlast [OF assms(2)] by (auto simp: handle_char_def edit_def Let_def in_range)
  next
    case 4
    then have c: "c \<noteq> 10" "c \<noteq> 13" "c \<noteq> 8" "c \<noteq> 0x7F" "c < 0x80" "\<not> is_ascii_control c" by (auto simp: printable_def is_ascii_control_def)
    obtain d1 where d1: "console_write font wid [c] d = Some d1" "device_text font info wid n_cols n_rows False (?out [c] t) d1"
      by (rule write_step [OF assms(1), of "[c]"]) (use c in auto)
    note snoc = line_text_snoc [OF assms(2) 4(2) c(5)]
    have "length (line_buf l) = 256" using assms(2) by (simp add: line_inv_def)
    moreover have "line_inv (l\<lparr>line_buf := (line_buf l)[line_len l := of_nat c], line_len := Suc (line_len l)\<rparr>)"
      using assms(2) 4 unfolding line_inv_def snoc by auto
    ultimately show ?thesis using 4 c d1 snoc len by (auto simp: handle_char_def edit_def Let_def in_range MAX_LINE_def)
  next
    case 5
    then show ?thesis using assms len by (auto simp: handle_char_def edit_def Let_def MAX_LINE_def printable_def is_ascii_control_def)
  next
    case 6
    then show ?thesis using assms by (auto simp: handle_char_def edit_def Let_def printable_def is_ascii_control_def)
  qed
qed

section \<open>A session\<close>

text \<open>The keys the shell takes in its turns, one after the other, until it halts.\<close>

fun shell_keys :: "font \<Rightarrow> usize \<Rightarrow> decoded_key list \<Rightarrow> shell_line \<times> desktop \<Rightarrow> (control \<times> shell_line \<times> desktop) option" where
  "shell_keys font wid [] (l, d) = Some (Continues, l, d)"
| "shell_keys font wid (key # keys) (l, d) = do {
     (ctl, l, d) \<leftarrow> shell_key font wid key (l, d);
     if ctl = Halts then Some (Halts, l, d) else shell_keys font wid keys (l, d)
   }"

fun edit_keys :: "nat \<Rightarrow> nat \<Rightarrow> decoded_key list \<Rightarrow> unichar list \<times> terminal \<Rightarrow> control \<times> unichar list \<times> terminal" where
  "edit_keys n_cols n_rows [] (line, t) = (Continues, line, t)"
| "edit_keys n_cols n_rows (Unicode c # keys) (line, t) = (case edit n_cols n_rows c (line, t) of
      (Continues, line, t) \<Rightarrow> edit_keys n_cols n_rows keys (line, t)
    | (Halts, line, t) \<Rightarrow> (Halts, line, t))"
| "edit_keys n_cols n_rows (RawKey # keys) (line, t) = edit_keys n_cols n_rows keys (line, t)"

lemma show_and_mark:
  assumes "device_text font info wid n_cols n_rows vis t d"
  obtains d1 d2 where "console_show_cursor wid d = Some d1" and "wm_mark_dirty wid d1 = Some d2"
    and "device_text font info wid n_cols n_rows True t d2"
  using dev.show_text [OF assms] dev.touch_text by metis

lemma shell_keys_refine:
  assumes "device_text font info wid n_cols n_rows True t d" and "line_inv l"
  shows "\<exists>l' d'. shell_keys font wid keys (l, d) = Some (fst (edit_keys n_cols n_rows keys (line_text l, t)), l', d') \<and> line_inv l' \<and>
    line_text l' = fst (snd (edit_keys n_cols n_rows keys (line_text l, t))) \<and>
    device_text font info wid n_cols n_rows (fst (edit_keys n_cols n_rows keys (line_text l, t)) = Continues)
      (snd (snd (edit_keys n_cols n_rows keys (line_text l, t)))) d'"
  using assms
proof (induction keys arbitrary: l t d)
  case (Cons key keys)
  obtain d1 where d1: "console_hide_cursor wid d = Some d1" "device_text font info wid n_cols n_rows False t d1"
    using dev.hide_text [OF Cons.prems(1)] by blast
  show ?case
  proof (cases key)
    case RawKey
    obtain d2 d3 where d: "console_show_cursor wid d1 = Some d2" "wm_mark_dirty wid d2 = Some d3" "device_text font info wid n_cols n_rows True t d3"
      by (rule show_and_mark [OF d1(2)])
    have "shell_key font wid key (l, d) = Some (Continues, l, d3)" using d1(1) d(1,2) by (simp add: shell_key_def RawKey)
    then show ?thesis using Cons.IH [OF d(3) Cons.prems(2)] by (simp add: RawKey)
  next
    case (Unicode c)
    obtain ctl line t' where e: "edit n_cols n_rows c (line_text l, t) = (ctl, line, t')" by (cases "edit n_cols n_rows c (line_text l, t)")
    obtain l1 d2 where h: "handle_char font wid c (l, d1) = Some (ctl, l1, d2)" "line_inv l1" "line_text l1 = line"
      "device_text font info wid n_cols n_rows False t' d2"
      using handle_char_refines [OF d1(2) Cons.prems(2), of c] e by auto
    show ?thesis
    proof (cases ctl)
      case Halts
      then show ?thesis using d1(1) h e by (simp add: shell_key_def Unicode)
    next
      case Continues
      obtain d3 d4 where d: "console_show_cursor wid d2 = Some d3" "wm_mark_dirty wid d3 = Some d4" "device_text font info wid n_cols n_rows True t' d4"
        by (rule show_and_mark [OF h(4)])
      have "shell_key font wid key (l, d) = Some (Continues, l1, d4)" using d1(1) h(1) d(1,2) Continues by (simp add: shell_key_def Unicode)
      then show ?thesis using Cons.IH [OF d(3) h(2)] e Continues h(3) by (simp add: Unicode)
    qed
  qed
qed simp

definition greeting :: "unichar list" where
  "greeting = ln ''Welcome to r-os shell.'' @ lit ''Type '' @ [39] @ lit ''help'' @ [39] @ ln '' for commands.'' @ [10] @ PROMPT"

lemma shell_start_text:
  assumes "device_text font info wid n_cols n_rows False t d"
  obtains l d' where "shell_start font wid d = Some (l, d')" and "line_inv l" and "line_text l = []"
    and "device_text font info wid n_cols n_rows True (term_write_str n_cols n_rows greeting t) d'"
proof -
  let ?w = "ln ''Welcome to r-os shell.'' @ lit ''Type '' @ [39] @ lit ''help'' @ [39] @ ln '' for commands.'' @ [10]"
  have "13 \<notin> set (concat [?w, PROMPT])" by (simp add: ln_def lit_def PROMPT_def)
  from dev.writes_text [OF assms this] obtain d2 where w: "foldM (console_write font wid) [?w, PROMPT] d = Some d2"
    "device_text font info wid n_cols n_rows False (term_write_str n_cols n_rows greeting t) d2"
    by (auto simp: greeting_def)
  obtain d3 where s: "console_show_cursor wid d2 = Some d3" "device_text font info wid n_cols n_rows True (term_write_str n_cols n_rows greeting t) d3"
    using dev.show_text [OF w(2)] by blast
  show ?thesis
  proof (rule that [of "\<lparr>line_buf = replicate MAX_LINE 0, line_len = 0\<rparr>" d3])
    show "shell_start font wid d = Some (\<lparr>line_buf = replicate MAX_LINE 0, line_len = 0\<rparr>, d3)"
      using w(1) s(1) by (auto simp: shell_start_def print_prompt_def split: option.splits)
  qed (use s(2) in \<open>simp_all add: line_inv_def line_text_def MAX_LINE_def\<close>)
qed

section \<open>Properties\<close>

text \<open>C12: the shell is the line editor. Started on a window with a console and given any keys, the shell
  never panics; the line it keeps is printable ASCII of at most 256 characters (so decoding it never
  fails), and line and window text are those of the editor: a character is echoed and appended,
  backspace takes the last one off, Enter prints the command's reply and a new prompt, and only
  \<^verbatim>\<open>halt\<close> ends the session.\<close>

theorem shell_refines_editor:
  assumes "device_text font info wid n_cols n_rows False t d"
  shows "\<exists>ctl l d' t'. shell_start font wid d \<bind> shell_keys font wid keys = Some (ctl, l, d') \<and>
    edit_keys n_cols n_rows keys ([], term_write_str n_cols n_rows greeting t) = (ctl, line_text l, t') \<and>
    (\<forall>c \<in> set (line_text l). printable c) \<and> length (line_text l) \<le> 256 \<and>
    device_text font info wid n_cols n_rows (ctl = Continues) t' d'"
proof -
  let ?w = "term_write_str n_cols n_rows greeting t"
  obtain l0 d0 where s: "shell_start font wid d = Some (l0, d0)" "line_inv l0" "line_text l0 = []"
    "device_text font info wid n_cols n_rows True ?w d0" by (rule shell_start_text [OF assms])
  obtain ctl line t' where e: "edit_keys n_cols n_rows keys ([], ?w) = (ctl, line, t')" by (cases "edit_keys n_cols n_rows keys ([], ?w)")
  from shell_keys_refine [OF s(4,2), of keys] obtain l d' where "shell_keys font wid keys (l0, d0) = Some (ctl, l, d')" "line_inv l"
    "line_text l = line" "device_text font info wid n_cols n_rows (ctl = Continues) t' d'" by (auto simp: s(3) e)
  then show ?thesis using s(1) e length_line_text [of l] by (intro exI [of _ ctl] exI [of _ l] exI [of _ d'] exI [of _ t']) (auto simp: line_inv_def)
qed

lemma sample_device: obtains d where "device_text block_font sample_info 0 63 24 False term_blank d"
proof -
  obtain d where "desk_inv sample_info 2 d" "has_text block_font 0 63 24 False term_blank d" by (rule sample_console)
  then show ?thesis using that block_font_ok desk_inv_mono [of sample_info 2 d "2 ^ 32"] by (auto simp: device_text_def has_text_def)
qed

theorem shell_refines_editor_witness:
  "\<exists>d l d' t'. shell_start block_font 0 d \<bind> shell_keys block_font 0 [Unicode 104, Unicode 105, RawKey, Unicode 8] = Some (Continues, l, d') \<and>
    line_text l = [104] \<and> device_text block_font sample_info 0 63 24 True t' d'"
proof -
  obtain d where d: "device_text block_font sample_info 0 63 24 False term_blank d" by (rule sample_device)
  have "fst (edit_keys 63 24 [Unicode 104, Unicode 105, RawKey, Unicode 8] ([], t)) = Continues"
    "fst (snd (edit_keys 63 24 [Unicode 104, Unicode 105, RawKey, Unicode 8] ([], t))) = [104]" for t
    by (simp_all add: edit_def Let_def printable_def)
  note e = this [of "term_write_str 63 24 greeting term_blank"]
  obtain ctl l d' t' where s: "shell_start block_font 0 d \<bind> shell_keys block_font 0 [Unicode 104, Unicode 105, RawKey, Unicode 8] = Some (ctl, l, d')"
    "edit_keys 63 24 [Unicode 104, Unicode 105, RawKey, Unicode 8] ([], term_write_str 63 24 greeting term_blank) = (ctl, line_text l, t')"
    "device_text block_font sample_info 0 63 24 (ctl = Continues) t' d'"
    using shell_refines_editor [OF d, of "[Unicode 104, Unicode 105, RawKey, Unicode 8]"] by blast
  have "ctl = Continues" "line_text l = [104]" using e unfolding s(2) by simp_all
  then show ?thesis using s(1,3) by auto
qed

lemma edit_keys_append_printable:
  assumes "\<forall>c \<in> set s. printable c" and "length line + length s \<le> 256"
  shows "edit_keys n_cols n_rows (map Unicode s @ keys) (line, t) = edit_keys n_cols n_rows keys (line @ s, term_write_str n_cols n_rows s t)"
  using assms
proof (induction s arbitrary: line t)
  case Nil
  then show ?case by (simp add: term_write_str_def)
next
  case (Cons c s)
  have "c \<noteq> 10" "c \<noteq> 13" "c \<noteq> 8" "c \<noteq> 0x7F" "printable c" using Cons.prems(1) by (auto simp: printable_def)
  then have "edit n_cols n_rows c (line, t) = (Continues, line @ [c], term_write_str n_cols n_rows [c] t)"
    using Cons.prems(2) by (simp add: edit_def Let_def)
  moreover have "term_write_str n_cols n_rows (c # s) t = term_write_str n_cols n_rows s (term_write_str n_cols n_rows [c] t)"
    by (simp add: term_write_str_def)
  ultimately show ?case using Cons.IH [of "line @ [c]"] Cons.prems by simp
qed

lemma reply_echo:
  assumes "trim args = args"
  shows "reply (lit ''echo '' @ args) = Print (args @ [10])"
proof -
  have ws: "\<not> is_whitespace 101" "\<not> is_whitespace 111" "is_whitespace 32" by (simp_all add: is_whitespace_def)
  have "split_command (trim (lit ''echo '' @ args)) = (lit ''echo'', args)"
  proof (cases "args = []")
    case True
    then show ?thesis using ws by (simp add: trim_def lit_def split_command_def)
  next
    case False
    have "\<not> is_whitespace (last args)"
    proof
      assume "is_whitespace (last args)"
      then have "length (dropWhile is_whitespace (rev args)) < length args"
        using False by (cases args rule: rev_cases) (auto intro!: le_imp_less_Suc order_trans [OF length_dropWhile_le])
      moreover have "length (trim args) \<le> length (dropWhile is_whitespace (rev args))"
      proof -
        obtain xs ys where a: "args = xs @ ys" "ys = dropWhile is_whitespace args" by (metis takeWhile_dropWhile_id)
        have "length (dropWhile is_whitespace (rev ys)) \<le> length (dropWhile is_whitespace (rev args))"
        proof (cases "\<forall>y \<in> set ys. is_whitespace y")
          case True
          then have "dropWhile is_whitespace (rev ys) = []" by (simp add: dropWhile_eq_Nil_conv)
          then show ?thesis by (simp only: list.size le0)
        next
          case False
          then show ?thesis unfolding a(1) rev_append by (auto simp: dropWhile_append)
        qed
        then show ?thesis by (simp add: trim_def a(2))
      qed
      ultimately show False using assms by simp
    qed
    then have "trim (lit ''echo '' @ args) = lit ''echo '' @ args"
      using False ws by (cases args rule: rev_cases) (simp_all add: trim_def lit_def)
    then show ?thesis using assms by (simp add: lit_def split_command_def)
  qed
  then show ?thesis by (simp add: reply_def) (simp add: lit_def)
qed

text \<open>\<^verbatim>\<open>echo\<close> prints its arguments. At an empty line, typing \<^verbatim>\<open>echo \<close>, printable text without spaces at
  its ends and Enter leaves the window with the typed line, the text on a line of its own and a
  new prompt, and the line empty again.\<close>

lemma shell_echo:
  assumes "device_text font info wid n_cols n_rows True t d" and "line_inv l" and "line_len l = 0"
    and "\<forall>c \<in> set args. printable c" and "trim args = args" and "length args \<le> 251"
  shows "\<exists>l' d'. shell_keys font wid (map Unicode (lit ''echo '' @ args @ [13])) (l, d) = Some (Continues, l', d') \<and> line_len l' = 0 \<and>
    device_text font info wid n_cols n_rows True (term_write_str n_cols n_rows (lit ''echo '' @ args @ [10] @ args @ [10] @ PROMPT) t) d'"
proof -
  let ?out = "term_write_str n_cols n_rows" and ?line = "lit ''echo '' @ args"
  have emp: "line_text l = []" using assms(3) by (simp add: line_text_def)
  have typed: "\<forall>c \<in> set ?line. printable c" "length ([] :: unichar list) + length ?line \<le> 256"
    using assms(4,6) by (auto simp: lit_def printable_def)
  have "edit n_cols n_rows 13 (?line, ?out ?line t) = (Continues, [], ?out PROMPT (?out (args @ [10]) (?out [10] (?out ?line t))))"
    using reply_echo [OF assms(5)] by (simp add: edit_def Let_def) (simp add: lit_def)
  then have "edit_keys n_cols n_rows (map Unicode ?line @ [Unicode 13]) ([], t) =
      (Continues, [], ?out PROMPT (?out (args @ [10]) (?out [10] (?out ?line t))))"
    unfolding edit_keys_append_printable [OF typed] by simp
  moreover have "?out PROMPT (?out (args @ [10]) (?out [10] (?out ?line t))) = ?out (lit ''echo '' @ args @ [10] @ args @ [10] @ PROMPT) t"
    by (simp add: term_write_str_def)
  moreover have "map Unicode (lit ''echo '' @ args @ [13]) = map Unicode ?line @ [Unicode 13]" by simp
  ultimately obtain l' d' where "shell_keys font wid (map Unicode (lit ''echo '' @ args @ [13])) (l, d) = Some (Continues, l', d')" "line_inv l'"
    "line_text l' = []" "device_text font info wid n_cols n_rows True (?out (lit ''echo '' @ args @ [10] @ args @ [10] @ PROMPT) t) d'"
    using shell_keys_refine [OF assms(1,2), of "map Unicode (lit ''echo '' @ args @ [13])"] by (auto simp: emp)
  then show ?thesis using length_line_text [of l'] by auto
qed

lemma device_cursor:
  assumes "device_text font info wid n_cols n_rows vis t d"
  shows "blank_ahead t" and "tcol t \<le> n_cols" and "0 < n_rows"
  using assms by (auto simp: device_text_def wm_text_def win_text_def shows_text_def con_inv_def)

text \<open>C34: what backspace does. With characters on the line it takes the last one off; on the screen it blanks
  the cell before the cursor and moves the cursor there. At the left edge of the window, where the
  line has wrapped, the screen stays as it is: the character on the row above is not erased.\<close>

theorem shell_backspace:
  assumes "device_text font info wid n_cols n_rows False t d" and "line_inv l" and "0 < line_len l" and "c = 8 \<or> c = 0x7F"
  shows "\<exists>l' d'. handle_char font wid c (l, d) = Some (Continues, l', d') \<and> line_text l' = butlast (line_text l) \<and>
    device_text font info wid n_cols n_rows False
      (if tcol t = 0 then t else t\<lparr>grid := (grid t)((trow t, tcol t - 1) := []), tcol := tcol t - 1\<rparr>) d'"
proof -
  note cur = device_cursor [OF assms(1)]
  have ne: "line_text l \<noteq> []" using length_line_text [OF assms(2)] assms(3) by auto
  have "term_write_str n_cols n_rows [8, 32, 8] t =
    (if tcol t = 0 then t else t\<lparr>grid := (grid t)((trow t, tcol t - 1) := []), tcol := tcol t - 1\<rparr>)"
  proof -
    have "grid t (trow t, 0) = []" if "tcol t = 0" using cur(1) that by (simp add: blank_ahead_def)
    then have "(grid t)((trow t, 0) := []) = grid t" if "tcol t = 0" using that by (simp add: fun_upd_idem)
    then show ?thesis using cur(2,3) by (auto simp: term_write_str_def term_write_def term_print_def)
  qed
  moreover have "edit n_cols n_rows c (line_text l, t) = (Continues, butlast (line_text l), term_write_str n_cols n_rows [8, 32, 8] t)"
    using assms(4) ne by (auto simp: edit_def Let_def)
  ultimately show ?thesis using handle_char_refines [OF assms(1,2), of c] by auto
qed

theorem shell_backspace_witness:
  "\<exists>l d l' d'. line_text l = [97, 98] \<and> handle_char block_font 0 8 (l, d) = Some (Continues, l', d') \<and> line_text l' = [97]"
proof -
  obtain d where d: "device_text block_font sample_info 0 63 24 False term_blank d" by (rule sample_device)
  let ?l = "\<lparr>line_buf = 97 # 98 # replicate 254 0, line_len = 2\<rparr>"
  have l: "line_text ?l = [97, 98]" "line_inv ?l" "0 < line_len ?l" by (simp_all add: line_inv_def line_text_def printable_def)
  from shell_backspace [OF d l(2,3), of 8] l(1) show ?thesis by auto
qed

end
