(* ===== verification/Counter.thy ===== *)
theory Counter
  imports Shell
begin

text \<open>
  The counter task of \<^verbatim>\<open>kernel/src/counter.rs\<close>: it redraws its window with the tick count and the uptime
  once at least 16 ticks have passed since the count it shows. One turn of its loop, up to
  \<^verbatim>\<open>yield_now\<close>, is \<open>counter_turn\<close>; the tick count it reads is an argument.
\<close>

section \<open>Definitions\<close>

definition counter_start :: "font \<Rightarrow> usize \<Rightarrow> desktop \<Rightarrow> (u64 \<times> desktop) option" where
  "counter_start font wid d = do {
     d \<leftarrow> console_write font wid (ln ''Tick Counter'' @ [10]) d;
     d \<leftarrow> console_write font wid (ln ''This task runs in parallel'') d;
     d \<leftarrow> console_write font wid (ln ''with the shell.'' @ [10]) d;
     Some (0, d)
   }"

definition counter_redraw :: "font \<Rightarrow> usize \<Rightarrow> u64 \<Rightarrow> desktop \<Rightarrow> desktop option" where
  "counter_redraw font wid ticks d = do {
     d \<leftarrow> wm_console_clear wid d;
     d \<leftarrow> console_write font wid (ln ''Tick Counter'' @ [10]) d;
     (buf, len) \<leftarrow> counter_format_u64 (replicate 24 0) ticks;
     s \<leftarrow> str_of (lit ''?'') buf len;
     d \<leftarrow> console_write font wid (lit ''Ticks: '') d;
     d \<leftarrow> console_write font wid s d;
     d \<leftarrow> console_write font wid [10, 10] d;
     let seconds = ticks div 18;
     (buf2, len2) \<leftarrow> counter_format_u64 (replicate 24 0) seconds;
     s2 \<leftarrow> str_of (lit ''?'') buf2 len2;
     d \<leftarrow> console_write font wid (lit ''Uptime: '') d;
     d \<leftarrow> console_write font wid s2 d;
     d \<leftarrow> console_write font wid (ln ''s'') d;
     wm_mark_dirty wid d
   }"

definition counter_turn :: "font \<Rightarrow> usize \<Rightarrow> u64 \<Rightarrow> u64 \<times> desktop \<Rightarrow> (u64 \<times> desktop) option" where
  "counter_turn font wid ticks = (\<lambda>(last_displayed, d).
     if 16 \<le> ticks - last_displayed then do {
       d \<leftarrow> counter_redraw font wid ticks d;
       Some (ticks, d)
     } else Some (last_displayed, d))"

section \<open>The text of the counter\<close>

definition decimal :: "u64 \<Rightarrow> unichar list" where
  "decimal n = map unat (dec_text (unat n))"

definition counter_text :: "u64 \<Rightarrow> unichar list" where
  "counter_text n = ln ''Tick Counter'' @ [10] @ lit ''Ticks: '' @ decimal n @ [10, 10] @ lit ''Uptime: '' @ decimal (n div 18) @ ln ''s''"

lemma format_decimal:
  obtains buf len where "counter_format_u64 (replicate 24 0) n = Some (buf, len)" and "str_of (lit ''?'') buf len = Some (decimal n)"
proof -
  have len24: "20 \<le> length (replicate 24 (0 :: u8))" by simp
  obtain b where b: "format_u64 (replicate 24 0) n = Some (b, length (dec_text (unat n)))"
    "take (length (dec_text (unat n))) b = dec_text (unat n)"
    using format_u64_spec [OF len24, of n] by blast
  have "length (dec_text (unat n)) \<le> length b" using arg_cong [OF b(2), of length] by simp
  moreover have "\<forall>c \<in> set (take (length (dec_text (unat n))) b). unat c < 0x80" unfolding b(2) using dec_text_ascii by fastforce
  ultimately have "str_of (lit ''?'') b (length (dec_text (unat n))) = Some (decimal n)"
    using str_of_ascii [of "length (dec_text (unat n))" b] by (simp add: b(2) decimal_def)
  then show ?thesis using that b(1) by (simp add: counter_format_u64_eq)
qed

lemma decimal_no_cr: "13 \<notin> set (decimal n)"
  using dec_text_ascii by (fastforce simp: decimal_def)

lemma counter_redraw_run:
  "dev.hidden_run font info wid n_cols n_rows (counter_redraw font wid ticks) (\<lambda>t. term_write_str n_cols n_rows (counter_text ticks) (term_clear t))"
proof -
  obtain b1 l1 where f1: "counter_format_u64 (replicate 24 0) ticks = Some (b1, l1)" "str_of (lit ''?'') b1 l1 = Some (decimal ticks)"
    by (rule format_decimal)
  obtain b2 l2 where f2: "counter_format_u64 (replicate 24 0) (ticks div 18) = Some (b2, l2)"
    "str_of (lit ''?'') b2 l2 = Some (decimal (ticks div 18))" by (rule format_decimal)
  let ?ss = "[ln ''Tick Counter'' @ [10], lit ''Ticks: '', decimal ticks, [10, 10], lit ''Uptime: '', decimal (ticks div 18), ln ''s'']"
  have "13 \<notin> set (concat ?ss)" using decimal_no_cr by (simp add: ln_def lit_def)
  from dev.hidden_seq [OF dev.hidden_wipe dev.hidden_seq [OF dev.hidden_writes [OF this] dev.hidden_touch]]
  have "dev.hidden_run font info wid n_cols n_rows (\<lambda>d. wm_console_clear wid d \<bind> (\<lambda>d. foldM (console_write font wid) ?ss d \<bind> wm_mark_dirty wid))
    (\<lambda>t. term_write_str n_cols n_rows (concat ?ss) (term_clear t))" .
  moreover have "counter_redraw font wid ticks = (\<lambda>d. wm_console_clear wid d \<bind> (\<lambda>d. foldM (console_write font wid) ?ss d \<bind> wm_mark_dirty wid))"
    using f1 f2 by (auto simp: fun_eq_iff counter_redraw_def Let_def split: option.split bind_split)
  moreover have "concat ?ss = counter_text ticks" by (simp add: counter_text_def)
  ultimately show ?thesis by simp
qed

text \<open>C25: the counter shows the tick count and never lags by 16 ticks. A turn never panics; if at least 16 ticks
  have passed (modulo 2 to the 64, across the wrap of the count) since the count shown, it redraws the
  window with exactly the decimal tick count and the seconds, a count for every 18 ticks, otherwise it
  leaves the desktop alone; after any turn the count it shows is less than 16 ticks old. The decimal
  text reads back as the count.\<close>

theorem counter_shows_ticks:
  assumes "device_text font info wid n_cols n_rows False t d"
  shows "\<exists>last' d'. counter_turn font wid now (last_shown, d) = Some (last', d') \<and> unat (now - last') < 16 \<and>
    (if 16 \<le> unat (now - last_shown)
     then last' = now \<and> device_text font info wid n_cols n_rows False (term_write_str n_cols n_rows (counter_text now) (term_clear t)) d'
     else last' = last_shown \<and> d' = d) \<and>
    parse_dec (dec_text (unat now)) = unat now \<and> counter_text now = ln ''Tick Counter'' @ [10] @ lit ''Ticks: '' @
      map unat (dec_text (unat now)) @ [10, 10] @ lit ''Uptime: '' @ map unat (dec_text (unat now div 18)) @ ln ''s''"
proof -
  have le: "16 \<le> now - last_shown \<longleftrightarrow> 16 \<le> unat (now - last_shown)" by (simp add: word_le_nat_alt)
  have words: "unat (now div 18) = unat now div 18" by (simp add: unat_div)
  have "counter_text now = ln ''Tick Counter'' @ [10] @ lit ''Ticks: '' @
      map unat (dec_text (unat now)) @ [10, 10] @ lit ''Uptime: '' @ map unat (dec_text (unat now div 18)) @ ln ''s''"
    by (simp add: counter_text_def decimal_def words)
  moreover obtain d' where "counter_redraw font wid now d = Some d'"
    "device_text font info wid n_cols n_rows False (term_write_str n_cols n_rows (counter_text now) (term_clear t)) d'"
    by (rule dev.hidden_runE [OF counter_redraw_run assms])
  ultimately show ?thesis
    by (cases "16 \<le> unat (now - last_shown)") (simp_all add: counter_turn_def le parse_dec_text)
qed

theorem counter_shows_ticks_witness:
  "\<exists>d d'. counter_turn block_font 0 5 (18446744073709551600, d) = Some (5, d') \<and>
    (\<exists>t. device_text block_font sample_info 0 63 24 False (term_write_str 63 24 (counter_text 5) t) d')"
proof -
  obtain d where d: "device_text block_font sample_info 0 63 24 False term_blank d" by (rule sample_device)
  have "unat (5 - 18446744073709551600 :: u64) = 21" by simp
  then show ?thesis using counter_shows_ticks [OF d, of 5 18446744073709551600] by auto
qed

end
