(* ===== verification/Tasks.thy ===== *)
theory Tasks
  imports Kernel Interrupts Idle Counter Shell
begin

text \<open>
  The running kernel: the four tasks, the interrupts and the scheduler together. A step of \<open>kernel_step\<close> is an
  interrupt (where the interrupt flag is on), a computation of the processor that leaves the state of the
  model alone, a turn of the current task up to and including its \<^verbatim>\<open>yield_now\<close>, or the \<^verbatim>\<open>hlt\<close> that the idle task
  executes when its \<^verbatim>\<open>yield_now\<close> has returned, after which nothing but an interrupt goes on. The tasks share the desktop,
  the queues of the interrupt handlers and the stored regions. The idle task runs with interrupts on: the
  iterations of its loop over the mouse events are steps of their own, with interrupts between them; the theory
  \<open>Spsc\<close> has the interleavings within the access to the queue.
\<close>

section \<open>The tasks\<close>

text \<open>Where the idle task is in its loop: after a \<^verbatim>\<open>yield_now\<close> that has come back to it the next instruction is \<^verbatim>\<open>hlt\<close>, and
  then the processor sleeps. Otherwise, in its loop or while another task runs, the processor is awake.\<close>

datatype hlt_state = Awake | Hlt_next | Asleep

record 'k world =
  wirq :: irq_state
  wdesk :: desktop
  wregions :: mem_regions
  wkeys :: 'k
  wshell :: "(usize \<times> shell_line) option"
  wpanel :: bool
  wcounter :: "(usize \<times> u64) option"
  wsys :: system
  whalted :: bool
  whlt :: hlt_state

text \<open>\<^verbatim>\<open>task::current_window_id().unwrap_or(0)\<close>. The state of a task that has not run yet is \<^term>\<open>None\<close>: its
  first turn includes what it does before its loop.\<close>

definition own_window :: "system \<Rightarrow> usize" where
  "own_window s = (case current_window_id s of Some wid \<Rightarrow> wid | None \<Rightarrow> 0)"

definition idle_task :: "font \<Rightarrow> 'k world \<Rightarrow> 'k world option" where
  "idle_task font w = do {
     (m, d) \<leftarrow> idle_turn font (mouse_state (wirq w), wdesk w);
     Some (w\<lparr>wirq := (wirq w)\<lparr>mouse_state := m\<rparr>, wdesk := d\<rparr>)
   }"

text \<open>One iteration of its loop over the mouse events; \<^term>\<open>Some None\<close> when the queue is empty.\<close>

definition idle_event :: "font \<Rightarrow> 'k world \<Rightarrow> 'k world option option" where
  "idle_event font w = do {
     (ev, m) \<leftarrow> try_read_event (mouse_state (wirq w));
     case ev of
       None \<Rightarrow> Some None
     | Some event \<Rightarrow> do {
         d \<leftarrow> wm_handle_mouse font event (wdesk w);
         Some (Some (w\<lparr>wirq := (wirq w)\<lparr>mouse_state := m\<rparr>, wdesk := d\<rparr>))
       }
   }"

definition shell_task :: "font \<Rightarrow> ('k, 'ev, 'er) add_byte \<Rightarrow> ('k, 'ev, decoded_key) process_keyevent \<Rightarrow> 'k world \<Rightarrow> 'k world option" where
  "shell_task font ab pk w = do {
     (wid, l, d) \<leftarrow> (case wshell w of
         Some (wid, l) \<Rightarrow> Some (wid, l, wdesk w)
       | None \<Rightarrow> do {
           let wid = own_window (wsys w);
           (l, d) \<leftarrow> shell_start font wid (wdesk w);
           Some (wid, l, d)
         });
     (ctl, l, q, kb, d) \<leftarrow> shell_turn font wid ab pk (l, scancodes (wirq w), wkeys w, d);
     Some (w\<lparr>wirq := (wirq w)\<lparr>scancodes := q\<rparr>, wdesk := d, wkeys := kb, wshell := Some (wid, l), whalted := (ctl = Halts)\<rparr>)
   }"

definition panel_task :: "font \<Rightarrow> 'k world \<Rightarrow> 'k world option" where
  "panel_task font w =
     (if wpanel w then Some w
      else do {
        d \<leftarrow> memmap_start font (wregions w) (own_window (wsys w)) (wdesk w);
        Some (w\<lparr>wdesk := d, wpanel := True\<rparr>)
      })"

definition counter_task :: "font \<Rightarrow> 'k world \<Rightarrow> 'k world option" where
  "counter_task font w = do {
     (wid, n, d) \<leftarrow> (case wcounter w of
         Some (wid, n) \<Rightarrow> Some (wid, n, wdesk w)
       | None \<Rightarrow> do {
           let wid = own_window (wsys w);
           (n, d) \<leftarrow> counter_start font wid (wdesk w);
           Some (wid, n, d)
         });
     (n, d) \<leftarrow> counter_turn font wid (ticks (wirq w)) (n, d);
     Some (w\<lparr>wdesk := d, wcounter := Some (wid, n)\<rparr>)
   }"

text \<open>The task at each place of the scheduler's list after the boot.\<close>

definition task_turn :: "font \<Rightarrow> ('k, 'ev, 'er) add_byte \<Rightarrow> ('k, 'ev, decoded_key) process_keyevent \<Rightarrow> nat \<Rightarrow> 'k world \<Rightarrow> 'k world option" where
  "task_turn font ab pk i =
     (if i = 0 then idle_task font else if i = 1 then shell_task font ab pk
      else if i = 2 then panel_task font else counter_task font)"

text \<open>A yield ends a turn with the system \<open>s\<close>; if the idle task is the one to go on, it is about to execute \<^verbatim>\<open>hlt\<close>. An
  interrupt ends the sleep, but not one that comes before the \<^verbatim>\<open>hlt\<close>.\<close>

definition yielded :: "system \<Rightarrow> 'k world \<Rightarrow> 'k world" where
  "yielded s w = w\<lparr>wsys := s, whlt := (case sched s of Some sc \<Rightarrow> if current sc = 0 then Hlt_next else Awake | None \<Rightarrow> Awake)\<rparr>"

definition hlt :: "'k world \<Rightarrow> 'k world" where
  "hlt w = w\<lparr>whlt := Asleep\<rparr>"

definition interrupted :: "irq_state \<Rightarrow> 'k world \<Rightarrow> 'k world" where
  "interrupted s w = w\<lparr>wirq := s, whlt := (if whlt w = Asleep then Awake else whlt w)\<rparr>"

lemma yielded_fields [simp]:
  "wirq (yielded s w) = wirq w" "wdesk (yielded s w) = wdesk w" "wregions (yielded s w) = wregions w" "wkeys (yielded s w) = wkeys w"
  "wshell (yielded s w) = wshell w" "wpanel (yielded s w) = wpanel w" "wcounter (yielded s w) = wcounter w" "wsys (yielded s w) = s"
  "whalted (yielded s w) = whalted w"
  by (simp_all add: yielded_def)

lemma hlt_fields [simp]:
  "wirq (hlt w) = wirq w" "wdesk (hlt w) = wdesk w" "wregions (hlt w) = wregions w" "wkeys (hlt w) = wkeys w"
  "wshell (hlt w) = wshell w" "wpanel (hlt w) = wpanel w" "wcounter (hlt w) = wcounter w" "wsys (hlt w) = wsys w"
  "whalted (hlt w) = whalted w" "whlt (hlt w) = Asleep"
  by (simp_all add: hlt_def)

lemma interrupted_fields [simp]:
  "wirq (interrupted s w) = s" "wdesk (interrupted s w) = wdesk w" "wregions (interrupted s w) = wregions w"
  "wkeys (interrupted s w) = wkeys w" "wshell (interrupted s w) = wshell w" "wpanel (interrupted s w) = wpanel w"
  "wcounter (interrupted s w) = wcounter w" "wsys (interrupted s w) = wsys w" "whalted (interrupted s w) = whalted w"
  "whlt (interrupted s w) = (if whlt w = Asleep then Awake else whlt w)"
  by (simp_all add: interrupted_def)

text \<open>One step, with the interrupt it takes if it takes one, and with the ghost state of \<open>sys_step\<close>: the number of
  switches and the registers each suspended task is to get back.\<close>

inductive kernel_step :: "font \<Rightarrow> ('k, 'ev, 'er) add_byte \<Rightarrow> ('k, 'ev, decoded_key) process_keyevent \<Rightarrow> (hardware_interrupt \<times> u8) list \<Rightarrow>
    nat \<times> (nat \<Rightarrow> u64 list) \<times> 'k world \<Rightarrow> nat \<times> (nat \<Rightarrow> u64 list) \<times> 'k world \<Rightarrow> bool"
  for font ab pk where
  irq: "iflag (wsys w) \<Longrightarrow> take_irq i b (wirq w) = Some s \<Longrightarrow> kernel_step font ab pk [(i, b)] (n, e, w) (n, e, interrupted s w)"
| hlt: "\<not> whalted w \<Longrightarrow> whlt w = Hlt_next \<Longrightarrow> kernel_step font ab pk [] (n, e, w) (n, e, hlt w)"
| event: "\<not> whalted w \<Longrightarrow> whlt w = Awake \<Longrightarrow> sched (wsys w) = Some sc \<Longrightarrow> current sc = 0 \<Longrightarrow> idle_event font w = Some (Some w') \<Longrightarrow>
    kernel_step font ab pk [] (n, e, w) (n, e, w')"
| compute: "whlt w \<noteq> Asleep \<Longrightarrow> sys_step (n, e, wsys w) (n, e', s) \<Longrightarrow> kernel_step font ab pk [] (n, e, w) (n, e', w\<lparr>wsys := s\<rparr>)"
| turn: "\<not> whalted w \<Longrightarrow> whlt w = Awake \<Longrightarrow> sched (wsys w) = Some sc \<Longrightarrow> task_turn font ab pk (current sc) w = Some w' \<Longrightarrow> \<not> whalted w' \<Longrightarrow>
    yield_now ret (wsys w) = Some s \<Longrightarrow>
    kernel_step font ab pk [] (n, e, w) (Suc n, e(current sc := saved_words (cpu_state (wsys w)) ret), yielded s w')"
| halt: "\<not> whalted w \<Longrightarrow> whlt w = Awake \<Longrightarrow> sched (wsys w) = Some sc \<Longrightarrow> task_turn font ab pk (current sc) w = Some w' \<Longrightarrow> whalted w' \<Longrightarrow>
    kernel_step font ab pk [] (n, e, w) (n, e, w')"

inductive_cases kernel_stepE: "kernel_step font ab pk irqs x y"

text \<open>A run, with the interrupts taken in it.\<close>

inductive kernel_run :: "font \<Rightarrow> ('k, 'ev, 'er) add_byte \<Rightarrow> ('k, 'ev, decoded_key) process_keyevent \<Rightarrow> (hardware_interrupt \<times> u8) list \<Rightarrow>
    nat \<times> (nat \<Rightarrow> u64 list) \<times> 'k world \<Rightarrow> nat \<times> (nat \<Rightarrow> u64 list) \<times> 'k world \<Rightarrow> bool"
  for font ab pk where
  start: "kernel_run font ab pk [] c c"
| more: "kernel_run font ab pk irqs c c' \<Longrightarrow> kernel_step font ab pk irqs' c' c'' \<Longrightarrow> kernel_run font ab pk (irqs @ irqs') c c''"

lemma run_append: "kernel_run font ab pk irqs' c' c'' \<Longrightarrow> kernel_run font ab pk irqs c c' \<Longrightarrow> kernel_run font ab pk (irqs @ irqs') c c''"
  by (induction rule: kernel_run.induct) (auto intro: kernel_run.more simp flip: append_assoc)

lemma run_one: "kernel_step font ab pk irqs c c' \<Longrightarrow> kernel_run font ab pk irqs c c'"
  using kernel_run.more [OF kernel_run.start] by fastforce

section \<open>What a task does to the desktop\<close>

text \<open>A task makes requests of its own window only.\<close>

fun own :: "usize \<Rightarrow> request \<Rightarrow> bool" where
  "own wid (Write i s) = (i = wid)"
| "own wid (Show_cursor i) = (i = wid)"
| "own wid (Hide_cursor i) = (i = wid)"
| "own wid (Clear i) = (i = wid)"
| "own wid (Mark_dirty i) = (i = wid)"
| "own wid _ = False"

definition reaches :: "font \<Rightarrow> usize \<Rightarrow> desktop \<Rightarrow> desktop \<Rightarrow> bool" where
  "reaches font wid = (\<lambda>d d'. \<exists>r. own wid r \<and> serve font r d = Some d')\<^sup>*\<^sup>*"

lemma reaches_refl [simp]: "reaches font wid d d"
  by (simp add: reaches_def)

lemma reaches_trans: "reaches font wid d d1 \<Longrightarrow> reaches font wid d1 d2 \<Longrightarrow> reaches font wid d d2"
  unfolding reaches_def by (rule rtranclp_trans)

lemma reaches_request: "serve font r d = Some d' \<Longrightarrow> own wid r \<Longrightarrow> reaches font wid d d'"
  unfolding reaches_def by (rule r_into_rtranclp) blast

text \<open>\<open>issues f\<close>: the result of \<open>f\<close> comes about by such requests.\<close>

definition issues :: "font \<Rightarrow> usize \<Rightarrow> (desktop \<Rightarrow> desktop option) \<Rightarrow> bool" where
  "issues font wid f \<longleftrightarrow> (\<forall>d d'. f d = Some d' \<longrightarrow> reaches font wid d d')"

lemma issuesD: "issues font wid f \<Longrightarrow> f d = Some d' \<Longrightarrow> reaches font wid d d'"
  by (simp add: issues_def)

lemma issues_write: "issues font wid (console_write font wid s)"
  unfolding issues_def using reaches_request [of font "Write wid s"] by simp

lemma issues_device:
  "issues font wid (console_show_cursor wid)" "issues font wid (console_hide_cursor wid)"
  "issues font wid (wm_console_clear wid)" "issues font wid (wm_mark_dirty wid)"
  unfolding issues_def
  using reaches_request [of font "Show_cursor wid"] reaches_request [of font "Hide_cursor wid"]
    reaches_request [of font "Clear wid"] reaches_request [of font "Mark_dirty wid"] by simp_all

lemma issues_bind: "issues font wid f \<Longrightarrow> issues font wid g \<Longrightarrow> issues font wid (\<lambda>d. f d \<bind> g)"
  unfolding issues_def bind_eq_Some_conv by (blast intro: reaches_trans)

lemma issues_given: "(\<And>y. issues font wid (g y)) \<Longrightarrow> issues font wid (\<lambda>d. x \<bind> (\<lambda>y. g y d))"
  unfolding issues_def by (auto simp: bind_eq_Some_conv)

lemma issues_given2: "(\<And>y z. issues font wid (g y z)) \<Longrightarrow> issues font wid (\<lambda>d. x \<bind> (\<lambda>(y, z). g y z d))"
  unfolding issues_def by (auto simp: bind_eq_Some_conv)

lemmas issues_intros = issues_bind issues_given issues_given2 issues_write issues_device

lemma issues_commands:
  "issues font wid (cmd_help font wid)" "issues font wid (cmd_echo font wid args)" "issues font wid (cmd_clear wid)"
  "issues font wid (cmd_meminfo font wid)" "issues font wid (print_prompt font wid)" "issues font wid (counter_redraw font wid n)"
  unfolding cmd_help_def [abs_def] cmd_echo_def [abs_def] cmd_clear_def [abs_def] cmd_meminfo_def [abs_def] Let_def
    print_prompt_def [abs_def] counter_redraw_def [abs_def]
  by (intro issues_intros)+

lemma execute_reaches: "execute font wid cmd d = Some (ctl, d') \<Longrightarrow> reaches font wid d d'"
proof -
  have unknown: "issues font wid (\<lambda>d. console_write font wid (lit ''Unknown command: '' @ [39]) d \<bind>
    (\<lambda>d. console_write font wid c d \<bind> console_write font wid [39, 10]))" for c
    by (intro issues_intros)
  show "execute font wid cmd d = Some (ctl, d') \<Longrightarrow> reaches font wid d d'"
    by (auto simp: execute_def Let_def continue_with_def split: prod.splits if_splits
        dest: issues_commands [THEN issuesD] unknown [THEN issuesD])
qed

lemma handle_char_reaches:
  assumes "handle_char font wid c (l, d) = Some (ctl, l', d')"
  shows "reaches font wid d d'"
proof (cases "c = 10 \<or> c = 13")
  case True
  then obtain d1 cmd ctl2 d2 where h: "console_write font wid [10] d = Some d1"
    "(if cmd \<noteq> [] then execute font wid cmd d1 else Some (Continues, d1)) = Some (ctl2, d2)"
    "(if ctl2 = Halts then Some (Halts, l, d2) else do { d \<leftarrow> print_prompt font wid d2; Some (Continues, l\<lparr>line_len := 0\<rparr>, d) }) =
      Some (ctl, l', d')"
    using assms unfolding handle_char_def prod.case by (auto simp: bind_eq_Some_conv simp del: split_paired_All split_paired_Ex)
  have "reaches font wid d d1" by (rule issuesD [OF issues_write h(1)])
  moreover have "reaches font wid d1 d2" using h(2) execute_reaches by (auto split: if_splits)
  moreover have "reaches font wid d2 d'"
    using h(3) issuesD [OF issues_commands(5)] by (auto simp: bind_eq_Some_conv split: if_splits)
  ultimately show ?thesis using reaches_trans by blast
next
  case False
  then show ?thesis
    using assms by (auto simp: handle_char_def bind_eq_Some_conv split: if_splits intro: issuesD [OF issues_write])
qed

lemma shell_key_reaches:
  assumes "shell_key font wid key (l, d) = Some (ctl, l', d')"
  shows "reaches font wid d d'"
proof -
  obtain d1 r where r: "console_hide_cursor wid d = Some d1"
    "(case key of Unicode c \<Rightarrow> handle_char font wid c (l, d1) | RawKey \<Rightarrow> Some (Continues, l, d1)) = Some r"
    "(case r of (ctl1, l1, d2) \<Rightarrow> if ctl1 = Halts then Some (Halts, l1, d2)
       else do { d \<leftarrow> console_show_cursor wid d2; d \<leftarrow> wm_mark_dirty wid d; Some (Continues, l1, d) }) = Some (ctl, l', d')"
    using assms unfolding shell_key_def prod.case bind_eq_Some_conv by blast
  obtain ctl1 l1 d2 where "r = (ctl1, l1, d2)" by (rule prod_cases3)
  note h = r(1) r(2,3) [unfolded this prod.case]
  have "reaches font wid d d1" by (rule issuesD [OF issues_device(2) h(1)])
  moreover have "reaches font wid d1 d2" using h(2) handle_char_reaches by (auto split: decoded_key.splits)
  moreover have "reaches font wid d2 d'"
    using h(3) reaches_trans [OF issuesD [OF issues_device(1)] issuesD [OF issues_device(4)]]
    by (auto simp: bind_eq_Some_conv split: if_splits)
  ultimately show ?thesis using reaches_trans by blast
qed

lemma shell_turn_reaches: "shell_turn font wid ab pk (l, q, kb, d) = Some (ctl, l', q', kb', d') \<Longrightarrow> reaches font wid d d'"
  by (auto simp: shell_turn_def bind_eq_Some_conv split: if_splits option.splits dest: shell_key_reaches)

lemma issues_last: "issues font wid f \<Longrightarrow> (\<And>d. g d = map_option (Pair x) (f d)) \<Longrightarrow> g d = Some (y, d') \<Longrightarrow> reaches font wid d d'"
  unfolding issues_def by auto

lemma shell_start_reaches: "shell_start font wid d = Some (l, d') \<Longrightarrow> reaches font wid d d'"
proof (rule issues_last)
  let ?w = "ln ''Welcome to r-os shell.'' @ lit ''Type '' @ [39] @ lit ''help'' @ [39] @ ln '' for commands.'' @ [10]"
  show "issues font wid (\<lambda>d. console_write font wid ?w d \<bind> (\<lambda>d. print_prompt font wid d \<bind> console_show_cursor wid))"
    by (intro issues_intros issues_commands)
  show "shell_start font wid d = map_option (Pair \<lparr>line_buf = replicate MAX_LINE 0, line_len = 0\<rparr>)
      (console_write font wid ?w d \<bind> (\<lambda>d. print_prompt font wid d \<bind> console_show_cursor wid))" for d
    by (simp only: shell_start_def) (simp split: bind_split option.split)
qed

lemma counter_start_reaches: "counter_start font wid d = Some (n, d') \<Longrightarrow> reaches font wid d d'"
proof (rule issues_last)
  let ?f = "\<lambda>d. console_write font wid (ln ''Tick Counter'' @ [10]) d \<bind>
     (\<lambda>d. console_write font wid (ln ''This task runs in parallel'') d \<bind> console_write font wid (ln ''with the shell.'' @ [10]))"
  show "issues font wid ?f" by (intro issues_intros)
  show "counter_start font wid d = map_option (Pair 0) (?f d)" for d
    by (simp only: counter_start_def) (simp split: bind_split option.split)
qed

lemma counter_turn_reaches: "counter_turn font wid now (n, d) = Some (n', d') \<Longrightarrow> reaches font wid d d'"
  by (auto simp: counter_turn_def bind_eq_Some_conv split: if_splits dest: issuesD [OF issues_commands(6)])

section \<open>What the desktop keeps\<close>

lemma own_request: "own wid r \<Longrightarrow> request_ok r \<and> \<not> creates r \<and> announced r"
  by (cases r) auto

lemma own_text: "own wid r \<Longrightarrow> wid \<noteq> wid' \<Longrightarrow> text_step wid' c n r (vis, t) = Some (vis, t)"
  by (cases r) auto

text \<open>A window of another task stays as it is.\<close>

lemma window_mut_keeps:
  assumes "window_mut wid f wm = Some wm'" and "win \<in> set (windows wm)" and "win_id win \<noteq> wid"
  shows "win \<in> set (windows wm')"
proof -
  have "find_mut (\<lambda>w. win_id w = wid) f (windows wm) = Some (windows wm')"
    using assms(1) by (auto simp: window_mut_def bind_eq_Some_conv)
  from find_mut_keeps [OF this assms(2)] assms(3) show ?thesis by simp
qed

lemma own_keeps:
  assumes "own wid r" and "serve font r d = Some d'" and "WM d = Some wm" and "win \<in> set (windows wm)" and "win_id win \<noteq> wid"
  shows "\<exists>wm'. WM d' = Some wm' \<and> win \<in> set (windows wm')"
proof -
  have op: "\<exists>wm'. WM d' = Some wm' \<and> win \<in> set (windows wm')" if "upd_wm (console_op f wid) d = Some d'" for f
    using upd_wm_Some [OF that] assms(3-5) by (auto simp: console_op_def bind_eq_Some_conv dest: window_mut_keeps)
  have dirty: "\<exists>wm'. WM d' = Some wm' \<and> win \<in> set (windows wm')" if "upd_wm (mark_dirty wid) d = Some d'"
    using upd_wm_Some [OF that] assms(3-5) by (auto simp: mark_dirty_def bind_eq_Some_conv dest: window_mut_keeps)
  show ?thesis
    using assms(1,2) op dirty
    by (cases r) (auto simp: console_write_def console_show_cursor_def console_hide_cursor_def wm_console_clear_def wm_mark_dirty_def)
qed

text \<open>The desktop of the running kernel: consistent, the screen current or a composition due, a terminal in
  the windows of the shell and of the counter, and the panel's window of its size.\<close>

definition panel_there :: "desktop \<Rightarrow> bool" where
  "panel_there d \<longleftrightarrow> (\<exists>wm. WM d = Some wm \<and> sized wm 1 (340, 520))"

definition desk_sound :: "font \<Rightarrow> fb_info \<Rightarrow> desktop \<Rightarrow> bool" where
  "desk_sound font info d \<longleftrightarrow> desk_inv info 6 d \<and> up_to_date font info d"

lemma desk_soundD: "desk_sound font info d \<Longrightarrow> desk_inv info 6 d \<and> up_to_date font info d"
  by (simp add: desk_sound_def)

lemma serve_sound:
  assumes "desk_sound font info d" and "font_ok font" and "keeps_colour info" and "request_ok r" and "\<not> creates r" and "announced r"
  shows "\<exists>d'. serve font r d = Some d' \<and> desk_sound font info d'"
proof -
  note d = desk_soundD [OF assms(1)]
  obtain d' where d': "serve font r d = Some d'" "desk_inv info 6 d'"
    using serve_inv_same [OF conjunct1 [OF d] assms(2,4,5)] by blast
  have "up_to_date font info d'"
    by (rule serve_up_to_date [OF d'(1) conjunct1 [OF d] assms(2,3,4,6) conjunct2 [OF d]])
  then show ?thesis using d' by (simp add: desk_sound_def)
qed

lemma serve_has_text:
  assumes "desk_sound font info d" and "font_ok font" and "request_ok r" and "has_text font wid c n vis t d"
    and "text_step wid c n r (vis, t) = Some (vis, t)" and "serve font r d = Some d'"
  shows "has_text font wid c n vis t d'"
  using serve_text [OF conjunct1 [OF desk_soundD [OF assms(1)]] assms(2) _ assms(3-5)] assms(6) by auto

lemma reaches_sound:
  assumes "reaches font wid d d'" and "desk_sound font info d" and "font_ok font" and "keeps_colour info"
  shows "desk_sound font info d' \<and> (panel_there d \<longrightarrow> wid \<noteq> 1 \<longrightarrow> panel_there d') \<and>
    (wid' \<noteq> wid \<longrightarrow> has_text font wid' c n vis t d \<longrightarrow> has_text font wid' c n vis t d')"
  using assms(1) unfolding reaches_def
proof (induction rule: rtranclp_induct)
  case base
  then show ?case using assms(2) by simp
next
  case (step d1 d2)
  obtain r where r: "own wid r" "serve font r d1 = Some d2" using step.hyps(2) by blast
  note ok = own_request [OF r(1)]
  have s1: "desk_sound font info d1" using step.IH by simp
  have "desk_sound font info d2" using serve_sound [OF s1 assms(3,4), of r] ok r(2) by auto
  moreover have "panel_there d1 \<longrightarrow> wid \<noteq> 1 \<longrightarrow> panel_there d2"
    using own_keeps [OF r] unfolding panel_there_def sized_def by fastforce
  moreover have "wid' \<noteq> wid \<longrightarrow> has_text font wid' c n vis t d1 \<longrightarrow> has_text font wid' c n vis t d2"
    using serve_has_text [OF s1 assms(3) _ _ own_text [OF r(1)] r(2)] ok by auto
  ultimately show ?case using step.IH by blast
qed

end
