(* ===== verification/Running.thy ===== *)
theory Running
  imports Tasks
begin

text \<open>
  The running kernel never panics: the invariant of the tasks' shared state, its preservation by every step of
  \<open>kernel_step\<close>, and the property of every state reachable from the boot.
\<close>

section \<open>Every turn succeeds\<close>

definition kernel_desk :: "font \<Rightarrow> fb_info \<Rightarrow> bool \<Rightarrow> bool \<Rightarrow> desktop \<Rightarrow> bool" where
  "kernel_desk font info shell_runs waiting d \<longleftrightarrow> desk_sound font info d \<and> (waiting \<longrightarrow> panel_there d) \<and>
     (\<exists>t. has_text font 0 63 24 shell_runs t d) \<and> (\<exists>t. has_text font 2 28 10 False t d)"

lemma kernel_desk_device:
  assumes "kernel_desk font info sr wt d" and "font_ok font"
  obtains t0 t2 where "device_text font info 0 63 24 sr t0 d" and "device_text font info 2 28 10 False t2 d"
    and "has_text font 0 63 24 sr t0 d" and "has_text font 2 28 10 False t2 d"
proof -
  have "desk_inv info (2 ^ 32) d" by (rule desk_inv_mono [of info 6]) (use assms(1) in \<open>simp_all add: kernel_desk_def desk_sound_def\<close>)
  then show ?thesis using assms that unfolding kernel_desk_def by (auto simp: device_text_def has_text_def)
qed

lemma wins_kept_panel:
  assumes "WM d = Some wm" and "WM d' = Some wm'" and "wins_kept info wm wm'" and "panel_there d"
  shows "panel_there d'"
  using assms repainted_same unfolding panel_there_def sized_def wins_kept_def by fastforce

text \<open>The texts of all windows stay.\<close>

definition text_kept :: "font \<Rightarrow> desktop \<Rightarrow> desktop \<Rightarrow> bool" where
  "text_kept font d d' \<longleftrightarrow> (\<forall>wid c n vis t. has_text font wid c n vis t d \<longrightarrow> has_text font wid c n vis t d')"

lemma text_kept_refl [simp]: "text_kept font d d"
  by (simp add: text_kept_def)

lemma text_kept_trans: "text_kept font a b \<Longrightarrow> text_kept font b c \<Longrightarrow> text_kept font a c"
  by (simp add: text_kept_def)

lemma screen_request_keeps:
  assumes "kernel_desk font info sr wt d" and "font_ok font" and "keeps_colour info"
    and "r = Composite \<or> (\<exists>e. r = Mouse_event e \<and> move_ok e)"
  shows "\<exists>d'. serve font r d = Some d' \<and> kernel_desk font info sr wt d' \<and> text_kept font d d'"
proof -
  have s: "desk_sound font info d" using assms(1) by (simp add: kernel_desk_def)
  have ok: "request_ok r" "\<not> creates r" "announced r" "\<And>wid c n st. text_step wid c n r st = Some st" using assms(4) by auto
  obtain d' where d': "serve font r d = Some d'" "desk_sound font info d'" using serve_sound [OF s assms(2,3) ok(1-3)] by blast
  obtain wm where wm: "WM d = Some wm" using desk_soundD [OF s] by (auto simp: desk_inv_def)
  obtain wm' where "WM d' = Some wm'" "wins_kept info wm wm'"
    using screen_request_kept [OF conjunct1 [OF desk_soundD [OF s]] assms(2) wm d'(1) assms(4)] by blast
  then have "panel_there d \<longrightarrow> panel_there d'" using wins_kept_panel [OF wm] by blast
  moreover have "has_text font wid c n vis t d'" if "has_text font wid c n vis t d" for wid c n vis t
    by (rule serve_has_text [OF s assms(2) ok(1) that ok(4) d'(1)])
  ultimately show ?thesis using assms(1) d' unfolding kernel_desk_def text_kept_def by blast
qed

lemma mouse_events_keep:
  assumes "kernel_desk font info sr wt d" and "font_ok font" and "keeps_colour info" and "\<forall>e \<in> set es. move_ok e"
  shows "\<exists>d'. foldM (wm_handle_mouse font) es d = Some d' \<and> kernel_desk font info sr wt d' \<and> text_kept font d d'"
proof (rule foldM_inv [where P = "\<lambda>d'. kernel_desk font info sr wt d' \<and> text_kept font d d'"])
  show "kernel_desk font info sr wt d \<and> text_kept font d d" using assms(1) by simp
next
  fix e d1 assume "e \<in> set es" "kernel_desk font info sr wt d1 \<and> text_kept font d d1"
  then show "\<exists>d2. wm_handle_mouse font e d1 = Some d2 \<and> kernel_desk font info sr wt d2 \<and> text_kept font d d2"
    using screen_request_keeps [OF _ assms(2,3), of sr wt d1 "Mouse_event e"] assms(4) text_kept_trans by fastforce
qed

lemma idle_turn_keeps:
  assumes "kernel_desk font info sr wt d" and "font_ok font" and "keeps_colour info" and "mouse_inv m"
  shows "\<exists>m' d'. idle_turn font (m, d) = Some (m', d') \<and> mouse_inv m' \<and> kernel_desk font info sr wt d' \<and> text_kept font d d'"
proof -
  have ring: "ring_inv (MOUSE_QUEUE m)" and evs: "\<forall>e \<in> set (ring_list (MOUSE_QUEUE m)). move_ok e"
    using assms(4) by (auto simp: mouse_inv_def Mouse.event_ok_def move_ok_def i16_range_def)
  obtain d1 where d1: "foldM (wm_handle_mouse font) (ring_list (MOUSE_QUEUE m)) d = Some d1" "kernel_desk font info sr wt d1"
    "text_kept font d d1"
    using mouse_events_keep [OF assms(1-3) evs] by blast
  obtain m' where m': "drain_mouse font m d = Some (m', d1)" "m' = m\<lparr>MOUSE_QUEUE := MOUSE_QUEUE m'\<rparr>"
    "ring_inv (MOUSE_QUEUE m')" "ring_list (MOUSE_QUEUE m') = []"
    using drain_mouse_refines [OF ring, of font d] d1(1) by auto
  have "mouse_inv m'" using assms(4) m'(3,4) arg_cong [OF m'(2), of PACKET_STATE] arg_cong [OF m'(2), of PACKET_BYTES]
    by (simp add: mouse_inv_def)
  obtain wm where wm: "WM d1 = Some wm" using d1(2) by (auto simp: kernel_desk_def desk_sound_def desk_inv_def)
  have same: "d1\<lparr>WM := Some wm\<rparr> = d1" using wm by simp
  obtain d2 where d2: "wm_composite font d1 = Some d2" "kernel_desk font info sr wt d2" "text_kept font d1 d2"
    using screen_request_keeps [OF d1(2) assms(2,3), of Composite] by auto
  have "idle_turn font (m, d) = Some (m', if needs_composite wm then d2 else d1)"
    using m'(1) wm d2(1) unfolding idle_turn_def by (simp add: with_wm_def same)
  then show ?thesis using \<open>mouse_inv m'\<close> d1(2,3) d2(2) text_kept_trans [OF d1(3) d2(3)] by auto
qed

lemma device_has_text: "device_text font info wid c n vis t d \<Longrightarrow> has_text font wid c n vis t d"
  by (auto simp: device_text_def has_text_def)

lemma shell_moves:
  assumes "reaches font 0 d d'" and "kernel_desk font info sr wt d" and "font_ok font" and "keeps_colour info"
    and "device_text font info 0 63 24 sr' t' d'"
  shows "kernel_desk font info sr' wt d'"
proof -
  obtain t2 where t: "has_text font 2 28 10 False t2 d" using assms(2) by (auto simp: kernel_desk_def)
  have snd: "desk_sound font info d" using assms(2) by (simp add: kernel_desk_def)
  from reaches_sound [OF assms(1) snd assms(3,4), where wid' = 2 and c = 28 and n = 10 and vis = False and t = t2] t
  show ?thesis using assms(2) device_has_text [OF assms(5)] unfolding kernel_desk_def by auto
qed

lemma counter_moves:
  assumes "reaches font 2 d d'" and "kernel_desk font info sr wt d" and "font_ok font" and "keeps_colour info"
    and "device_text font info 2 28 10 False t' d'"
  shows "kernel_desk font info sr wt d'"
proof -
  obtain t0 where t: "has_text font 0 63 24 sr t0 d" using assms(2) by (auto simp: kernel_desk_def)
  have snd: "desk_sound font info d" using assms(2) by (simp add: kernel_desk_def)
  from reaches_sound [OF assms(1) snd assms(3,4), where wid' = 0 and c = 63 and n = 24 and vis = sr and t = t0] t
  show ?thesis using assms(2) device_has_text [OF assms(5)] unfolding kernel_desk_def by auto
qed

lemma shell_first_keeps:
  assumes "kernel_desk font info False wt d" and "font_ok font" and "keeps_colour info"
  shows "\<exists>l d'. shell_start font 0 d = Some (l, d') \<and> line_inv l \<and> kernel_desk font info True wt d'"
proof -
  obtain t0 t2 where t: "device_text font info 0 63 24 False t0 d" "has_text font 2 28 10 False t2 d"
    by (rule kernel_desk_device [OF assms(1,2)])
  obtain l d' where s: "shell_start font 0 d = Some (l, d')" "line_inv l"
    "device_text font info 0 63 24 True (term_write_str 63 24 greeting t0) d'" by (rule shell_start_text [OF t(1)])
  then show ?thesis using shell_moves [OF shell_start_reaches [OF s(1)] assms s(3)] by blast
qed

lemma shell_turn_keeps:
  assumes "kernel_desk font info True wt d" and "font_ok font" and "keeps_colour info" and "line_inv l" and "ring_inv q"
  shows "\<exists>ctl l' q' kb' d'. shell_turn font 0 ab pk (l, q, kb, d) = Some (ctl, l', q', kb', d') \<and> ring_inv q' \<and>
    (ctl = Continues \<longrightarrow> line_inv l' \<and> kernel_desk font info True wt d')"
proof (cases "wm_is_focused 0 d")
  case False
  then show ?thesis using assms by (simp add: shell_turn_def)
next
  case True
  obtain r rest kb' where "next_key ab pk (ring_list q) kb = (r, rest, kb')" by (rule prod_cases3)
  then obtain q' where q': "try_read_key ab pk q kb = Some (r, q', kb')" "ring_inv q'"
    using try_read_key_refines [OF assms(5), of ab pk kb] by auto
  show ?thesis
  proof (cases r)
    case None
    then show ?thesis using True q' assms by (simp add: shell_turn_def)
  next
    case (Some key)
    obtain t0 t2 where t: "device_text font info 0 63 24 True t0 d" "has_text font 2 28 10 False t2 d"
      by (rule kernel_desk_device [OF assms(1,2)])
    obtain ctl l' d' where k: "shell_keys font 0 [key] (l, d) = Some (ctl, l', d')" "line_inv l'"
      "device_text font info 0 63 24 (ctl = Continues) (snd (snd (edit_keys 63 24 [key] (line_text l, t0)))) d'"
      using shell_keys_refine [OF t(1) assms(4), of "[key]"] by metis
    then have k1: "shell_key font 0 key (l, d) = Some (ctl, l', d')"
      by (auto simp: bind_eq_Some_conv split: if_splits control.splits) (metis control.exhaust)+
    have "ctl = Continues \<longrightarrow> kernel_desk font info True wt d'"
      using shell_moves [OF shell_key_reaches [OF k1] assms(1-3) k(3)] by auto
    then show ?thesis using True q' Some k1 k(2) by (simp add: shell_turn_def)
  qed
qed

lemma counter_first_keeps:
  assumes "kernel_desk font info sr wt d" and "font_ok font" and "keeps_colour info"
  shows "\<exists>d'. counter_start font 2 d = Some (0, d') \<and> kernel_desk font info sr wt d'"
proof -
  obtain t0 t2 where t: "has_text font 0 63 24 sr t0 d" "device_text font info 2 28 10 False t2 d"
    by (rule kernel_desk_device [OF assms(1,2)])
  let ?ss = "[ln ''Tick Counter'' @ [10], ln ''This task runs in parallel'', ln ''with the shell.'' @ [10]]"
  have "13 \<notin> set (concat ?ss)" by (simp add: ln_def lit_def)
  from dev.writes_text [OF t(2) this] obtain d' where w: "foldM (console_write font 2) ?ss d = Some d'"
    "device_text font info 2 28 10 False (term_write_str 28 10 (concat ?ss) t2) d'" by blast
  have s: "counter_start font 2 d = Some (0, d')" using w(1) by (auto simp: counter_start_def split: option.splits)
  then show ?thesis using counter_moves [OF counter_start_reaches [OF s] assms w(2)] by blast
qed

lemma counter_turn_keeps:
  assumes "kernel_desk font info sr wt d" and "font_ok font" and "keeps_colour info"
  shows "\<exists>n' d'. counter_turn font 2 now (n, d) = Some (n', d') \<and> kernel_desk font info sr wt d'"
proof (cases "16 \<le> now - n")
  case False
  then show ?thesis using assms(1) by (simp add: counter_turn_def)
next
  case True
  obtain t0 t2 where t: "has_text font 0 63 24 sr t0 d" "device_text font info 2 28 10 False t2 d"
    by (rule kernel_desk_device [OF assms(1,2)])
  obtain d' where w: "counter_redraw font 2 now d = Some d'"
    "device_text font info 2 28 10 False (term_write_str 28 10 (counter_text now) (term_clear t2)) d'"
    by (rule dev.hidden_runE [OF counter_redraw_run t(2)])
  have s: "counter_turn font 2 now (n, d) = Some (now, d')" using True w(1) by (simp add: counter_turn_def)
  then show ?thesis using counter_moves [OF counter_turn_reaches [OF s] assms w(2)] by blast
qed

text \<open>The panel: its regions are in order.\<close>

definition table_sound :: "mem_regions \<Rightarrow> bool" where
  "table_sound g \<longleftrightarrow> mem_regions_ok g \<and> 0 < snd g \<and> (\<forall>i < snd g. region_start (fst g ! i) \<le> region_end (fst g ! i))"

lemma window_mut_has_text:
  assumes "upd_wm (window_mut i f) d = Some d'" and "has_text font wid c n vis t d" and "i \<noteq> wid"
  shows "has_text font wid c n vis t d'"
  using upd_wm_Some [OF assms(1)] assms(2,3) window_mut_keeps unfolding has_text_def wm_text_def by fastforce

lemma memmap_start_has_text:
  assumes "memmap_start font g i d = Some d'" and "desk_inv info k d" and "has_text font wid c n vis t d" and "i \<noteq> wid"
  shows "has_text font wid c n vis t d'"
proof -
  obtain d1 where d1: "upd_wm (window_mut i (draw_memmap_window font g)) d = Some d1" "upd_wm (mark_dirty i) d1 = Some d'"
    using assms(1) by (auto simp: memmap_start_def draw_memmap_def wm_mark_dirty_def bind_eq_Some_conv)
  have t: "has_text font wid c n vis t d1" by (rule window_mut_has_text [OF d1(1) assms(3,4)])
  from upd_wm_Some [OF d1(2)] t show ?thesis
    by (auto simp: mark_dirty_def bind_eq_Some_conv has_text_def wm_text_def dest: window_mut_keeps [OF _ _] simp: assms(4) [symmetric])
      (metis assms(4) window_mut_keeps)+
qed

lemma panel_turn_keeps:
  assumes "kernel_desk font info sr True d" and "font_ok font" and "table_sound g"
  shows "\<exists>d'. memmap_start font g 1 d = Some d' \<and> kernel_desk font info sr False d'"
proof -
  have inv: "desk_inv info 6 d" using assms(1) by (simp add: kernel_desk_def desk_sound_def)
  obtain wm win where w: "WM d = Some wm" "win \<in> set (windows wm)" "win_id win = 1" "win_width win = 340" "win_height win = 520"
    using assms(1) by (auto simp: kernel_desk_def panel_there_def sized_def)
  have p: "panel_ok win" using w by (simp add: panel_ok_def)
  have g: "mem_regions_ok g" "0 < snd g" using assms(3) by (auto simp: table_sound_def)
  have ord: "\<forall>i < visible_rows win (snd g). region_start (fst g ! i) \<le> region_end (fst g ! i)"
    using assms(3) by (auto simp: table_sound_def visible_rows_def)
  obtain d' wm' where s: "memmap_start font g (win_id win) d = Some d'" "desk_inv info 6 d'" "WM d' = Some wm'" "needs_composite wm'"
    by (rule draw_memmap_desk [OF inv assms(2) g w(1,2) p ord])
  have "up_to_date font info d'" using s(3,4) by (simp add: up_to_date_def)
  moreover have "has_text font wid c n vis t d'" if "has_text font wid c n vis t d" "1 \<noteq> wid" for wid c n vis t
    by (rule memmap_start_has_text [OF s(1) inv that(1)]) (use that(2) w(3) in simp)
  ultimately have "kernel_desk font info sr False d'"
    using assms(1) s(2) unfolding kernel_desk_def desk_sound_def by (metis one_neq_zero numeral_One numeral_eq_iff semiring_norm(85))
  then show ?thesis using s(1) w(3) by simp
qed

section \<open>The scheduler keeps the windows of the tasks\<close>

definition task_windows :: "scheduler \<Rightarrow> usize option list" where
  "task_windows sc = map window_id (tasks sc)"

lemma update_windows: "i < length ts \<Longrightarrow> window_id t = window_id (ts ! i) \<Longrightarrow> map window_id (ts[i := t]) = map window_id ts"
  by (simp add: map_update list_update_same_conv)

lemma set_context_windows: "task_windows (set_context i sp sc) = task_windows sc"
proof (cases "i < length (tasks sc)")
  case True
  then show ?thesis by (simp add: set_context_def task_windows_def update_windows)
qed (simp add: set_context_def task_windows_def list_update_beyond)

lemma yield_pick_windows: "yield_pick sc = Some (sc', r) \<Longrightarrow> task_windows sc' = task_windows sc"
  by (auto simp: yield_pick_def Let_def bind_eq_Some_conv get_at_def set_at_def task_windows_def update_windows split: if_splits)

lemma yield_now_windows:
  assumes "yield_now ret s = Some s'" and "sched s = Some sc" and "sched s' = Some sc'"
  shows "task_windows sc' = task_windows sc"
  using assms
  by (auto simp: yield_now_def Let_def bind_eq_Some_conv set_context_windows split: if_splits option.splits dest: yield_pick_windows)
    (erule yield_pick_windows)

definition system_sound :: "nat \<Rightarrow> system \<Rightarrow> (nat \<Rightarrow> u64 list) \<Rightarrow> bool" where
  "system_sound n s e \<longleftrightarrow> (\<exists>sc. sys_ok s sc e \<and> length (tasks sc) = 4 \<and> current sc = n mod 4 \<and> task_windows sc = [None, Some 0, Some 1, Some 2])"

lemma yield_sound:
  assumes "system_sound n s e" and "sched s = Some sc"
  obtains s' where "yield_now ret s = Some s'" and "system_sound (Suc n) s' (e(current sc := saved_words (cpu_state s) ret))"
proof -
  have ok: "sys_ok s sc e" "length (tasks sc) = 4" "current sc = n mod 4" "task_windows sc = [None, Some 0, Some 1, Some 2]"
    using assms by (auto simp: system_sound_def sys_ok_def)
  have many: "1 < length (tasks sc)" using ok(2) by simp
  obtain s' sc' where y: "yield_now ret s = Some s'" "sys_ok s' sc' (e(current sc := saved_words (cpu_state s) ret))"
    "length (tasks sc') = length (tasks sc)" "current sc' = (current sc + 1) mod length (tasks sc)"
    by (rule yield_now_switches [OF ok(1) many])
  have "sched s' = Some sc'" using y(2) by (simp add: sys_ok_def)
  from yield_now_windows [OF y(1) assms(2) this] show ?thesis
    using y ok by (intro that [OF y(1)]) (auto simp: system_sound_def mod_Suc_eq)
qed

lemma compute_sound:
  assumes "system_sound n s e" and "sys_step (n, e, s) (n, e', s')"
  shows "system_sound n s' e'"
proof -
  obtain sc where ok: "sys_ok s sc e" "length (tasks sc) = 4" "current sc = n mod 4" "task_windows sc = [None, Some 0, Some 1, Some 2]"
    using assms(1) by (auto simp: system_sound_def)
  have many: "1 < length (tasks sc)" using ok(2) by simp
  obtain sc' where sc': "sys_ok s' sc' e'" using sys_step_ok [OF assms(2) ok(1) many] ok(2,3) by auto
  have "sched s' = sched s" using assms(2) by (auto elim: sys_stepE)
  then have "sc' = sc" using ok(1) sc'(1) by (simp add: sys_ok_def)
  then show ?thesis using ok sc' by (auto simp: system_sound_def)
qed

lemma own_windows:
  assumes "system_sound n s e" and "sched s = Some sc"
  shows "current sc < 4" and "current sc = 1 \<Longrightarrow> own_window s = 0" and "current sc = 2 \<Longrightarrow> own_window s = 1"
    and "current sc = 3 \<Longrightarrow> own_window s = 2"
proof -
  have ok: "sys_ok s sc e" "length (tasks sc) = 4" "task_windows sc = [None, Some 0, Some 1, Some 2]"
    using assms by (auto simp: system_sound_def sys_ok_def)
  show c: "current sc < 4" using ok(1,2) by (simp add: sys_ok_def sched_ok_def)
  have "window_id (tasks sc ! i) = [None, Some 0, Some 1, Some 2] ! i" if "i < 4" for i
    using ok(2,3) that nth_map [of i "tasks sc" window_id] by (simp add: task_windows_def)
  then have "current_window_id s = [None, Some 0, Some 1, Some 2] ! current sc"
    using assms(2) c ok(2) by (simp add: current_window_id_def)
  then show "current sc = 1 \<Longrightarrow> own_window s = 0" "current sc = 2 \<Longrightarrow> own_window s = 1" "current sc = 3 \<Longrightarrow> own_window s = 2"
    by (simp_all add: own_window_def)
qed

section \<open>The invariant of the running kernel\<close>

definition world_sound :: "font \<Rightarrow> fb_info \<Rightarrow> nat \<Rightarrow> (nat \<Rightarrow> u64 list) \<Rightarrow> 'k world \<Rightarrow> bool" where
  "world_sound font info n e w \<longleftrightarrow> irq_inv (wirq w) \<and> system_sound n (wsys w) e \<and> table_sound (wregions w) \<and>
     (\<not> whalted w \<longrightarrow> kernel_desk font info (wshell w \<noteq> None) (\<not> wpanel w) (wdesk w) \<and>
        (\<forall>wid l. wshell w = Some (wid, l) \<longrightarrow> wid = 0 \<and> line_inv l) \<and> (\<forall>wid c. wcounter w = Some (wid, c) \<longrightarrow> wid = 2))"

text \<open>A turn of the current task succeeds and keeps the invariant.\<close>

lemma idle_task_sound:
  assumes "world_sound font info n e w" and "\<not> whalted w" and "font_ok font" and "keeps_colour info"
  shows "\<exists>w'. idle_task font w = Some w' \<and> wsys w' = wsys w \<and> world_sound font info n e w' \<and> text_kept font (wdesk w) (wdesk w')"
proof -
  have d: "kernel_desk font info (wshell w \<noteq> None) (\<not> wpanel w) (wdesk w)" "mouse_inv (mouse_state (wirq w))"
    using assms(1,2) by (auto simp: world_sound_def irq_inv_def)
  obtain m' d' where "idle_turn font (mouse_state (wirq w), wdesk w) = Some (m', d')" "mouse_inv m'"
    "kernel_desk font info (wshell w \<noteq> None) (\<not> wpanel w) d'" "text_kept font (wdesk w) d'"
    using idle_turn_keeps [OF d(1) assms(3,4) d(2)] by blast
  then show ?thesis using assms(1,2) by (simp add: idle_task_def world_sound_def irq_inv_def)
qed

lemma idle_event_sound:
  assumes "world_sound font info n e w" and "\<not> whalted w" and "font_ok font" and "keeps_colour info"
  shows "\<exists>r. idle_event font w = Some r \<and> (\<forall>w'. r = Some w' \<longrightarrow> world_sound font info n e w' \<and> text_kept font (wdesk w) (wdesk w') \<and>
    w' = w\<lparr>wirq := (wirq w)\<lparr>mouse_state := mouse_state (wirq w')\<rparr>, wdesk := wdesk w'\<rparr>)"
proof -
  let ?m = "mouse_state (wirq w)" and ?K = "kernel_desk font info (wshell w \<noteq> None) (\<not> wpanel w)"
  have d: "?K (wdesk w)" and m: "mouse_inv ?m" using assms(1,2) by (auto simp: world_sound_def irq_inv_def)
  have q: "ring_inv (MOUSE_QUEUE ?m)" using m by (simp add: mouse_inv_def)
  show ?thesis
  proof (cases "ring_list (MOUSE_QUEUE ?m)")
    case Nil
    then show ?thesis using mouseq.deq_empty [OF q] by (simp add: idle_event_def try_read_event_def)
  next
    case (Cons ev evs)
    obtain q' where q': "mouse_pop (MOUSE_QUEUE ?m) = Some (Some ev, q')" "ring_inv q'" "ring_list q' = evs"
      using mouseq.deq_front [OF q Cons] by blast
    have "move_ok ev" using m Cons by (auto simp: mouse_inv_def Mouse.event_ok_def move_ok_def i16_range_def)
    then obtain d' where d': "wm_handle_mouse font ev (wdesk w) = Some d'" "?K d'" "text_kept font (wdesk w) d'"
      using screen_request_keeps [OF d assms(3,4), of "Mouse_event ev"] by auto
    have "mouse_inv (?m\<lparr>MOUSE_QUEUE := q'\<rparr>)" using m q'(2,3) Cons by (simp add: mouse_inv_def)
    then show ?thesis using assms(1,2) q'(1) d' by (simp add: idle_event_def try_read_event_def world_sound_def irq_inv_def)
  qed
qed

lemma shell_task_sound:
  assumes "world_sound font info n e w" and "\<not> whalted w" and "font_ok font" and "keeps_colour info" and "own_window (wsys w) = 0"
  shows "\<exists>w'. shell_task font ab pk w = Some w' \<and> wsys w' = wsys w \<and> world_sound font info n e w'"
proof -
  have d: "kernel_desk font info (wshell w \<noteq> None) (\<not> wpanel w) (wdesk w)" and q: "ring_inv (scancodes (wirq w))"
    and sh: "\<And>wid l. wshell w = Some (wid, l) \<Longrightarrow> wid = 0 \<and> line_inv l"
    using assms(1,2) by (auto simp: world_sound_def irq_inv_def)
  have "\<exists>l d1. (case wshell w of Some (wid, l) \<Rightarrow> Some (wid, l, wdesk w)
       | None \<Rightarrow> do { let wid = own_window (wsys w); (l, d) \<leftarrow> shell_start font wid (wdesk w); Some (wid, l, d) }) = Some (0, l, d1) \<and>
    line_inv l \<and> kernel_desk font info True (\<not> wpanel w) d1"
  proof (cases "wshell w")
    case None
    then show ?thesis using shell_first_keeps [of font info "\<not> wpanel w" "wdesk w"] d assms(3,4,5) by auto
  next
    case (Some p)
    then show ?thesis using sh d by (cases p) auto
  qed
  then obtain l d1 where f: "(case wshell w of Some (wid, l) \<Rightarrow> Some (wid, l, wdesk w)
       | None \<Rightarrow> do { let wid = own_window (wsys w); (l, d) \<leftarrow> shell_start font wid (wdesk w); Some (wid, l, d) }) = Some (0, l, d1)"
    "line_inv l" "kernel_desk font info True (\<not> wpanel w) d1" by blast
  obtain ctl l' q' kb' d' where t: "shell_turn font 0 ab pk (l, scancodes (wirq w), wkeys w, d1) = Some (ctl, l', q', kb', d')" "ring_inv q'"
    "ctl = Continues \<longrightarrow> line_inv l' \<and> kernel_desk font info True (\<not> wpanel w) d'"
    using shell_turn_keeps [OF f(3) assms(3,4) f(2) q, where ab = ab and pk = pk and kb = "wkeys w"] by blast
  have "shell_task font ab pk w =
    Some (w\<lparr>wirq := (wirq w)\<lparr>scancodes := q'\<rparr>, wdesk := d', wkeys := kb', wshell := Some (0, l'), whalted := (ctl = Halts)\<rparr>)"
    unfolding shell_task_def f(1) bind.bind_lunit prod.case t(1) ..
  then show ?thesis using assms(1,2) t(2,3) by (cases ctl) (simp_all add: world_sound_def irq_inv_def)
qed

lemma panel_task_sound:
  assumes "world_sound font info n e w" and "\<not> whalted w" and "font_ok font" and "own_window (wsys w) = 1"
  shows "\<exists>w'. panel_task font w = Some w' \<and> wsys w' = wsys w \<and> world_sound font info n e w'"
proof (cases "wpanel w")
  case True
  then show ?thesis using assms(1) by (simp add: panel_task_def)
next
  case False
  have d: "kernel_desk font info (wshell w \<noteq> None) True (wdesk w)" "table_sound (wregions w)"
    using assms(1,2) False by (auto simp: world_sound_def)
  obtain d' where "memmap_start font (wregions w) 1 (wdesk w) = Some d'" "kernel_desk font info (wshell w \<noteq> None) False d'"
    using panel_turn_keeps [OF d(1) assms(3) d(2)] by blast
  then show ?thesis using assms(1,2,4) False by (simp add: panel_task_def world_sound_def)
qed

lemma counter_task_sound:
  assumes "world_sound font info n e w" and "\<not> whalted w" and "font_ok font" and "keeps_colour info" and "own_window (wsys w) = 2"
  shows "\<exists>w'. counter_task font w = Some w' \<and> wsys w' = wsys w \<and> world_sound font info n e w'"
proof -
  let ?K = "kernel_desk font info (wshell w \<noteq> None) (\<not> wpanel w)"
  have d: "?K (wdesk w)" and co: "\<And>wid c. wcounter w = Some (wid, c) \<Longrightarrow> wid = 2"
    using assms(1,2) by (auto simp: world_sound_def)
  have "\<exists>c d1. (case wcounter w of Some (wid, n) \<Rightarrow> Some (wid, n, wdesk w)
       | None \<Rightarrow> do { let wid = own_window (wsys w); (n, d) \<leftarrow> counter_start font wid (wdesk w); Some (wid, n, d) }) = Some (2, c, d1) \<and> ?K d1"
  proof (cases "wcounter w")
    case None
    then show ?thesis using counter_first_keeps [OF d assms(3,4)] assms(5) by auto
  next
    case (Some p)
    then show ?thesis using co d by (cases p) auto
  qed
  then obtain c d1 where f: "(case wcounter w of Some (wid, n) \<Rightarrow> Some (wid, n, wdesk w)
       | None \<Rightarrow> do { let wid = own_window (wsys w); (n, d) \<leftarrow> counter_start font wid (wdesk w); Some (wid, n, d) }) = Some (2, c, d1)"
    "?K d1" by blast
  obtain c' d' where t: "counter_turn font 2 (ticks (wirq w)) (c, d1) = Some (c', d')" "?K d'"
    using counter_turn_keeps [OF f(2) assms(3,4)] by blast
  have "counter_task font w = Some (w\<lparr>wdesk := d', wcounter := Some (2, c')\<rparr>)"
    unfolding counter_task_def f(1) bind.bind_lunit prod.case t(1) ..
  then show ?thesis using assms(1,2) t(2) by (simp add: world_sound_def)
qed

lemma task_turn_sound:
  assumes "world_sound font info n e w" and "\<not> whalted w" and "font_ok font" and "keeps_colour info" and "sched (wsys w) = Some sc"
  shows "\<exists>w'. task_turn font ab pk (current sc) w = Some w' \<and> wsys w' = wsys w \<and> world_sound font info n e w'"
proof -
  have sys: "system_sound n (wsys w) e" using assms(1) by (simp add: world_sound_def)
  note win = own_windows [OF sys assms(5)]
  have "current sc \<in> {0, 1, 2, 3}" using win(1) by auto
  then show ?thesis
    using idle_task_sound [OF assms(1-4)] shell_task_sound [OF assms(1-4) win(2)] panel_task_sound [OF assms(1-3) win(3)]
      counter_task_sound [OF assms(1-4) win(4)] by (auto simp: task_turn_def)
qed

lemma world_sound_system:
  assumes "world_sound font info n e w" and "system_sound n' s e'"
  shows "world_sound font info n' e' (w\<lparr>wsys := s\<rparr>)" and "world_sound font info n' e' (yielded s w)"
  using assms by (simp_all add: world_sound_def)

lemma kernel_step_sound:
  assumes "kernel_step font ab pk irqs (n, e, w) (n', e', w')" and "world_sound font info n e w" and "font_ok font" and "keeps_colour info"
  shows "world_sound font info n' e' w'"
  using assms(1)
proof (cases rule: kernel_step.cases)
  case (irq i b s)
  have "irq_inv s" using take_irq_step [of "wirq w" i b] irq assms(2) by (auto simp: world_sound_def)
  then show ?thesis using irq assms(2) by (simp add: world_sound_def)
next
  case hlt
  then show ?thesis using assms(2) by (simp add: world_sound_def)
next
  case (event sc)
  then show ?thesis using idle_event_sound [OF assms(2) _ assms(3,4)] by fastforce
next
  case (compute s)
  then show ?thesis using compute_sound [of n "wsys w" e e' s] assms(2) world_sound_system by (auto simp: world_sound_def)
next
  case (turn sc w1 ret s)
  have w1: "world_sound font info n e w1" "wsys w1 = wsys w"
    using task_turn_sound [OF assms(2) turn(5) assms(3,4) turn(7), of ab pk] turn(8) by auto
  have sys: "system_sound n (wsys w) e" using assms(2) by (simp add: world_sound_def)
  have "system_sound (Suc n) s (e(current sc := saved_words (cpu_state (wsys w)) ret))"
    by (rule yield_sound [OF sys turn(7), of ret]) (use turn(10) in auto)
  then show ?thesis using turn w1 world_sound_system by auto
next
  case (halt sc)
  then show ?thesis using task_turn_sound [OF assms(2) _ assms(3,4), of sc ab pk] by auto
qed

lemma reachable_sound:
  assumes "kernel_run font ab pk irqs (n0, e0, w0) c" and "world_sound font info n0 e0 w0" and "font_ok font" and "keeps_colour info"
  shows "world_sound font info (fst c) (fst (snd c)) (snd (snd c))"
  using assms(1)
proof (induction "(n0, e0, w0)" c rule: kernel_run.induct)
  case (more irqs c' irqs' c'')
  then show ?case using kernel_step_sound [OF _ _ assms(3,4)] by (cases c', cases c'') auto
qed (use assms(2) in simp)

section \<open>Property\<close>

text \<open>The world after the boot: interrupts have been on since before the heap was set up, so the queues and the
  tick count may be in any consistent state.\<close>

definition boot_world :: "('m, 'u, 'g, 'h) kernel \<Rightarrow> irq_state \<Rightarrow> 'k \<Rightarrow> 'k world" where
  "boot_world k i kb = \<lparr>wirq = i, wdesk = kdesk k, wregions = kregions k, wkeys = kb, wshell = None, wpanel = False,
     wcounter = None, wsys = ksystem k, whalted = False, whlt = Awake\<rparr>"

lemma heap_region_forward: "region_start heap_region \<le> region_end heap_region"
  by (simp add: heap_region_def HEAP_START_def HEAP_SIZE_def)

lemma boot_world_sound:
  assumes "bootable plat bi s info addr_of translate" and "kernel_main plat bi s = Some k"
    and "\<forall>r \<in> set (memory_regions bi). rstart r \<le> rend r" and "irq_inv i"
  shows "world_sound (glyphs plat) info 0 (first_resume (task_specs plat k)) (boot_world k i kb)"
proof -
  let ?regs = "map boot_region (take 30 (memory_regions bi)) @ [heap_region]"
  obtain k' wm fb sc where r: "kernel_main plat bi s = Some k'" "desk_inv info 6 (kdesk k')" "WM (kdesk k') = Some wm"
    "FB_STATE (kdesk k') = Some (info, fb)"
    "cursor_over info (frame_size info) (scene (glyphs plat) info wm) (wm_cursor wm) fb"
    "has_text (glyphs plat) 0 63 24 False term_blank (kdesk k')" "has_text (glyphs plat) 2 28 10 False term_blank (kdesk k')"
    "sized wm 1 (340, 520)" "mem_regions_ok (kregions k')"
    "take (snd (kregions k')) (fst (kregions k')) = ?regs"
    "sys_ok (ksystem k') sc (first_resume (task_specs plat k'))" "current sc = 0"
    "map window_id (tasks sc) = [None, Some 0, Some 1, Some 2]"
    by (rule kernel_main_run [OF assms(1)])
  have k: "k' = k" using r(1) assms(2) by simp
  have "up_to_date (glyphs plat) info (kdesk k)" using r(3-5) k by (simp add: up_to_date_def)
  then have desk: "kernel_desk (glyphs plat) info False True (kdesk k)"
    using r(2,3,6-8) k by (auto simp: kernel_desk_def desk_sound_def panel_there_def)
  have len: "length (tasks sc) = 4" using arg_cong [OF r(13), of length] by simp
  have forward: "region_start g \<le> region_end g" if "g \<in> set ?regs" for g
    using that assms(3) heap_region_forward by (auto simp: boot_region_def dest: in_set_takeD)
  have n: "snd (kregions k) \<le> length (fst (kregions k))" "0 < snd (kregions k)"
    using r(9,10) k by (auto simp: mem_regions_ok_def intro: gr0I)
  have "region_start (fst (kregions k) ! j) \<le> region_end (fst (kregions k) ! j)" if "j < snd (kregions k)" for j
  proof (rule forward)
    have "take (snd (kregions k)) (fst (kregions k)) ! j = fst (kregions k) ! j" using that by simp
    moreover have "j < length (take (snd (kregions k)) (fst (kregions k)))" using that n(1) by simp
    ultimately show "fst (kregions k) ! j \<in> set ?regs" using nth_mem r(10) k by metis
  qed
  then have "table_sound (kregions k)" using r(9) n(2) k by (simp add: table_sound_def)
  moreover have "system_sound 0 (ksystem k) (first_resume (task_specs plat k))"
    using r(11-13) len k by (auto simp: system_sound_def task_windows_def)
  ultimately show ?thesis using desk assms(4) by (simp add: world_sound_def boot_world_def)
qed

text \<open>C1: the kernel never panics. Booted on a machine the boot relies on, with a memory map whose regions do not
  end before they start, it reaches only states in which every interrupt is served, the running task is the one
  round robin gives, its next turn succeeds (unless the \<^verbatim>\<open>halt\<close> command has stopped the machine), as does the next
  iteration of the loop over the mouse events, the yield that ends the turn succeeds, and the screen shows the current desktop or a composition is due - whatever keys are
  typed, bytes the mouse sends and interrupts arrive.\<close>

theorem kernel_never_panics:
  assumes "bootable plat bi s info addr_of translate" and "kernel_main plat bi s = Some k"
    and "\<forall>r \<in> set (memory_regions bi). rstart r \<le> rend r" and "irq_inv i0"
    and "kernel_run (glyphs plat) ab pk irqs (0, first_resume (task_specs plat k), boot_world k i0 kb) (n, e, w)"
  shows "\<exists>sc. sched (wsys w) = Some sc \<and> length (tasks sc) = 4 \<and> current sc = n mod 4 \<and>
    (\<forall>i b. \<exists>s'. take_irq i b (wirq w) = Some s') \<and> (\<exists>s'. yield_now ret (wsys w) = Some s') \<and>
    (\<not> whalted w \<longrightarrow> (\<exists>w'. task_turn (glyphs plat) ab pk (current sc) w = Some w') \<and> (\<exists>r. idle_event (glyphs plat) w = Some r) \<and>
      up_to_date (glyphs plat) info (wdesk w))"
proof -
  have f: "font_ok (glyphs plat)" "keeps_colour info" using assms(1) by (auto simp: bootable_def)
  have w: "world_sound (glyphs plat) info n e w"
    using reachable_sound [OF assms(5) boot_world_sound [OF assms(1-4)] f] by simp
  obtain sc where sc: "sys_ok (wsys w) sc e" "length (tasks sc) = 4" "current sc = n mod 4"
    using w by (auto simp: world_sound_def system_sound_def)
  have s: "sched (wsys w) = Some sc" using sc(1) by (simp add: sys_ok_def)
  have sys: "system_sound n (wsys w) e" using w by (simp add: world_sound_def)
  have "\<exists>s'. yield_now ret (wsys w) = Some s'" using yield_sound [OF sys s, of ret] by blast
  moreover have "\<exists>s'. take_irq i b (wirq w) = Some s'" for i b
    using take_irq_step [of "wirq w" i b] w by (auto simp: world_sound_def)
  moreover have "(\<exists>w'. task_turn (glyphs plat) ab pk (current sc) w = Some w') \<and> (\<exists>r. idle_event (glyphs plat) w = Some r) \<and>
    up_to_date (glyphs plat) info (wdesk w)" if "\<not> whalted w"
    using task_turn_sound [OF w that f s, of ab pk] idle_event_sound [OF w that f] w that by (auto simp: world_sound_def kernel_desk_def desk_sound_def)
  ultimately show ?thesis using s sc(2,3) by blast
qed

text \<open>With the processor awake, a turn that does not halt is a step.\<close>

lemma turn_exists:
  assumes "world_sound font info n e w" and "\<not> whalted w" and "font_ok font" and "keeps_colour info" and "sched (wsys w) = Some sc"
    and "whlt w = Awake"
  obtains w1 s where "task_turn font ab pk (current sc) w = Some w1" and "yield_now 0 (wsys w) = Some s" and "wsys w1 = wsys w"
    and "\<not> whalted w1 \<longrightarrow> kernel_step font ab pk [] (n, e, w) (Suc n, e(current sc := saved_words (cpu_state (wsys w)) 0), yielded s w1)"
proof -
  obtain w1 where w1: "task_turn font ab pk (current sc) w = Some w1" "wsys w1 = wsys w"
    using task_turn_sound [OF assms(1-5), of ab pk] by blast
  have sys: "system_sound n (wsys w) e" using assms(1) by (simp add: world_sound_def)
  obtain s where s: "yield_now 0 (wsys w) = Some s" by (rule yield_sound [OF sys assms(5), of 0])
  have "\<not> whalted w1 \<longrightarrow> kernel_step font ab pk [] (n, e, w) (Suc n, e(current sc := saved_words (cpu_state (wsys w)) 0), yielded s w1)"
    using kernel_step.turn [OF assms(2,6,5) w1(1) _ s] by blast
  then show ?thesis by (rule that [OF w1(1) s w1(2)])
qed

lemma world_current:
  assumes "world_sound font info n e w"
  obtains sc where "sched (wsys w) = Some sc" and "current sc = n mod 4"
  using assms by (auto simp: world_sound_def system_sound_def sys_ok_def)

text \<open>The sample machine, just booted.\<close>

lemma sample_world:
  obtains k where "kernel_main sample_platform sample_boot_info sample_system = Some k"
    and "world_sound block_font sample_info 0 (first_resume (task_specs sample_platform k)) (boot_world k irq_boot kb)"
    and "\<forall>r \<in> set (memory_regions sample_boot_info). rstart r \<le> rend r" and "irq_inv irq_boot"
    and "font_ok block_font" and "keeps_colour sample_info" and "glyphs sample_platform = block_font"
    and "iflag (wsys (boot_world k irq_boot kb))" and "\<not> whalted (boot_world k irq_boot kb)" and "whlt (boot_world k irq_boot kb) = Awake"
proof -
  obtain k sc where k: "kernel_main sample_platform sample_boot_info sample_system = Some k"
    "sys_ok (ksystem k) sc (first_resume (task_specs sample_platform k))" "current sc = 0" by (rule kernel_main_run [OF sample_bootable])
  have rs: "\<forall>r \<in> set (memory_regions sample_boot_info). rstart r \<le> rend r" by (simp add: sample_boot_info_def)
  have irqs: "irq_inv irq_boot" by (simp add: irq_inv_def irq_boot_def SCANCODE_QUEUE_def mouse_inv_static)
  have font: "glyphs sample_platform = block_font" by (simp add: sample_platform_def)
  have "font_ok block_font" "keeps_colour sample_info" using sample_bootable font by (auto simp: bootable_def)
  moreover have "iflag (wsys (boot_world k irq_boot kb))" using k(2,3) by (simp add: boot_world_def sys_ok_def flags_ok_def)
  moreover have "\<not> whalted (boot_world k irq_boot kb)" "whlt (boot_world k irq_boot kb) = Awake" by (simp_all add: boot_world_def)
  ultimately show ?thesis
    using that [OF k(1) boot_world_sound [OF sample_bootable k(1) rs irqs, unfolded font] rs irqs _ _ font] by blast
qed

text \<open>The sample machine, with a decoder that makes every scancode a key: booted, and after a keyboard
  interrupt.\<close>

theorem kernel_never_panics_witness:
  "\<exists>k s sc. kernel_main sample_platform sample_boot_info sample_system = Some k \<and> take_irq Keyboard 0x1E irq_boot = Some s \<and>
    sched (ksystem k) = Some sc \<and> current sc = 0 \<and>
    (\<exists>w'. task_turn block_font (\<lambda>k sc. (Inr (Some sc) :: unit + u8 option, k)) (\<lambda>k ev. (Some (Unicode (unat ev)), k)) 0
       (boot_world k s ()) = Some w')"
proof -
  let ?ab = "\<lambda>k sc. (Inr (Some sc) :: unit + u8 option, k)" and ?pk = "\<lambda>k ev. (Some (Unicode (unat ev)), k)"
  let ?w = "\<lambda>k. boot_world k irq_boot ()"
  obtain k where k: "kernel_main sample_platform sample_boot_info sample_system = Some k"
    and rs: "\<forall>r \<in> set (memory_regions sample_boot_info). rstart r \<le> rend r" and irqs: "irq_inv irq_boot"
    and font: "glyphs sample_platform = block_font" and on: "iflag (wsys (?w k))" by (rule sample_world)
  obtain s where s: "take_irq Keyboard 0x1E irq_boot = Some s" using take_irq_step [OF irqs, of Keyboard "0x1E"] by blast
  have "kernel_step (glyphs sample_platform) ?ab ?pk [(Keyboard, 0x1E)] (0, first_resume (task_specs sample_platform k), ?w k)
      (0, first_resume (task_specs sample_platform k), interrupted s (?w k))"
    by (rule kernel_step.irq [OF on, where i = Keyboard and b = "0x1E"]) (simp add: s boot_world_def)
  from kernel_never_panics [OF sample_bootable k rs irqs run_one [OF this], where ret = 0] obtain sc2 where sc2:
    "sched (ksystem k) = Some sc2" "current sc2 = 0"
    "\<exists>w'. task_turn block_font ?ab ?pk (current sc2) (interrupted s (?w k)) = Some w'"
    by (auto simp: boot_world_def font)
  have "interrupted s (?w k) = boot_world k s ()" by (simp add: boot_world_def interrupted_def)
  note turn = sc2(3) [unfolded this sc2(2)]
  show ?thesis using k s sc2(1,2) turn by blast
qed

end
