(* ===== verification/Typing.thy ===== *)
theory Typing
  imports Running
begin

text \<open>
  From the keyboard to the screen: the composition of the interrupt handler, the queue, the decoder, the shell, the
  console and the window manager in the running kernel. Whatever the interleaving of interrupts and turns, the window of
  the shell shows the terminal that the line editor makes of the keys decoded from the scancodes read so far.
\<close>

section \<open>Decoding a list of scancodes\<close>

fun decode :: "('k, 'ev, 'er) add_byte \<Rightarrow> ('k, 'ev, 'key) process_keyevent \<Rightarrow> u8 list \<Rightarrow> 'k \<Rightarrow> 'key list \<times> 'k" where
  "decode ab pk [] kb = ([], kb)"
| "decode ab pk (sc # scs) kb = (case ab kb sc of
      (Inr (Some ev), kb) \<Rightarrow> (case pk kb ev of
          (Some key, kb) \<Rightarrow> apfst ((#) key) (decode ab pk scs kb)
        | (None, kb) \<Rightarrow> decode ab pk scs kb)
    | (_, kb) \<Rightarrow> decode ab pk scs kb)"

lemma decode_append:
  "decode ab pk (xs @ ys) kb = apfst ((@) (fst (decode ab pk xs kb))) (decode ab pk ys (snd (decode ab pk xs kb)))"
  by (induction xs arbitrary: kb) (auto simp: apfst_def map_prod_def split: prod.splits sum.splits option.splits)

lemma next_key_decode:
  assumes "next_key ab pk scs kb = (r, rest, kb')"
  shows "\<exists>used. scs = used @ rest \<and> decode ab pk used kb = ((case r of None \<Rightarrow> [] | Some key \<Rightarrow> [key]), kb')"
  using assms
proof (induction scs arbitrary: kb)
  case (Cons sc scs)
  show ?case
  proof (cases "\<exists>ev kb1 key kb2. ab kb sc = (Inr (Some ev), kb1) \<and> pk kb1 ev = (Some key, kb2)")
    case True
    then show ?thesis using Cons.prems by (intro exI [of _ "[sc]"]) auto
  next
    case False
    then obtain kb1 where kb1: "next_key ab pk scs kb1 = (r, rest, kb')" "\<And>xs. decode ab pk (sc # xs) kb = decode ab pk xs kb1"
      using Cons.prems by (auto split: prod.splits sum.splits option.splits)
    from Cons.IH [OF kb1(1)] obtain used where "scs = used @ rest"
      "decode ab pk used kb1 = ((case r of None \<Rightarrow> [] | Some key \<Rightarrow> [key]), kb')" by blast
    then show ?thesis using kb1(2) by (intro exI [of _ "sc # used"]) simp
  qed
qed simp

lemma edit_keys_append:
  "edit_keys c n (xs @ ys) (line, t) = (case edit_keys c n xs (line, t) of
     (Continues, line, t) \<Rightarrow> edit_keys c n ys (line, t) | (Halts, line, t) \<Rightarrow> (Halts, line, t))"
proof (induction xs arbitrary: line t)
  case (Cons key xs)
  then show ?case by (cases key) (auto split: prod.splits control.splits)
qed simp

section \<open>The history of a run\<close>

text \<open>\<open>read\<close> are the scancodes the shell has taken off the queue, \<open>codes\<close> all that the keyboard has sent. The queue
  drops what arrives while it holds 127.\<close>

definition history :: "'a list \<Rightarrow> 'a list \<Rightarrow> 'a ring \<Rightarrow> bool" where
  "history codes read q \<longleftrightarrow> subseq (read @ ring_list q) codes \<and> (length codes \<le> 127 \<longrightarrow> read @ ring_list q = codes)"

definition typed :: "font \<Rightarrow> ('k, 'ev, 'er) add_byte \<Rightarrow> ('k, 'ev, decoded_key) process_keyevent \<Rightarrow> 'k \<Rightarrow> u8 list \<Rightarrow> 'k world \<Rightarrow> bool" where
  "typed font ab pk kb0 read w \<longleftrightarrow> (case wshell w of
      None \<Rightarrow> read = [] \<and> wkeys w = kb0 \<and> has_text font 0 63 24 False term_blank (wdesk w)
    | Some (wid, l) \<Rightarrow> snd (decode ab pk read kb0) = wkeys w \<and>
        (\<exists>t. edit_keys 63 24 (fst (decode ab pk read kb0)) ([], term_write_str 63 24 greeting term_blank) = (Continues, line_text l, t) \<and>
           has_text font 0 63 24 True t (wdesk w)))"

definition keyboard_history :: "font \<Rightarrow> ('k, 'ev, 'er) add_byte \<Rightarrow> ('k, 'ev, decoded_key) process_keyevent \<Rightarrow> 'k \<Rightarrow> u8 list \<Rightarrow> 'k world \<Rightarrow> bool" where
  "keyboard_history font ab pk kb0 codes w \<longleftrightarrow> (\<exists>read. history codes read (scancodes (wirq w)) \<and> typed font ab pk kb0 read w)"

lemma history_read: "history codes read q \<Longrightarrow> ring_list q = used @ ring_list q' \<Longrightarrow> history codes (read @ used) q'"
  by (simp add: history_def)

lemma history_take:
  assumes "history codes read q" and "ring_list q' = ring_list q @ take (127 - length (ring_list q)) new"
  shows "history (codes @ new) read q'"
proof -
  have "take (127 - length (ring_list q)) new = new" if "length (codes @ new) \<le> 127"
  proof -
    have "read @ ring_list q = codes" using that assms(1) by (simp add: history_def)
    then have "length (ring_list q) + length new \<le> 127" using that by auto
    then show ?thesis by simp
  qed
  moreover have "subseq (read @ ring_list q @ take (127 - length (ring_list q)) new) (codes @ new)"
    using assms(1) list_emb_append_mono [of "(=)" "read @ ring_list q" codes "take (127 - length (ring_list q)) new" new]
    by (simp add: history_def prefix_imp_subseq take_is_prefix)
  ultimately show ?thesis using assms by (simp add: history_def)
qed

lemma history_push:
  assumes "history codes read q" and "ring_inv q" and "push b q = Some q'"
  shows "history (codes @ [b]) read q'"
proof (rule history_take [OF assms(1)])
  show "ring_list q' = ring_list q @ take (127 - length (ring_list q)) [b]"
    using push_enq [OF assms(2), of b] assms(3) by (auto simp: BUF_SIZE_def take_Cons')
qed

section \<open>The turns of the tasks\<close>

lemma shell_turn_history:
  assumes "device_text font info 0 63 24 True t d" and "line_inv l" and "ring_inv q"
    and "shell_turn font 0 ab pk (l, q, kb, d) = Some (Continues, l', q', kb', d')"
  shows "\<exists>used t'. ring_list q = used @ ring_list q' \<and> snd (decode ab pk used kb) = kb' \<and>
    edit_keys 63 24 (fst (decode ab pk used kb)) (line_text l, t) = (Continues, line_text l', t') \<and> device_text font info 0 63 24 True t' d'"
proof (cases "wm_is_focused 0 d")
  case False
  then show ?thesis using assms by (intro exI [of _ "[]"] exI [of _ t]) (simp add: shell_turn_def)
next
  case True
  obtain r rest kb1 where nk: "next_key ab pk (ring_list q) kb = (r, rest, kb1)" by (rule prod_cases3)
  then obtain q1 where q1: "try_read_key ab pk q kb = Some (r, q1, kb1)" "ring_list q1 = rest"
    using try_read_key_refines [OF assms(3), of ab pk kb] by auto
  obtain used where used: "ring_list q = used @ rest" "decode ab pk used kb = ((case r of None \<Rightarrow> [] | Some key \<Rightarrow> [key]), kb1)"
    using next_key_decode [OF nk] by blast
  show ?thesis
  proof (cases r)
    case None
    then show ?thesis using True q1 used assms by (intro exI [of _ used] exI [of _ t]) (simp add: shell_turn_def)
  next
    case (Some key)
    obtain l1 d1 ctl where k: "shell_keys font 0 [key] (l, d) = Some (ctl, l1, d1)"
      "ctl = fst (edit_keys 63 24 [key] (line_text l, t))" "line_text l1 = fst (snd (edit_keys 63 24 [key] (line_text l, t)))"
      "device_text font info 0 63 24 (ctl = Continues) (snd (snd (edit_keys 63 24 [key] (line_text l, t)))) d1"
      using shell_keys_refine [OF assms(1,2), of "[key]"] by metis
    then have "shell_key font 0 key (l, d) = Some (ctl, l1, d1)"
      by (auto simp: bind_eq_Some_conv split: if_splits control.splits) (metis control.exhaust)+
    then have "ctl = Continues \<and> l1 = l' \<and> q1 = q' \<and> kb1 = kb' \<and> d1 = d'"
      using True q1(1) Some assms(4) by (simp add: shell_turn_def)
    then show ?thesis using q1(2) used Some k(2-4)
      by (intro exI [of _ used] exI [of _ "snd (snd (edit_keys 63 24 [key] (line_text l, t)))"]) (auto simp: prod_eq_iff)
  qed
qed

lemma kernel_desk_text:
  assumes "kernel_desk font info sr wt d" and "font_ok font" and "has_text font 0 63 24 vis t d"
  shows "device_text font info 0 63 24 vis t d"
proof -
  have "desk_inv info (2 ^ 32) d" by (rule desk_inv_mono [of info 6]) (use assms(1) in \<open>simp_all add: kernel_desk_def desk_sound_def\<close>)
  then show ?thesis using assms by (auto simp: device_text_def has_text_def)
qed

lemma shell_task_history:
  assumes "world_sound font info n e w" and "\<not> whalted w" and "font_ok font" and "own_window (wsys w) = 0"
    and "shell_task font ab pk w = Some w'" and "\<not> whalted w'" and "keyboard_history font ab pk kb0 codes w"
  shows "keyboard_history font ab pk kb0 codes w'"
proof -
  have d: "kernel_desk font info (wshell w \<noteq> None) (\<not> wpanel w) (wdesk w)" and q: "ring_inv (scancodes (wirq w))"
    and sh: "\<And>wid l. wshell w = Some (wid, l) \<Longrightarrow> wid = 0 \<and> line_inv l"
    using assms(1,2) by (auto simp: world_sound_def irq_inv_def)
  obtain read where read: "history codes read (scancodes (wirq w))" "typed font ab pk kb0 read w"
    using assms(7) by (auto simp: keyboard_history_def)
  let ?keys = "fst (decode ab pk read kb0)" and ?greet = "term_write_str 63 24 greeting term_blank"
  have "\<exists>l t d1. (case wshell w of Some (wid, l) \<Rightarrow> Some (wid, l, wdesk w)
       | None \<Rightarrow> do { let wid = own_window (wsys w); (l, d) \<leftarrow> shell_start font wid (wdesk w); Some (wid, l, d) }) = Some (0, l, d1) \<and>
    line_inv l \<and> edit_keys 63 24 ?keys ([], ?greet) = (Continues, line_text l, t) \<and> snd (decode ab pk read kb0) = wkeys w \<and>
    device_text font info 0 63 24 True t d1"
  proof (cases "wshell w")
    case None
    then have "device_text font info 0 63 24 False term_blank (wdesk w)" "read = []" "wkeys w = kb0"
      using read(2) kernel_desk_text [OF d assms(3)] by (auto simp: typed_def)
    moreover from this(1) obtain l d1 where "shell_start font 0 (wdesk w) = Some (l, d1)" "line_inv l" "line_text l = []"
      "device_text font info 0 63 24 True ?greet d1" by (rule shell_start_text)
    ultimately show ?thesis using None assms(4) by simp
  next
    case (Some p)
    then show ?thesis using read(2) sh kernel_desk_text [OF d assms(3)] by (cases p) (auto simp: typed_def)
  qed
  then obtain l t d1 where f: "(case wshell w of Some (wid, l) \<Rightarrow> Some (wid, l, wdesk w)
       | None \<Rightarrow> do { let wid = own_window (wsys w); (l, d) \<leftarrow> shell_start font wid (wdesk w); Some (wid, l, d) }) = Some (0, l, d1)"
    "line_inv l" "edit_keys 63 24 ?keys ([], ?greet) = (Continues, line_text l, t)" "snd (decode ab pk read kb0) = wkeys w"
    "device_text font info 0 63 24 True t d1" by blast
  have "\<exists>l' q' kb' d'. shell_turn font 0 ab pk (l, scancodes (wirq w), wkeys w, d1) = Some (Continues, l', q', kb', d') \<and>
    w' = w\<lparr>wirq := (wirq w)\<lparr>scancodes := q'\<rparr>, wdesk := d', wkeys := kb', wshell := Some (0, l'), whalted := False\<rparr>"
    using assms(5,6) unfolding shell_task_def f(1) bind.bind_lunit prod.case
    by (auto simp: bind_eq_Some_conv) (metis control.exhaust)
  then obtain l' q' kb' d' where turn: "shell_turn font 0 ab pk (l, scancodes (wirq w), wkeys w, d1) = Some (Continues, l', q', kb', d')"
    and w': "w' = w\<lparr>wirq := (wirq w)\<lparr>scancodes := q'\<rparr>, wdesk := d', wkeys := kb', wshell := Some (0, l'), whalted := False\<rparr>" by blast
  from shell_turn_history [OF f(5,2) q turn] obtain used t' where used: "ring_list (scancodes (wirq w)) = used @ ring_list q'"
    "snd (decode ab pk used (wkeys w)) = kb'" "edit_keys 63 24 (fst (decode ab pk used (wkeys w))) (line_text l, t) = (Continues, line_text l', t')"
    "device_text font info 0 63 24 True t' d'" by blast
  have "typed font ab pk kb0 (read @ used) w'"
    using used f(3,4) device_has_text [OF used(4)] by (simp add: typed_def w' decode_append edit_keys_append)
  moreover have "history codes (read @ used) (scancodes (wirq w'))" using history_read [OF read(1) used(1)] by (simp add: w')
  ultimately show ?thesis by (auto simp: keyboard_history_def)
qed

text \<open>The other tasks leave the window of the shell, the queue and the decoder alone.\<close>

lemma history_kept:
  assumes "keyboard_history font ab pk kb0 codes w" and "wshell w' = wshell w" and "wkeys w' = wkeys w"
    and "scancodes (wirq w') = scancodes (wirq w)"
    and "\<And>vis t. has_text font 0 63 24 vis t (wdesk w) \<Longrightarrow> has_text font 0 63 24 vis t (wdesk w')"
  shows "keyboard_history font ab pk kb0 codes w'"
  using assms unfolding keyboard_history_def typed_def by (fastforce split: option.splits)

lemma idle_task_history:
  assumes "world_sound font info n e w" and "\<not> whalted w" and "font_ok font" and "keeps_colour info"
    and "idle_task font w = Some w'" and "keyboard_history font ab pk kb0 codes w"
  shows "keyboard_history font ab pk kb0 codes w'"
proof (rule history_kept [OF assms(6)])
  have "text_kept font (wdesk w) (wdesk w')" using idle_task_sound [OF assms(1-4)] assms(5) by auto
  then show "\<And>vis t. has_text font 0 63 24 vis t (wdesk w) \<Longrightarrow> has_text font 0 63 24 vis t (wdesk w')"
    unfolding text_kept_def by blast
qed (use assms(5) in \<open>auto simp: idle_task_def bind_eq_Some_conv\<close>)

lemma panel_task_history:
  assumes "world_sound font info n e w" and "\<not> whalted w" and "own_window (wsys w) = 1"
    and "panel_task font w = Some w'" and "keyboard_history font ab pk kb0 codes w"
  shows "keyboard_history font ab pk kb0 codes w'"
proof (rule history_kept [OF assms(5)])
  have inv: "desk_inv info 6 (wdesk w)" using assms(1,2) by (simp add: world_sound_def kernel_desk_def desk_sound_def)
  show "has_text font 0 63 24 vis t (wdesk w')" if "has_text font 0 63 24 vis t (wdesk w)" for vis t
  proof (cases "wpanel w")
    case False
    then obtain d where d: "memmap_start font (wregions w) 1 (wdesk w) = Some d" "wdesk w' = d"
      using assms(3,4) by (auto simp: panel_task_def bind_eq_Some_conv)
    show ?thesis using memmap_start_has_text [OF d(1) inv that] d(2) by simp
  qed (use assms(4) that in \<open>simp add: panel_task_def\<close>)
qed (use assms(4) in \<open>auto simp: panel_task_def bind_eq_Some_conv split: if_splits\<close>)

lemma counter_task_reaches:
  assumes "counter_task font w = Some w'" and "\<forall>wid c. wcounter w = Some (wid, c) \<longrightarrow> wid = 2" and "own_window (wsys w) = 2"
  shows "reaches font 2 (wdesk w) (wdesk w')"
proof -
  obtain wid c d where f: "(case wcounter w of Some (wid, n) \<Rightarrow> Some (wid, n, wdesk w)
       | None \<Rightarrow> do { let wid = own_window (wsys w); (n, d) \<leftarrow> counter_start font wid (wdesk w); Some (wid, n, d) }) = Some (wid, c, d)"
    and t: "\<exists>c'. counter_turn font wid (ticks (wirq w)) (c, d) = Some (c', wdesk w')"
    using assms(1) by (auto simp: counter_task_def bind_eq_Some_conv)
  have "wid = 2 \<and> reaches font 2 (wdesk w) d"
    using f assms(2,3) by (auto simp: bind_eq_Some_conv split: option.splits dest: counter_start_reaches)
  then show ?thesis using t by (auto dest!: counter_turn_reaches intro: reaches_trans)
qed

lemma counter_task_history:
  assumes "world_sound font info n e w" and "\<not> whalted w" and "font_ok font" and "keeps_colour info" and "own_window (wsys w) = 2"
    and "counter_task font w = Some w'" and "keyboard_history font ab pk kb0 codes w"
  shows "keyboard_history font ab pk kb0 codes w'"
proof (rule history_kept [OF assms(7)])
  have d: "desk_sound font info (wdesk w)" "\<forall>wid c. wcounter w = Some (wid, c) \<longrightarrow> wid = 2"
    using assms(1,2) by (auto simp: world_sound_def kernel_desk_def)
  note r = counter_task_reaches [OF assms(6) d(2) assms(5)]
  show "has_text font 0 63 24 vis t (wdesk w')" if "has_text font 0 63 24 vis t (wdesk w)" for vis t
    using reaches_sound [OF r d(1) assms(3,4), where wid' = 0 and c = 63 and n = 24 and vis = vis and t = t] that by simp
qed (use assms(6) in \<open>auto simp: counter_task_def bind_eq_Some_conv\<close>)

lemma task_turn_history:
  assumes "world_sound font info n e w" and "\<not> whalted w" and "font_ok font" and "keeps_colour info" and "sched (wsys w) = Some sc"
    and "task_turn font ab pk (current sc) w = Some w'" and "\<not> whalted w'" and "keyboard_history font ab pk kb0 codes w"
  shows "keyboard_history font ab pk kb0 codes w'"
proof -
  have sys: "system_sound n (wsys w) e" using assms(1) by (simp add: world_sound_def)
  note win = own_windows [OF sys assms(5)]
  have "current sc \<in> {0, 1, 2, 3}" using win(1) by auto
  then show ?thesis
    using idle_task_history [OF assms(1-4) _ assms(8)] shell_task_history [OF assms(1-3) win(2) _ assms(7,8)]
      panel_task_history [OF assms(1,2) win(3) _ assms(8)] counter_task_history [OF assms(1-4) win(4) _ assms(8)] assms(6)
    by (auto simp: task_turn_def)
qed

section \<open>Property\<close>

lemma step_history:
  assumes "kernel_step font ab pk irqs (n, e, w) (n', e', w')" and "world_sound font info n e w" and "font_ok font" and "keeps_colour info"
    and "\<not> whalted w'" and "\<not> whalted w \<longrightarrow> keyboard_history font ab pk kb0 codes w"
  shows "keyboard_history font ab pk kb0 (codes @ keyboard_bytes irqs) w'"
  using assms(1)
proof (cases rule: kernel_step.cases)
  case (irq i b s)
  have w: "\<not> whalted w" "keyboard_history font ab pk kb0 codes w" using irq assms(5,6) by auto
  then obtain read where read: "history codes read (scancodes (wirq w))" "typed font ab pk kb0 read w" by (auto simp: keyboard_history_def)
  have inv: "irq_inv (wirq w)" "ring_inv (scancodes (wirq w))" using assms(2) by (auto simp: world_sound_def irq_inv_def)
  have "history (codes @ keyboard_bytes irqs) read (scancodes s)"
    using take_irq_scancodes [OF inv(1) irq(6)] history_push [OF read(1) inv(2)] read(1) irq(1)
    by (auto simp: add_scancode_def keyboard_bytes_def split: if_splits)
  moreover have "typed font ab pk kb0 read w'" using read(2) irq by (auto simp: typed_def split: option.splits)
  ultimately show ?thesis using irq by (auto simp: keyboard_history_def)
next
  case hlt
  then have "keyboard_history font ab pk kb0 codes w'"
    using assms(5,6) by (intro history_kept [where w = w and w' = w']) auto
  then show ?thesis using hlt by (simp add: keyboard_bytes_def)
next
  case (event sc)
  have w: "\<not> whalted w" using event idle_event_sound [OF assms(2) _ assms(3,4)] assms(5) by blast
  then have h: "keyboard_history font ab pk kb0 codes w" using assms(6) by simp
  obtain m d where w': "w' = w\<lparr>wirq := (wirq w)\<lparr>mouse_state := m\<rparr>, wdesk := d\<rparr>" and k: "text_kept font (wdesk w) (wdesk w')"
    using event idle_event_sound [OF assms(2) w assms(3,4)] by auto
  have "keyboard_history font ab pk kb0 codes w'"
    by (rule history_kept [OF h]) (use w' k in \<open>auto simp: text_kept_def\<close>)
  then show ?thesis using event by (simp add: keyboard_bytes_def)
next
  case (compute s)
  then have "keyboard_history font ab pk kb0 codes w'"
    using assms(5,6) by (intro history_kept [where w = w and w' = w']) auto
  then show ?thesis using compute by (simp add: keyboard_bytes_def)
next
  case (turn sc w1 ret s)
  have "keyboard_history font ab pk kb0 codes w1"
    by (rule task_turn_history [OF assms(2) _ assms(3,4)]) (use turn assms(6) in auto)
  then have "keyboard_history font ab pk kb0 codes w'" using turn by (intro history_kept [where w = w1 and w' = w']) auto
  then show ?thesis using turn by (simp add: keyboard_bytes_def)
next
  case (halt sc)
  then show ?thesis using assms(5) by simp
qed

lemma run_history:
  assumes "kernel_run font ab pk irqs (n0, e0, w0) c" and "world_sound font info n0 e0 w0" and "font_ok font" and "keeps_colour info"
    and "keyboard_history font ab pk kb0 codes w0"
  shows "\<not> whalted (snd (snd c)) \<longrightarrow> keyboard_history font ab pk kb0 (codes @ keyboard_bytes irqs) (snd (snd c))"
  using assms(1)
proof (induction "(n0, e0, w0)" c rule: kernel_run.induct)
  case (more irqs c' irqs' c'')
  obtain n e w n' e' w' where c: "c' = (n, e, w)" "c'' = (n', e', w')" by (metis prod_cases3)
  have "world_sound font info n e w" using reachable_sound [OF more(1) assms(2-4)] by (simp add: c)
  then show ?case
    using step_history [OF more(3) [unfolded c] _ assms(3,4), where ?kb0.0 = kb0 and codes = "codes @ keyboard_bytes irqs"] more(2)
    by (simp add: c keyboard_bytes_def)
qed (use assms(5) in \<open>simp add: keyboard_bytes_def\<close>)

lemma boot_history:
  assumes "bootable plat bi s info addr_of translate" and "kernel_main plat bi s = Some k"
  shows "keyboard_history (glyphs plat) ab pk kb (ring_list (scancodes i0)) (boot_world k i0 kb)"
proof -
  have "has_text (glyphs plat) 0 63 24 False term_blank (kdesk k)"
    using kernel_main_boots [OF assms(1)] assms(2) by auto
  then show ?thesis by (auto simp: keyboard_history_def history_def typed_def boot_world_def intro!: exI [of _ "[]"])
qed

text \<open>C2: what is typed is shown. Take any run of the booted kernel, in any interleaving of interrupts and turns, and
  the scancodes the keyboard has sent (those waiting at the boot and those of its interrupts). As long as the shell
  has not halted the machine, the codes the shell has read, followed by those that wait in the queue, are a
  subsequence of them in order, and all of them if there are at most 127. And the window of the shell shows,
  pixel by pixel, the terminal that the line editor makes from its greeting and the keys that the decoder makes of the
  codes read, with the text cursor on; the line of the shell is that of the editor.\<close>

theorem typed_keys_shown:
  assumes "bootable plat bi s info addr_of translate" and "kernel_main plat bi s = Some k"
    and "\<forall>r \<in> set (memory_regions bi). rstart r \<le> rend r" and "irq_inv i0"
    and "kernel_run (glyphs plat) ab pk irqs (0, first_resume (task_specs plat k), boot_world k i0 kb) (n, e, w)"
    and "\<not> whalted w" and "codes = ring_list (scancodes i0) @ keyboard_bytes irqs"
  shows "\<exists>read. subseq (read @ ring_list (scancodes (wirq w))) codes \<and>
    (length codes \<le> 127 \<longrightarrow> read @ ring_list (scancodes (wirq w)) = codes) \<and>
    (case wshell w of
       None \<Rightarrow> read = [] \<and> has_text (glyphs plat) 0 63 24 False term_blank (wdesk w)
     | Some (wid, l) \<Rightarrow> (\<exists>t. has_text (glyphs plat) 0 63 24 True t (wdesk w) \<and>
         edit_keys 63 24 (fst (decode ab pk read kb)) ([], term_write_str 63 24 greeting term_blank) = (Continues, line_text l, t)))"
proof -
  have f: "font_ok (glyphs plat)" "keeps_colour info" using assms(1) by (auto simp: bootable_def)
  from run_history [OF assms(5) boot_world_sound [OF assms(1-4)] f boot_history [OF assms(1,2)]] assms(6)
  have "keyboard_history (glyphs plat) ab pk kb codes w" by (simp add: assms(7))
  then show ?thesis unfolding keyboard_history_def history_def typed_def by (fastforce split: option.splits)
qed

text \<open>The sample machine after a keyboard interrupt, a turn of the idle task and the first turn of the shell, which
  no key can halt.\<close>

lemma edit_empty_line: "fst (edit_keys c n [key] ([], t)) = Continues"
  by (cases key) (auto simp: edit_def Let_def split: prod.splits control.splits)

lemma first_turn_goes_on:
  assumes "world_sound font info n e w" and "\<not> whalted w" and "font_ok font" and "own_window (wsys w) = 0" and "wshell w = None"
    and "has_text font 0 63 24 False t (wdesk w)" and "shell_task font ab pk w = Some w'"
  shows "\<not> whalted w' \<and> wshell w' \<noteq> None"
proof -
  have d: "kernel_desk font info False (\<not> wpanel w) (wdesk w)" and q: "ring_inv (scancodes (wirq w))"
    using assms(1,2,5) by (auto simp: world_sound_def irq_inv_def)
  obtain l d1 where l: "shell_start font 0 (wdesk w) = Some (l, d1)" "line_inv l" "line_text l = []"
    "device_text font info 0 63 24 True (term_write_str 63 24 greeting t) d1"
    by (rule shell_start_text [OF kernel_desk_text [OF d assms(3,6)]])
  have "ctl = Continues" if "shell_turn font 0 ab pk (l, scancodes (wirq w), wkeys w, d1) = Some (ctl, l', q', kb', d')" for ctl l' q' kb' d'
  proof -
    have "ctl = Continues" if "shell_key font 0 key (l, d1) = Some (ctl, l', d')" for key
    proof -
      have "shell_keys font 0 [key] (l, d1) = Some (ctl, l', d')" using that by (cases ctl) simp_all
      then show ?thesis using shell_keys_refine [OF l(4,2), of "[key]"] edit_empty_line [of 63 24 key] by (auto simp: l(3))
    qed
    then show ?thesis using that by (auto simp: shell_turn_def bind_eq_Some_conv split: if_splits option.splits)
  qed
  then show ?thesis using assms(4,5,7) l(1) by (auto simp: shell_task_def bind_eq_Some_conv)
qed

lemma sample_decode:
  "decode (\<lambda>k sc. (Inr (Some sc) :: unit + u8 option, k)) (\<lambda>k ev. (Some (Unicode (unat ev)), k)) read kb = (map (\<lambda>sc. Unicode (unat sc)) read, kb)"
  by (induction read) simp_all

lemma sample_typed:
  obtains k e w where "kernel_main sample_platform sample_boot_info sample_system = Some k"
    and "kernel_run block_font (\<lambda>k sc. (Inr (Some sc) :: unit + u8 option, k)) (\<lambda>k ev. (Some (Unicode (unat ev)), k)) [(Keyboard, 0x61)]
      (0, first_resume (task_specs sample_platform k), boot_world k irq_boot ()) (2, e, w)"
    and "world_sound block_font sample_info 2 e w" and "\<not> whalted w" and "whlt w = Awake" and "wshell w \<noteq> None"
    and "\<forall>r \<in> set (memory_regions sample_boot_info). rstart r \<le> rend r" and "irq_inv irq_boot"
    and "font_ok block_font" and "keeps_colour sample_info" and "glyphs sample_platform = block_font"
proof -
  let ?ab = "\<lambda>k sc. (Inr (Some sc) :: unit + u8 option, k)" and ?pk = "\<lambda>k ev. (Some (Unicode (unat ev)), k)"
  let ?e = "\<lambda>k. first_resume (task_specs sample_platform k)" and ?w = "\<lambda>k. boot_world k irq_boot ()"
  obtain k where k: "kernel_main sample_platform sample_boot_info sample_system = Some k"
    and w: "world_sound block_font sample_info 0 (?e k) (?w k)"
    and rs: "\<forall>r \<in> set (memory_regions sample_boot_info). rstart r \<le> rend r" and irqs: "irq_inv irq_boot"
    and f: "font_ok block_font" "keeps_colour sample_info" and font: "glyphs sample_platform = block_font"
    and on: "iflag (wsys (?w k))" and alive: "\<not> whalted (?w k)"
    and awake: "whlt (?w k) = Awake" by (rule sample_world)
  obtain s where s: "take_irq Keyboard 0x61 (wirq (?w k)) = Some s" using take_irq_step [OF irqs, of Keyboard "0x61"] by (auto simp: boot_world_def)
  let ?w1 = "interrupted s (?w k)"
  have r1: "kernel_run block_font ?ab ?pk [(Keyboard, 0x61)] (0, (?e k), ?w k) (0, (?e k), ?w1)" by (rule run_one [OF kernel_step.irq [OF on s]])
  have w1: "world_sound block_font sample_info 0 (?e k) ?w1" using reachable_sound [OF r1 w f] by simp
  have alive1: "\<not> whalted ?w1" and awake1: "whlt ?w1 = Awake" using alive awake by simp_all
  obtain sc where sc: "sched (wsys ?w1) = Some sc" "current sc = 0" using world_current [OF w1] by auto
  obtain w2 s2 where t2: "task_turn block_font ?ab ?pk (current sc) ?w1 = Some w2"
    "\<not> whalted w2 \<longrightarrow> kernel_step block_font ?ab ?pk [] (0, (?e k), ?w1)
       (Suc 0, (?e k)(current sc := saved_words (cpu_state (wsys ?w1)) 0), yielded s2 w2)"
    by (rule turn_exists [OF w1 alive1 f sc(1) awake1, where ab = ?ab and pk = ?pk])
  have idle: "\<not> whalted (yielded s2 w2)" "wshell (yielded s2 w2) = None"
    using t2(1) sc(2) alive by (auto simp: task_turn_def idle_task_def bind_eq_Some_conv boot_world_def)
  let ?w2 = "yielded s2 w2" and ?e2 = "(?e k)(current sc := saved_words (cpu_state (wsys ?w1)) 0)"
  have r2: "kernel_run block_font ?ab ?pk [(Keyboard, 0x61)] (0, (?e k), ?w k) (Suc 0, ?e2, ?w2)"
    using kernel_run.more [OF r1 mp [OF t2(2)]] idle(1) by simp
  have w2: "world_sound block_font sample_info (Suc 0) ?e2 ?w2" using reachable_sound [OF r2 w f] by simp
  obtain sc2 where sc2: "sched (wsys ?w2) = Some sc2" "current sc2 = 1" using world_current [OF w2] by auto
  have awake2: "whlt ?w2 = Awake" using sc2 by (simp add: yielded_def)
  have "system_sound (Suc 0) (wsys ?w2) ?e2" using w2 by (simp add: world_sound_def)
  then have own: "own_window (wsys ?w2) = 0" by (rule own_windows(2) [OF _ sc2])
  have blank: "has_text block_font 0 63 24 False term_blank (wdesk ?w2)"
    using run_history [OF r2 w f boot_history [OF sample_bootable k, unfolded font]] idle by (simp add: keyboard_history_def typed_def)
  obtain w3 s3 where t3: "task_turn block_font ?ab ?pk (current sc2) ?w2 = Some w3"
    "\<not> whalted w3 \<longrightarrow> kernel_step block_font ?ab ?pk [] (Suc 0, ?e2, ?w2)
       (Suc (Suc 0), ?e2(current sc2 := saved_words (cpu_state (wsys ?w2)) 0), yielded s3 w3)"
    by (rule turn_exists [OF w2 idle(1) f sc2(1) awake2, where ab = ?ab and pk = ?pk])
  have "shell_task block_font ?ab ?pk ?w2 = Some w3" using t3(1) unfolding sc2(2) task_turn_def by simp
  from first_turn_goes_on [OF w2 idle(1) f(1) own idle(2) blank this]
  have shell: "\<not> whalted w3" "wshell (yielded s3 w3) \<noteq> None" by simp_all
  let ?w3 = "yielded s3 w3" and ?e3 = "?e2(current sc2 := saved_words (cpu_state (wsys ?w2)) 0)"
  have r3: "kernel_run block_font ?ab ?pk [(Keyboard, 0x61)] (0, (?e k), ?w k) (Suc (Suc 0), ?e3, ?w3)"
    using kernel_run.more [OF r2 mp [OF t3(2) shell(1)]] by simp
  have r3: "kernel_run block_font ?ab ?pk [(Keyboard, 0x61)] (0, (?e k), ?w k) (2, ?e3, ?w3)" using r3 by (simp only: numeral_2_eq_2)
  have w3: "world_sound block_font sample_info 2 ?e3 ?w3" using reachable_sound [OF r3 w f] by simp
  obtain sc3 where "sched (wsys ?w3) = Some sc3" "current sc3 = 2" using world_current [OF w3] by auto
  then have "whlt ?w3 = Awake" by (simp add: yielded_def)
  then show ?thesis using that [OF k r3 w3 _ _ shell(2) rs irqs f font] shell(1) by simp
qed

theorem typed_keys_shown_witness:
  "\<exists>k n e w wid l read t. kernel_main sample_platform sample_boot_info sample_system = Some k \<and>
    kernel_run block_font (\<lambda>k sc. (Inr (Some sc) :: unit + u8 option, k)) (\<lambda>k ev. (Some (Unicode (unat ev)), k)) [(Keyboard, 0x61)]
      (0, first_resume (task_specs sample_platform k), boot_world k irq_boot ()) (n, e, w) \<and>
    wshell w = Some (wid, l) \<and> read @ ring_list (scancodes (wirq w)) = [0x61] \<and> has_text block_font 0 63 24 True t (wdesk w) \<and>
    edit_keys 63 24 (map (\<lambda>sc. Unicode (unat sc)) read) ([], term_write_str 63 24 greeting term_blank) = (Continues, line_text l, t)"
proof -
  let ?ab = "\<lambda>k sc. (Inr (Some sc) :: unit + u8 option, k)" and ?pk = "\<lambda>k ev. (Some (Unicode (unat ev)), k)"
  obtain k e w where k: "kernel_main sample_platform sample_boot_info sample_system = Some k"
    and r: "kernel_run block_font ?ab ?pk [(Keyboard, 0x61)] (0, first_resume (task_specs sample_platform k), boot_world k irq_boot ()) (2, e, w)"
    and alive: "\<not> whalted w" and some: "wshell w \<noteq> None" and rs: "\<forall>r \<in> set (memory_regions sample_boot_info). rstart r \<le> rend r"
    and irqs: "irq_inv irq_boot" and font: "glyphs sample_platform = block_font" by (rule sample_typed)
  obtain wid l where shell: "wshell w = Some (wid, l)" using some by auto
  from typed_keys_shown [OF sample_bootable k rs irqs r [folded font] alive refl]
  obtain read t where "read @ ring_list (scancodes (wirq w)) = [0x61]" "has_text block_font 0 63 24 True t (wdesk w)"
    "edit_keys 63 24 (map (\<lambda>sc. Unicode (unat sc)) read) ([], term_write_str 63 24 greeting term_blank) = (Continues, line_text l, t)"
    unfolding shell option.case prod.case sample_decode font
    by (auto simp: keyboard_bytes_def irq_boot_def SCANCODE_QUEUE_def)
  then show ?thesis using k r shell by blast
qed

end
