(* ===== verification/Isolation.thy ===== *)
theory Isolation
  imports Running
begin

text \<open>
  Isolation of the tasks. The tasks share one address space and one window manager; what keeps them apart is
  that each asks only for its own window. A turn of a task changes the content of that window, and nothing else
  on the desktop: no other window, no order, focus or pointer, and no pixel of the screen.
\<close>

section \<open>Confined updates\<close>

definition same_place :: "wm_window \<Rightarrow> wm_window \<Rightarrow> bool" where
  "same_place w w' \<longleftrightarrow> w' = w\<lparr>win_buf := win_buf w', win_console := win_console w', dirty := dirty w'\<rparr>"

definition confined_win :: "usize \<Rightarrow> wm_window \<Rightarrow> wm_window \<Rightarrow> bool" where
  "confined_win wid w w' \<longleftrightarrow> (if win_id w = wid then same_place w w' else w' = w)"

definition confined_wm :: "usize \<Rightarrow> wm \<Rightarrow> wm \<Rightarrow> bool" where
  "confined_wm wid m m' \<longleftrightarrow> m' = m\<lparr>windows := windows m', needs_composite := needs_composite m'\<rparr> \<and>
     list_all2 (confined_win wid) (windows m) (windows m')"

definition confined :: "usize \<Rightarrow> desktop \<Rightarrow> desktop \<Rightarrow> bool" where
  "confined wid d d' \<longleftrightarrow> FB_STATE d' = FB_STATE d \<and> rel_option (confined_wm wid) (WM d) (WM d')"

lemma same_place_refl [simp]: "same_place w w"
  by (simp add: same_place_def)

lemma same_place_trans: "same_place a b \<Longrightarrow> same_place b c \<Longrightarrow> same_place a c"
  unfolding same_place_def by (cases a; cases b; cases c) simp

lemma confined_win_refl: "confined_win wid w w"
  by (simp add: confined_win_def)

lemma confined_win_trans: "confined_win wid a b \<Longrightarrow> confined_win wid b c \<Longrightarrow> confined_win wid a c"
  using same_place_trans [of a b c] by (auto simp: confined_win_def same_place_def split: if_splits)

lemma confined_wm_refl [simp]: "confined_wm wid m m"
  by (simp add: confined_wm_def list.rel_refl confined_win_refl)

lemma wm_update_trans:
  "b = a\<lparr>windows := x, needs_composite := y\<rparr> \<Longrightarrow> c = b\<lparr>windows := x', needs_composite := y'\<rparr> \<Longrightarrow>
    c = a\<lparr>windows := x', needs_composite := y'\<rparr>"
  by simp

lemma confined_wm_trans:
  assumes "confined_wm wid a b" and "confined_wm wid b c"
  shows "confined_wm wid a c"
proof -
  have "list_all2 (confined_win wid) (windows a) (windows c)"
    using assms list_all2_trans [of "confined_win wid" "confined_win wid" "confined_win wid"] confined_win_trans
    unfolding confined_wm_def by blast
  moreover have "c = a\<lparr>windows := windows c, needs_composite := needs_composite c\<rparr>"
    by (rule wm_update_trans [OF conjunct1 [OF assms(1) [unfolded confined_wm_def]] conjunct1 [OF assms(2) [unfolded confined_wm_def]]])
  ultimately show ?thesis by (simp add: confined_wm_def)
qed

lemma confined_refl [simp]: "confined wid d d"
  by (simp add: confined_def option.rel_refl)

lemma confined_trans: "confined wid a b \<Longrightarrow> confined wid b c \<Longrightarrow> confined wid a c"
  unfolding confined_def by (auto simp: option_rel_Some1 option_rel_Some2 rel_option_iff split: option.splits dest: confined_wm_trans)

section \<open>What the operations touch\<close>

lemma find_mut_confined:
  assumes "find_mut (\<lambda>w. win_id w = wid) f ws = Some ws'" and "\<And>w w'. f w = Some w' \<Longrightarrow> same_place w w'"
  shows "list_all2 (confined_win wid) ws ws'"
  using assms(1)
proof (induction ws arbitrary: ws')
  case (Cons w ws)
  then show ?case
    using assms(2) list.rel_refl [of "confined_win wid", OF confined_win_refl]
    by (cases "win_id w = wid") (auto simp: confined_win_def [of _ w])
qed simp

lemma window_mut_confined:
  assumes "window_mut wid f m = Some m'" and "\<And>w w'. f w = Some w' \<Longrightarrow> same_place w w'"
  shows "confined_wm wid m m'"
  using assms(1) find_mut_confined [OF _ assms(2)] by (auto simp: window_mut_def bind_eq_Some_conv confined_wm_def)

lemma upd_wm_confined:
  assumes "upd_wm f d = Some d'" and "\<And>m m'. f m = Some m' \<Longrightarrow> confined_wm wid m m'"
  shows "confined wid d d'"
  using assms by (auto simp: upd_wm_def with_wm_def bind_eq_Some_conv confined_def split: option.splits)

lemma confined_wm_composite: "confined_wm wid m m' \<Longrightarrow> confined_wm wid m (m'\<lparr>needs_composite := b\<rparr>)"
  unfolding confined_wm_def by (cases m; cases m') simp

lemma on_console_place: "on_console f w = Some w' \<Longrightarrow> same_place w w'"
  by (auto simp: on_console_def same_place_def bind_eq_Some_conv split: option.splits)

lemma draw_memmap_place: "draw_memmap_window font g w = Some w' \<Longrightarrow> same_place w w'"
  by (auto simp: draw_memmap_window_def Let_def same_place_def bind_eq_Some_conv split: if_splits)

lemma console_op_confined: "console_op f wid m = Some m' \<Longrightarrow> confined_wm wid m m'"
  using window_mut_confined [OF _ on_console_place] confined_wm_composite by (fastforce simp: console_op_def bind_eq_Some_conv)

lemma mark_dirty_confined: "mark_dirty wid m = Some m' \<Longrightarrow> confined_wm wid m m'"
  using window_mut_confined [of wid "\<lambda>win. Some (win\<lparr>dirty := True\<rparr>)"] confined_wm_composite
  by (fastforce simp: mark_dirty_def bind_eq_Some_conv same_place_def)

lemma request_confined:
  assumes "own wid r" and "serve font r d = Some d'"
  shows "confined wid d d'"
  using assms
  by (cases r) (auto simp: console_write_def console_show_cursor_def console_hide_cursor_def wm_console_clear_def wm_mark_dirty_def
      intro: upd_wm_confined console_op_confined mark_dirty_confined)

lemma reaches_confined: "reaches font wid d d' \<Longrightarrow> confined wid d d'"
  unfolding reaches_def by (induction rule: rtranclp_induct) (auto intro: confined_trans request_confined)

lemma memmap_start_confined:
  assumes "memmap_start font g wid d = Some d'"
  shows "confined wid d d'"
proof -
  obtain d1 where d1: "upd_wm (window_mut wid (draw_memmap_window font g)) d = Some d1" "upd_wm (mark_dirty wid) d1 = Some d'"
    using assms by (auto simp: memmap_start_def draw_memmap_def wm_mark_dirty_def bind_eq_Some_conv)
  have "confined wid d d1" by (rule upd_wm_confined [OF d1(1) window_mut_confined [OF _ draw_memmap_place]])
  moreover have "confined wid d1 d'" by (rule upd_wm_confined [OF d1(2) mark_dirty_confined])
  ultimately show ?thesis by (rule confined_trans)
qed

section \<open>Property\<close>

lemma shell_task_confined:
  assumes "shell_task font ab pk w = Some w'" and "\<forall>wid l. wshell w = Some (wid, l) \<longrightarrow> wid = 0" and "own_window (wsys w) = 0"
  shows "confined 0 (wdesk w) (wdesk w')"
proof -
  obtain wid l d where f: "(case wshell w of Some (wid, l) \<Rightarrow> Some (wid, l, wdesk w)
       | None \<Rightarrow> do { let wid = own_window (wsys w); (l, d) \<leftarrow> shell_start font wid (wdesk w); Some (wid, l, d) }) = Some (wid, l, d)"
    and t: "\<exists>ctl l' q kb. shell_turn font wid ab pk (l, scancodes (wirq w), wkeys w, d) = Some (ctl, l', q, kb, wdesk w')"
    using assms(1) by (auto simp: shell_task_def bind_eq_Some_conv)
  have "wid = 0 \<and> reaches font 0 (wdesk w) d"
    using f assms(2,3) by (auto simp: bind_eq_Some_conv split: option.splits dest: shell_start_reaches)
  then show ?thesis using t by (auto dest!: shell_turn_reaches intro: confined_trans reaches_confined)
qed

lemma counter_task_confined:
  assumes "counter_task font w = Some w'" and "\<forall>wid c. wcounter w = Some (wid, c) \<longrightarrow> wid = 2" and "own_window (wsys w) = 2"
  shows "confined 2 (wdesk w) (wdesk w')"
proof -
  obtain wid c d where f: "(case wcounter w of Some (wid, n) \<Rightarrow> Some (wid, n, wdesk w)
       | None \<Rightarrow> do { let wid = own_window (wsys w); (n, d) \<leftarrow> counter_start font wid (wdesk w); Some (wid, n, d) }) = Some (wid, c, d)"
    and t: "\<exists>c'. counter_turn font wid (ticks (wirq w)) (c, d) = Some (c', wdesk w')"
    using assms(1) by (auto simp: counter_task_def bind_eq_Some_conv)
  have "wid = 2 \<and> reaches font 2 (wdesk w) d"
    using f assms(2,3) by (auto simp: bind_eq_Some_conv split: option.splits dest: counter_start_reaches)
  then show ?thesis using t by (auto dest!: counter_turn_reaches intro: confined_trans reaches_confined)
qed

lemma panel_task_confined:
  assumes "panel_task font w = Some w'" and "own_window (wsys w) = 1"
  shows "confined 1 (wdesk w) (wdesk w')"
  using assms by (auto simp: panel_task_def bind_eq_Some_conv split: if_splits dest: memmap_start_confined)

text \<open>What is a task's own besides its window.\<close>

lemma task_frames:
  "shell_task font ab pk w = Some w' \<Longrightarrow> wpanel w' = wpanel w \<and> wcounter w' = wcounter w \<and> (\<exists>q. wirq w' = (wirq w)\<lparr>scancodes := q\<rparr>)"
  "panel_task font w = Some w' \<Longrightarrow> wshell w' = wshell w \<and> wcounter w' = wcounter w \<and> wirq w' = wirq w \<and> wkeys w' = wkeys w"
  "counter_task font w = Some w' \<Longrightarrow> wshell w' = wshell w \<and> wpanel w' = wpanel w \<and> wirq w' = wirq w \<and> wkeys w' = wkeys w"
  by (auto simp: shell_task_def panel_task_def counter_task_def bind_eq_Some_conv split: if_splits)

text \<open>C6: the tasks are isolated. In every state the booted kernel reaches, the turn of task 1, 2 or 3 (the shell,
  the memory map panel, the counter) is confined to window 0, 1 or 2, the one it was spawned with: of the desktop
  it changes only the pixels, the console and the dirty flag of that window and the composition flag, so every
  other window, the order of the windows, the focus, the pointer and the frame buffer are as they were; of the
  interrupt handlers' state only the shell changes anything, the scancode queue it reads; the private states of
  the other tasks stay.\<close>

theorem task_isolation:
  assumes "bootable plat bi s info addr_of translate" and "kernel_main plat bi s = Some k"
    and "\<forall>r \<in> set (memory_regions bi). rstart r \<le> rend r" and "irq_inv i0"
    and "kernel_run (glyphs plat) ab pk irqs (0, first_resume (task_specs plat k), boot_world k i0 kb) (n, e, w)"
    and "\<not> whalted w" and "sched (wsys w) = Some sc" and "current sc \<noteq> 0"
    and "task_turn (glyphs plat) ab pk (current sc) w = Some w'"
  shows "confined (current sc - 1) (wdesk w) (wdesk w') \<and>
    wirq w' = (if current sc = 1 then (wirq w)\<lparr>scancodes := scancodes (wirq w')\<rparr> else wirq w) \<and>
    (current sc \<noteq> 1 \<longrightarrow> wshell w' = wshell w \<and> wkeys w' = wkeys w) \<and>
    (current sc \<noteq> 2 \<longrightarrow> wpanel w' = wpanel w) \<and> (current sc \<noteq> 3 \<longrightarrow> wcounter w' = wcounter w)"
proof -
  have f: "font_ok (glyphs plat)" "keeps_colour info" using assms(1) by (auto simp: bootable_def)
  have w: "world_sound (glyphs plat) info n e w"
    using reachable_sound [OF assms(5) boot_world_sound [OF assms(1-4)] f] by simp
  have sys: "system_sound n (wsys w) e" and own: "\<forall>wid l. wshell w = Some (wid, l) \<longrightarrow> wid = 0"
    "\<forall>wid c. wcounter w = Some (wid, c) \<longrightarrow> wid = 2" using w assms(6) by (auto simp: world_sound_def)
  note win = own_windows [OF sys assms(7)]
  consider "current sc = 1" | "current sc = 2" | "current sc = 3" using win(1) assms(8) by linarith
  then show ?thesis
  proof cases
    case 1
    then show ?thesis
      using assms(9) shell_task_confined [OF _ own(1) win(2)] task_frames(1) by (fastforce simp: task_turn_def)
  next
    case 2
    then show ?thesis using assms(9) panel_task_confined [OF _ win(3)] task_frames(2) by (fastforce simp: task_turn_def)
  next
    case 3
    then show ?thesis using assms(9) counter_task_confined [OF _ own(2) win(4)] task_frames(3) by (fastforce simp: task_turn_def)
  qed
qed

text \<open>The sample machine after the first turn of the idle task: the shell is next.\<close>

theorem task_isolation_witness:
  "\<exists>k w s w'. kernel_main sample_platform sample_boot_info sample_system = Some k \<and>
    task_turn block_font (\<lambda>k sc. (Inr (Some sc) :: unit + u8 option, k)) (\<lambda>k ev. (Some (Unicode (unat ev)), k)) 0
      (boot_world k irq_boot ()) = Some w \<and> yield_now 0 (wsys w) = Some s \<and>
    task_turn block_font (\<lambda>k sc. (Inr (Some sc) :: unit + u8 option, k)) (\<lambda>k ev. (Some (Unicode (unat ev)), k)) 1 (yielded s w) = Some w' \<and>
    confined 0 (wdesk w) (wdesk w') \<and> wcounter w' = wcounter w"
proof -
  let ?ab = "\<lambda>k sc. (Inr (Some sc) :: unit + u8 option, k)" and ?pk = "\<lambda>k ev. (Some (Unicode (unat ev)), k)"
  let ?e = "\<lambda>k. first_resume (task_specs sample_platform k)"
  let ?w = "\<lambda>k. boot_world k irq_boot ()"
  obtain k where k: "kernel_main sample_platform sample_boot_info sample_system = Some k"
    and w: "world_sound block_font sample_info 0 (?e k) (?w k)"
    and rs: "\<forall>r \<in> set (memory_regions sample_boot_info). rstart r \<le> rend r" and irqs: "irq_inv irq_boot"
    and f: "font_ok block_font" "keeps_colour sample_info" and font: "glyphs sample_platform = block_font" and alive: "\<not> whalted (?w k)"
    and awake: "whlt (?w k) = Awake" by (rule sample_world)
  obtain sc where sc: "sched (wsys (?w k)) = Some sc" "current sc = 0" using world_current [OF w] by auto
  obtain w1 s where w1: "task_turn block_font ?ab ?pk (current sc) (?w k) = Some w1" "yield_now 0 (wsys (?w k)) = Some s"
    "wsys w1 = wsys (?w k)"
    "\<not> whalted w1 \<longrightarrow> kernel_step block_font ?ab ?pk [] (0, (?e k), ?w k)
       (Suc 0, (?e k)(current sc := saved_words (cpu_state (wsys (?w k))) 0), yielded s w1)"
    by (rule turn_exists [OF w alive f sc(1) awake, where ab = ?ab and pk = ?pk])
  have alive1: "\<not> whalted w1" using w1(1) sc(2) alive by (auto simp: task_turn_def idle_task_def bind_eq_Some_conv)
  let ?w2 = "yielded s w1" and ?e2 = "(?e k)(current sc := saved_words (cpu_state (wsys (?w k))) 0)"
  have step: "kernel_step block_font ?ab ?pk [] (0, (?e k), ?w k) (Suc 0, ?e2, ?w2)" using w1(4) alive1 by (rule mp)
  have w2: "world_sound block_font sample_info (Suc 0) ?e2 ?w2" by (rule kernel_step_sound [OF step w f])
  obtain sc2 where sc2: "sched (wsys ?w2) = Some sc2" "current sc2 = 1" using world_current [OF w2] by auto
  have alive2: "\<not> whalted ?w2" using alive1 by simp
  have awake2: "whlt ?w2 = Awake" using sc2 by (simp add: yielded_def)
  obtain w3 where w3: "task_turn block_font ?ab ?pk (current sc2) ?w2 = Some w3"
    by (rule turn_exists [OF w2 alive2 f sc2(1) awake2, where ab = ?ab and pk = ?pk])
  have "current sc2 \<noteq> 0" using sc2(2) by simp
  from task_isolation [OF sample_bootable k rs irqs run_one [OF step [folded font]] alive2 sc2(1) this w3 [folded font]] sc2(2)
  have iso: "confined 0 (wdesk ?w2) (wdesk w3)" "wcounter w3 = wcounter ?w2" by simp_all
  have "task_turn block_font ?ab ?pk 1 ?w2 = Some w3" using w3 unfolding sc2(2) .
  moreover have "task_turn block_font ?ab ?pk 0 (?w k) = Some w1" using w1(1) unfolding sc(2) .
  moreover have "yield_now 0 (wsys w1) = Some s" using w1(2,3) by simp
  moreover have "confined 0 (wdesk w1) (wdesk w3)" "wcounter w3 = wcounter w1" using iso by simp_all
  ultimately show ?thesis using k by blast
qed

end
