(* ===== verification/Pointing.thy ===== *)
theory Pointing
  imports Typing Isolation HeapLimit
begin

text \<open>
  From the mouse to the pointer: the composition of the interrupt handler, the packet decoder, the event queue, the idle
  task and the window manager in the running kernel. Whatever the interleaving of interrupts and turns, the pointer is where
  the events decoded from the bytes of the mouse have moved it.
\<close>

section \<open>The packets of a stream, byte by byte\<close>

text \<open>\<open>mid_packet bs m\<close>: after the bytes \<open>bs\<close> the decoder holds the start of a packet that is not finished.\<close>

definition pending_bytes :: "mouse \<Rightarrow> u8 list" where
  "pending_bytes m = take (unat (PACKET_STATE m)) (PACKET_BYTES m)"

definition mid_packet :: "u8 list \<Rightarrow> mouse \<Rightarrow> bool" where
  "mid_packet bs m \<longleftrightarrow> (\<forall>xs. packet_events (bs @ xs) = packet_events bs @ packet_events (pending_bytes m @ xs))"

lemma packet_events_short: "length bs < 3 \<Longrightarrow> packet_events bs = []"
  by (induction bs rule: packet_events.induct) auto

lemma packet_events_skip: "\<not> bit b 3 \<Longrightarrow> packet_events (b # xs) = packet_events xs"
  by (cases xs rule: packet_events.cases) (auto split: list.split)

lemma mid_packet_add:
  assumes "mid_packet bs m" and "mouse_inv m" and "add_byte b m = Some m'"
  shows "mid_packet (bs @ [b]) m'"
    and "\<exists>new. packet_events (bs @ [b]) = packet_events bs @ new \<and>
      ring_list (MOUSE_QUEUE m') = ring_list (MOUSE_QUEUE m) @ take (127 - length (ring_list (MOUSE_QUEUE m))) new"
proof -
  have m: "length (PACKET_BYTES m) = 3" "ring_inv (MOUSE_QUEUE m)" using assms(2) by (auto simp: mouse_inv_def)
  obtain b0 b1 c where bytes: "PACKET_BYTES m = [b0, b1, c]" using m(1) by (auto simp: numeral_3_eq_3 length_Suc_conv)
  have step: "mid_packet (bs @ [b]) m' \<and> packet_events (bs @ [b]) = packet_events bs @ new"
    if "\<And>xs. packet_events (pending_bytes m @ b # xs) = new @ packet_events (pending_bytes m' @ xs)" "length (pending_bytes m') < 3" for new
  proof -
    have all: "packet_events (bs @ b # xs) = packet_events bs @ new @ packet_events (pending_bytes m' @ xs)" for xs
      using assms(1) that(1) [of xs] by (simp add: mid_packet_def)
    then have "packet_events (bs @ [b]) = packet_events bs @ new" using that(2) packet_events_short by simp
    then show ?thesis using all by (simp add: mid_packet_def)
  qed
  consider "PACKET_STATE m = 0" | "PACKET_STATE m = 1" | "PACKET_STATE m = 2" using assms(2) by (auto simp: mouse_inv_def)
  then have "mid_packet (bs @ [b]) m' \<and> (\<exists>new. packet_events (bs @ [b]) = packet_events bs @ new \<and>
      ring_list (MOUSE_QUEUE m') = ring_list (MOUSE_QUEUE m) @ take (127 - length (ring_list (MOUSE_QUEUE m))) new)"
  proof cases
    case 1
    then have m': "m' = (if bit b 3 then m\<lparr>PACKET_BYTES := [b, b1, c], PACKET_STATE := 1\<rparr> else m)"
      using assms(3) add_byte_0 [OF 1 m(1), of b] by (auto simp: bytes)
    show ?thesis using step [of "[]"] 1 packet_events_skip [of b] by (cases "bit b 3") (auto simp: m' pending_bytes_def bytes)
  next
    case 2
    then have "m' = m\<lparr>PACKET_BYTES := [b0, b, c], PACKET_STATE := 2\<rparr>" using assms(3) add_byte_1 [OF 2 m(1), of b] by (simp add: bytes)
    then show ?thesis using step [of "[]"] 2 by (auto simp: pending_bytes_def bytes take_Cons')
  next
    case 3
    have b0: "bit b0 3" using assms(2) 3 and_flag_iff(4) [of b0] by (auto simp: mouse_inv_def bytes)
    let ?new = "if b0 AND 0xC0 = 0 then [event_of b0 b1 b] else []"
    obtain q where q: "m' = m\<lparr>PACKET_BYTES := [b0, b1, b], PACKET_STATE := 0, MOUSE_QUEUE := q\<rparr>"
      "ring_list q = ring_list (MOUSE_QUEUE m) @ (if b0 AND 0xC0 = 0 then take (BUF_SIZE - 1 - ring_count (MOUSE_QUEUE m)) [event_of b0 b1 b] else [])"
      using add_byte_2 [OF 3 m, of b] assms(3) by (auto simp: bytes)
    have "mid_packet (bs @ [b]) m' \<and> packet_events (bs @ [b]) = packet_events bs @ ?new"
      by (rule step) (use 3 b0 in \<open>simp_all add: q(1) pending_bytes_def bytes take_Cons'\<close>)
    moreover have "ring_list (MOUSE_QUEUE m') = ring_list (MOUSE_QUEUE m) @ take (127 - length (ring_list (MOUSE_QUEUE m))) ?new"
      using q by (simp add: BUF_SIZE_def)
    ultimately show ?thesis by blast
  qed
  then show "mid_packet (bs @ [b]) m'" and "\<exists>new. packet_events (bs @ [b]) = packet_events bs @ new \<and>
      ring_list (MOUSE_QUEUE m') = ring_list (MOUSE_QUEUE m) @ take (127 - length (ring_list (MOUSE_QUEUE m))) new" by simp_all
qed

section \<open>What moves the pointer\<close>

fun move_pointer :: "fb_info \<Rightarrow> mouse_event \<Rightarrow> int \<times> int \<Rightarrow> int \<times> int" where
  "move_pointer info e (x, y) = (max 0 (min (int (width info) - 1) (x + dx e)), max 0 (min (int (height info) - 1) (y - dy e)))"

definition cursor_at :: "fb_info \<Rightarrow> int \<times> int \<Rightarrow> cursor \<Rightarrow> bool" where
  "cursor_at info p cur \<longleftrightarrow> (cur_x cur, cur_y cur) = p \<and> screen_width cur = int (width info) \<and> screen_height cur = int (height info)"

definition pointer_at :: "fb_info \<Rightarrow> int \<times> int \<Rightarrow> desktop \<Rightarrow> bool" where
  "pointer_at info p d \<longleftrightarrow> (\<exists>wm buf. WM d = Some wm \<and> FB_STATE d = Some (info, buf) \<and> cursor_at info p (wm_cursor wm))"

lemma apply_delta_moves:
  assumes "apply_delta (dx e) (dy e) cur = Some cur'" and "cursor_at info p cur"
  shows "cursor_at info (move_pointer info e p) cur'"
  using assms by (cases p) (auto simp: apply_delta_def cursor_at_def i32_chk_def i32_clamp_def bind_eq_Some_conv split: if_splits)

lemma window_mut_cursor: "window_mut i f m = Some m' \<Longrightarrow> wm_cursor m' = wm_cursor m"
  by (auto simp: window_mut_def bind_eq_Some_conv)

lemma redraw_chrome_cursor: "redraw_chrome font i b m = Some m' \<Longrightarrow> wm_cursor m' = wm_cursor m"
  unfolding redraw_chrome_def by (rule window_mut_cursor)

lemma raise_window_cursor: "raise_window i m = Some m' \<Longrightarrow> wm_cursor m' = wm_cursor m"
  by (auto simp: raise_window_def bind_eq_Some_conv split: option.splits)

lemma focus_window_cursor: "focus_window font i m = Some m' \<Longrightarrow> wm_cursor m' = wm_cursor m"
  by (auto simp: focus_window_def bind_eq_Some_conv split: if_splits option.splits dest!: redraw_chrome_cursor raise_window_cursor)

lemma left_click_cursor: "left_click font m = Some m' \<Longrightarrow> wm_cursor m' = wm_cursor m"
  by (auto simp: left_click_def handle_taskbar_click_def Let_def bind_eq_Some_conv split: if_splits option.splits dest!: focus_window_cursor)

lemma save_background_at: "save_background info' buf cur = Some cur' \<Longrightarrow> cursor_at info p cur' = cursor_at info p cur"
  by (auto simp: save_background_def cursor_at_def Let_def bind_eq_Some_conv)

lemma composite_at: "composite font info' (m, fb) = Some (m', fb') \<Longrightarrow> cursor_at info p (wm_cursor m') = cursor_at info p (wm_cursor m)"
  by (auto simp: composite_def Let_def bind_eq_Some_conv cursor_at_def dest!: save_background_at [of _ _ _ _ info p])

lemma handle_mouse_at:
  assumes "handle_mouse font e info (m, fb) = Some (m', fb')" and "cursor_at info p (wm_cursor m)"
  shows "cursor_at info (move_pointer info e p) (wm_cursor m')"
proof -
  obtain fb1 cur m1 where c: "apply_delta (dx e) (dy e) (wm_cursor m) = Some cur"
    "(if left e then left_click font (m\<lparr>wm_cursor := cur\<rparr>) else Some (m\<lparr>wm_cursor := cur\<rparr>)) = Some m1"
    and r: "(if \<not> needs_composite m1 then do {
        cur \<leftarrow> save_background info fb1 (wm_cursor m1);
        fb \<leftarrow> cursor_draw info cur fb1;
        Some (m1\<lparr>wm_cursor := cur\<lparr>visible := True\<rparr>\<rparr>, fb)
      } else Some (m1, fb1)) = Some (m', fb')"
    using assms(1) unfolding handle_mouse_def prod.case Let_def bind_eq_Some_conv by blast
  have "wm_cursor m1 = cur" using c(2) by (cases "left e") (auto dest!: left_click_cursor)
  then have at: "cursor_at info (move_pointer info e p) (wm_cursor m1)" using apply_delta_moves [OF c(1) assms(2)] by simp
  show ?thesis
  proof (cases "needs_composite m1")
    case True
    then show ?thesis using r at by simp
  next
    case False
    then obtain c where "save_background info fb1 (wm_cursor m1) = Some c" "wm_cursor m' = c\<lparr>visible := True\<rparr>"
      using r by (auto simp: bind_eq_Some_conv)
    then show ?thesis using at save_background_at [of info fb1 "wm_cursor m1" c info "move_pointer info e p"] by (simp add: cursor_at_def)
  qed
qed

lemma pointer_atI: "WM d = Some m \<Longrightarrow> FB_STATE d = Some (info, buf) \<Longrightarrow> cursor_at info p (wm_cursor m) \<Longrightarrow> pointer_at info p d"
  by (auto simp: pointer_at_def)

lemma wm_composite_at:
  assumes "wm_composite font d = Some d'" and "pointer_at info p d"
  shows "pointer_at info p d'"
proof -
  obtain m buf where d: "WM d = Some m" "FB_STATE d = Some (info, buf)" "cursor_at info p (wm_cursor m)" using assms(2) by (auto simp: pointer_at_def)
  obtain m' buf' where c: "composite font info (m, buf) = Some (m', buf')" "d' = d\<lparr>WM := Some m', FB_STATE := Some (info, buf')\<rparr>"
    using assms(1) by (auto simp: wm_composite_def d(1,2) bind_eq_Some_conv)
  show ?thesis using composite_at [OF c(1), of info p] d(3) by (intro pointer_atI [of _ m' _ buf']) (simp_all add: c(2))
qed

lemma wm_handle_mouse_at:
  assumes "wm_handle_mouse font e d = Some d'" and "pointer_at info p d"
  shows "pointer_at info (move_pointer info e p) d'"
proof -
  obtain m buf where d: "WM d = Some m" "FB_STATE d = Some (info, buf)" "cursor_at info p (wm_cursor m)" using assms(2) by (auto simp: pointer_at_def)
  obtain m1 buf1 m' buf' where c: "handle_mouse font e info (m, buf) = Some (m1, buf1)"
    "(if needs_composite m1 then composite font info (m1, buf1) else Some (m1, buf1)) = Some (m', buf')"
    "d' = d\<lparr>WM := Some m', FB_STATE := Some (info, buf')\<rparr>"
    using assms(1) by (auto simp: wm_handle_mouse_def d(1,2) bind_eq_Some_conv)
  have "cursor_at info (move_pointer info e p) (wm_cursor m1)" by (rule handle_mouse_at [OF c(1) d(3)])
  then have "cursor_at info (move_pointer info e p) (wm_cursor m')"
    using c(2) composite_at [of font info m1 buf1 m' buf'] by (cases "needs_composite m1") auto
  then show ?thesis by (intro pointer_atI [of _ m' _ buf']) (simp_all add: c(3))
qed

lemma handle_mouse_all_at:
  assumes "foldM (wm_handle_mouse font) es d = Some d'" and "pointer_at info p d"
  shows "pointer_at info (fold (move_pointer info) es p) d'"
  using assms
proof (induction es arbitrary: d p)
  case (Cons e es)
  then obtain d1 where d1: "wm_handle_mouse font e d = Some d1" "foldM (wm_handle_mouse font) es d1 = Some d'"
    by (auto simp: bind_eq_Some_conv split: option.splits)
  from Cons.IH [OF d1(2) wm_handle_mouse_at [OF d1(1) Cons.prems(2)]] show ?case by simp
qed simp

lemma confined_at:
  assumes "confined i d d'" and "pointer_at info p d"
  shows "pointer_at info p d'"
proof -
  have "wm_cursor m' = wm_cursor m" if "confined_wm i m m'" for m m'
    using arg_cong [OF conjunct1 [OF that [unfolded confined_wm_def]], of wm_cursor] by simp
  then show ?thesis using assms by (auto simp: confined_def pointer_at_def option_rel_Some1)
qed


section \<open>The history of the mouse\<close>

definition mouse_bytes :: "(hardware_interrupt \<times> u8) list \<Rightarrow> u8 list" where
  "mouse_bytes irqs = map snd (filter (\<lambda>(i, b). i = MouseIrq) irqs)"

definition pointed :: "fb_info \<Rightarrow> int \<times> int \<Rightarrow> u8 list \<Rightarrow> mouse \<Rightarrow> desktop \<Rightarrow> bool" where
  "pointed info p0 bs m d \<longleftrightarrow> (\<exists>handled. history (packet_events bs) handled (MOUSE_QUEUE m) \<and> pointer_at info (fold (move_pointer info) handled p0) d)"

definition mouse_history :: "fb_info \<Rightarrow> int \<times> int \<Rightarrow> u8 list \<Rightarrow> 'k world \<Rightarrow> bool" where
  "mouse_history info p0 bs w \<longleftrightarrow> mid_packet bs (mouse_state (wirq w)) \<and> pointed info p0 bs (mouse_state (wirq w)) (wdesk w)"

lemma pending_queue [simp]: "pending_bytes (m\<lparr>MOUSE_QUEUE := q\<rparr>) = pending_bytes m"
  by (simp add: pending_bytes_def)

lemma mid_packet_queue [simp]: "mid_packet bs (m\<lparr>MOUSE_QUEUE := q\<rparr>) = mid_packet bs m"
  by (simp add: mid_packet_def)

lemma mouse_irq_history:
  assumes "mouse_history info p0 bs w" and "irq_inv (wirq w)" and "take_irq i b (wirq w) = Some s"
  shows "mouse_history info p0 (bs @ mouse_bytes [(i, b)]) (w\<lparr>wirq := s\<rparr>)"
proof (cases "i = MouseIrq")
  case True
  have add: "add_byte b (mouse_state (wirq w)) = Some (mouse_state s)"
    using assms(3) True by (auto simp: take_irq_def IDT_entries mouse_handler_def notify_end_of_interrupt_def bind_eq_Some_conv)
  have inv: "mouse_inv (mouse_state (wirq w))" using assms(2) by (simp add: irq_inv_def)
  have mid: "mid_packet bs (mouse_state (wirq w))" using assms(1) by (simp add: mouse_history_def)
  obtain new where new: "packet_events (bs @ [b]) = packet_events bs @ new"
    "ring_list (MOUSE_QUEUE (mouse_state s)) = ring_list (MOUSE_QUEUE (mouse_state (wirq w))) @
       take (127 - length (ring_list (MOUSE_QUEUE (mouse_state (wirq w))))) new"
    using mid_packet_add(2) [OF mid inv add] by blast
  obtain handled where h: "history (packet_events bs) handled (MOUSE_QUEUE (mouse_state (wirq w)))"
    "pointer_at info (fold (move_pointer info) handled p0) (wdesk w)" using assms(1) by (auto simp: mouse_history_def pointed_def)
  have "history (packet_events (bs @ [b])) handled (MOUSE_QUEUE (mouse_state s))" unfolding new(1) by (rule history_take [OF h(1) new(2)])
  then show ?thesis using mid_packet_add(1) [OF mid inv add] h(2) True by (auto simp: mouse_history_def pointed_def mouse_bytes_def)
next
  case False
  then have "mouse_state s = mouse_state (wirq w)" using assms(3) by (cases i)
      (auto simp: take_irq_def IDT_entries timer_handler_def keyboard_handler_def notify_end_of_interrupt_def bind_eq_Some_conv)
  then show ?thesis using assms(1) False by (simp add: mouse_history_def mouse_bytes_def)
qed

section \<open>The turns of the tasks\<close>

lemma pointed_handles:
  assumes "pointed info p0 bs m d" and "foldM (wm_handle_mouse font) used d = Some d'" and "ring_list (MOUSE_QUEUE m) = used @ ring_list (MOUSE_QUEUE m')"
  shows "pointed info p0 bs m' d'"
proof -
  obtain handled where h: "history (packet_events bs) handled (MOUSE_QUEUE m)" "pointer_at info (fold (move_pointer info) handled p0) d"
    using assms(1) by (auto simp: pointed_def)
  have "pointer_at info (fold (move_pointer info) (handled @ used) p0) d'" using handle_mouse_all_at [OF assms(2) h(2)] by simp
  then show ?thesis using history_read [OF h(1) assms(3)] by (auto simp: pointed_def)
qed

lemma pointed_moves:
  assumes "pointed info p0 bs m d" and "\<And>p. pointer_at info p d \<Longrightarrow> pointer_at info p d'"
  shows "pointed info p0 bs m d'"
  using assms unfolding pointed_def by blast

lemma idle_turn_history:
  assumes "ring_inv (MOUSE_QUEUE m)" and "idle_turn font (m, d) = Some (m', d')" and "pointed info p0 bs m d"
  shows "pointed info p0 bs m' d'" and "m' = m\<lparr>MOUSE_QUEUE := MOUSE_QUEUE m'\<rparr>" and "ring_list (MOUSE_QUEUE m') = []"
proof -
  obtain m1 d1 r d2 where t: "drain_mouse font m d = Some (m1, d1)" "with_wm (\<lambda>wm. Some (needs_composite wm, wm)) d1 = Some (r, d2)"
    "(if (case r of Some b \<Rightarrow> b | None \<Rightarrow> False) then wm_composite font d2 else Some d2) = Some d'" "m' = m1"
    using assms(2) by (auto simp: idle_turn_def bind_eq_Some_conv)
  have d: "foldM (wm_handle_mouse font) (ring_list (MOUSE_QUEUE m)) d = Some d1" "m1 = m\<lparr>MOUSE_QUEUE := MOUSE_QUEUE m1\<rparr>"
    "ring_list (MOUSE_QUEUE m1) = []"
  proof -
    obtain m2 where m2: "drain_mouse font m d = map_option (Pair m2) (foldM (wm_handle_mouse font) (ring_list (MOUSE_QUEUE m)) d)"
      "m2 = m\<lparr>MOUSE_QUEUE := MOUSE_QUEUE m2\<rparr>"
      "foldM (wm_handle_mouse font) (ring_list (MOUSE_QUEUE m)) d \<noteq> None \<longrightarrow> ring_list (MOUSE_QUEUE m2) = []"
      using drain_mouse_refines [OF assms(1), of font d] by blast
    then obtain d3 where "foldM (wm_handle_mouse font) (ring_list (MOUSE_QUEUE m)) d = Some d3" "m1 = m2" "d1 = d3"
      using t(1) by (cases "foldM (wm_handle_mouse font) (ring_list (MOUSE_QUEUE m)) d") auto
    then show "foldM (wm_handle_mouse font) (ring_list (MOUSE_QUEUE m)) d = Some d1" "m1 = m\<lparr>MOUSE_QUEUE := MOUSE_QUEUE m1\<rparr>"
      "ring_list (MOUSE_QUEUE m1) = []" using m2 by auto
  qed
  have "pointed info p0 bs m1 d1" by (rule pointed_handles [OF assms(3) d(1)]) (simp add: d(3))
  moreover have "d2 = d1" using t(2) by (auto simp: with_wm_def bind_eq_Some_conv split: option.splits)
  ultimately have "pointed info p0 bs m1 d'" using t(3) wm_composite_at by (auto intro: pointed_moves split: if_splits)
  then show "pointed info p0 bs m' d'" and "m' = m\<lparr>MOUSE_QUEUE := MOUSE_QUEUE m'\<rparr>" and "ring_list (MOUSE_QUEUE m') = []"
    using d(2,3) t(4) by simp_all
qed

lemma idle_event_history:
  assumes "irq_inv (wirq w)" and "idle_event font w = Some (Some w')" and "mouse_history info p0 bs w"
  shows "mouse_history info p0 bs w'"
proof -
  let ?m = "mouse_state (wirq w)"
  have q: "ring_inv (MOUSE_QUEUE ?m)" using assms(1) by (simp add: irq_inv_def mouse_inv_def)
  obtain ev evs where e: "ring_list (MOUSE_QUEUE ?m) = ev # evs"
    using assms(2) mouseq.deq_empty [OF q] by (cases "ring_list (MOUSE_QUEUE ?m)") (auto simp: idle_event_def try_read_event_def)
  obtain q' where q': "mouse_pop (MOUSE_QUEUE ?m) = Some (Some ev, q')" "ring_list q' = evs" using mouseq.deq_front [OF q e] by blast
  then obtain d where d: "wm_handle_mouse font ev (wdesk w) = Some d" "w' = w\<lparr>wirq := (wirq w)\<lparr>mouse_state := ?m\<lparr>MOUSE_QUEUE := q'\<rparr>\<rparr>, wdesk := d\<rparr>"
    using assms(2) by (auto simp: idle_event_def try_read_event_def bind_eq_Some_conv)
  have "pointed info p0 bs (?m\<lparr>MOUSE_QUEUE := q'\<rparr>) d"
    by (rule pointed_handles [where font = font and used = "[ev]" and m = ?m and d = "wdesk w"]) (use assms(3) d(1) e q'(2) in \<open>simp_all add: mouse_history_def\<close>)
  then show ?thesis using assms(3) by (simp add: mouse_history_def d(2))
qed

lemma task_turn_points:
  assumes "world_sound font info n e w" and "\<not> whalted w" and "sched (wsys w) = Some sc"
    and "task_turn font ab pk (current sc) w = Some w'" and "mouse_history info p0 bs w"
  shows "mouse_history info p0 bs w'"
proof -
  have sys: "system_sound n (wsys w) e" and own: "\<forall>wid l. wshell w = Some (wid, l) \<longrightarrow> wid = 0"
    "\<forall>wid c. wcounter w = Some (wid, c) \<longrightarrow> wid = 2" and q: "ring_inv (MOUSE_QUEUE (mouse_state (wirq w)))"
    using assms(1,2) by (auto simp: world_sound_def irq_inv_def mouse_inv_def)
  note win = own_windows [OF sys assms(3)]
  have other: ?thesis if "confined i (wdesk w) (wdesk w')" "mouse_state (wirq w') = mouse_state (wirq w)" for i
    using assms(5) that confined_at [OF that(1)] by (auto simp: mouse_history_def intro: pointed_moves)
  consider "current sc = 0" | "current sc = 1" | "current sc = 2" | "current sc = 3" using win(1) by linarith
  then show ?thesis
  proof cases
    case 1
    then obtain m d where t: "idle_turn font (mouse_state (wirq w), wdesk w) = Some (m, d)" "w' = w\<lparr>wirq := (wirq w)\<lparr>mouse_state := m\<rparr>, wdesk := d\<rparr>"
      using assms(4) by (auto simp: task_turn_def idle_task_def bind_eq_Some_conv)
    have m: "pointed info p0 bs m d" "m = (mouse_state (wirq w))\<lparr>MOUSE_QUEUE := MOUSE_QUEUE m\<rparr>"
      using idle_turn_history [OF q t(1)] assms(5) unfolding mouse_history_def by blast+
    then have "mid_packet bs m" using assms(5) mid_packet_queue [of bs "MOUSE_QUEUE m" "mouse_state (wirq w)"] by (simp add: mouse_history_def)
    then show ?thesis using m(1) by (simp add: t(2) mouse_history_def)
  next
    case 2
    then show ?thesis using assms(4) shell_task_confined [OF _ own(1) win(2)] task_frames(1) by (intro other) (fastforce simp: task_turn_def)+
  next
    case 3
    then show ?thesis using assms(4) panel_task_confined [OF _ win(3)] task_frames(2) by (intro other) (fastforce simp: task_turn_def)+
  next
    case 4
    then show ?thesis using assms(4) counter_task_confined [OF _ own(2) win(4)] task_frames(3) by (intro other) (fastforce simp: task_turn_def)+
  qed
qed

section \<open>The runs\<close>

lemma step_points:
  assumes "kernel_step font ab pk irqs (n, e, w) (n', e', w')" and "world_sound font info n e w" and "mouse_history info p0 bs w"
  shows "mouse_history info p0 (bs @ mouse_bytes irqs) w'"
  using assms(1)
proof (cases rule: kernel_step.cases)
  case (irq i b s)
  then show ?thesis using mouse_irq_history [OF assms(3), of i b s] assms(2) by (auto simp: world_sound_def mouse_history_def)
next
  case hlt
  then show ?thesis using assms(3) by (simp add: mouse_history_def mouse_bytes_def)
next
  case (event sc)
  then show ?thesis using idle_event_history [of w font w' info p0 bs] assms(2,3) by (auto simp: world_sound_def mouse_bytes_def)
next
  case (compute s)
  then show ?thesis using assms(3) by (simp add: mouse_history_def mouse_bytes_def)
next
  case (turn sc w1 ret s)
  have "mouse_history info p0 bs w1" by (rule task_turn_points [OF assms(2) turn(5,7,8) assms(3)])
  then show ?thesis using turn by (simp add: mouse_history_def mouse_bytes_def)
next
  case (halt sc)
  then show ?thesis using task_turn_points [OF assms(2) _ _ _ assms(3), of sc ab pk w'] by (simp add: mouse_bytes_def)
qed

lemma run_points:
  assumes "kernel_run font ab pk irqs (n0, e0, w0) c" and "world_sound font info n0 e0 w0" and "font_ok font" and "keeps_colour info"
    and "mouse_history info p0 bs w0"
  shows "mouse_history info p0 (bs @ mouse_bytes irqs) (snd (snd c))"
  using assms(1)
proof (induction "(n0, e0, w0)" c rule: kernel_run.induct)
  case (more irqs c' irqs' c'')
  obtain n e w n' e' w' where c: "c' = (n, e, w)" "c'' = (n', e', w')" by (metis prod_cases3)
  have "world_sound font info n e w" using reachable_sound [OF more(1) assms(2-4)] by (simp add: c)
  then show ?case using step_points [OF more(3) [unfolded c], where ?p0.0 = p0 and bs = "bs @ mouse_bytes irqs"] more(2)
    by (simp add: c mouse_bytes_def)
qed (use assms(5) in \<open>simp add: mouse_bytes_def\<close>)


section \<open>The boot\<close>

definition centre :: "fb_info \<Rightarrow> int \<times> int" where
  "centre info = (int (width info div 2), int (height info div 2))"

lemma wm_init_at:
  assumes "wm_init d = Some d'" and "FB_STATE d = Some (info, buf)" and "width info < 2 ^ 31" and "height info < 2 ^ 31"
  shows "pointer_at info (centre info) d'"
  using assms by (auto simp: wm_init_def framebuffer_info_def wm_new_def bind_eq_Some_conv pointer_at_def cursor_at_def cursor_new_def centre_def
      usize_as_i32_small)

lemma with_wm_at:
  assumes "with_wm f d = Some (r, d')" and "pointer_at info p d" and "\<And>wm r wm'. f wm = Some (r, wm') \<Longrightarrow> wm_cursor wm' = wm_cursor wm"
  shows "pointer_at info p d'"
  using assms by (auto simp: with_wm_def pointer_at_def bind_eq_Some_conv split: option.splits)

lemma wm_create_window_at:
  assumes "wm_create_window font x y w h name owner d = Some (i, d')" and "pointer_at info p d"
  shows "pointer_at info p d'"
proof -
  obtain r where "with_wm (create_window font x y w h name owner) d = Some (r, d')"
    using assms(1) by (auto simp: wm_create_window_def bind_eq_Some_conv)
  then show ?thesis using assms(2) by (rule with_wm_at) (auto simp: create_window_def bind_eq_Some_conv Let_def)
qed

lemma wm_init_console_at:
  assumes "wm_init_console i d = Some d'" and "pointer_at info p d"
  shows "pointer_at info p d'"
proof -
  obtain r where "with_wm (\<lambda>wm. do { wm \<leftarrow> init_console i wm; Some ((), wm) }) d = Some (r, d')"
    using assms(1) by (auto simp: wm_init_console_def upd_wm_def bind_eq_Some_conv)
  then show ?thesis using assms(2)
    by (rule with_wm_at) (auto simp: init_console_def bind_eq_Some_conv dest: window_mut_cursor)
qed

lemma boot_points:
  assumes "bootable plat bi s info addr_of translate" and "kernel_main plat bi s = Some k"
  shows "pointer_at info (centre info) (kdesk k)"
proof -
  obtain buf where b: "framebuffer bi = Some (info, buf)" "screen_ok info" using assms(1) by (auto simp: bootable_def)
  have small: "width info < 2 ^ 31" "height info < 2 ^ 31" using b(2) by (auto simp: screen_ok_def)
  obtain d0 d1 hp0 i j l d2 hp1 where k: "framebuffer_init buf info \<lparr>WM = None, FB_STATE = None\<rparr> = Some d0" "wm_init d0 = Some d1"
    "create_windows (glyphs plat) (global_allocator plat) (window_bytes plat) (d1, hp0) = Some (i, j, l, d2, hp1)"
    "show_windows (glyphs plat) i l d2 = Some (kdesk k)"
    using assms(2) b(1) by (auto simp: kernel_main_def bind_eq_Some_conv Let_def)
  obtain buf0 where fb: "FB_STATE d0 = Some (info, buf0)" using k(1) by (auto simp: framebuffer_init_def bind_eq_Some_conv)
  have "pointer_at info (centre info) d1" by (rule wm_init_at [OF k(2) fb small])
  then have "pointer_at info (centre info) d2"
    using k(3) by (auto simp: create_windows_def bind_eq_Some_conv dest!: wm_create_window_at)
  then show ?thesis using k(4) by (auto simp: show_windows_def bind_eq_Some_conv dest!: wm_init_console_at wm_composite_at)
qed

lemma boot_irqs_points:
  assumes "foldM (\<lambda>(i, b). take_irq i b) irqs s0 = Some i0" and "irq_inv s0" and "mouse_history info p0 bs (w\<lparr>wirq := s0\<rparr>)"
  shows "irq_inv i0 \<and> mouse_history info p0 (bs @ mouse_bytes irqs) (w\<lparr>wirq := i0\<rparr>)"
  using assms
proof (induction irqs arbitrary: s0 bs)
  case Nil
  then show ?case by (simp add: mouse_bytes_def)
next
  case (Cons x irqs)
  obtain i b where x: "x = (i, b)" by (cases x)
  obtain s1 where s1: "take_irq i b s0 = Some s1" "irq_inv s1" using take_irq_step [OF Cons.prems(2)] by blast
  have "mouse_history info p0 (bs @ mouse_bytes [(i, b)]) (w\<lparr>wirq := s1\<rparr>)"
    using mouse_irq_history [OF Cons.prems(3), of i b s1] s1(1) Cons.prems(2) by simp
  from Cons.IH [OF _ s1(2) this] Cons.prems(1) s1(1) show ?case by (cases "i = MouseIrq") (simp_all add: x mouse_bytes_def)
qed

lemma mouse_history_boot:
  assumes "pointer_at info p0 (wdesk w)"
  shows "mouse_history info p0 [] (w\<lparr>wirq := irq_boot\<rparr>)"
  using assms by (auto simp: mouse_history_def mid_packet_def pending_bytes_def irq_boot_def mouse_static_fields pointed_def history_def
      intro!: exI [of _ "[]"])

lemma irqs_taken: "irq_inv s \<Longrightarrow> \<exists>s'. foldM (\<lambda>(i, b). take_irq i b) irqs s = Some s' \<and> irq_inv s'"
proof (induction irqs arbitrary: s)
  case (Cons x irqs)
  obtain i b where x: "x = (i, b)" by (cases x)
  obtain s1 where "take_irq i b s = Some s1" "irq_inv s1" using take_irq_step [OF Cons.prems] by blast
  then show ?case using Cons.IH by (simp add: x)
qed simp

lemma irq_boot_inv: "irq_inv irq_boot"
  by (simp add: irq_inv_def irq_boot_def SCANCODE_QUEUE_def mouse_inv_static)

section \<open>Property\<close>

text \<open>C3: the pointer goes where the mouse moves it. Take any run of the booted kernel, in any interleaving of interrupts
  and turns, after any interrupts taken during the boot, and the bytes the mouse has sent in them. The events that have been handled, followed by those that wait in the
  queue, are in order a subsequence of the events that the bytes make up (cut into packets from the first byte on, a byte without the sync bit
  dropped where a packet would start), and all of them if there are at most 127. And the pointer stands where the handled events have moved
  it from the centre of the screen, each step clamped to the screen - whatever the windows and the tasks do, and also after a halt.\<close>

theorem pointer_follows_mouse:
  assumes "bootable plat bi s info addr_of translate" and "kernel_main plat bi s = Some k"
    and "\<forall>r \<in> set (memory_regions bi). rstart r \<le> rend r" and "foldM (\<lambda>(i, b). take_irq i b) irqs0 irq_boot = Some i0"
    and "kernel_run (glyphs plat) ab pk irqs (0, first_resume (task_specs plat k), boot_world k i0 kb) (n, e, w)"
    and "events = packet_events (mouse_bytes (irqs0 @ irqs))"
  shows "\<exists>handled wm. subseq (handled @ ring_list (MOUSE_QUEUE (mouse_state (wirq w)))) events \<and>
    (length events \<le> 127 \<longrightarrow> handled @ ring_list (MOUSE_QUEUE (mouse_state (wirq w))) = events) \<and> WM (wdesk w) = Some wm \<and>
    (cur_x (wm_cursor wm), cur_y (wm_cursor wm)) = fold (move_pointer info) handled (int (width info div 2), int (height info div 2))"
proof -
  have f: "font_ok (glyphs plat)" "keeps_colour info" using assms(1) by (auto simp: bootable_def)
  have "pointer_at info (centre info) (wdesk (boot_world k irq_boot kb))" using boot_points [OF assms(1,2)] by (simp add: boot_world_def)
  from boot_irqs_points [OF assms(4) irq_boot_inv mouse_history_boot [OF this]]
  have i0: "irq_inv i0" "mouse_history info (centre info) (mouse_bytes irqs0) (boot_world k i0 kb)" by (simp_all add: boot_world_def)
  from run_points [OF assms(5) boot_world_sound [OF assms(1-3) i0(1)] f i0(2)]
  have "mouse_history info (centre info) (mouse_bytes (irqs0 @ irqs)) w" by (simp add: mouse_bytes_def)
  then show ?thesis unfolding assms(6) mouse_history_def pointed_def pointer_at_def cursor_at_def history_def centre_def by blast
qed

text \<open>The sample machine, after the mouse has reported a move by (16, 8) during the boot, an idle turn, and the first byte of
  a second packet.\<close>

theorem pointer_follows_mouse_witness:
  "\<exists>k i0 n e w wm. kernel_main sample_platform sample_boot_info sample_system = Some k \<and>
    foldM (\<lambda>(i, b). take_irq i b) [(MouseIrq, 0x08), (Timer, 0), (MouseIrq, 0x10), (MouseIrq, 0x08)] irq_boot = Some i0 \<and>
    kernel_run block_font (\<lambda>k sc. (Inr (Some sc) :: unit + u8 option, k)) (\<lambda>k ev. (Some (Unicode (unat ev)), k)) []
      (0, first_resume (task_specs sample_platform k), boot_world k i0 ()) (n, e, w) \<and>
    WM (wdesk w) = Some wm \<and> (cur_x (wm_cursor wm), cur_y (wm_cursor wm)) = (528, 376)"
proof -
  let ?ab = "\<lambda>k sc. (Inr (Some sc) :: unit + u8 option, k)" and ?pk = "\<lambda>k ev. (Some (Unicode (unat ev)), k)"
  let ?irqs = "[(MouseIrq, 0x08), (Timer, 0), (MouseIrq, 0x10), (MouseIrq, 0x08)]"
  obtain k where k: "kernel_main sample_platform sample_boot_info sample_system = Some k"
    and rs: "\<forall>r \<in> set (memory_regions sample_boot_info). rstart r \<le> rend r"
    and f: "font_ok block_font" "keeps_colour sample_info" and font: "glyphs sample_platform = block_font" by (rule sample_world)
  obtain i0 where i0: "foldM (\<lambda>(i, b). take_irq i b) ?irqs irq_boot = Some i0" "irq_inv i0" using irqs_taken [OF irq_boot_inv] by blast
  let ?e = "first_resume (task_specs sample_platform k)" and ?w = "boot_world k i0 ()"
  have w: "world_sound block_font sample_info 0 ?e ?w" using boot_world_sound [OF sample_bootable k rs i0(2)] by (simp add: font)
  have alive: "\<not> whalted ?w" and awake: "whlt ?w = Awake" by (simp_all add: boot_world_def)
  obtain sc where sc: "sched (wsys ?w) = Some sc" "current sc = 0" using world_current [OF w] by auto
  obtain w1 s where t: "task_turn block_font ?ab ?pk (current sc) ?w = Some w1" "\<not> whalted w1 \<longrightarrow> kernel_step block_font ?ab ?pk [] (0, ?e, ?w)
      (Suc 0, ?e(current sc := saved_words (cpu_state (wsys ?w)) 0), yielded s w1)"
    by (rule turn_exists [OF w alive f sc(1) awake, where ab = ?ab and pk = ?pk])
  obtain m d where m: "idle_turn block_font (mouse_state i0, kdesk k) = Some (m, d)" "w1 = ?w\<lparr>wirq := i0\<lparr>mouse_state := m\<rparr>, wdesk := d\<rparr>"
    using t(1) sc(2) by (auto simp: task_turn_def idle_task_def bind_eq_Some_conv boot_world_def)
  let ?w1 = "yielded s w1" and ?e1 = "?e(current sc := saved_words (cpu_state (wsys ?w)) 0)"
  have r: "kernel_run block_font ?ab ?pk [] (0, ?e, ?w) (Suc 0, ?e1, ?w1)" using t(2) alive m(2) by (intro run_one) simp
  have start: "pointed sample_info (centre sample_info) (mouse_bytes ?irqs) (mouse_state i0) (kdesk k)"
    using boot_irqs_points [OF i0(1) irq_boot_inv mouse_history_boot, of sample_info "centre sample_info" ?w] boot_points [OF sample_bootable k]
    by (simp add: boot_world_def mouse_history_def)
  have events: "[event_of 8 16 8] = packet_events (mouse_bytes (?irqs @ []))" by (simp add: mouse_bytes_def)
  have "ring_inv (MOUSE_QUEUE (mouse_state i0))" using i0(2) by (simp add: irq_inv_def mouse_inv_def)
  from idle_turn_history(3) [OF this m(1) start] have drained: "ring_list (MOUSE_QUEUE (mouse_state (wirq ?w1))) = []" by (simp add: m(2))
  from pointer_follows_mouse [OF sample_bootable k rs i0(1) r [folded font] events] drained
  obtain wm where wm: "WM (wdesk ?w1) = Some wm"
    "(cur_x (wm_cursor wm), cur_y (wm_cursor wm)) = fold (move_pointer sample_info) [event_of 8 16 8] (512, 384)"
    by (auto simp: sample_info_def)
  have "(cur_x (wm_cursor wm), cur_y (wm_cursor wm)) = (528, 376)" using wm(2) by (simp add: event_of_def sample_info_def)
  then show ?thesis using k i0(1) r wm(1) by blast
qed

end
