(* ===== verification/Progress.thy ===== *)
theory Progress
  imports Typing Isolation
begin

text \<open>
  Progress of the running kernel: from every state it reaches the turns come round to the shell, with one interrupt if the
  idle task sleeps or is going to, and a turn of the focused shell takes codes off the queue.
\<close>

section \<open>Reading takes something\<close>

lemma next_key_shorter: "scs \<noteq> [] \<Longrightarrow> length (fst (snd (next_key ab pk scs kb))) < length scs"
proof (induction scs arbitrary: kb)
  case (Cons sc scs)
  have "length (fst (snd (next_key ab pk scs kb'))) \<le> length scs" for kb'
    using next_key_suffix [of ab pk scs kb'] by (rule suffix_length_le)
  then show ?case by (auto simp: less_Suc_eq_le split: prod.splits sum.splits option.splits)
qed simp

lemma shell_turn_reads:
  assumes "shell_turn font wid ab pk (l, q, kb, d) = Some (ctl, l', q', kb', d')" and "ring_inv q" and "wm_is_focused wid d"
    and "ring_list q \<noteq> []"
  shows "length (ring_list q') < length (ring_list q)"
proof -
  obtain q1 where q1: "try_read_key ab pk q kb = Some (fst (next_key ab pk (ring_list q) kb), q1, snd (snd (next_key ab pk (ring_list q) kb)))"
    "ring_list q1 = fst (snd (next_key ab pk (ring_list q) kb))"
    using try_read_key_refines [OF assms(2), of ab pk kb] by blast
  have "q' = q1" using assms(1,3) q1(1) by (auto simp: shell_turn_def bind_eq_Some_conv split: option.splits)
  then show ?thesis using q1(2) next_key_shorter [OF assms(4), of ab pk kb] by simp
qed

lemma confined_focus:
  assumes "confined wid d d'"
  shows "wm_is_focused i d' = wm_is_focused i d"
proof -
  have "focused m' = focused m" if "confined_wm wid m m'" for m m'
    using arg_cong [OF conjunct1 [OF that [unfolded confined_wm_def]], of focused] by simp
  then show ?thesis using assms by (auto simp: confined_def wm_is_focused_def is_focused_def rel_option_iff split: option.splits)
qed

lemma shell_task_reads:
  assumes "world_sound font info n e w" and "\<not> whalted w" and "own_window (wsys w) = 0"
    and "shell_task font ab pk w = Some w'" and "wm_is_focused 0 (wdesk w)" and "ring_list (scancodes (wirq w)) \<noteq> []"
  shows "length (ring_list (scancodes (wirq w'))) < length (ring_list (scancodes (wirq w)))"
proof -
  have q: "ring_inv (scancodes (wirq w))" and sh: "\<forall>wid l. wshell w = Some (wid, l) \<longrightarrow> wid = 0"
    using assms(1,2) by (auto simp: world_sound_def irq_inv_def)
  obtain wid l d where f: "(case wshell w of Some (wid, l) \<Rightarrow> Some (wid, l, wdesk w)
       | None \<Rightarrow> do { let wid = own_window (wsys w); (l, d) \<leftarrow> shell_start font wid (wdesk w); Some (wid, l, d) }) = Some (wid, l, d)"
    and t: "\<exists>ctl l' kb d'. shell_turn font wid ab pk (l, scancodes (wirq w), wkeys w, d) = Some (ctl, l', scancodes (wirq w'), kb, d')"
    using assms(4) by (auto simp: shell_task_def bind_eq_Some_conv)
  have "wid = 0 \<and> reaches font 0 (wdesk w) d"
    using f assms(3) sh by (auto simp: bind_eq_Some_conv split: option.splits dest: shell_start_reaches)
  then have "wid = 0" "wm_is_focused 0 d" using confined_focus [OF reaches_confined, of font 0 "wdesk w" d 0] assms(5) by auto
  obtain ctl l' kb d' where t': "shell_turn font 0 ab pk (l, scancodes (wirq w), wkeys w, d) = Some (ctl, l', scancodes (wirq w'), kb, d')"
    using t \<open>wid = 0\<close> by auto
  show ?thesis by (rule shell_turn_reads [OF t' q \<open>wm_is_focused 0 d\<close> assms(6)])
qed

section \<open>The turns come round\<close>

text \<open>Only the shell can halt the machine, and only it takes from the queue of scancodes.\<close>

lemma other_turns:
  assumes "task_turn font ab pk i w = Some w'" and "i \<noteq> 1"
  shows "whalted w' = whalted w" and "scancodes (wirq w') = scancodes (wirq w)"
  using assms by (auto simp: task_turn_def idle_task_def panel_task_def counter_task_def bind_eq_Some_conv split: if_splits)

text \<open>Only when the idle task is the current one does the processor sleep, or is about to.\<close>

definition hlt_ok :: "nat \<Rightarrow> 'k world \<Rightarrow> bool" where
  "hlt_ok n w \<longleftrightarrow> (whlt w \<noteq> Awake \<longrightarrow> n mod 4 = 0)"

lemma yielded_hlt:
  assumes "world_sound font info n e (yielded s w)"
  shows "whlt (yielded s w) = (if n mod 4 = 0 then Hlt_next else Awake)"
proof -
  obtain sc where "sched s = Some sc" "current sc = n mod 4" using world_current [OF assms] by auto
  then show ?thesis by (simp add: yielded_def)
qed

lemma turn_hlt: "task_turn font ab pk i w = Some w' \<Longrightarrow> whlt w' = whlt w" "idle_event font w = Some (Some w') \<Longrightarrow> whlt w' = whlt w"
  by (auto simp: task_turn_def idle_task_def shell_task_def panel_task_def counter_task_def idle_event_def bind_eq_Some_conv
      split: if_splits option.splits)

lemma step_hlt_ok:
  assumes "kernel_step font ab pk irqs (n, e, w) (n', e', w')" and "world_sound font info n e w" and "font_ok font" and "keeps_colour info"
    and "hlt_ok n w"
  shows "hlt_ok n' w'"
  using assms(1)
proof (cases rule: kernel_step.cases)
  case (turn sc w1 ret s)
  then show ?thesis using yielded_hlt [of font info n' e' s w1] kernel_step_sound [OF assms(1-4)] by (simp add: hlt_ok_def)
qed (use assms(5) in \<open>auto simp: hlt_ok_def dest: turn_hlt\<close>)

lemma run_hlt_ok:
  assumes "kernel_run font ab pk irqs (n0, e0, w0) c" and "world_sound font info n0 e0 w0" and "font_ok font" and "keeps_colour info"
    and "hlt_ok n0 w0"
  shows "hlt_ok (fst c) (snd (snd c))"
  using assms(1)
proof (induction "(n0, e0, w0)" c rule: kernel_run.induct)
  case (more irqs c' irqs' c'')
  have "world_sound font info (fst c') (fst (snd c')) (snd (snd c'))" by (rule reachable_sound [OF more(1) assms(2-4)])
  then show ?case using step_hlt_ok [OF _ _ assms(3,4)] more(2,3) by (cases c', cases c'') auto
qed (use assms(5) in simp)

text \<open>Asleep, the processor waits for an interrupt.\<close>

lemma asleep_steps: "kernel_step font ab pk irqs (n, e, w) c \<Longrightarrow> whlt w = Asleep \<Longrightarrow> irqs \<noteq> []"
  by (auto elim: kernel_step.cases)

text \<open>A turn of another task than the shell. Only the idle task handles what the interrupts have left.\<close>

lemma next_turn:
  assumes "world_sound font info n e w" and "\<not> whalted w" and "font_ok font" and "keeps_colour info" and "whlt w = Awake" and "n mod 4 \<noteq> 1"
  obtains e' w' where "kernel_run font ab pk [] (n, e, w) (Suc n, e', w')" and "world_sound font info (Suc n) e' w'" and "\<not> whalted w'"
    and "whlt w' = (if Suc n mod 4 = 0 then Hlt_next else Awake)" and "scancodes (wirq w') = scancodes (wirq w)"
    and "n mod 4 \<noteq> 0 \<longrightarrow> wirq w' = wirq w"
proof -
  obtain sc where sc: "sched (wsys w) = Some sc" "current sc = n mod 4" by (rule world_current [OF assms(1)])
  obtain w1 s where w1: "task_turn font ab pk (current sc) w = Some w1"
    "\<not> whalted w1 \<longrightarrow> kernel_step font ab pk [] (n, e, w) (Suc n, e(current sc := saved_words (cpu_state (wsys w)) 0), yielded s w1)"
    by (rule turn_exists [OF assms(1-4) sc(1) assms(5), where ab = ab and pk = pk])
  have "current sc \<noteq> 1" using sc(2) assms(6) by simp
  note other = other_turns [OF w1(1) this]
  have alive: "\<not> whalted w1" using other(1) assms(2) by simp
  note step = mp [OF w1(2) alive]
  have sound: "world_sound font info (Suc n) (e(current sc := saved_words (cpu_state (wsys w)) 0)) (yielded s w1)"
    by (rule kernel_step_sound [OF step assms(1,3,4)])
  have "wirq w1 = wirq w" if "n mod 4 \<noteq> 0"
    using w1(1) assms(6) that unfolding sc(2)
    by (auto simp: task_turn_def panel_task_def counter_task_def bind_eq_Some_conv split: if_splits)
  then show ?thesis using that [OF run_one [OF step] sound] alive other(2) yielded_hlt [OF sound] by simp
qed

text \<open>The turns of the panel and the counter lead to the idle task, which executes \<^verbatim>\<open>hlt\<close>.\<close>

lemma turns_to_idle:
  assumes "world_sound font info n e w" and "\<not> whalted w" and "font_ok font" and "keeps_colour info" and "whlt w = Awake"
    and "n mod 4 \<notin> {0, 1}"
  obtains n' e' w' where "kernel_run font ab pk [] (n, e, w) (n', e', w')" and "world_sound font info n' e' w'" and "\<not> whalted w'"
    and "n' \<le> n + 2" and "n' mod 4 = 0" and "whlt w' = Hlt_next" and "wirq w' = wirq w"
proof -
  obtain e1 w1 where t: "kernel_run font ab pk [] (n, e, w) (Suc n, e1, w1)" "world_sound font info (Suc n) e1 w1" "\<not> whalted w1"
    "whlt w1 = (if Suc n mod 4 = 0 then Hlt_next else Awake)" "n mod 4 \<noteq> 0 \<longrightarrow> wirq w1 = wirq w"
    by (rule next_turn [OF assms(1-5), where ab = ab and pk = pk]) (use assms(6) in auto)
  have i1: "wirq w1 = wirq w" using t(5) assms(6) by simp
  show ?thesis
  proof (cases "Suc n mod 4 = 0")
    case True
    show ?thesis by (rule that [OF t(1-3)]) (use True t(4) i1 in simp_all)
  next
    case False
    have awake: "whlt w1 = Awake" using False t(4) by simp
    have n: "n mod 4 < 4" by simp
    have two: "n mod 4 = 2" using False assms(6) n unfolding mod_Suc by (auto split: if_splits)
    have not_shell: "Suc n mod 4 \<noteq> 1" using two by (simp add: mod_Suc)
    obtain e2 w2 where t2: "kernel_run font ab pk [] (Suc n, e1, w1) (Suc (Suc n), e2, w2)" "world_sound font info (Suc (Suc n)) e2 w2"
      "\<not> whalted w2" "whlt w2 = (if Suc (Suc n) mod 4 = 0 then Hlt_next else Awake)" "scancodes (wirq w2) = scancodes (wirq w1)"
      "Suc n mod 4 \<noteq> 0 \<longrightarrow> wirq w2 = wirq w1"
      by (rule next_turn [OF t(2,3) assms(3,4) awake not_shell, where ab = ab and pk = pk])
    have four: "Suc (Suc n) mod 4 = 0" using two by (simp add: mod_Suc)
    have "kernel_run font ab pk ([] @ []) (n, e, w) (Suc (Suc n), e2, w2)" by (rule run_append [OF t2(1) t(1)])
    then have run: "kernel_run font ab pk [] (n, e, w) (Suc (Suc n), e2, w2)" by simp
    show ?thesis by (rule that [OF run t2(2,3)]) (use four t2(4,6) False i1 in simp_all)
  qed
qed

text \<open>The sleeping idle task, or one that is about to sleep, goes on after one interrupt, and yields to the shell.\<close>

lemma sleeper_to_shell:
  assumes "world_sound font info n e w" and "\<not> whalted w" and "font_ok font" and "keeps_colour info" and "whlt w \<noteq> Awake" and "n mod 4 = 0"
    and "take_irq i b (wirq w) = Some s"
  obtains e' w' where "kernel_run font ab pk [(i, b)] (n, e, w) (Suc n, e', w')" and "world_sound font info (Suc n) e' w'"
    and "\<not> whalted w'" and "scancodes (wirq w') = scancodes s"
proof -
  have asleep: "kernel_run font ab pk [] (n, e, w) (n, e, hlt w)"
  proof (cases "whlt w = Asleep")
    case True
    then have "hlt w = w" by (simp add: hlt_def)
    then show ?thesis by (simp add: kernel_run.start)
  next
    case False
    then have "whlt w = Hlt_next" using assms(5) by (cases "whlt w") auto
    then show ?thesis by (rule run_one [OF kernel_step.hlt [OF assms(2)]])
  qed
  obtain sc where sc: "sys_ok (wsys w) sc e" "current sc = n mod 4" using assms(1) by (auto simp: world_sound_def system_sound_def)
  then have on: "iflag (wsys (hlt w))" using assms(6) by (simp add: sys_ok_def flags_ok_def)
  have irq: "kernel_step font ab pk [(i, b)] (n, e, hlt w) (n, e, interrupted s (hlt w))" by (rule kernel_step.irq [OF on]) (simp add: assms(7))
  let ?w = "interrupted s (hlt w)"
  have r: "kernel_run font ab pk ([] @ [(i, b)]) (n, e, w) (n, e, ?w)" by (rule kernel_run.more [OF asleep irq])
  have sound: "world_sound font info n e ?w" using reachable_sound [OF r assms(1,3,4)] by simp
  have w: "\<not> whalted ?w" "whlt ?w = Awake" using assms(2) by simp_all
  obtain e' w' where t: "kernel_run font ab pk [] (n, e, ?w) (Suc n, e', w')" "world_sound font info (Suc n) e' w'" "\<not> whalted w'"
    "scancodes (wirq w') = scancodes (wirq ?w)"
    by (rule next_turn [OF sound w(1) assms(3,4) w(2), where ab = ab and pk = pk]) (use assms(6) in simp_all)
  show ?thesis by (rule that [OF run_append [OF t(1) r, simplified] t(2,3)]) (simp add: t(4))
qed

text \<open>Which interrupts it takes to come to the shell's turn: none if the shell is the current task, or if the idle task is
  and has not come to its \<^verbatim>\<open>hlt\<close>, else one.\<close>

definition wakes :: "hardware_interrupt \<times> u8 \<Rightarrow> nat \<Rightarrow> 'k world \<Rightarrow> (hardware_interrupt \<times> u8) list" where
  "wakes ib i w = (if i = 1 \<or> (i = 0 \<and> whlt w = Awake) then [] else [ib])"

lemma comes_round:
  assumes "world_sound font info n e w" and "\<not> whalted w" and "font_ok font" and "keeps_colour info" and "hlt_ok n w"
    and "take_irq i b (wirq w) = Some s"
  obtains n' e' w' where "kernel_run font ab pk (wakes (i, b) (n mod 4) w) (n, e, w) (n', e', w')" and "n' \<le> n + 3" and "n' mod 4 = 1"
    and "\<not> whalted w'" and "scancodes (wirq w') = scancodes (if wakes (i, b) (n mod 4) w = [] then wirq w else s)"
proof -
  consider "n mod 4 = 1" | "n mod 4 = 0" "whlt w = Awake" | "n mod 4 = 0" "whlt w \<noteq> Awake" | "n mod 4 \<notin> {0, 1}" "whlt w = Awake"
    using assms(5) by (auto simp: hlt_ok_def)
  then show ?thesis
  proof cases
    case 1
    show ?thesis by (rule that [of n e w]) (use 1 assms(2) in \<open>simp_all add: wakes_def kernel_run.start\<close>)
  next
    case 2
    obtain e' w' where t: "kernel_run font ab pk [] (n, e, w) (Suc n, e', w')" "\<not> whalted w'" "scancodes (wirq w') = scancodes (wirq w)"
      by (rule next_turn [OF assms(1-4) 2(2), where ab = ab and pk = pk]) (use 2(1) in simp_all)
    show ?thesis by (rule that [of "Suc n" e' w']) (use 2 t in \<open>simp_all add: wakes_def mod_Suc\<close>)
  next
    case 3
    obtain e' w' where t: "kernel_run font ab pk [(i, b)] (n, e, w) (Suc n, e', w')" "\<not> whalted w'" "scancodes (wirq w') = scancodes s"
      by (rule sleeper_to_shell [OF assms(1-4) 3(2,1) assms(6), where ab = ab and pk = pk])
    show ?thesis by (rule that [of "Suc n" e' w']) (use 3 t in \<open>simp_all add: wakes_def mod_Suc\<close>)
  next
    case 4
    obtain n1 e1 w1 where t: "kernel_run font ab pk [] (n, e, w) (n1, e1, w1)" "world_sound font info n1 e1 w1" "\<not> whalted w1"
      "n1 \<le> n + 2" "n1 mod 4 = 0" "whlt w1 = Hlt_next" "wirq w1 = wirq w"
      by (rule turns_to_idle [OF assms(1-4) 4(2,1), where ab = ab and pk = pk])
    have sleepy: "whlt w1 \<noteq> Awake" and take: "take_irq i b (wirq w1) = Some s" using t(6,7) assms(6) by simp_all
    obtain e' w' where t2: "kernel_run font ab pk [(i, b)] (n1, e1, w1) (Suc n1, e', w')" "\<not> whalted w'" "scancodes (wirq w') = scancodes s"
      by (rule sleeper_to_shell [OF t(2,3) assms(3,4) sleepy t(5) take, where ab = ab and pk = pk])
    have "kernel_run font ab pk ([] @ [(i, b)]) (n, e, w) (Suc n1, e', w')" by (rule run_append [OF t2(1) t(1)])
    then have run: "kernel_run font ab pk (wakes (i, b) (n mod 4) w) (n, e, w) (Suc n1, e', w')" using 4 by (simp add: wakes_def)
    show ?thesis by (rule that [OF run]) (use 4 t(4,5) t2 in \<open>simp_all add: wakes_def mod_Suc\<close>)
  qed
qed

text \<open>C4: keys are read. In every state the booted kernel reaches (unless the \<^verbatim>\<open>halt\<close> command has stopped it) a processor that
  sleeps after \<^verbatim>\<open>hlt\<close> goes on with an interrupt only. But from every such state a run leads to a turn of the shell in at most
  three turns of other tasks: without an interrupt if the shell is the current task, or if the idle task is and has not come to its
  \<^verbatim>\<open>hlt\<close>; else with one interrupt, of any kind, which wakes the idle task. The scancodes that wait then are those that waited
  before, with that of the interrupt if it was the keyboard's; the turn of the shell succeeds, and if the shell has the focus and
  a code waits it takes at least one off the queue.\<close>

theorem keys_are_read:
  assumes "bootable plat bi s info addr_of translate" and "kernel_main plat bi s = Some k"
    and "\<forall>r \<in> set (memory_regions bi). rstart r \<le> rend r" and "irq_inv i0"
    and "kernel_run (glyphs plat) ab pk irqs (0, first_resume (task_specs plat k), boot_world k i0 kb) (n, e, w)" and "\<not> whalted w"
  shows "(whlt w = Asleep \<longrightarrow> (\<forall>irqs' c. kernel_step (glyphs plat) ab pk irqs' (n, e, w) c \<longrightarrow> irqs' \<noteq> [])) \<and>
    (\<exists>sc s1 wake n' e' w' w'' sc'. sched (wsys w) = Some sc \<and> take_irq i b (wirq w) = Some s1 \<and>
    wake = (if current sc = 1 \<or> (current sc = 0 \<and> whlt w = Awake) then [] else [(i, b)]) \<and>
    kernel_run (glyphs plat) ab pk wake (n, e, w) (n', e', w') \<and> n' \<le> n + 3 \<and> \<not> whalted w' \<and>
    scancodes (wirq w') = scancodes (if wake = [] then wirq w else s1) \<and>
    sched (wsys w') = Some sc' \<and> current sc' = 1 \<and> task_turn (glyphs plat) ab pk 1 w' = Some w'' \<and>
    (wm_is_focused 0 (wdesk w') \<and> ring_list (scancodes (wirq w')) \<noteq> [] \<longrightarrow>
      length (ring_list (scancodes (wirq w''))) < length (ring_list (scancodes (wirq w')))))"
proof -
  have f: "font_ok (glyphs plat)" "keeps_colour info" using assms(1) by (auto simp: bootable_def)
  note boot = boot_world_sound [OF assms(1-4)]
  have w: "world_sound (glyphs plat) info n e w" using reachable_sound [OF assms(5) boot f] by simp
  have h: "hlt_ok n w" using run_hlt_ok [OF assms(5) boot f] by (simp add: hlt_ok_def boot_world_def)
  obtain s1 where s1: "take_irq i b (wirq w) = Some s1" using take_irq_step [of "wirq w" i b] w by (auto simp: world_sound_def)
  obtain sc where sc: "sched (wsys w) = Some sc" "current sc = n mod 4" by (rule world_current [OF w])
  obtain n' e' w' where r: "kernel_run (glyphs plat) ab pk (wakes (i, b) (n mod 4) w) (n, e, w) (n', e', w')" "n' \<le> n + 3" "n' mod 4 = 1"
    "\<not> whalted w'" "scancodes (wirq w') = scancodes (if wakes (i, b) (n mod 4) w = [] then wirq w else s1)"
    by (rule comes_round [OF w assms(6) f h s1, where ab = ab and pk = pk])
  have w': "world_sound (glyphs plat) info n' e' w'" using reachable_sound [OF r(1) w f] by simp
  obtain sc' where sc': "sched (wsys w') = Some sc'" "current sc' = n' mod 4" by (rule world_current [OF w'])
  have one: "current sc' = 1" using sc'(2) r(3) by simp
  have sys: "system_sound n' (wsys w') e'" using w' by (simp add: world_sound_def)
  obtain w'' where t: "task_turn (glyphs plat) ab pk 1 w' = Some w''"
    using task_turn_sound [OF w' r(4) f sc'(1), of ab pk] one by auto
  then have "shell_task (glyphs plat) ab pk w' = Some w''" by (simp add: task_turn_def)
  note reads = shell_task_reads [OF w' r(4) own_windows(2) [OF sys sc'(1) one] this]
  have wake: "wakes (i, b) (n mod 4) w = (if current sc = 1 \<or> (current sc = 0 \<and> whlt w = Awake) then [] else [(i, b)])"
    by (simp only: wakes_def sc(2))
  have sleep: "whlt w = Asleep \<longrightarrow> (\<forall>irqs' c. kernel_step (glyphs plat) ab pk irqs' (n, e, w) c \<longrightarrow> irqs' \<noteq> [])" using asleep_steps by blast
  have reads: "wm_is_focused 0 (wdesk w') \<and> ring_list (scancodes (wirq w')) \<noteq> [] \<longrightarrow>
      length (ring_list (scancodes (wirq w''))) < length (ring_list (scancodes (wirq w')))" using reads by blast
  show ?thesis
    by (intro conjI sleep wake reads exI [of _ sc] exI [of _ s1] exI [of _ "wakes (i, b) (n mod 4) w"] exI [of _ n'] exI [of _ e'] exI [of _ w'] exI [of _ w'']
        exI [of _ sc'] sc(1) s1 r(1,2,4,5) sc'(1) one t)
qed

text \<open>The sample machine, once it has gone through all tasks and sleeps: an interrupt of the timer wakes it.\<close>

theorem keys_are_read_witness:
  "\<exists>k n e w s1 n' e' w' w''. kernel_main sample_platform sample_boot_info sample_system = Some k \<and>
    kernel_run block_font (\<lambda>k sc. (Inr (Some sc) :: unit + u8 option, k)) (\<lambda>k ev. (Some (Unicode (unat ev)), k)) [(Keyboard, 0x61)]
      (0, first_resume (task_specs sample_platform k), boot_world k irq_boot ()) (n, e, w) \<and> whlt w = Asleep \<and>
    take_irq Timer 0 (wirq w) = Some s1 \<and>
    kernel_run block_font (\<lambda>k sc. (Inr (Some sc) :: unit + u8 option, k)) (\<lambda>k ev. (Some (Unicode (unat ev)), k)) [(Timer, 0)]
      (n, e, w) (n', e', w') \<and> n' \<le> n + 3 \<and> scancodes (wirq w') = scancodes s1 \<and>
    task_turn block_font (\<lambda>k sc. (Inr (Some sc) :: unit + u8 option, k)) (\<lambda>k ev. (Some (Unicode (unat ev)), k)) 1 w' = Some w''"
proof -
  let ?ab = "\<lambda>k sc. (Inr (Some sc) :: unit + u8 option, k)" and ?pk = "\<lambda>k ev. (Some (Unicode (unat ev)), k)"
  let ?e = "\<lambda>k. first_resume (task_specs sample_platform k)" and ?w = "\<lambda>k. boot_world k irq_boot ()"
  obtain k e w where k: "kernel_main sample_platform sample_boot_info sample_system = Some k"
    and r: "kernel_run block_font ?ab ?pk [(Keyboard, 0x61)] (0, ?e k, ?w k) (2, e, w)"
    and w: "world_sound block_font sample_info 2 e w" "\<not> whalted w" "whlt w = Awake"
    and rs: "\<forall>r \<in> set (memory_regions sample_boot_info). rstart r \<le> rend r" and irqs: "irq_inv irq_boot"
    and f: "font_ok block_font" "keeps_colour sample_info" and font: "glyphs sample_platform = block_font"
    by (rule sample_typed)
  have "2 mod 4 \<notin> {0, 1 :: nat}" by simp
  then obtain n1 e1 w1 where t: "kernel_run block_font ?ab ?pk [] (2, e, w) (n1, e1, w1)" "world_sound block_font sample_info n1 e1 w1"
    "\<not> whalted w1" "n1 mod 4 = 0" "whlt w1 = Hlt_next"
    by (rule turns_to_idle [OF w(1,2) f w(3), where ab = ?ab and pk = ?pk])
  have r1: "kernel_run block_font ?ab ?pk (([(Keyboard, 0x61)] @ []) @ []) (0, ?e k, ?w k) (n1, e1, hlt w1)"
    by (rule kernel_run.more [OF run_append [OF t(1) r] kernel_step.hlt [OF t(3,5)]])
  have w1: "world_sound block_font sample_info n1 e1 (hlt w1)" using t(2) by (simp add: world_sound_def)
  have alive: "\<not> whalted (hlt w1)" using t(3) by simp
  obtain sc where sc: "sched (wsys w1) = Some sc" "current sc = 0" using world_current [OF w1] t(4) by auto
  from keys_are_read [OF sample_bootable k rs irqs r1 [folded font] alive, where i = Timer and b = 0, unfolded font, THEN conjunct2]
  obtain sc2 s1 wake n' e' w' w'' where res: "sched (wsys (hlt w1)) = Some sc2" "take_irq Timer 0 (wirq (hlt w1)) = Some s1"
    "wake = (if current sc2 = 1 \<or> (current sc2 = 0 \<and> whlt (hlt w1) = Awake) then [] else [(Timer, 0)])"
    "kernel_run block_font ?ab ?pk wake (n1, e1, hlt w1) (n', e', w')" "n' \<le> n1 + 3"
    "scancodes (wirq w') = scancodes (if wake = [] then wirq (hlt w1) else s1)" "task_turn block_font ?ab ?pk 1 w' = Some w''" by blast
  have "current sc2 = 0" using res(1) sc by simp
  then have wake: "wake = [(Timer, 0)]" using res(3) by simp
  have "scancodes (wirq w') = scancodes s1" using res(6) wake by simp
  moreover note res(2,4,5,7) [unfolded wake]
  moreover have "whlt (hlt w1) = Asleep" by simp
  ultimately show ?thesis using k r1 [unfolded append_Nil2] by blast
qed
end
