(* ===== verification/Spsc.thy ===== *)
theory Spsc
  imports Ring
begin

text \<open>
  The ring buffer under concurrency. The producer (an interrupt handler) may run between
  any two atomic accesses of the consumer (the task that reads the queue), so \<open>push\<close> and
  \<open>pop\<close> are split into the loads and stores of \<^verbatim>\<open>RingBuffer::push\<close> and \<^verbatim>\<open>RingBuffer::pop\<close>
  of \<^verbatim>\<open>kernel/src/keyboard.rs\<close>: one step per access, with the local variables of the call
  in the program counter. The acquire/release orderings of the source make the steps of
  one thread visible to the other in program order, which the interleaving assumes.

  Two ghost fields record the history: \<open>accepted\<close>, the elements whose \<open>push\<close> published them,
  and \<open>delivered\<close>, the elements whose \<open>pop\<close> released their slot.
\<close>

section \<open>States and steps\<close>

datatype 'a producer =
    PIdle
  | PLoaded 'a usize \<comment> \<open>value, the head it loaded\<close>
  | PWrite 'a usize usize \<comment> \<open>value, head, next: the slot is free\<close>
  | PStore 'a usize \<comment> \<open>value, next: the slot is written, the head not yet moved\<close>

datatype 'a consumer =
    CIdle
  | CLoaded usize \<comment> \<open>the tail it loaded\<close>
  | CRead usize \<comment> \<open>tail: the queue was not empty\<close>
  | CStore 'a usize \<comment> \<open>the value read, tail\<close>

record 'a spsc =
  ring :: "'a ring"
  prodpc :: "'a producer"
  conspc :: "'a consumer"
  accepted :: "'a list"
  delivered :: "'a list"

definition spsc_init :: "'a \<Rightarrow> 'a spsc" where
  "spsc_init e =
     \<lparr>ring = ring_new e, prodpc = PIdle, conspc = CIdle, accepted = [], delivered = []\<rparr>"

inductive push_step :: "'a spsc \<Rightarrow> 'a spsc \<Rightarrow> bool" where
  load_head: "prodpc s = PIdle \<Longrightarrow> push_step s (s\<lparr>prodpc := PLoaded v (head (ring s))\<rparr>)"
| is_full: "prodpc s = PLoaded v h \<Longrightarrow> Suc h mod BUF_SIZE = tail (ring s) \<Longrightarrow>
    push_step s (s\<lparr>prodpc := PIdle\<rparr>)"
| has_room: "prodpc s = PLoaded v h \<Longrightarrow> Suc h mod BUF_SIZE \<noteq> tail (ring s) \<Longrightarrow>
    push_step s (s\<lparr>prodpc := PWrite v h (Suc h mod BUF_SIZE)\<rparr>)"
| write_slot: "prodpc s = PWrite v h n \<Longrightarrow> h < length (data (ring s)) \<Longrightarrow>
    push_step s (s\<lparr>ring := (ring s)\<lparr>data := (data (ring s))[h := v]\<rparr>, prodpc := PStore v n\<rparr>)"
| store_head: "prodpc s = PStore v n \<Longrightarrow>
    push_step s (s\<lparr>ring := (ring s)\<lparr>head := n\<rparr>, prodpc := PIdle, accepted := accepted s @ [v]\<rparr>)"

inductive pop_step :: "'a spsc \<Rightarrow> 'a spsc \<Rightarrow> bool" where
  load_tail: "conspc s = CIdle \<Longrightarrow> pop_step s (s\<lparr>conspc := CLoaded (tail (ring s))\<rparr>)"
| is_empty: "conspc s = CLoaded t \<Longrightarrow> t = head (ring s) \<Longrightarrow> pop_step s (s\<lparr>conspc := CIdle\<rparr>)"
| has_data: "conspc s = CLoaded t \<Longrightarrow> t \<noteq> head (ring s) \<Longrightarrow> pop_step s (s\<lparr>conspc := CRead t\<rparr>)"
| read_slot: "conspc s = CRead t \<Longrightarrow> t < length (data (ring s)) \<Longrightarrow>
    pop_step s (s\<lparr>conspc := CStore (data (ring s) ! t) t\<rparr>)"
| store_tail: "conspc s = CStore v t \<Longrightarrow>
    pop_step s (s\<lparr>ring := (ring s)\<lparr>tail := Suc t mod BUF_SIZE\<rparr>, conspc := CIdle,
      delivered := delivered s @ [v]\<rparr>)"

inductive spsc_step :: "'a spsc \<Rightarrow> 'a spsc \<Rightarrow> bool" where
  produce: "push_step s t \<Longrightarrow> spsc_step s t"
| consume: "pop_step s t \<Longrightarrow> spsc_step s t"

inductive spsc_reachable :: "'a spsc \<Rightarrow> bool" where
  start: "spsc_reachable (spsc_init e)"
| step: "spsc_reachable s \<Longrightarrow> spsc_step s t \<Longrightarrow> spsc_reachable t"

inductive_cases push_stepE: "push_step s t"
inductive_cases pop_stepE: "pop_step s t"
inductive_cases spsc_stepE: "spsc_step s t"

section \<open>The invariant\<close>

text \<open>What the producer and the consumer know about the shared ring at each point.\<close>

definition prod_inv :: "'a spsc \<Rightarrow> bool" where
  "prod_inv s = (case prodpc s of
      PIdle \<Rightarrow> True
    | PLoaded v h \<Rightarrow> h = head (ring s)
    | PWrite v h n \<Rightarrow> h = head (ring s) \<and> n = Suc h mod BUF_SIZE \<and> ring_count (ring s) < BUF_SIZE - 1
    | PStore v n \<Rightarrow> n = Suc (head (ring s)) mod BUF_SIZE \<and> data (ring s) ! head (ring s) = v \<and>
        ring_count (ring s) < BUF_SIZE - 1)"

definition cons_inv :: "'a spsc \<Rightarrow> bool" where
  "cons_inv s = (case conspc s of
      CIdle \<Rightarrow> True
    | CLoaded t \<Rightarrow> t = tail (ring s)
    | CRead t \<Rightarrow> t = tail (ring s) \<and> tail (ring s) \<noteq> head (ring s)
    | CStore v t \<Rightarrow> t = tail (ring s) \<and> tail (ring s) \<noteq> head (ring s) \<and>
        v = data (ring s) ! tail (ring s))"

definition spsc_inv :: "'a spsc \<Rightarrow> bool" where
  "spsc_inv s \<longleftrightarrow> ring_inv (ring s) \<and> accepted s = delivered s @ ring_list (ring s) \<and>
     prod_inv s \<and> cons_inv s"

lemmas spsc_inv_defs = spsc_inv_def prod_inv_def cons_inv_def

lemma spsc_inv_init: "spsc_inv (spsc_init e)"
  by (simp add: spsc_inv_defs spsc_init_def)

text \<open>Writing the free slot changes no element of the queue.\<close>

lemma ring_list_write_head:
  assumes "ring_inv q"
  shows "ring_list (q\<lparr>data := (data q)[head q := v]\<rparr>) = ring_list q"
proof -
  have "ring_count (q\<lparr>data := (data q)[head q := v]\<rparr>) = ring_count q"
    by (simp add: ring_count_def)
  moreover have "(data q)[head q := v] ! ((tail q + i) mod BUF_SIZE) = data q ! ((tail q + i) mod BUF_SIZE)"
    if "i < ring_count q" for i
    using ring_index_neq_head [OF assms that] by simp
  ultimately show ?thesis by (simp add: ring_list_def)
qed

lemma ring_count_write [simp]: "ring_count (q\<lparr>data := d\<rparr>) = ring_count q"
  by (simp add: ring_count_def)

lemma ring_list_store_head:
  assumes "ring_inv q" and "ring_count q < BUF_SIZE - 1"
  shows "ring_list (q\<lparr>head := Suc (head q) mod BUF_SIZE\<rparr>) = ring_list q @ [data q ! head q]"
  using ring_list_push [OF assms, of "data q ! head q"] by simp

text \<open>Releasing a slot only makes room.\<close>

lemma ring_count_store_tail:
  assumes "ring_inv q" and "tail q \<noteq> head q"
  shows "Suc (ring_count (q\<lparr>tail := Suc (tail q) mod BUF_SIZE\<rparr>)) = ring_count q"
  using arg_cong [OF ring_list_pop [OF assms], of length] by simp

lemma ring_nonempty_store_head:
  assumes "ring_inv q" and "ring_count q < BUF_SIZE - 1"
  shows "tail q \<noteq> Suc (head q) mod BUF_SIZE"
  using assms ring_full_iff [OF assms(1)] by auto

lemma push_step_inv:
  assumes "push_step s t" and "spsc_inv s"
  shows "spsc_inv t"
  using assms
proof (cases rule: push_step.cases)
  case (has_room v h)
  then have "ring_count (ring s) \<noteq> BUF_SIZE - 1"
    using assms(2) ring_full_iff [of "ring s"] by (auto simp: spsc_inv_defs)
  then have "ring_count (ring s) < BUF_SIZE - 1"
    using ring_count_less [of "ring s"] by simp
  then show ?thesis using has_room assms(2) by (auto simp: spsc_inv_defs split: consumer.splits)
next
  case (write_slot v h n)
  then have "h = head (ring s)" using assms(2) by (simp add: spsc_inv_defs)
  then show ?thesis using write_slot assms(2)
    by (auto simp: spsc_inv_defs ring_list_write_head ring_inv_def split: consumer.splits)
next
  case (store_head v n)
  then show ?thesis using assms(2)
    by (auto simp: spsc_inv_defs ring_list_store_head ring_nonempty_store_head ring_inv_def
        split: consumer.splits)
qed (auto simp: spsc_inv_defs split: consumer.splits)

lemma pop_step_inv:
  assumes "pop_step s t" and "spsc_inv s"
  shows "spsc_inv t"
  using assms
proof (cases rule: pop_step.cases)
  case (store_tail v t')
  then have *: "t' = tail (ring s)" "tail (ring s) \<noteq> head (ring s)" "ring_inv (ring s)"
    "v = data (ring s) ! tail (ring s)"
    using assms(2) by (auto simp: spsc_inv_defs)
  let ?q = "(ring s)\<lparr>tail := Suc (tail (ring s)) mod BUF_SIZE\<rparr>"
  have "ring_list (ring s) = v # ring_list ?q" "ring_count ?q < ring_count (ring s)"
    using ring_list_pop [OF *(3,2)] ring_count_store_tail [OF *(3,2)] *(4) by auto
  then show ?thesis using store_tail assms(2) *(1)
    by (auto simp: spsc_inv_defs ring_inv_def split: producer.splits)
qed (auto simp: spsc_inv_defs split: producer.splits)

lemma spsc_reachable_inv: "spsc_reachable s \<Longrightarrow> spsc_inv s"
  by (induction rule: spsc_reachable.induct)
    (auto intro: spsc_inv_init push_step_inv pop_step_inv elim: spsc_stepE)

section \<open>Uninterrupted calls\<close>

text \<open>The steps of a call that nothing interrupts are the sequential \<open>push\<close> and \<open>pop\<close>.\<close>

lemma push_step_run:
  assumes inv: "spsc_inv s" and idle: "prodpc s = PIdle"
  shows "\<exists>t. push_step\<^sup>*\<^sup>* s t \<and> push v (ring s) = Some (ring t) \<and> prodpc t = PIdle \<and>
    conspc t = conspc s \<and> delivered t = delivered s \<and>
    accepted t = accepted s @ (if ring_count (ring s) < BUF_SIZE - 1 then [v] else [])"
proof -
  let ?h = "head (ring s)" and ?n = "Suc (head (ring s)) mod BUF_SIZE"
  let ?s1 = "s\<lparr>prodpc := PLoaded v ?h\<rparr>"
  have ri: "ring_inv (ring s)" using inv by (simp add: spsc_inv_def)
  have st1: "push_step s ?s1" using idle by (rule push_step.load_head)
  show ?thesis
  proof (cases "ring_count (ring s) < BUF_SIZE - 1")
    case True
    let ?s2 = "s\<lparr>prodpc := PWrite v ?h ?n\<rparr>"
    let ?q3 = "(ring s)\<lparr>data := (data (ring s))[?h := v]\<rparr>"
    let ?s3 = "s\<lparr>ring := ?q3, prodpc := PStore v ?n\<rparr>"
    let ?s4 = "s\<lparr>ring := ?q3\<lparr>head := ?n\<rparr>, prodpc := PIdle, accepted := accepted s @ [v]\<rparr>"
    have "?n \<noteq> tail (ring s)" using ring_full_iff [OF ri] True by auto
    then have st2: "push_step ?s1 ?s2" using push_step.has_room [of ?s1 v ?h] by simp
    have st3: "push_step ?s2 ?s3"
      using push_step.write_slot [of ?s2 v ?h ?n] ri by (simp add: ring_inv_def)
    have st4: "push_step ?s3 ?s4" using push_step.store_head [of ?s3 v ?n] by simp
    have "push_step\<^sup>*\<^sup>* s ?s4" using st1 st2 st3 st4 by (rule rtranclp_steps4)
    with True push_room [OF ri True] show ?thesis by (intro exI [of _ ?s4]) (simp add: idle)
  next
    case False
    with ring_count_less [of "ring s"] have full: "ring_count (ring s) = BUF_SIZE - 1" by simp
    have same: "s\<lparr>prodpc := PIdle\<rparr> = s" using idle by (cases s) simp
    have "push_step ?s1 s"
      using push_step.is_full [of ?s1 v ?h] ring_full_iff [OF ri] full same by simp
    with st1 have "push_step\<^sup>*\<^sup>* s s" by simp
    with push_full [OF ri full] False show ?thesis by (intro exI [of _ s]) (simp add: idle)
  qed
qed

lemma pop_step_run:
  assumes inv: "spsc_inv s" and idle: "conspc s = CIdle"
  shows "\<exists>t r. pop_step\<^sup>*\<^sup>* s t \<and> pop (ring s) = Some (r, ring t) \<and> conspc t = CIdle \<and>
    prodpc t = prodpc s \<and> accepted t = accepted s \<and>
    delivered t = delivered s @ (case r of None \<Rightarrow> [] | Some v \<Rightarrow> [v])"
proof -
  let ?t = "tail (ring s)"
  let ?s1 = "s\<lparr>conspc := CLoaded ?t\<rparr>"
  have ri: "ring_inv (ring s)" using inv by (simp add: spsc_inv_def)
  have st1: "pop_step s ?s1" using idle by (rule pop_step.load_tail)
  show ?thesis
  proof (cases "?t = head (ring s)")
    case True
    then show ?thesis using pop_empty [OF True] by (intro exI [of _ s] exI [of _ None]) (simp add: idle)
  next
    case False
    let ?v = "data (ring s) ! ?t"
    let ?s2 = "s\<lparr>conspc := CRead ?t\<rparr>" and ?s3 = "s\<lparr>conspc := CStore ?v ?t\<rparr>"
    let ?s4 = "s\<lparr>ring := (ring s)\<lparr>tail := Suc ?t mod BUF_SIZE\<rparr>, conspc := CIdle,
      delivered := delivered s @ [?v]\<rparr>"
    have st2: "pop_step ?s1 ?s2" using pop_step.has_data [of ?s1 ?t] False by simp
    have st3: "pop_step ?s2 ?s3" using pop_step.read_slot [of ?s2 ?t] ri by (simp add: ring_inv_def)
    have st4: "pop_step ?s3 ?s4" using pop_step.store_tail [of ?s3 ?v ?t] by simp
    have "pop_step\<^sup>*\<^sup>* s ?s4" using st1 st2 st3 st4 by (rule rtranclp_steps4)
    with pop_nonempty [OF ri False] show ?thesis
      by (intro exI [of _ ?s4] exI [of _ "Some ?v"]) (simp add: idle)
  qed
qed

lemma spsc_reachable_steps: "spsc_step\<^sup>*\<^sup>* s t \<Longrightarrow> spsc_reachable s \<Longrightarrow> spsc_reachable t"
  by (induction rule: rtranclp_induct) (auto intro: spsc_reachable.step)

lemma spsc_reachable_push_steps: "push_step\<^sup>*\<^sup>* s t \<Longrightarrow> spsc_reachable s \<Longrightarrow> spsc_reachable t"
  by (induction rule: rtranclp_induct) (auto intro: spsc_reachable.step spsc_step.produce)

text \<open>A reachable state with one element in flight, for the witnesses below.\<close>

lemma spsc_one_pushed:
  obtains t where "spsc_reachable t" "accepted t = [v]" "delivered t = []" "conspc t = CIdle"
    "prodpc t = PIdle"
proof -
  have fields: "prodpc (spsc_init v) = PIdle" "conspc (spsc_init v) = CIdle"
    "accepted (spsc_init v) = []" "delivered (spsc_init v) = []" "ring_count (ring (spsc_init v)) = 0"
    by (simp_all add: spsc_init_def ring_count_def ring_new_def)
  from push_step_run [OF spsc_inv_init fields(1), of v] obtain t where
    t: "push_step\<^sup>*\<^sup>* (spsc_init v) t" "prodpc t = PIdle" "conspc t = CIdle"
    "delivered t = []" "accepted t = [v]"
    unfolding fields by (auto simp: BUF_SIZE_def)
  have "spsc_reachable t" using t(1) spsc_reachable.start by (rule spsc_reachable_push_steps)
  then show ?thesis using t(5,4,3,2) by (rule that)
qed

section \<open>Properties\<close>

text \<open>C13: whatever the interleaving of the interrupt handler's \<open>push\<close> and the reader's
  \<open>pop\<close>, the elements accepted so far are exactly those delivered so far, in order,
  followed by those still in the ring: nothing is lost, duplicated or reordered, and
  never more than 127 elements wait.\<close>

theorem spsc_fifo:
  assumes "spsc_reachable s"
  shows "accepted s = delivered s @ ring_list (ring s) \<and> length (ring_list (ring s)) \<le> BUF_SIZE - 1"
  using spsc_reachable_inv [OF assms] ring_count_less [of "ring s"] by (simp add: spsc_inv_def)

theorem spsc_fifo_witness:
  "\<exists>s. spsc_reachable s \<and> accepted s = [7 :: u8] \<and> ring_list (ring s) = [7]"
proof -
  obtain t where t: "spsc_reachable t" "accepted t = [7 :: u8]" "delivered t = []"
    by (rule spsc_one_pushed)
  have "ring_list (ring t) = [7]" using spsc_fifo [OF t(1)] t(2,3) by simp
  with t show ?thesis by (intro exI [of _ t]) simp
qed

text \<open>C30: there is no data race on a slot: when the producer is about to write slot \<open>h\<close> and
  the consumer to read slot \<open>t\<close>, the slots differ, and both are inside the array.\<close>

theorem spsc_no_race:
  assumes "spsc_reachable s" and "prodpc s = PWrite v h n" and "conspc s = CRead t"
  shows "h \<noteq> t \<and> h < length (data (ring s)) \<and> t < length (data (ring s))"
  using spsc_reachable_inv [OF assms(1)] assms(2,3) by (auto simp: spsc_inv_defs ring_inv_def)

theorem spsc_no_race_witness:
  "\<exists>s v h n t. spsc_reachable (s :: u8 spsc) \<and> prodpc s = PWrite v h n \<and> conspc s = CRead t \<and> h \<noteq> t"
proof -
  obtain s where s: "spsc_reachable s" "accepted s = [7 :: u8]" "delivered s = []" "conspc s = CIdle"
    "prodpc s = PIdle"
    by (rule spsc_one_pushed)
  then have inv: "spsc_inv s" by (simp add: spsc_reachable_inv)
  then have ri: "ring_inv (ring s)" and count: "ring_list (ring s) = [7]"
    using s by (auto simp: spsc_inv_def)
  from count have c: "ring_count (ring s) = 1" by (metis length_ring_list One_nat_def length_Cons list.size(3))
  let ?t = "tail (ring s)" and ?h = "head (ring s)"
  let ?s1 = "s\<lparr>conspc := CLoaded ?t\<rparr>" and ?s2 = "s\<lparr>conspc := CRead ?t\<rparr>"
  let ?s3 = "?s2\<lparr>prodpc := PLoaded 9 ?h\<rparr>" and ?s4 = "?s2\<lparr>prodpc := PWrite 9 ?h (Suc ?h mod BUF_SIZE)\<rparr>"
  have ne: "?t \<noteq> ?h" using ring_empty_iff [OF ri] count by auto
  have nf: "Suc ?h mod BUF_SIZE \<noteq> ?t" using ring_full_iff [OF ri] c by (simp add: BUF_SIZE_def)
  have "spsc_step s ?s1" using pop_step.load_tail [OF s(4)] by (rule spsc_step.consume)
  moreover have "spsc_step ?s1 ?s2"
    using pop_step.has_data [of ?s1 ?t] ne by (intro spsc_step.consume) simp
  moreover have "spsc_step ?s2 ?s3"
    using push_step.load_head [of ?s2 9] s(5) by (intro spsc_step.produce) simp
  moreover have "spsc_step ?s3 ?s4"
    using push_step.has_room [of ?s3 9 ?h] nf by (intro spsc_step.produce) simp
  ultimately have "spsc_step\<^sup>*\<^sup>* s ?s4" by (rule rtranclp_steps4)
  then have r: "spsc_reachable ?s4" using s(1) by (rule spsc_reachable_steps)
  show ?thesis
    using spsc_no_race [OF r, of 9 ?h "Suc ?h mod BUF_SIZE" ?t] r by (intro exI [of _ ?s4]) auto
qed

text \<open>The steps a side can take, from its program counter.\<close>

lemma push_step_enabled:
  assumes "spsc_inv s"
  shows "\<exists>t. push_step s t"
proof (cases "prodpc s")
  case PIdle
  then show ?thesis by (blast intro: push_step.load_head)
next
  case (PLoaded v h)
  then show ?thesis by (blast intro: push_step.is_full push_step.has_room)
next
  case (PWrite v h n)
  with assms have "h < length (data (ring s))" by (simp add: spsc_inv_defs ring_inv_def)
  with PWrite show ?thesis by (blast intro: push_step.write_slot)
next
  case (PStore v n)
  then show ?thesis by (blast intro: push_step.store_head)
qed

lemma pop_step_enabled:
  assumes "spsc_inv s"
  shows "\<exists>t. pop_step s t"
proof (cases "conspc s")
  case CIdle
  then show ?thesis by (blast intro: pop_step.load_tail)
next
  case (CLoaded t)
  then show ?thesis by (blast intro: pop_step.is_empty pop_step.has_data)
next
  case (CRead t)
  with assms have "t < length (data (ring s))" by (simp add: spsc_inv_defs ring_inv_def)
  with CRead show ?thesis by (blast intro: pop_step.read_slot)
next
  case (CStore v t)
  then show ?thesis by (blast intro: pop_step.store_tail)
qed

text \<open>Neither side ever blocks the other: in every reachable state the producer has a
  step and the consumer has a step, so no index is out of bounds and the interrupt handler
  never waits for a task.\<close>

lemma spsc_progress:
  assumes "spsc_reachable s"
  shows "(\<exists>t. push_step s t) \<and> (\<exists>t. pop_step s t)"
  using spsc_reachable_inv [OF assms] push_step_enabled pop_step_enabled by blast

end
