(* ===== verification/Spec2Isabelle.thy ===== *)
theory Spec2Isabelle
  imports Host WmHeap HeapLimit Pointing Progress Typing Isolation Running Tasks Kernel BootHeap Heap Diagnostics Segments Interrupts Idle Counter Shell WmFocus Device Memmap Spsc Keyboard Mouse MouseInit Allocator Format Console Scheduler
begin

text \<open>
  Verification of r-os, a small x86-64 kernel in Rust: a window manager on the boot loader's frame buffer, a
  cooperative scheduler with four tasks (idle, shell, memory map panel, tick counter), interrupt handlers for the
  timer, the keyboard and the mouse, a boot-time frame allocator and a heap. This development is a shallow
  embedding of the crate \<^verbatim>\<open>kernel/\<close>, its build script and its runner: each function of the source is a HOL function of the same name on explicit
  state, each struct a record and each enum a datatype.

  \<^bold>\<open>How the parts work together.\<close> \<^verbatim>\<open>kernel_main\<close> paints the screen, programs the mouse, turns interrupts on, maps
  the heap from the usable frames of the boot loader's memory map, creates the window manager with three windows,
  stores the list of memory regions and starts a task for each window. From then on the current task runs to its
  \<^verbatim>\<open>yield_now\<close>. The handlers fill two ring buffers: the shell reads the scancodes, the idle task the mouse events.
  Every task draws into the buffer of its own window through the window manager; the idle task alone puts the
  windows on the screen, and it alone runs with interrupts on. What goes wrong ends in the panic handler, which
  prints to the serial port and ends the emulator.

  \<^bold>\<open>Conventions\<close> (\<open>Prelude\<close>). \<open>u8\<close> to \<open>u64\<close> are words, on which \<open>+\<close> wraps as \<^verbatim>\<open>wrapping_add\<close> does. \<open>usize\<close> is a natural
  number; its arithmetic goes through \<open>uadd\<close>, \<open>usub\<close> and \<open>umul\<close>, which are \<^term>\<open>None\<close> where the checked build
  panics. \<open>i16\<close> and \<open>i32\<close> are integers with checked operations. \<^term>\<open>None\<close> as a result is a panic: arithmetic
  overflow, an index or a slice out of range, \<^verbatim>\<open>unwrap\<close> and \<^verbatim>\<open>expect\<close>. So \<open>\<exists>y. f x = Some y\<close> says that \<open>f\<close> returns. A
  loop over a range is \<open>foldM\<close> over the list of its indices. A Rust \<^verbatim>\<open>Option\<close> is an \<open>option\<close> inside that result. A
  \<^verbatim>\<open>char\<close> is its code point, a \<^verbatim>\<open>str\<close> the list of its characters.

  \<^bold>\<open>The theories and the code they model\<close> (files of \<^verbatim>\<open>kernel/src/\<close>; each theory names its functions).
  \<^item> Interrupt side. \<open>Ring\<close> is \<^verbatim>\<open>RingBuffer\<close> of \<^verbatim>\<open>keyboard.rs\<close> and \<^verbatim>\<open>mouse.rs\<close> with the locale \<open>bounded_fifo\<close>, its
    interface; \<open>Spsc\<close> splits \<open>push\<close> and \<open>pop\<close> into their atomic loads and stores and interleaves them. \<open>Keyboard\<close> and
    \<open>Mouse\<close> are the two drivers, \<open>MouseInit\<close> the programming of the controller in \<^verbatim>\<open>mouse.rs\<close>, and \<open>Interrupts\<close> the
    vectors, the table and the interrupt handlers of \<^verbatim>\<open>interrupts.rs\<close>.
  \<^item> Faults and reports. \<open>Segments\<close> is \<^verbatim>\<open>gdt.rs\<close>. \<open>Diagnostics\<close> has the serial port of \<^verbatim>\<open>serial.rs\<close>, the exception
    handlers of \<^verbatim>\<open>interrupts.rs\<close>, the panic handler, the exit and the test runner of \<^verbatim>\<open>main.rs\<close>, and the exit status of the
    runner. \<open>Host\<close> is the host's side: the build script \<^verbatim>\<open>build.rs\<close> and the runner \<^verbatim>\<open>src/main.rs\<close>.
  \<^item> Memory. \<open>Memory\<close> is \<^verbatim>\<open>memory.rs\<close>: the frame allocator with its interface \<open>frame_source\<close>, and the page table's address; \<open>Allocator\<close> the heap
    set-up of \<^verbatim>\<open>allocator.rs\<close>. \<open>Heap\<close> is the use of the allocator, a zeroed buffer and the growth of a list, with the contract
    \<open>heap_contract\<close> and the invariant \<open>heap_inv\<close> (the blocks handed out lie in the heap and do not overlap); \<open>BootHeap\<close> has the
    allocations of each function of \<^verbatim>\<open>wm.rs\<close> and \<^verbatim>\<open>task.rs\<close>.
  \<^item> Drawing. \<open>Surface\<close> is the interface between the drawing routines and a store of pixels; \<open>Framebuffer\<close> implements
    it for each pixel format, and \<open>Shapes\<close>, \<open>Glyphs\<close> and \<open>Console\<close> are the rectangles, the text and the text console, all of
    \<^verbatim>\<open>framebuffer.rs\<close>. \<open>Format\<close> has the number formatting of \<^verbatim>\<open>framebuffer.rs\<close>, \<^verbatim>\<open>shell.rs\<close> and \<^verbatim>\<open>counter.rs\<close>, \<open>Utf8\<close> the
    string functions of the core library.
  \<^item> Window manager, \<^verbatim>\<open>wm.rs\<close>. \<open>Cursor\<close>, \<open>Window\<close> and \<open>Wm\<close> have its data and operations. \<open>WmInv\<close> and \<open>WmOps\<close> have the
    invariant \<open>wm_inv\<close> and its preservation by every operation, \<open>WmDesk\<close> the sequences of requests, \<open>WmHeap\<close> these with the heap that may
    refuse the buffers, \<open>WmScene\<close> what the screen
    shows, \<open>WmFocus\<close> clicks and the task bar, \<open>WinText\<close> and \<open>Device\<close> the windows as terminals, with the interface
    \<open>text_device\<close> of the tasks.
  \<^item> Tasks. \<open>Switch\<close> has \<^verbatim>\<open>switch_context\<close> of \<^verbatim>\<open>task.rs\<close> instruction by instruction on registers and memory,
    \<open>Scheduler\<close> the scheduler on top of it, \<open>Idle\<close> the loop of the idle task. \<open>Shell\<close>, \<open>Counter\<close> and \<open>Memmap\<close> are
    \<^verbatim>\<open>shell.rs\<close>, \<^verbatim>\<open>counter.rs\<close> and \<^verbatim>\<open>memmap.rs\<close>: for each, what it does before its loop and one turn of the loop.
  \<^item> The whole. \<open>Kernel\<close> is \<^verbatim>\<open>kernel_main\<close> of \<^verbatim>\<open>main.rs\<close>; \<open>HeapLimit\<close> has the \<^verbatim>\<open>CONFIG\<close> it gives the boot loader and what the
    boot takes from the heap. \<open>Tasks\<close> has the step relation \<open>kernel_step\<close> of the running
    kernel: interrupts, turns of the tasks, the \<^verbatim>\<open>hlt\<close> of the idle task, and computations of the processor in between; \<open>kernel_run\<close> is a run, with
    the interrupts taken in it. \<open>Running\<close> has its invariant, \<open>Isolation\<close> what keeps the tasks apart, \<open>Typing\<close> the way from
    the keyboard to the screen, \<open>Pointing\<close> that from the mouse to the pointer, \<open>Progress\<close> the turns coming round to the shell.

  \<^bold>\<open>What is shown.\<close> From the bottom up:
  \<^item> the ring buffer is a bounded queue under every interleaving of the handler with the reader, and the drivers on it
    refine decoders on lists, with the round trip of mouse packets;
  \<^item> the allocated frames are distinct, usable, in order and all there are, and the heap's pages are mapped to them, present and writable;
  \<^item> each drawing routine draws exactly its picture, at every pixel, with clipping and in every pixel format; from this the
    console refines a character terminal (\<open>terminal\<close>, with \<open>term_write_str\<close>), a window of the window manager is
    such a terminal, and the shell on it is a line editor (\<open>edit\<close>) on lists of characters;
  \<^item> under \<open>wm_inv\<close> no operation of the window manager panics but for want of heap, a composition puts the painter's picture \<open>scene\<close> with
    the pointer on the screen, and every other operation but the initialising of a console leaves the screen current or asks for a composition;
  \<^item> a context switch restores what the last one saved, the tasks run in round-robin order and interrupts are on exactly
    in the idle task;
  \<^item> \<open>kernel_main\<close> succeeds on a bootable machine, and in every state reached afterwards each interrupt is served and the
    next turn succeeds: the kernel never panics. A turn of a task changes no window but its own, and the window of the
    shell shows what the line editor makes of the keys typed; the idle task sleeps after its \<^verbatim>\<open>hlt\<close> until an interrupt, and with one
    interrupt at most and three turns the shell is on, and takes a waiting scancode off the queue if it has the focus. The pointer stands where the events of the mouse have moved it;
  \<^item> the heap of the booted kernel is mapped, the boot takes a fixed amount from it for each frame buffer, the stacks of the tasks are blocks of it that do not
    overlap, and on a frame buffer for which the 8 MiB are too little the boot panics;
  \<^item> a double fault has a stack of its own, and the verdict of a test run reaches the user of the runner.

  \<^bold>\<open>Loops, bounds and fuel.\<close> Loops over ranges and structural recursions end by definition. \<open>digit_loop\<close>,
  \<open>advance_to_usable\<close> and \<open>next_frame\<close> are general recursions with a measure. \<open>try_read_key\<close> and \<open>drain_mouse\<close> loop until a
  queue is empty: they are partial functions, shown to return on every well-formed queue. The polling of \<open>MouseInit\<close> has the
  fuel the source gives it, \<^verbatim>\<open>TIMEOUT\<close>; running out of it is the source's silent return. The endless loops of the tasks are runs of \<open>kernel_step\<close>, of any length.

  \<^bold>\<open>What is assumed.\<close> Code that is not in the repository is a parameter, with what the code relies on as a hypothesis: the
  font (\<open>font_ok\<close>: a question mark, glyphs of eight lines), the key decoder (none), the PS/2 controller (none), the
  frame constructor (\<open>frame_ctor\<close>), the page mapper (\<open>mapper_contract\<close>: an unmapped page can be mapped, with the flags
  asked for and at most three new frames) and page ranges (\<open>page_range_contract\<close>). The theorems on the screen ask for a frame buffer with
  packed lines, at most 32768 pixels in each direction and at least the height of the task bar (\<open>screen_ok\<close>; on
  padded lines every composition panics, which is a property of \<open>WmFocus\<close>); those on colours of the whole screen for a format in
  which a colour survives (\<open>keeps_colour\<close>). The descriptor table keeps \<open>gdt_contract\<close>: it has room for the two segments, and a
  selector finds its descriptor. The serial port is given by its operations (\<open>uart\<close>). The allocator keeps \<open>heap_contract\<close>: what it hands out
  lies in its range and apart from what is in use, and it does not fail while its largest hole has room. The sizes the compiler
  gives \<^verbatim>\<open>WmWindow\<close> and \<^verbatim>\<open>Task\<close> are at most 1024 bytes (\<open>element_ok\<close>). The emulator keeps \<open>qemu_contract\<close>: it ends at the write to
  its exit device. \<open>bootable\<close> collects what the boot relies on, with 32 MiB of usable frames (8192, of which the heap's 2048
  pages need at most four each), a frame buffer for which the heap has room (\<open>boot_space\<close>) and a stack of the boot outside the heap. The memory map
  panel needs regions that do not end before they start.

  \<^bold>\<open>Atomicity.\<close> The functions on the global \<^verbatim>\<open>WM\<close>, \<^verbatim>\<open>FB_STATE\<close> and the scheduler run with interrupts off and the lock
  held on a single processor, so each is one step. A turn of tasks 1 to 3 is one step, because they run with
  interrupts off. The idle task runs with interrupts on: each iteration of its loop over the mouse events is a step, and
  what it shares with the handlers is the mouse queue, whose interleavings are those of \<open>Spsc\<close>.
  The instruction \<^verbatim>\<open>hlt\<close>, which the idle task executes whenever its yield has returned, is a step after which only an interrupt goes on; an
  interrupt between the yield and the \<^verbatim>\<open>hlt\<close> does not prevent the sleep. An interrupt between the last look of the idle task at the mouse queue and its
  yield is not a step of its own: that of the timer or the keyboard has the same effect before the turn, that of the mouse after the yield,
  since no other task looks at the mouse queue.

  \<^bold>\<open>Not modelled.\<close> Within the turns of the tasks a panic is \<^term>\<open>None\<close>, and what the panic handler then does is \<open>panic\<close> of
  \<open>Diagnostics\<close>. The addresses of the buffers in the heap, other than the stacks: \<^verbatim>\<open>Vec\<close> and \<^verbatim>\<open>Box\<close> are lists and values. The
  definitions \<open>wm_new\<close> and \<open>create_window\<close> have no heap; their allocations, which may fail, are \<open>wm_new_heap\<close> and \<open>create_window_heap\<close>, made
  before them in \<open>kernel_main\<close> and in the runs of \<open>WmHeap\<close>. After the boot nothing is allocated. The call of \<^verbatim>\<open>test_main\<close> that a test build makes in
  \<^verbatim>\<open>kernel_main\<close>: the tests are \<open>test_runner\<close>, which does not return. The spin locks, taken with interrupts off or before the
  scheduler starts. The walk of the page tables, which is the crate's mapper, and the other crates: the font, the key decoder, the serial port, the descriptor
  table and the interrupt controller. Weak memory: the ring buffer's accesses are sequentially consistent here, which on a single processor they are.
\<close>

end
